(* ===== verification/Prelude.thy ===== *)
theory Prelude
  imports Main "HOL-Library.Word"
begin

unbundle bit_operations_syntax

section \<open>Types, automation and generic lemmas shared by the components\<close>

text \<open>
  The kernel runs on a 32-bit ARM (\<open>include/arch/arm/types.h\<close>): \<open>int\<close>, \<open>long\<close> and
  pointers are 32 bits wide, \<open>long long\<close> is 64. Unsigned machine integers are words of
  that width, so that \<open>+\<close> and \<open>-\<close> wrap as the C operators do; a pointer is the 32-bit
  word the code casts it to, and \<open>NULL\<close> is \<open>0\<close>. C's \<open>int\<close>, where the code's value
  stays far from the limits, is \<^typ>\<open>int\<close>; where the limits matter it is a word read by
  \<^const>\<open>sint\<close>. This theory holds the names of these types, the collections of rewrite
  rules the component theories extend, and lemmas on lists, words and options that are
  about no particular component.
\<close>

type_synonym u8 = "8 word"
type_synonym u16 = "16 word"
type_synonym u32 = "32 word"
type_synonym u64 = "64 word"
type_synonym ptr = "32 word"

abbreviation NULL :: ptr where "NULL \<equiv> 0"

named_theorems heap_simps \<open>what one store to a list node changes and what it keeps\<close>
named_theorems frame_intros \<open>a store outside a structure keeps the structure\<close>

subsection \<open>Results\<close>

text \<open>
  Where the C code reads through a pointer it never checked, or leaves an array, the model
  returns an error value instead of a made-up result.
\<close>

datatype fault = Null_Deref | Out_Of_Bounds | Div_By_Zero | Bad_Vararg

type_synonym 'a res = "fault + 'a"

definition bind_res :: "'a res \<Rightarrow> ('a \<Rightarrow> 'b res) \<Rightarrow> 'b res" where
  "bind_res m f = (case m of Inl e \<Rightarrow> Inl e | Inr x \<Rightarrow> f x)"

lemma bind_res_simps [simp]:
  "bind_res (Inl e) f = Inl e"
  "bind_res (Inr x) f = f x"
  by (simp_all add: bind_res_def)

lemma bind_res_Inr_iff:
  "bind_res m f = Inr y \<longleftrightarrow> (\<exists>x. m = Inr x \<and> f x = Inr y)"
  by (cases m) auto

text \<open>Outcomes of operations that may fail and may not return.\<close>

definition and_then :: "'x res option \<Rightarrow> ('x \<Rightarrow> 'y res option) \<Rightarrow> 'y res option" where
  "and_then m f = (case m of None \<Rightarrow> None | Some (Inl e) \<Rightarrow> Some (Inl e) | Some (Inr x) \<Rightarrow> f x)"

lemma and_then_simps [simp]:
  "and_then None f = None"
  "and_then (Some (Inl e)) f = Some (Inl e)"
  "and_then (Some (Inr x)) f = f x"
  by (simp_all add: and_then_def)

lemma and_then_Inr_iff:
  "and_then m f = Some (Inr y) \<longleftrightarrow> (\<exists>x. m = Some (Inr x) \<and> f x = Some (Inr y))"
  by (auto simp: and_then_def split: option.splits sum.splits)

subsection \<open>Lists\<close>

lemma last_Cons_append_eq: "last (x # xs @ [y]) = y"
  by simp

lemma butlast_Cons_append: "butlast (x # xs @ [y]) = x # xs"
  by (simp add: butlast_append)

lemma split_list_unique:
  assumes "distinct (xs @ e # ys)" and "xs @ e # ys = us @ e # vs"
  shows "xs = us \<and> ys = vs"
  using assms by (auto simp: append_eq_append_conv2 append_eq_Cons_conv Cons_eq_append_conv)

lemma in_set_tlD: "x \<in> set (tl xs) \<Longrightarrow> x \<in> set xs"
  by (cases xs) auto

lemma map_nth_upt: "map (\<lambda>i. xs ! i) [0..<length xs] = xs"
  by (rule map_nth)

lemma takeWhile_dropWhile_split:
  "dropWhile P xs = y # ys \<Longrightarrow> xs = takeWhile P xs @ y # ys"
  by (metis takeWhile_dropWhile_id)

lemma map_remove1_inj:
  "inj_on f (insert x (set xs)) \<Longrightarrow> map f (remove1 x xs) = remove1 (f x) (map f xs)"
  by (induction xs) (auto simp: inj_on_def)

subsection \<open>Words\<close>

lemma unat_add_no_wrap:
  fixes a b :: "'a::len word"
  assumes "unat a + unat b < 2 ^ LENGTH('a)"
  shows "unat (a + b) = unat a + unat b"
  using assms by (rule unat_add_lem [THEN iffD1])

lemma unat_Suc_no_wrap:
  fixes a :: "'a::len word"
  assumes "Suc (unat a) < 2 ^ LENGTH('a)"
  shows "unat (a + 1) = Suc (unat a)"
  using assms by (simp add: unat_word_ariths unsigned_of_nat)

lemma unat_of_nat_below:
  "n < 2 ^ LENGTH('a) \<Longrightarrow> unat (of_nat n :: 'a::len word) = n"
  by (simp add: unsigned_of_nat take_bit_nat_eq_self)

lemma of_nat_inj_below:
  assumes "m < 2 ^ LENGTH('a)" "n < 2 ^ LENGTH('a)"
  shows "(of_nat m :: 'a::len word) = of_nat n \<longleftrightarrow> m = n"
  using assms by (metis unat_of_nat_below)

lemma unat_sub_no_wrap:
  fixes a b :: "'a::len word"
  assumes "unat b \<le> unat a"
  shows "unat (a - b) = unat a - unat b"
  using assms by (simp add: unat_sub word_le_nat_alt)

lemma unat_u32_less: "unat (w :: u32) < 4294967296"
  by (rule order.strict_trans2 [OF unsigned_less]) simp

lemma unat_pos: "x \<noteq> 0 \<Longrightarrow> 0 < unat (x :: 'a::len word)"
  using unsigned_eq_0_iff by blast

lemma unat_2_power: "k < LENGTH('a) \<Longrightarrow> unat (2 ^ k :: 'a::len word) = 2 ^ k"
  using unat_of_nat_below [of "2 ^ k", where 'a = 'a] by simp

lemma unat_ucast_mod: "unat (ucast (w :: 'a::len word) :: 'b::len word) = unat w mod 2 ^ LENGTH('b)"
  by (simp only: unsigned_ucast_eq take_bit_eq_mod [where 'a = nat])

lemma unat_ucast_up:
  assumes "LENGTH('a) \<le> LENGTH('b)"
  shows "unat (ucast (w :: 'a::len word) :: 'b::len word) = unat w"
proof -
  have "unat w < 2 ^ LENGTH('a)" by (rule unsigned_less)
  also have "\<dots> \<le> (2 :: nat) ^ LENGTH('b)" using assms by (intro power_increasing) simp_all
  finally show ?thesis by (simp add: unat_ucast_mod)
qed

lemma sint_of_int_below:
  assumes "- (2 ^ (LENGTH('a) - Suc 0)) \<le> k" and "k < 2 ^ (LENGTH('a) - Suc 0)"
  shows "sint (of_int k :: 'a::len word) = k"
  using signed_take_bit_int_eq_self [OF assms] by (simp add: signed_of_int)

lemma sint_of_nat_below:
  assumes "n < 2 ^ (LENGTH('a) - Suc 0)"
  shows "sint (of_nat n :: 'a::len word) = int n"
proof -
  have "int n < 2 ^ (LENGTH('a) - Suc 0)" using assms by (metis of_nat_less_iff of_nat_numeral of_nat_power)
  then have "sint (of_int (int n) :: 'a word) = int n"
    by (rule sint_of_int_below [rotated]) (rule order_trans [of _ 0], simp_all)
  then show ?thesis by simp
qed

lemma sint_neg_of_nat_below:
  assumes "n \<le> 2 ^ (LENGTH('a) - Suc 0)"
  shows "sint (- of_nat n :: 'a::len word) = - int n"
proof -
  have "int n \<le> 2 ^ (LENGTH('a) - Suc 0)" using assms by (metis of_nat_le_iff of_nat_numeral of_nat_power)
  moreover have "- int n < 2 ^ (LENGTH('a) - Suc 0)" by (rule le_less_trans [of _ 0]) simp_all
  ultimately have "sint (of_int (- int n) :: 'a word) = - int n" by (intro sint_of_int_below) simp_all
  then show ?thesis by simp
qed

subsection \<open>Alignment\<close>

lemma word_and_add_and_not: "(x AND m) + (x AND NOT m) = (x :: 'a::len word)"
proof -
  have "(x AND m) + (x AND NOT m) = (x AND m) OR (x AND NOT m)"
    by (rule disjunctive_add) (simp add: bit_simps)
  also have "\<dots> = x" by (rule bit_word_eqI) (auto simp: bit_simps)
  finally show ?thesis .
qed

lemma unat_drop_bit: "unat (drop_bit n (a :: 'a::len word)) = unat a div 2 ^ n"
  by (simp only: unat_drop_bit_eq drop_bit_eq_div [where 'a = nat])

lemma unat_halve: "(a :: 'a::len word) \<noteq> 0 \<Longrightarrow> unat (drop_bit (Suc 0) a) < unat a"
  unfolding unat_drop_bit by (simp add: unat_pos)

lemma unat_align_down:
  fixes x :: "'a::len word"
  shows "unat (x AND NOT (mask n)) = unat x - unat x mod 2 ^ n"
proof -
  have "x AND NOT (mask n) = x - take_bit n x"
    using word_and_add_and_not [of x "mask n"] by (simp add: take_bit_eq_mask algebra_simps)
  moreover have "unat (take_bit n x) = unat x mod 2 ^ n"
    by (simp only: unsigned_take_bit_eq take_bit_eq_mod [where 'a = nat])
  ultimately show ?thesis by (simp add: unat_sub_no_wrap)
qed

lemma align_down_bounds:
  fixes x :: "'a::len word"
  shows "unat (x AND NOT (mask n)) \<le> unat x" and "unat x < unat (x AND NOT (mask n)) + 2 ^ n"
    and "2 ^ n dvd unat (x AND NOT (mask n))"
proof -
  have "unat x mod 2 ^ n < 2 ^ n" by simp
  then show "unat x < unat (x AND NOT (mask n)) + 2 ^ n" unfolding unat_align_down by linarith
qed (simp_all add: unat_align_down dvd_minus_mod)

end
