(* ===== verification/Bitops.thy ===== *)
theory Bitops
  imports Prelude
begin

unbundle bit_operations_syntax

section \<open>Bit operations on arrays of words: \<open>include/kernel/bitops.h\<close>\<close>

text \<open>
  The operations take a bit number and the address of an array of \<open>unsigned long\<close>; here the
  array is the function from word index to word that starts at that address. The lemmas read
  the array bit by bit: each operation changes the addressed bit only, and the
  \<open>test_and\<close> variants return the old bit.
\<close>

abbreviation BITS_PER_LONG :: nat where "BITS_PER_LONG \<equiv> 32"

definition BIT_MASK :: "nat \<Rightarrow> u32" where
  "BIT_MASK nr = push_bit (nr mod BITS_PER_LONG) 1"

definition BIT_WORD :: "nat \<Rightarrow> nat" where
  "BIT_WORD nr = nr div BITS_PER_LONG"

definition set_bit_ul :: "nat \<Rightarrow> (nat \<Rightarrow> u32) \<Rightarrow> (nat \<Rightarrow> u32)" where
  "set_bit_ul nr p = p(BIT_WORD nr := p (BIT_WORD nr) OR BIT_MASK nr)"

definition clear_bit_ul :: "nat \<Rightarrow> (nat \<Rightarrow> u32) \<Rightarrow> (nat \<Rightarrow> u32)" where
  "clear_bit_ul nr p = p(BIT_WORD nr := p (BIT_WORD nr) AND NOT (BIT_MASK nr))"

definition change_bit_ul :: "nat \<Rightarrow> (nat \<Rightarrow> u32) \<Rightarrow> (nat \<Rightarrow> u32)" where
  "change_bit_ul nr p = p(BIT_WORD nr := p (BIT_WORD nr) XOR BIT_MASK nr)"

definition test_and_set_bit :: "nat \<Rightarrow> (nat \<Rightarrow> u32) \<Rightarrow> bool \<times> (nat \<Rightarrow> u32)" where
  "test_and_set_bit nr p =
     (let old = p (BIT_WORD nr)
      in (old AND BIT_MASK nr \<noteq> 0, p(BIT_WORD nr := old OR BIT_MASK nr)))"

definition test_and_clear_bit :: "nat \<Rightarrow> (nat \<Rightarrow> u32) \<Rightarrow> bool \<times> (nat \<Rightarrow> u32)" where
  "test_and_clear_bit nr p =
     (let old = p (BIT_WORD nr)
      in (old AND BIT_MASK nr \<noteq> 0, p(BIT_WORD nr := old AND NOT (BIT_MASK nr))))"

definition test_and_change_bit :: "nat \<Rightarrow> (nat \<Rightarrow> u32) \<Rightarrow> bool \<times> (nat \<Rightarrow> u32)" where
  "test_and_change_bit nr p =
     (let old = p (BIT_WORD nr)
      in (old AND BIT_MASK nr \<noteq> 0, p(BIT_WORD nr := old XOR BIT_MASK nr)))"

definition test_bit_ul :: "nat \<Rightarrow> (nat \<Rightarrow> u32) \<Rightarrow> u32" where
  "test_bit_ul nr p = 1 AND drop_bit (nr mod BITS_PER_LONG) (p (BIT_WORD nr))"

subsection \<open>The array as a sequence of bits\<close>

definition bit_at :: "(nat \<Rightarrow> u32) \<Rightarrow> nat \<Rightarrow> bool" where
  "bit_at p nr \<longleftrightarrow> bit (p (nr div 32)) (nr mod 32)"

lemma bit_BIT_MASK: "bit (BIT_MASK nr) k \<longleftrightarrow> k = nr mod 32"
  by (auto simp: BIT_MASK_def bit_simps)

lemma word_index_eq: "nr div 32 = m div 32 \<Longrightarrow> nr mod 32 = m mod 32 \<Longrightarrow> nr = (m::nat)"
  by (metis div_mod_decomp)

lemma and_BIT_MASK_iff: "w AND BIT_MASK nr \<noteq> 0 \<longleftrightarrow> bit w (nr mod 32)"
proof -
  have "w AND BIT_MASK nr \<noteq> 0 \<longleftrightarrow> (\<exists>k. bit (w AND BIT_MASK nr) k)"
    by (metis bit_0_eq bit_eqI bot_apply bot_bool_def)
  then show ?thesis by (simp add: bit_simps bit_BIT_MASK)
qed

lemma bit_at_set_bit: "bit_at (set_bit_ul nr p) m \<longleftrightarrow> m = nr \<or> bit_at p m"
  by (auto simp: bit_at_def set_bit_ul_def BIT_WORD_def bit_simps bit_BIT_MASK dest: word_index_eq)

lemma bit_at_clear_bit: "bit_at (clear_bit_ul nr p) m \<longleftrightarrow> m \<noteq> nr \<and> bit_at p m"
  by (auto simp: bit_at_def clear_bit_ul_def BIT_WORD_def bit_simps bit_BIT_MASK dest: word_index_eq)

lemma bit_at_change_bit: "bit_at (change_bit_ul nr p) m \<longleftrightarrow> bit_at p m \<noteq> (m = nr)"
  by (auto simp: bit_at_def change_bit_ul_def BIT_WORD_def bit_simps bit_BIT_MASK dest: word_index_eq)

lemma test_bit_bit_at: "test_bit_ul nr p = of_bool (bit_at p nr)"
  by (rule bit_word_eqI) (auto simp: test_bit_ul_def bit_at_def BIT_WORD_def bit_simps)

lemmas bit_at_simps [simp] = bit_at_set_bit bit_at_clear_bit bit_at_change_bit

text \<open>
  Bit operations: setting, clearing and flipping bit \<open>nr\<close> of a word array change that bit
  and no other, whatever word it falls in; \<open>test_bit\<close> reads it, and each \<open>test_and\<close> operation
  returns the bit as it was before.
\<close>

theorem bitops_touch_one_bit:
  "bit_at (set_bit_ul nr p) = (bit_at p)(nr := True) \<and>
   bit_at (clear_bit_ul nr p) = (bit_at p)(nr := False) \<and>
   bit_at (change_bit_ul nr p) = (bit_at p)(nr := \<not> bit_at p nr) \<and>
   test_bit_ul nr p = of_bool (bit_at p nr) \<and>
   test_and_set_bit nr p = (bit_at p nr, set_bit_ul nr p) \<and>
   test_and_clear_bit nr p = (bit_at p nr, clear_bit_ul nr p) \<and>
   test_and_change_bit nr p = (bit_at p nr, change_bit_ul nr p)"
  by (auto simp: fun_eq_iff test_bit_bit_at test_and_set_bit_def test_and_clear_bit_def
      test_and_change_bit_def set_bit_ul_def [of nr p] clear_bit_ul_def [of nr p]
      change_bit_ul_def [of nr p] and_BIT_MASK_iff bit_at_def BIT_WORD_def [of nr] bit_simps
      bit_BIT_MASK Let_def dest: word_index_eq)

end
