(* ===== verification/Linked_List.thy ===== *)
theory Linked_List
  imports Prelude
begin

section \<open>Intrusive circular lists: \<open>include/kernel/list.h\<close>\<close>

text \<open>
  A node is the address of a \<open>struct list_head\<close>; the heap holds its two fields. Every
  operation of \<open>list.h\<close> is the same sequence of stores. The abstraction \<open>dlist h q xs\<close>
  says that the nodes \<open>xs\<close>, in this order, hang on the head \<open>q\<close>: following \<open>next\<close> from
  \<open>q\<close> visits \<open>xs\<close> and comes back to \<open>q\<close>, following \<open>prev\<close> does the reverse, and no node
  occurs twice. Each operation is shown to do on \<open>xs\<close> what its name says, and to leave
  every list alone that shares no node with the ones it touches.
\<close>

record list_heap =
  nxt :: "ptr \<Rightarrow> ptr"
  prv :: "ptr \<Rightarrow> ptr"

definition set_next :: "ptr \<Rightarrow> ptr \<Rightarrow> list_heap \<Rightarrow> list_heap" where
  "set_next p v h = h\<lparr>nxt := (nxt h)(p := v)\<rparr>"

definition set_prev :: "ptr \<Rightarrow> ptr \<Rightarrow> list_heap \<Rightarrow> list_heap" where
  "set_prev p v h = h\<lparr>prv := (prv h)(p := v)\<rparr>"

lemma set_next_prev_sel [simp, heap_simps]:
  "nxt (set_next p v h) = (nxt h)(p := v)"
  "prv (set_next p v h) = prv h"
  "nxt (set_prev p v h) = nxt h"
  "prv (set_prev p v h) = (prv h)(p := v)"
  by (simp_all add: set_next_def set_prev_def)

subsection \<open>The operations\<close>

definition INIT_LIST_HEAD :: "ptr \<Rightarrow> list_heap \<Rightarrow> list_heap" where
  "INIT_LIST_HEAD l h = set_prev l l (set_next l l h)"

definition list_add_between :: "ptr \<Rightarrow> ptr \<Rightarrow> ptr \<Rightarrow> list_heap \<Rightarrow> list_heap" where
  "list_add_between new prev next h =
     set_next prev new (set_prev new prev (set_next new next (set_prev next new h)))"

definition list_add :: "ptr \<Rightarrow> ptr \<Rightarrow> list_heap \<Rightarrow> list_heap" where
  "list_add new head h = list_add_between new head (nxt h head) h"

definition list_add_tail :: "ptr \<Rightarrow> ptr \<Rightarrow> list_heap \<Rightarrow> list_heap" where
  "list_add_tail new head h = list_add_between new (prv h head) head h"

definition list_del_between :: "ptr \<Rightarrow> ptr \<Rightarrow> list_heap \<Rightarrow> list_heap" where
  "list_del_between prev next h = set_next prev next (set_prev next prev h)"

definition list_del_entry :: "ptr \<Rightarrow> list_heap \<Rightarrow> list_heap" where
  "list_del_entry entry h = list_del_between (prv h entry) (nxt h entry) h"

definition list_del :: "ptr \<Rightarrow> list_heap \<Rightarrow> list_heap" where
  "list_del entry h =
     set_prev entry NULL (set_next entry NULL (list_del_between (prv h entry) (nxt h entry) h))"

definition list_replace :: "ptr \<Rightarrow> ptr \<Rightarrow> list_heap \<Rightarrow> list_heap" where
  "list_replace old new h =
     (let h1 = set_next new (nxt h old) h;
          h2 = set_prev (nxt h1 new) new h1;
          h3 = set_prev new (prv h2 old) h2
      in set_next (prv h3 new) new h3)"

definition list_replace_init :: "ptr \<Rightarrow> ptr \<Rightarrow> list_heap \<Rightarrow> list_heap" where
  "list_replace_init old new h = INIT_LIST_HEAD old (list_replace old new h)"

definition list_del_init :: "ptr \<Rightarrow> list_heap \<Rightarrow> list_heap" where
  "list_del_init entry h = INIT_LIST_HEAD entry (list_del_entry entry h)"

definition list_move :: "ptr \<Rightarrow> ptr \<Rightarrow> list_heap \<Rightarrow> list_heap" where
  "list_move l head h = list_add l head (list_del_entry l h)"

definition list_move_tail :: "ptr \<Rightarrow> ptr \<Rightarrow> list_heap \<Rightarrow> list_heap" where
  "list_move_tail l head h = list_add_tail l head (list_del_entry l h)"

definition list_is_last :: "ptr \<Rightarrow> ptr \<Rightarrow> list_heap \<Rightarrow> bool" where
  "list_is_last l head h \<longleftrightarrow> nxt h l = head"

definition list_empty :: "ptr \<Rightarrow> list_heap \<Rightarrow> bool" where
  "list_empty head h \<longleftrightarrow> nxt h head = head"

definition list_empty_careful :: "ptr \<Rightarrow> list_heap \<Rightarrow> bool" where
  "list_empty_careful head h = (let next = nxt h head in next = head \<and> next = prv h head)"

definition list_rotate_left :: "ptr \<Rightarrow> list_heap \<Rightarrow> list_heap" where
  "list_rotate_left head h =
     (if \<not> list_empty head h then list_move_tail (nxt h head) head h else h)"

definition list_is_singular :: "ptr \<Rightarrow> list_heap \<Rightarrow> bool" where
  "list_is_singular head h \<longleftrightarrow> \<not> list_empty head h \<and> nxt h head = prv h head"

definition list_cut_position_nodes :: "ptr \<Rightarrow> ptr \<Rightarrow> ptr \<Rightarrow> list_heap \<Rightarrow> list_heap" where
  "list_cut_position_nodes l head entry h =
     (let new_first = nxt h entry;
          h1 = set_next l (nxt h head) h;
          h2 = set_prev (nxt h1 l) l h1;
          h3 = set_prev l entry h2;
          h4 = set_next entry l h3;
          h5 = set_next head new_first h4
      in set_prev new_first head h5)"

definition list_cut_position :: "ptr \<Rightarrow> ptr \<Rightarrow> ptr \<Rightarrow> list_heap \<Rightarrow> list_heap" where
  "list_cut_position l head entry h =
     (if list_empty head h then h
      else if list_is_singular head h \<and> nxt h head \<noteq> entry \<and> head \<noteq> entry then h
      else if entry = head then INIT_LIST_HEAD l h
      else list_cut_position_nodes l head entry h)"

definition list_splice_between :: "ptr \<Rightarrow> ptr \<Rightarrow> ptr \<Rightarrow> list_heap \<Rightarrow> list_heap" where
  "list_splice_between l prev next h =
     (let first = nxt h l; last = prv h l
      in set_prev next last (set_next last next (set_next prev first (set_prev first prev h))))"

definition list_splice :: "ptr \<Rightarrow> ptr \<Rightarrow> list_heap \<Rightarrow> list_heap" where
  "list_splice l head h =
     (if \<not> list_empty l h then list_splice_between l head (nxt h head) h else h)"

definition list_splice_tail :: "ptr \<Rightarrow> ptr \<Rightarrow> list_heap \<Rightarrow> list_heap" where
  "list_splice_tail l head h =
     (if \<not> list_empty l h then list_splice_between l (prv h head) head h else h)"

definition list_splice_init :: "ptr \<Rightarrow> ptr \<Rightarrow> list_heap \<Rightarrow> list_heap" where
  "list_splice_init l head h =
     (if \<not> list_empty l h
      then INIT_LIST_HEAD l (list_splice_between l head (nxt h head) h) else h)"

definition list_splice_tail_init :: "ptr \<Rightarrow> ptr \<Rightarrow> list_heap \<Rightarrow> list_heap" where
  "list_splice_tail_init l head h =
     (if \<not> list_empty l h
      then INIT_LIST_HEAD l (list_splice_between l (prv h head) head h) else h)"

text \<open>
  The iteration macros. Each is a loop that runs until the cursor is back at the head; on a
  broken chain it never ends, so the list of nodes it visits is an option.
\<close>

partial_function (option) list_for_each_from :: "list_heap \<Rightarrow> ptr \<Rightarrow> ptr \<Rightarrow> ptr list option" where
  "list_for_each_from h head pos =
     (if pos = head then Some []
      else Option.bind (list_for_each_from h head (nxt h pos)) (\<lambda>r. Some (pos # r)))"

definition list_for_each :: "list_heap \<Rightarrow> ptr \<Rightarrow> ptr list option" where
  "list_for_each h head = list_for_each_from h head (nxt h head)"

partial_function (option) list_for_each_prev_from :: "list_heap \<Rightarrow> ptr \<Rightarrow> ptr \<Rightarrow> ptr list option" where
  "list_for_each_prev_from h head pos =
     (if pos = head then Some []
      else Option.bind (list_for_each_prev_from h head (prv h pos)) (\<lambda>r. Some (pos # r)))"

definition list_for_each_prev :: "list_heap \<Rightarrow> ptr \<Rightarrow> ptr list option" where
  "list_for_each_prev h head = list_for_each_prev_from h head (prv h head)"

subsection \<open>The abstraction\<close>

fun linked :: "list_heap \<Rightarrow> ptr list \<Rightarrow> bool" where
  "linked h (x # y # zs) \<longleftrightarrow> nxt h x = y \<and> prv h y = x \<and> linked h (y # zs)"
| "linked h _ = True"

definition dlist :: "list_heap \<Rightarrow> ptr \<Rightarrow> ptr list \<Rightarrow> bool" where
  "dlist h q xs \<longleftrightarrow> distinct (q # xs) \<and> linked h (q # xs @ [q])"

lemma linked_append:
  "linked h (xs @ y # zs) \<longleftrightarrow> linked h (xs @ [y]) \<and> linked h (y # zs)"
proof (induction xs)
  case Nil
  then show ?case by simp
next
  case (Cons x xs)
  then show ?case by (cases xs) auto
qed

lemma linked_Cons_append:
  "linked h (x # xs @ y # zs) \<longleftrightarrow> linked h (x # xs @ [y]) \<and> linked h (y # zs)"
  using linked_append [of h "x # xs" y zs] by (simp only: append_Cons)

lemma linked_cong:
  assumes "\<forall>p \<in> set (butlast zs). nxt h' p = nxt h p"
    and "\<forall>p \<in> set (tl zs). prv h' p = prv h p"
  shows "linked h' zs \<longleftrightarrow> linked h zs"
  using assms
proof (induction zs)
  case (Cons x zs)
  show ?case
  proof (cases zs)
    case (Cons y ys)
    have "nxt h' x = nxt h x" and "prv h' y = prv h y"
      using Cons.prems Cons by simp_all
    moreover have "linked h' zs \<longleftrightarrow> linked h zs"
      using Cons.prems Cons by (intro Cons.IH) (simp_all split: if_splits)
    ultimately show ?thesis using Cons by simp
  qed simp
qed simp

lemma linked_next_hd: "linked h (x # xs @ [y]) \<Longrightarrow> nxt h x = hd (xs @ [y])"
  by (cases xs) auto

lemma linked_prev_last: "linked h (x # xs @ [y]) \<Longrightarrow> prv h y = last (x # xs)"
proof (induction xs arbitrary: x)
  case Nil
  then show ?case by simp
next
  case (Cons a xs)
  then show ?case by (cases xs) simp_all
qed

lemma dlist_distinct: "dlist h q xs \<Longrightarrow> distinct xs \<and> q \<notin> set xs"
  by (simp add: dlist_def)

lemma dlist_next: "dlist h q xs \<Longrightarrow> nxt h q = hd (xs @ [q])"
  by (auto simp: dlist_def dest: linked_next_hd)

lemma dlist_prev: "dlist h q xs \<Longrightarrow> prv h q = last (q # xs)"
  unfolding dlist_def by (blast dest: linked_prev_last)

lemma dlist_node_links:
  assumes "dlist h q (xs @ e # ys)"
  shows "prv h e = last (q # xs)" and "nxt h e = hd (ys @ [q])"
proof -
  have "linked h (q # xs @ e # ys @ [q])"
    using assms by (simp add: dlist_def)
  then have "linked h (q # xs @ [e])" and "linked h (e # ys @ [q])"
    using linked_Cons_append [of h q xs e "ys @ [q]"] by blast+
  then show "prv h e = last (q # xs)" and "nxt h e = hd (ys @ [q])"
    by (blast dest: linked_prev_last linked_next_hd)+
qed

lemma dlist_cong [frame_intros]:
  assumes "dlist h q xs"
    and "\<And>p. p \<in> set (q # xs) \<Longrightarrow> nxt h' p = nxt h p \<and> prv h' p = prv h p"
  shows "dlist h' q xs"
proof -
  have "linked h' (q # xs @ [q]) \<longleftrightarrow> linked h (q # xs @ [q])"
    using assms(2) by (intro linked_cong) (simp_all add: butlast_append)
  then show ?thesis using assms(1) by (simp add: dlist_def)
qed

lemma list_empty_dlist: "dlist h q xs \<Longrightarrow> list_empty q h \<longleftrightarrow> xs = []"
  by (cases xs) (simp_all add: list_empty_def dlist_next dlist_def, metis)

lemma dlist_Nil_iff: "dlist h q [] \<longleftrightarrow> nxt h q = q \<and> prv h q = q"
  by (auto simp: dlist_def)

subsection \<open>What the stores keep\<close>

lemma linked_set_next [simp]:
  "p \<notin> set (butlast zs) \<Longrightarrow> linked (set_next p v h) zs = linked h zs"
  by (rule linked_cong) auto

lemma linked_set_prev [simp]:
  "p \<notin> set (tl zs) \<Longrightarrow> linked (set_prev p v h) zs = linked h zs"
  by (rule linked_cong) auto

lemma linked_join:
  "linked h (x # us @ p # n # vs) \<longleftrightarrow>
     linked h (x # us @ [p]) \<and> nxt h p = n \<and> prv h n = p \<and> linked h (n # vs)"
  using linked_Cons_append [of h x us p "n # vs"] by auto

lemma list_add_between_dlist:
  assumes "dlist h q (xs @ ys)" and "new \<notin> set (q # xs @ ys)"
    and "p = last (q # xs)" and "n = hd (ys @ [q])"
  shows "dlist (list_add_between new p n h) q (xs @ new # ys)"
proof (cases xs rule: rev_cases)
  case Nil
  then show ?thesis
    using assms by (cases ys) (auto simp: dlist_def list_add_between_def butlast_append)
next
  case (snoc us a)
  then show ?thesis
    using assms by (cases ys) (auto simp: dlist_def list_add_between_def linked_join butlast_append)
qed

lemma list_del_between_dlist:
  assumes "dlist h q (xs @ e # ys)" and "p = last (q # xs)" and "n = hd (ys @ [q])"
  shows "dlist (list_del_between p n h) q (xs @ ys)"
proof (cases xs rule: rev_cases)
  case Nil
  then show ?thesis
    using assms by (cases ys) (auto simp: dlist_def list_del_between_def butlast_append)
next
  case (snoc us a)
  then show ?thesis
    using assms by (cases ys) (auto simp: dlist_def list_del_between_def linked_join butlast_append)
qed

subsection \<open>Each operation on the abstract list\<close>

lemma INIT_LIST_HEAD_dlist: "dlist (INIT_LIST_HEAD q h) q []"
  by (simp add: dlist_Nil_iff INIT_LIST_HEAD_def)

lemma list_add_dlist:
  assumes "dlist h q xs" and "new \<notin> set (q # xs)"
  shows "dlist (list_add new q h) q (new # xs)"
  unfolding list_add_def
  using list_add_between_dlist [of h q "[]" xs new q "nxt h q"] assms
  by (simp add: dlist_next)

lemma list_add_after_dlist:
  assumes "dlist h q (xs @ e # ys)" and "new \<notin> set (q # xs @ e # ys)"
  shows "dlist (list_add new e h) q (xs @ e # new # ys)"
  unfolding list_add_def
  using list_add_between_dlist [of h q "xs @ [e]" ys new e "nxt h e"] assms
  by (simp add: dlist_node_links)

lemma list_add_tail_dlist:
  assumes "dlist h q xs" and "new \<notin> set (q # xs)"
  shows "dlist (list_add_tail new q h) q (xs @ [new])"
  unfolding list_add_tail_def
  using list_add_between_dlist [of h q xs "[]" new "prv h q" q] assms
  by (simp add: dlist_prev)

lemma list_add_tail_before_dlist:
  assumes "dlist h q (xs @ e # ys)" and "new \<notin> set (q # xs @ e # ys)"
  shows "dlist (list_add_tail new e h) q (xs @ new # e # ys)"
  unfolding list_add_tail_def
  using list_add_between_dlist [of h q xs "e # ys" new "prv h e" e] assms
  by (simp add: dlist_node_links)

lemma list_del_entry_dlist:
  assumes "dlist h q (xs @ e # ys)"
  shows "dlist (list_del_entry e h) q (xs @ ys)"
  unfolding list_del_entry_def
  using assms by (intro list_del_between_dlist) (auto simp: dlist_node_links)

lemma list_del_dlist:
  assumes "dlist h q (xs @ e # ys)"
  shows "dlist (list_del e h) q (xs @ ys)"
proof (rule dlist_cong)
  show "dlist (list_del_entry e h) q (xs @ ys)"
    using assms by (rule list_del_entry_dlist)
next
  fix p assume "p \<in> set (q # xs @ ys)"
  then have "p \<noteq> e" using assms by (auto simp: dlist_def)
  then show "nxt (list_del e h) p = nxt (list_del_entry e h) p \<and>
             prv (list_del e h) p = prv (list_del_entry e h) p"
    by (simp add: list_del_def list_del_entry_def)
qed

lemma list_del_node:
  "nxt (list_del e h) e = NULL" "prv (list_del e h) e = NULL"
  by (simp_all add: list_del_def)

lemma INIT_LIST_HEAD_frame [frame_intros]:
  "dlist h q xs \<Longrightarrow> e \<notin> set (q # xs) \<Longrightarrow> dlist (INIT_LIST_HEAD e h) q xs"
  by (erule dlist_cong) (auto simp: INIT_LIST_HEAD_def)

lemma list_del_init_dlist:
  assumes "dlist h q (xs @ e # ys)"
  shows "dlist (list_del_init e h) q (xs @ ys)" and "dlist (list_del_init e h) e []"
proof -
  have "e \<notin> set (q # xs @ ys)" using assms by (auto simp: dlist_def)
  then show "dlist (list_del_init e h) q (xs @ ys)"
    unfolding list_del_init_def using assms
    by (intro INIT_LIST_HEAD_frame list_del_entry_dlist) auto
  show "dlist (list_del_init e h) e []"
    by (simp add: list_del_init_def INIT_LIST_HEAD_dlist)
qed

lemma list_replace_dlist:
  assumes "dlist h q (xs @ e # ys)" and "new \<notin> set (q # xs @ e # ys)"
  shows "dlist (list_replace e new h) q (xs @ new # ys)"
proof -
  let ?p = "last (q # xs)" and ?n = "hd (ys @ [q])"
  have pn: "prv h e = ?p" "nxt h e = ?n"
    using assms(1) by (simp_all add: dlist_node_links)
  have "?p \<in> set (q # xs)" "?n \<in> set (ys @ [q])" by (simp, metis append_is_Nil_conv hd_in_set list.distinct(1))
  then have ne: "?n \<noteq> e" "?n \<noteq> new" "?p \<noteq> new" "new \<noteq> e"
    using assms by (auto simp: dlist_def)
  have "dlist (list_add_between new ?p ?n (list_del_between ?p ?n h)) q (xs @ new # ys)"
    using assms by (intro list_add_between_dlist list_del_between_dlist) auto
  moreover have "list_replace e new h = list_add_between new ?p ?n (list_del_between ?p ?n h)"
    using ne by (simp add: list_replace_def Let_def pn list_add_between_def list_del_between_def
        set_next_def set_prev_def fun_upd_twist)
  ultimately show ?thesis by simp
qed

lemma list_replace_init_dlist:
  assumes "dlist h q (xs @ e # ys)" and "new \<notin> set (q # xs @ e # ys)"
  shows "dlist (list_replace_init e new h) q (xs @ new # ys)"
    and "dlist (list_replace_init e new h) e []"
proof -
  have "e \<notin> set (q # xs @ new # ys)" using assms by (auto simp: dlist_def)
  then show "dlist (list_replace_init e new h) q (xs @ new # ys)"
    unfolding list_replace_init_def using list_replace_dlist [OF assms]
    by (rule INIT_LIST_HEAD_frame [rotated])
  show "dlist (list_replace_init e new h) e []"
    by (simp add: list_replace_init_def INIT_LIST_HEAD_dlist)
qed

lemma list_move_dlist:
  assumes "dlist h q (xs @ e # ys)"
  shows "dlist (list_move e q h) q (e # xs @ ys)"
  unfolding list_move_def
  using assms list_del_entry_dlist [OF assms] by (intro list_add_dlist) (auto simp: dlist_def)

lemma list_move_tail_dlist:
  assumes "dlist h q (xs @ e # ys)"
  shows "dlist (list_move_tail e q h) q (xs @ ys @ [e])"
  unfolding list_move_tail_def
  using assms list_add_tail_dlist [OF list_del_entry_dlist [OF assms], of e]
  by (auto simp: dlist_def)

lemma list_rotate_left_dlist:
  assumes "dlist h q xs"
  shows "dlist (list_rotate_left q h) q (rotate1 xs)"
proof (cases xs)
  case Nil
  then show ?thesis using assms by (simp add: list_rotate_left_def list_empty_dlist)
next
  case (Cons x zs)
  then have "nxt h q = x" and "\<not> list_empty q h"
    using assms by (simp_all add: dlist_next list_empty_dlist)
  then show ?thesis
    using assms Cons list_move_tail_dlist [of h q "[]" x zs] by (simp add: list_rotate_left_def)
qed

lemma list_empty_careful_dlist:
  "dlist h q xs \<Longrightarrow> list_empty_careful q h \<longleftrightarrow> xs = []"
  by (cases xs) (auto simp: list_empty_careful_def Let_def dlist_next dlist_prev dest: dlist_distinct)

lemma list_is_last_dlist:
  assumes "dlist h q (xs @ e # ys)"
  shows "list_is_last e q h \<longleftrightarrow> ys = []"
  using assms dlist_distinct [OF assms] by (cases ys) (auto simp: list_is_last_def dlist_node_links)

lemma list_is_singular_dlist:
  assumes "dlist h q xs"
  shows "list_is_singular q h \<longleftrightarrow> length xs = 1"
proof (cases xs)
  case Nil
  then show ?thesis using assms by (simp add: list_is_singular_def list_empty_dlist)
next
  case (Cons x zs)
  then show ?thesis
    using assms dlist_distinct [OF assms]
    by (cases zs rule: rev_cases) (auto simp: list_is_singular_def list_empty_dlist dlist_next dlist_prev)
qed

lemma linked_app:
  assumes "as \<noteq> []" and "bs \<noteq> []"
  shows "linked h (as @ bs) \<longleftrightarrow>
    linked h as \<and> linked h bs \<and> nxt h (last as) = hd bs \<and> prv h (hd bs) = last as"
proof -
  obtain b cs where b: "bs = b # cs" using assms(2) by (cases bs) auto
  obtain us a where a: "as = us @ [a]" using assms(1) by (cases as rule: rev_cases) auto
  show ?thesis
    using linked_append [of h us a bs] unfolding a b by auto
qed

lemma notin_butlast_last: "distinct zs \<Longrightarrow> zs \<noteq> [] \<Longrightarrow> last zs \<notin> set (butlast zs)"
  by (metis append_butlast_last_id distinct_append disjoint_iff list.set_intros(1))

lemma notin_tl_hd: "distinct zs \<Longrightarrow> zs \<noteq> [] \<Longrightarrow> hd zs \<notin> set (tl zs)"
  by (cases zs) auto

lemma linked_cong_distinct:
  assumes "distinct zs"
    and "\<forall>p \<in> set zs - {last zs}. nxt h' p = nxt h p"
    and "\<forall>p \<in> set zs - {hd zs}. prv h' p = prv h p"
  shows "linked h' zs \<longleftrightarrow> linked h zs"
  using assms notin_butlast_last [of zs] notin_tl_hd [of zs]
  by (intro linked_cong ballI) (metis DiffI butlast.simps(1) empty_iff empty_set in_set_butlastD
      in_set_tlD singletonD tl_Nil)+

lemma dlist_app:
  "dlist h q (xs @ ys) \<longleftrightarrow> distinct (q # xs @ ys) \<and> linked h (q # xs) \<and> linked h (ys @ [q]) \<and>
     nxt h (last (q # xs)) = hd (ys @ [q]) \<and> prv h (hd (ys @ [q])) = last (q # xs)"
  using linked_app [of "q # xs" "ys @ [q]" h] by (simp add: dlist_def)

lemma dlist_body_linked: "dlist h l zs \<Longrightarrow> zs \<noteq> [] \<Longrightarrow> linked h zs"
  using dlist_app [of h l "[]" zs] linked_app [of zs "[l]" h] by simp

lemma list_splice_between_dlist:
  assumes "dlist h l zs" and "zs \<noteq> []" and "dlist h q (xs @ ys)"
    and "set (l # zs) \<inter> set (q # xs @ ys) = {}"
    and p: "p = last (q # xs)" and n: "n = hd (ys @ [q])"
  shows "dlist (list_splice_between l p n h) q (xs @ zs @ ys)"
proof -
  let ?a = "hd zs" and ?b = "last zs" and ?h = "list_splice_between l p n h"
  have "nxt h l = ?a" "prv h l = ?b"
    using assms(1,2) by (auto simp: dlist_next dlist_prev)
  then have nx: "nxt ?h = (nxt h)(p := ?a, ?b := n)" and pv: "prv ?h = (prv h)(?a := p, n := ?b)"
    by (simp_all add: list_splice_between_def Let_def)
  have ab: "?a \<in> set zs" "?b \<in> set zs" and pn: "p \<in> set (q # xs)" "n \<in> set (q # ys)"
    using assms(2) p n by (simp, simp, simp, cases ys) auto
  have d: "distinct (q # xs)" "distinct zs" "distinct (ys @ [q])"
    "set zs \<inter> set (q # xs @ ys) = {}" "set xs \<inter> set (q # ys) = {}" "distinct (q # xs @ zs @ ys)"
    using assms(1,3,4) by (auto simp: dlist_def)
  have "linked h (q # xs)" "linked h (ys @ [q])" "linked h zs"
    using assms(1-3) by (auto simp: dlist_app dest: dlist_body_linked)
  moreover have "linked ?h (q # xs) = linked h (q # xs)"
    using d ab pn by (intro linked_cong_distinct) (auto simp: nx pv p [symmetric] simp del: last.simps)
  moreover have "linked ?h zs = linked h zs"
    using d ab pn by (intro linked_cong_distinct) (auto simp: nx pv)
  moreover have "linked ?h (ys @ [q]) = linked h (ys @ [q])"
    using d ab pn by (intro linked_cong_distinct) (auto simp: nx pv n [symmetric])
  moreover have "nxt ?h p = ?a" "prv ?h ?a = p" "nxt ?h ?b = n" "prv ?h n = ?b"
    using d ab pn by (auto simp: nx pv)
  ultimately have "linked ?h ((q # xs) @ zs @ (ys @ [q]))"
    using assms(2) p n by (subst linked_app; simp add: linked_app)+
  then show ?thesis using d by (simp add: dlist_def)
qed

lemma list_splice_dlist:
  assumes "dlist h l zs" and "dlist h q xs" and "set (l # zs) \<inter> set (q # xs) = {}"
  shows "dlist (list_splice l q h) q (zs @ xs)"
    and "dlist (list_splice_tail l q h) q (xs @ zs)"
  using assms list_splice_between_dlist [of h l zs q "[]" xs q "nxt h q"]
    list_splice_between_dlist [of h l zs q xs "[]" "prv h q" q]
  by (cases "zs = []"; simp add: list_splice_def list_splice_tail_def list_empty_dlist
      dlist_next dlist_prev)+

lemma list_splice_init_dlist:
  assumes "dlist h l zs" and "dlist h q xs" and "set (l # zs) \<inter> set (q # xs) = {}"
  shows "dlist (list_splice_init l q h) q (zs @ xs)" "dlist (list_splice_init l q h) l []"
    and "dlist (list_splice_tail_init l q h) q (xs @ zs)" "dlist (list_splice_tail_init l q h) l []"
proof -
  have l: "l \<notin> set (q # zs @ xs)" "l \<notin> set (q # xs @ zs)"
    using assms dlist_distinct [OF assms(1)] by auto
  show "dlist (list_splice_init l q h) q (zs @ xs)" "dlist (list_splice_tail_init l q h) q (xs @ zs)"
    using list_splice_dlist [OF assms] l assms
    by (auto simp: list_splice_init_def list_splice_tail_init_def list_splice_def
        list_splice_tail_def list_empty_dlist intro!: INIT_LIST_HEAD_frame split: if_splits)
  show "dlist (list_splice_init l q h) l []" "dlist (list_splice_tail_init l q h) l []"
    using assms(1) by (auto simp: list_splice_init_def list_splice_tail_init_def
        INIT_LIST_HEAD_dlist list_empty_dlist)
qed

lemma list_cut_position_dlist:
  assumes "dlist h q (xs @ e # ys)" and "l \<notin> set (q # xs @ e # ys)"
  shows "dlist (list_cut_position l q e h) l (xs @ [e])" and "dlist (list_cut_position l q e h) q ys"
proof -
  let ?f = "hd (xs @ [e])" and ?n = "hd (ys @ [q])" and ?h = "list_cut_position l q e h"
  have d: "distinct (q # xs @ e # ys)" using assms(1) by (simp add: dlist_def)
  have f: "nxt h q = ?f" "?f \<in> set (xs @ [e])" and n: "nxt h e = ?n" "?n \<in> set (ys @ [q])"
    using dlist_next [OF assms(1)] dlist_node_links [OF assms(1)]
    by (simp_all add: hd_append)
  have "?h = list_cut_position_nodes l q e h"
    using assms(1) d f by (auto simp: list_cut_position_def list_empty_dlist list_is_singular_dlist
        length_Suc_conv)
  then have nx: "nxt ?h = (nxt h)(l := ?f, e := l, q := ?n)" and pv: "prv ?h = (prv h)(?f := l, l := e, ?n := q)"
    using assms(2) f n by (auto simp: list_cut_position_nodes_def Let_def)
  have parts: "linked h (q # xs @ [e])" "linked h (ys @ [q])"
    using assms(1) linked_app [of "q # xs @ [e]" "ys @ [q]" h] by (auto simp: dlist_def)
  then have lx: "linked h (xs @ [e])" using linked_app [of "[q]" "xs @ [e]" h] by simp
  have "linked ?h (xs @ [e]) = linked h (xs @ [e])"
    using d assms(2) n by (intro linked_cong_distinct) (auto simp: nx pv)
  moreover have "nxt ?h l = ?f" "prv ?h ?f = l" "nxt ?h e = l" "prv ?h l = e"
    using f n d assms(2) unfolding nx pv by (auto simp: hd_append)
  ultimately have "linked ?h ([l] @ (xs @ [e]) @ [l])"
    using lx linked_app [of "[l]" "(xs @ [e]) @ [l]" ?h] linked_app [of "xs @ [e]" "[l]" ?h]
    by (auto simp: hd_append split: if_splits)
  then show "dlist ?h l (xs @ [e])"
    using d assms(2) by (auto simp: dlist_def)
  have "linked ?h (ys @ [q]) = linked h (ys @ [q])"
    using d assms(2) f by (intro linked_cong_distinct) (auto simp: nx pv)
  then have "linked ?h ([q] @ (ys @ [q]))"
    using parts d assms(2) f n by (subst linked_app) (auto simp: nx pv)
  then show "dlist ?h q ys"
    using d by (auto simp: dlist_def)
qed

subsection \<open>Iteration visits the abstract list\<close>

lemma dlist_from_first:
  assumes "dlist h q xs"
  shows "linked h (xs @ [q])" and "q \<notin> set xs"
  using assms by (cases xs; auto simp: dlist_def)+

lemma list_for_each_from_linked:
  "linked h (x # xs @ [q]) \<Longrightarrow> q \<notin> set (x # xs) \<Longrightarrow>
     list_for_each_from h q x = Some (x # xs)"
proof (induction xs arbitrary: x)
  case Nil
  then show ?case by (simp add: list_for_each_from.simps)
next
  case (Cons a xs)
  then have "list_for_each_from h q a = Some (a # xs)" and "nxt h x = a" by auto
  with Cons.prems show ?case by (subst list_for_each_from.simps) auto
qed

lemma list_for_each_dlist: "dlist h q xs \<Longrightarrow> list_for_each h q = Some xs"
  by (cases xs) (auto simp: list_for_each_def dlist_def list_for_each_from_linked
      list_for_each_from.simps [of h q q])

text \<open>Reversing both fields turns a list into its reverse, so backward iteration is forward
  iteration on the mirrored heap.\<close>

definition mirror :: "list_heap \<Rightarrow> list_heap" where
  "mirror h = \<lparr>nxt = prv h, prv = nxt h\<rparr>"

lemma linked_mirror: "linked (mirror h) (rev zs) \<longleftrightarrow> linked h zs"
proof (induction zs)
  case (Cons x zs)
  show ?case
  proof (cases "zs = []")
    case False
    then have "linked (mirror h) (rev zs @ [x]) \<longleftrightarrow>
        linked h zs \<and> prv h (hd zs) = x \<and> nxt h x = hd zs"
      using Cons.IH by (auto simp: linked_app mirror_def last_rev)
    with False show ?thesis by (cases zs) auto
  qed simp
qed simp

lemma dlist_mirror: "dlist (mirror h) q (rev xs) \<longleftrightarrow> dlist h q xs"
  using linked_mirror [of h "q # xs @ [q]"] by (auto simp: dlist_def)

lemma list_for_each_prev_mirror:
  assumes "list_for_each_from (mirror h) q p = Some r"
  shows "list_for_each_prev_from h q p = Some r"
proof (rule list_for_each_from.raw_induct
    [where P = "\<lambda>k q p r. \<forall>h. k = mirror h \<longrightarrow> list_for_each_prev_from h q p = Some r",
      OF _ assms, THEN spec, THEN mp])
  fix f k q p r
  assume IH: "\<And>k q p r. f k q p = Some r \<Longrightarrow>
      \<forall>h. k = mirror h \<longrightarrow> list_for_each_prev_from h q p = Some r"
    and eq: "(if p = q then Some [] else Option.bind (f k q (nxt k p)) (\<lambda>r. Some (p # r))) = Some r"
  show "\<forall>h. k = mirror h \<longrightarrow> list_for_each_prev_from h q p = Some r"
  proof (intro allI impI)
    fix h assume k: "k = mirror h"
    show "list_for_each_prev_from h q p = Some r"
      using eq IH k
      by (subst list_for_each_prev_from.simps)
        (auto simp: mirror_def bind_eq_Some_conv split: if_splits)
  qed
qed (rule refl)

lemma list_for_each_prev_dlist:
  assumes "dlist h q xs"
  shows "list_for_each_prev h q = Some (rev xs)"
proof -
  have "list_for_each (mirror h) q = Some (rev xs)"
    using assms dlist_mirror list_for_each_dlist by blast
  then show ?thesis
    by (simp add: list_for_each_def list_for_each_prev_def list_for_each_prev_mirror mirror_def)
qed

subsection \<open>Frame rules\<close>

definition unchanged_outside :: "ptr set \<Rightarrow> list_heap \<Rightarrow> list_heap \<Rightarrow> bool" where
  "unchanged_outside S h h' \<longleftrightarrow> (\<forall>p. p \<notin> S \<longrightarrow> nxt h' p = nxt h p \<and> prv h' p = prv h p)"

lemma unchanged_outside_dlist [frame_intros]:
  assumes "unchanged_outside S h h'" and "dlist h q xs" and "S \<inter> set (q # xs) = {}"
  shows "dlist h' q xs"
  using assms(2) by (rule dlist_cong) (use assms in \<open>auto simp: unchanged_outside_def\<close>)

lemma list_add_tail_unchanged:
  assumes "dlist h q xs"
  shows "unchanged_outside (set (new # q # xs)) h (list_add_tail new q h)"
  using assms by (auto simp: unchanged_outside_def list_add_tail_def list_add_between_def dlist_prev)

lemma list_add_unchanged:
  assumes "dlist h q xs"
  shows "unchanged_outside (set (new # q # xs)) h (list_add new q h)"
  using assms by (cases xs) (auto simp: unchanged_outside_def list_add_def list_add_between_def dlist_next)

lemma list_del_unchanged:
  assumes "dlist h q xs" and "e \<in> set xs"
  shows "unchanged_outside (set (q # xs)) h (list_del e h)"
proof -
  obtain us vs where xs: "xs = us @ e # vs" using assms(2) by (meson split_list)
  have "prv h e = last (q # us)" "nxt h e = hd (vs @ [q])"
    using assms(1) unfolding xs by (simp_all add: dlist_node_links)
  then have "prv h e \<in> set (q # xs)" "nxt h e \<in> set (q # xs)"
    unfolding xs by (auto simp: hd_append)
  then show ?thesis
    using assms(2) by (auto simp: unchanged_outside_def list_del_def list_del_between_def)
qed

lemma list_del_init_unchanged:
  assumes "dlist h q xs" and "e \<in> set xs"
  shows "unchanged_outside (set (q # xs)) h (list_del_init e h)"
proof -
  have u: "unchanged_outside (set (q # xs)) h (list_del e h)" using assms by (rule list_del_unchanged)
  have "nxt (list_del_init e h) p = (if p = e then e else nxt (list_del e h) p)"
    "prv (list_del_init e h) p = (if p = e then e else prv (list_del e h) p)" for p
    by (simp_all add: list_del_init_def list_del_def list_del_entry_def INIT_LIST_HEAD_def)
  then show ?thesis using u assms(2) by (auto simp: unchanged_outside_def)
qed

subsection \<open>The interface the other components use\<close>

text \<open>
  A queue of intrusive nodes. Clients rely on these laws only; \<open>queue_family\<close> is what a
  kernel table of such queues (the run queues, the free areas) keeps true: every head has a
  proper list and no two share a node.
\<close>

definition queue_family ::
  "('h \<Rightarrow> ptr \<Rightarrow> ptr list \<Rightarrow> bool) \<Rightarrow> 'h \<Rightarrow> ('i \<Rightarrow> ptr) \<Rightarrow> 'i set \<Rightarrow> ('i \<Rightarrow> ptr list) \<Rightarrow> bool" where
  "queue_family rep h hdr I Q \<longleftrightarrow>
     (\<forall>i \<in> I. rep h (hdr i) (Q i)) \<and>
     (\<forall>i \<in> I. \<forall>j \<in> I. i \<noteq> j \<longrightarrow> set (hdr i # Q i) \<inter> set (hdr j # Q j) = {})"

locale intrusive_queue =
  fixes rep :: "'h \<Rightarrow> ptr \<Rightarrow> ptr list \<Rightarrow> bool"
    and add_tail :: "ptr \<Rightarrow> ptr \<Rightarrow> 'h \<Rightarrow> 'h"
    and add_front :: "ptr \<Rightarrow> ptr \<Rightarrow> 'h \<Rightarrow> 'h"
    and del :: "ptr \<Rightarrow> 'h \<Rightarrow> 'h"
    and is_empty :: "ptr \<Rightarrow> 'h \<Rightarrow> bool"
  assumes rep_distinct: "rep h q xs \<Longrightarrow> distinct xs \<and> q \<notin> set xs"
    and rep_add_tail: "rep h q xs \<Longrightarrow> n \<notin> set (q # xs) \<Longrightarrow> rep (add_tail n q h) q (xs @ [n])"
    and rep_add_front: "rep h q xs \<Longrightarrow> n \<notin> set (q # xs) \<Longrightarrow> rep (add_front n q h) q (n # xs)"
    and rep_del: "rep h q (xs @ e # ys) \<Longrightarrow> rep (del e h) q (xs @ ys)"
    and rep_is_empty: "rep h q xs \<Longrightarrow> is_empty q h \<longleftrightarrow> xs = []"
    and frame_add_tail: "rep h q xs \<Longrightarrow> rep h q' ys \<Longrightarrow> set (n # q # xs) \<inter> set (q' # ys) = {} \<Longrightarrow>
      rep (add_tail n q h) q' ys"
    and frame_add_front: "rep h q xs \<Longrightarrow> rep h q' ys \<Longrightarrow> set (n # q # xs) \<inter> set (q' # ys) = {} \<Longrightarrow>
      rep (add_front n q h) q' ys"
    and frame_del: "rep h q xs \<Longrightarrow> e \<in> set xs \<Longrightarrow> rep h q' ys \<Longrightarrow>
      set (q # xs) \<inter> set (q' # ys) = {} \<Longrightarrow> rep (del e h) q' ys"
begin

lemma del_remove1:
  assumes "rep h q xs" and "e \<in> set xs"
  shows "rep (del e h) q (remove1 e xs)"
proof -
  obtain us vs where xs: "xs = us @ e # vs" and "e \<notin> set us"
    using assms(2) by (meson split_list_first)
  then have "remove1 e xs = us @ vs" by (simp add: remove1_append)
  then show ?thesis using assms(1) rep_del xs by metis
qed

lemma add_tail_del_restores:
  assumes "rep h q xs" and "n \<notin> set (q # xs)"
  shows "rep (del n (add_tail n q h)) q xs"
  using rep_del [of "add_tail n q h" q xs n "[]"] rep_add_tail [OF assms] by simp

lemma family_add_tail:
  assumes "queue_family rep h hdr I Q" and "i \<in> I" and "n \<notin> (\<Union>j \<in> I. set (hdr j # Q j))"
  shows "queue_family rep (add_tail n (hdr i) h) hdr I (Q(i := Q i @ [n]))"
  using assms unfolding queue_family_def
  by (auto intro!: rep_add_tail frame_add_tail [of h "hdr i" "Q i"]) blast+

lemma family_add_front:
  assumes "queue_family rep h hdr I Q" and "i \<in> I" and "n \<notin> (\<Union>j \<in> I. set (hdr j # Q j))"
  shows "queue_family rep (add_front n (hdr i) h) hdr I (Q(i := n # Q i))"
  using assms unfolding queue_family_def
  by (auto intro!: rep_add_front frame_add_front [of h "hdr i" "Q i"]) blast+

lemma family_del:
  assumes "queue_family rep h hdr I Q" and "i \<in> I" and "e \<in> set (Q i)"
  shows "queue_family rep (del e h) hdr I (Q(i := remove1 e (Q i)))"
proof -
  have "set (remove1 e (Q i)) \<subseteq> set (Q i)" by (rule set_remove1_subset)
  then show ?thesis
    using assms unfolding queue_family_def
    by (auto intro!: del_remove1 frame_del [of h "hdr i" "Q i"]) blast+
qed

lemma family_is_empty:
  "queue_family rep h hdr I Q \<Longrightarrow> i \<in> I \<Longrightarrow> is_empty (hdr i) h \<longleftrightarrow> Q i = []"
  by (simp add: queue_family_def rep_is_empty)

end

interpretation klist: intrusive_queue dlist list_add_tail list_add list_del list_empty
proof unfold_locales
  show "dlist h q xs \<Longrightarrow> distinct xs \<and> q \<notin> set xs" for h q xs by (rule dlist_distinct)
  show "dlist h q xs \<Longrightarrow> n \<notin> set (q # xs) \<Longrightarrow> dlist (list_add_tail n q h) q (xs @ [n])" for h q xs n
    by (rule list_add_tail_dlist)
  show "dlist h q xs \<Longrightarrow> n \<notin> set (q # xs) \<Longrightarrow> dlist (list_add n q h) q (n # xs)" for h q xs n
    by (rule list_add_dlist)
  show "dlist h q (xs @ e # ys) \<Longrightarrow> dlist (list_del e h) q (xs @ ys)" for h q xs e ys
    by (rule list_del_dlist)
  show "dlist h q xs \<Longrightarrow> list_empty q h \<longleftrightarrow> xs = []" for h q xs by (rule list_empty_dlist)
qed (blast intro: unchanged_outside_dlist list_add_tail_unchanged list_add_unchanged
      list_del_unchanged)+

subsection \<open>Properties\<close>

definition example_heap :: list_heap where
  "example_heap = list_add_tail 24 8 (list_add_tail 16 8 (INIT_LIST_HEAD 8 \<lparr>nxt = \<lambda>_. 0, prv = \<lambda>_. 0\<rparr>))"

lemma example_heap_dlist: "dlist example_heap 8 [16, 24]"
  by (simp add: example_heap_def dlist_def list_add_tail_def list_add_between_def INIT_LIST_HEAD_def)

text \<open>
  C7. Insertion, rotation, the emptiness test and both directions of iteration do on the
  chain of pointers what their names say of the abstract list: \<open>list_add\<close> puts a fresh node
  first, \<open>list_add_tail\<close> last, \<open>list_rotate_left\<close> moves the first node to the end, and the
  loops over the list end and visit every node once, in order or in reverse.
\<close>

theorem list_insert_and_iterate_refine:
  assumes "dlist h q xs" and "n \<notin> set (q # xs)"
  shows "dlist (list_add n q h) q (n # xs) \<and>
    dlist (list_add_tail n q h) q (xs @ [n]) \<and>
    dlist (list_rotate_left q h) q (rotate1 xs) \<and>
    (list_empty q h \<longleftrightarrow> xs = []) \<and>
    list_for_each h q = Some xs \<and>
    list_for_each_prev h q = Some (rev xs)"
  by (intro conjI list_add_dlist list_add_tail_dlist list_rotate_left_dlist
      list_empty_dlist list_for_each_dlist list_for_each_prev_dlist assms)

theorem list_insert_and_iterate_refine_witness:
  "dlist (list_add 32 8 example_heap) 8 [32, 16, 24] \<and>
   dlist (list_add_tail 32 8 example_heap) 8 [16, 24, 32] \<and>
   dlist (list_rotate_left 8 example_heap) 8 [24, 16] \<and>
   list_for_each_prev example_heap 8 = Some [24, 16]"
  using list_insert_and_iterate_refine [OF example_heap_dlist, of 32] by simp

text \<open>
  C8. Removal and moving: \<open>list_del\<close> unlinks exactly its entry and clears both its links,
  \<open>list_del_init\<close> leaves the entry an empty list of its own, \<open>list_replace\<close> puts a fresh node
  in the entry's place, \<open>list_move\<close> and \<open>list_move_tail\<close> carry it to either end; the order of
  the other nodes is kept.
\<close>

theorem list_remove_and_move_refine:
  assumes "dlist h q (xs @ e # ys)" and "n \<notin> set (q # xs @ e # ys)"
  shows "dlist (list_del e h) q (xs @ ys) \<and> nxt (list_del e h) e = NULL \<and> prv (list_del e h) e = NULL \<and>
    dlist (list_del_init e h) q (xs @ ys) \<and> dlist (list_del_init e h) e [] \<and>
    dlist (list_replace e n h) q (xs @ n # ys) \<and>
    dlist (list_move e q h) q (e # xs @ ys) \<and>
    dlist (list_move_tail e q h) q (xs @ ys @ [e])"
  using list_del_init_dlist [OF assms(1)]
  by (intro conjI list_del_dlist list_del_node
      list_replace_dlist list_move_dlist list_move_tail_dlist assms)

theorem list_remove_and_move_refine_witness:
  "dlist (list_del 16 example_heap) 8 [24] \<and> dlist (list_replace 16 40 example_heap) 8 [40, 24] \<and>
   dlist (list_move_tail 16 8 example_heap) 8 [24, 16]"
  using list_remove_and_move_refine [of example_heap 8 "[]" 16 "[24]" 40] example_heap_dlist by simp

text \<open>
  Joining and cutting: splicing a list at the front or the tail of another concatenates
  the two abstract lists (the \<open>init\<close> variant leaves the donor empty), and
  \<open>list_cut_position\<close> splits a list in two right after the entry.
\<close>

theorem list_splice_and_cut_refine:
  assumes "dlist h q (xs @ e # ys)" and "dlist h l zs" and "set (l # zs) \<inter> set (q # xs @ e # ys) = {}"
  shows "dlist (list_splice l q h) q (zs @ xs @ e # ys) \<and>
    dlist (list_splice_tail_init l q h) q (xs @ e # ys @ zs) \<and> dlist (list_splice_tail_init l q h) l [] \<and>
    dlist (list_cut_position l q e h) l (xs @ [e]) \<and> dlist (list_cut_position l q e h) q ys"
  using list_splice_dlist [OF assms(2,1,3)] list_splice_init_dlist [OF assms(2,1,3)]
    list_cut_position_dlist [OF assms(1), of l] assms(3) by auto

theorem list_splice_and_cut_refine_witness:
  "dlist (list_cut_position 32 8 16 (INIT_LIST_HEAD 32 example_heap)) 32 [16] \<and>
   dlist (list_cut_position 32 8 16 (INIT_LIST_HEAD 32 example_heap)) 8 [24]"
  using list_splice_and_cut_refine [of "INIT_LIST_HEAD 32 example_heap" 8 "[]" 16 "[24]" 32 "[]"]
    INIT_LIST_HEAD_frame [OF example_heap_dlist, of 32] INIT_LIST_HEAD_dlist by simp

end
