(* ===== verification/Strings.thy ===== *)
theory Strings
  imports Prelude
begin

section \<open>The string library: \<open>lib/string.c\<close>\<close>

text \<open>
  Memory is a function from 32-bit addresses to bytes; a pointer increment is word addition.
  The loops that count down \<open>count\<close> are recursive on its value. The loops that run to the
  terminating NUL are partial functions: on memory without one they have no value, and the
  lemmas below show that on a C string they return.
\<close>

type_synonym memory = "ptr \<Rightarrow> u8"

subsection \<open>Copying and filling\<close>

primrec copy_up :: "nat \<Rightarrow> ptr \<Rightarrow> ptr \<Rightarrow> memory \<Rightarrow> memory" where
  "copy_up 0 tmp s m = m"
| "copy_up (Suc count) tmp s m = copy_up count (tmp + 1) (s + 1) (m(tmp := m s))"

primrec copy_down :: "nat \<Rightarrow> ptr \<Rightarrow> ptr \<Rightarrow> memory \<Rightarrow> memory" where
  "copy_down 0 tmp s m = m"
| "copy_down (Suc count) tmp s m = copy_down count (tmp - 1) (s - 1) (m(tmp - 1 := m (s - 1)))"

definition memcpy :: "ptr \<Rightarrow> ptr \<Rightarrow> u32 \<Rightarrow> memory \<Rightarrow> ptr \<times> memory" where
  "memcpy dest src count m = (dest, copy_up (unat count) dest src m)"

definition memmove :: "ptr \<Rightarrow> ptr \<Rightarrow> u32 \<Rightarrow> memory \<Rightarrow> ptr \<times> memory" where
  "memmove dest src count m =
     (if dest \<le> src then (dest, copy_up (unat count) dest src m)
      else (dest, copy_down (unat count) (dest + count) (src + count) m))"

primrec fill_up :: "nat \<Rightarrow> ptr \<Rightarrow> int \<Rightarrow> memory \<Rightarrow> memory" where
  "fill_up 0 xs c m = m"
| "fill_up (Suc count) xs c m = fill_up count (xs + 1) c (m(xs := word_of_int c))"

definition memset :: "ptr \<Rightarrow> int \<Rightarrow> u32 \<Rightarrow> memory \<Rightarrow> ptr \<times> memory" where
  "memset s c count m = (s, fill_up (unat count) s c m)"

text \<open>The difference of two bytes is stored in a \<open>signed char\<close> before it is returned.\<close>

primrec memcmp_loop :: "nat \<Rightarrow> ptr \<Rightarrow> ptr \<Rightarrow> memory \<Rightarrow> int" where
  "memcmp_loop 0 su1 su2 m = 0"
| "memcmp_loop (Suc count) su1 su2 m =
     (let res = sint (word_of_int (uint (m su1) - uint (m su2)) :: u8)
      in if res \<noteq> 0 then res else memcmp_loop count (su1 + 1) (su2 + 1) m)"

definition memcmp :: "ptr \<Rightarrow> ptr \<Rightarrow> u32 \<Rightarrow> memory \<Rightarrow> int" where
  "memcmp cs ct count m = memcmp_loop (unat count) cs ct m"

subsection \<open>Strings\<close>

partial_function (option) strcpy_loop :: "ptr \<Rightarrow> ptr \<Rightarrow> memory \<Rightarrow> memory option" where
  "strcpy_loop dest src m =
     (if m src \<noteq> 0 then strcpy_loop (dest + 1) (src + 1) (m(dest := m src))
      else Some (m(dest := m src)))"

definition strcpy :: "ptr \<Rightarrow> ptr \<Rightarrow> memory \<Rightarrow> (ptr \<times> memory) option" where
  "strcpy dest src m = map_option (Pair dest) (strcpy_loop dest src m)"

primrec strncpy_loop :: "nat \<Rightarrow> ptr \<Rightarrow> ptr \<Rightarrow> memory \<Rightarrow> memory" where
  "strncpy_loop 0 tmp src m = m"
| "strncpy_loop (Suc count) tmp src m =
     strncpy_loop count (tmp + 1) (if m src \<noteq> 0 then src + 1 else src) (m(tmp := m src))"

definition strncpy :: "ptr \<Rightarrow> ptr \<Rightarrow> u32 \<Rightarrow> memory \<Rightarrow> ptr \<times> memory" where
  "strncpy dest src count m = (dest, strncpy_loop (unat count) dest src m)"

partial_function (option) find_nul :: "memory \<Rightarrow> ptr \<Rightarrow> ptr option" where
  "find_nul m p = (if m p \<noteq> 0 then find_nul m (p + 1) else Some p)"

definition strcat :: "ptr \<Rightarrow> ptr \<Rightarrow> memory \<Rightarrow> (ptr \<times> memory) option" where
  "strcat dest src m =
     (case find_nul m dest of None \<Rightarrow> None
      | Some e \<Rightarrow> map_option (Pair dest) (strcpy_loop e src m))"

partial_function (option) strcmp :: "ptr \<Rightarrow> ptr \<Rightarrow> memory \<Rightarrow> int option" where
  "strcmp cs ct m =
     (if m cs \<noteq> m ct then Some (if m cs < m ct then - 1 else 1)
      else if m cs = 0 then Some 0
      else strcmp (cs + 1) (ct + 1) m)"

primrec strncmp_loop :: "nat \<Rightarrow> ptr \<Rightarrow> ptr \<Rightarrow> memory \<Rightarrow> int" where
  "strncmp_loop 0 cs ct m = 0"
| "strncmp_loop (Suc count) cs ct m =
     (if m cs \<noteq> m ct then (if m cs < m ct then - 1 else 1)
      else if m cs = 0 then 0
      else strncmp_loop count (cs + 1) (ct + 1) m)"

definition strncmp :: "ptr \<Rightarrow> ptr \<Rightarrow> u32 \<Rightarrow> memory \<Rightarrow> int" where
  "strncmp cs ct count m = strncmp_loop (unat count) cs ct m"

definition strlen :: "ptr \<Rightarrow> memory \<Rightarrow> u32 option" where
  "strlen s m = map_option (\<lambda>sc. sc - s) (find_nul m s)"

subsection \<open>Character classes\<close>

definition islower :: "int \<Rightarrow> int" where
  "islower c = (if c \<ge> 97 \<and> c \<le> 122 then 1 else 0)"

definition isupper :: "int \<Rightarrow> int" where
  "isupper c = (if c \<ge> 65 \<and> c \<le> 90 then 1 else 0)"

definition isdigit :: "int \<Rightarrow> int" where
  "isdigit c = (if c \<ge> 48 \<and> c \<le> 57 then 1 else 0)"

definition isalpha :: "int \<Rightarrow> int" where
  "isalpha c = (if isupper c \<noteq> 0 \<or> islower c \<noteq> 0 then 1 else 0)"

subsection \<open>Blocks of memory\<close>

definition block :: "memory \<Rightarrow> ptr \<Rightarrow> nat \<Rightarrow> u8 list" where
  "block m p n = map (\<lambda>i. m (p + of_nat i)) [0..<n]"

definition block_addrs :: "ptr \<Rightarrow> nat \<Rightarrow> ptr set" where
  "block_addrs p n = (\<lambda>i. p + of_nat i) ` {..<n}"

lemma length_block [simp]: "length (block m p n) = n"
  by (simp add: block_def)

lemma nth_block [simp]: "i < n \<Longrightarrow> block m p n ! i = m (p + of_nat i)"
  by (simp add: block_def)

lemma block_eq_iff: "block m p n = xs \<longleftrightarrow> length xs = n \<and> (\<forall>i < n. m (p + of_nat i) = xs ! i)"
  by (auto simp: list_eq_iff_nth_eq)

lemma block_cong: "(\<And>i. i < n \<Longrightarrow> m (p + of_nat i) = m' (q + of_nat i)) \<Longrightarrow> block m p n = block m' q n"
  by (simp add: block_def)

lemma block_Suc: "block m p (Suc n) = m p # block m (p + 1) n"
  by (simp add: block_def upt_conv_Cons map_Suc_upt [symmetric] o_def add.assoc del: upt_Suc)

lemma block_addrs_iff: "a \<in> block_addrs p n \<longleftrightarrow> (\<exists>i < n. a = p + of_nat i)"
  by (auto simp: block_addrs_def)

lemma block_addrs_Suc: "block_addrs p (Suc n) = insert p (block_addrs (p + 1) n)"
  unfolding block_addrs_def lessThan_Suc_eq_insert_0 image_insert image_image
  by (simp add: algebra_simps)

lemma offset_inj:
  fixes p :: ptr
  assumes "i < 2 ^ 32" "j < 2 ^ 32"
  shows "p + of_nat i = p + of_nat j \<longleftrightarrow> i = j"
  using of_nat_inj_below [where 'a = 32, of i j] assms by simp

lemma unat_offset:
  fixes p :: ptr
  assumes "unat p + i < 2 ^ 32"
  shows "unat (p + of_nat i) = unat p + i"
proof -
  have i: "i < 2 ^ 32" using assms by simp
  have "unat (of_nat i :: ptr) = i" by (rule unat_of_nat_below) (use i in simp)
  then show ?thesis using assms by (subst unat_add_no_wrap) simp_all
qed

lemma copy_up_spec:
  assumes "n \<le> 2 ^ 32" and "\<And>i j. j < i \<Longrightarrow> i < n \<Longrightarrow> s + of_nat i \<noteq> d + of_nat j"
  shows "copy_up n d s m a =
    (if a \<in> block_addrs d n then m (s + (a - d)) else m a)"
  using assms
proof (induction n arbitrary: d s m)
  case 0
  then show ?case by (simp add: block_addrs_def)
next
  case (Suc n)
  have IH: "copy_up n (d + 1) (s + 1) (m(d := m s)) a =
      (if a \<in> block_addrs (d + 1) n then (m(d := m s)) (s + 1 + (a - (d + 1))) else (m(d := m s)) a)"
  proof (rule Suc.IH)
    show "s + 1 + of_nat i \<noteq> d + 1 + of_nat j" if "j < i" "i < n" for i j
      using Suc.prems(2) [of "Suc j" "Suc i"] that by (simp add: algebra_simps)
  qed (use Suc.prems in simp)
  have mem: "a \<in> block_addrs d (Suc n) \<longleftrightarrow> a = d \<or> a \<in> block_addrs (d + 1) n"
    by (simp add: block_addrs_Suc)
  show ?case
  proof (cases "a \<in> block_addrs (d + 1) n")
    case True
    then obtain i where i: "i < n" "a = d + 1 + of_nat i" by (auto simp: block_addrs_iff)
    have "s + of_nat (Suc i) \<noteq> d" using Suc.prems(2) [of 0 "Suc i"] i by simp
    then show ?thesis using IH True mem i by (simp add: algebra_simps)
  next
    case False
    then show ?thesis using IH mem by simp
  qed
qed

lemma copy_down_spec:
  assumes "n \<le> 2 ^ 32" and "\<And>i j. i < j \<Longrightarrow> j < n \<Longrightarrow> s + of_nat i \<noteq> d + of_nat j"
  shows "copy_down n (d + of_nat n) (s + of_nat n) m a =
    (if a \<in> block_addrs d n then m (s + (a - d)) else m a)"
  using assms
proof (induction n arbitrary: m)
  case 0
  then show ?case by (simp add: block_addrs_def)
next
  case (Suc n)
  let ?m = "m(d + of_nat n := m (s + of_nat n))"
  have IH: "copy_down n (d + of_nat n) (s + of_nat n) ?m a =
      (if a \<in> block_addrs d n then ?m (s + (a - d)) else ?m a)"
    by (rule Suc.IH) (use Suc.prems in auto)
  have mem: "a \<in> block_addrs d (Suc n) \<longleftrightarrow> a = d + of_nat n \<or> a \<in> block_addrs d n"
    unfolding block_addrs_iff by (auto simp: less_Suc_eq)
  have notin: "d + of_nat n \<notin> block_addrs d n"
    using Suc.prems(1) offset_inj [of n _ d] by (auto simp: block_addrs_iff)
  show ?case
  proof (cases "a \<in> block_addrs d n")
    case True
    then obtain i where i: "i < n" "a = d + of_nat i" by (auto simp: block_addrs_iff)
    have "s + of_nat i \<noteq> d + of_nat n" using Suc.prems(2) [of i n] i by simp
    then show ?thesis using IH True mem i by (simp add: algebra_simps)
  next
    case False
    then show ?thesis using IH mem notin by (auto simp: algebra_simps)
  qed
qed

lemma memmove_spec:
  assumes "unat dest + unat count \<le> 2 ^ 32" and "unat src + unat count \<le> 2 ^ 32"
  shows "snd (memmove dest src count m) a =
    (if a \<in> block_addrs dest (unat count) then m (src + (a - dest)) else m a)"
proof -
  have n: "unat count \<le> 2 ^ 32" using assms by simp
  have u: "unat (dest + of_nat i) = unat dest + i" "unat (src + of_nat i) = unat src + i"
    if "i < unat count" for i using that assms by (simp_all add: unat_offset)
  show ?thesis
  proof (cases "dest \<le> src")
    case True
    then have "unat dest \<le> unat src" by (simp add: word_le_nat_alt)
    then have "src + of_nat i \<noteq> dest + of_nat j" if "j < i" "i < unat count" for i j
      using u(2) [of i] u(1) [of j] that by force
    then show ?thesis using copy_up_spec [OF n, of src dest m a] True by (simp add: memmove_def)
  next
    case False
    then have "unat src < unat dest" by (simp add: word_le_nat_alt not_le)
    then have "src + of_nat i \<noteq> dest + of_nat j" if "i < j" "j < unat count" for i j
      using u(2) [of i] u(1) [of j] that by force
    then show ?thesis using copy_down_spec [OF n, of src dest m a] False by (simp add: memmove_def)
  qed
qed

lemma memcpy_spec:
  assumes "block_addrs src (unat count) \<inter> block_addrs dest (unat count) = {}"
  shows "snd (memcpy dest src count m) a =
    (if a \<in> block_addrs dest (unat count) then m (src + (a - dest)) else m a)"
proof -
  have "src + of_nat i \<noteq> dest + of_nat j" if "j < i" "i < unat count" for i j
  proof -
    have "src + of_nat i \<in> block_addrs src (unat count)" "dest + of_nat j \<in> block_addrs dest (unat count)"
      using that less_trans [OF that] unfolding block_addrs_def by blast+
    then show ?thesis using assms by auto
  qed
  moreover have "unat count \<le> 2 ^ 32" using unat_u32_less [of count] by simp
  ultimately show ?thesis by (simp add: memcpy_def copy_up_spec)
qed

lemma fill_up_spec:
  "n \<le> 2 ^ 32 \<Longrightarrow> fill_up n p c m a = (if a \<in> block_addrs p n then word_of_int c else m a)"
proof (induction n arbitrary: p m)
  case (Suc n)
  then show ?case by (simp add: block_addrs_Suc)
qed (simp add: block_addrs_def)

lemma byte_diff_zero [simp]: "sint (a - b :: u8) = 0 \<longleftrightarrow> a = b"
  by (simp add: signed_eq_0_iff)

lemma memcmp_loop_zero_iff: "memcmp_loop n p q m = 0 \<longleftrightarrow> block m p n = block m q n"
proof (induction n arbitrary: p q)
  case (Suc n)
  then show ?case by (simp add: block_Suc Let_def)
qed (simp add: block_def)


lemma uint_byte_bounds: "0 \<le> uint (w :: u8)" "uint w < 256"
  using order.strict_trans2 [OF unsigned_less, of "256 :: int" w] by simp_all

lemma mod_256_shift: "0 \<le> x \<Longrightarrow> x < 256 \<Longrightarrow> (x + 128) mod 256 = (if x < 128 then x + 128 else x - 128)"
  for x :: int using minus_mod_self2 [of "x + 128" 256] by auto

lemma sint_byte: "sint (w :: u8) = (if uint w < 128 then uint w else uint w - 256)"
proof -
  note uint_byte_bounds [of w]
  moreover have "sint w = (uint w + 128) mod 256 - 128"
    by (simp add: sint_uint signed_take_bit_eq_take_bit_shift take_bit_eq_mod)
  ultimately show ?thesis by (simp add: mod_256_shift)
qed

lemma byte_diff_negative:
  assumes "uint b + 128 \<le> uint (a :: u8)"
  shows "sint (a - b) < 0"
proof -
  have "0 \<le> uint a - uint b" "uint a - uint b < 256"
    using assms uint_byte_bounds(2) [of a] uint_byte_bounds(1) [of b] by linarith+
  then have "uint (a - b) = uint a - uint b"
    by (simp add: uint_word_ariths mod_pos_pos_trivial del: diff_ge_0_iff_ge)
  then have "128 \<le> uint (a - b)" using assms by simp
  then show ?thesis using uint_byte_bounds(2) [of "a - b"] by (simp add: sint_byte)
qed

subsection \<open>C strings\<close>

primrec cstr :: "memory \<Rightarrow> ptr \<Rightarrow> u8 list \<Rightarrow> bool" where
  "cstr m p [] \<longleftrightarrow> m p = 0"
| "cstr m p (b # bs) \<longleftrightarrow> m p = b \<and> b \<noteq> 0 \<and> cstr m (p + 1) bs"

primrec byte_order :: "u8 list \<Rightarrow> u8 list \<Rightarrow> int" where
  "byte_order [] ys = (if ys = [] then 0 else - 1)"
| "byte_order (x # xs) ys =
     (case ys of [] \<Rightarrow> 1
      | y # ys' \<Rightarrow> if x < y then - 1 else if y < x then 1 else byte_order xs ys')"

lemma byte_order_lexord:
  "byte_order xs ys = (if xs = ys then 0 else if (xs, ys) \<in> lexord {(a, b). a < b} then - 1 else 1)"
proof (induction xs arbitrary: ys)
  case Nil
  then show ?case by (cases ys) auto
next
  case (Cons x xs)
  then show ?case by (cases ys) auto
qed

lemma cstr_block: "cstr m p bs \<longleftrightarrow> block m p (length bs) = bs \<and> 0 \<notin> set bs \<and> m (p + of_nat (length bs)) = 0"
proof (induction bs arbitrary: p)
  case (Cons b bs)
  then show ?case by (auto simp: block_Suc algebra_simps)
qed (simp add: block_def)

lemma cstr_fun_upd:
  "(\<And>i. i \<le> length bs \<Longrightarrow> p + of_nat i \<noteq> a) \<Longrightarrow> cstr (m(a := v)) p bs = cstr m p bs"
proof (induction bs arbitrary: p)
  case (Cons b bs)
  have "p + 1 + of_nat i \<noteq> a" if "i \<le> length bs" for i
    using Cons.prems [of "Suc i"] that by (simp add: algebra_simps)
  then show ?case using Cons.IH [of "p + 1"] Cons.prems [of 0] by simp
qed simp

lemma find_nul_cstr: "cstr m p bs \<Longrightarrow> find_nul m p = Some (p + of_nat (length bs))"
  by (induction bs arbitrary: p) (simp_all add: find_nul.simps algebra_simps)

lemma strlen_cstr: "cstr m p bs \<Longrightarrow> strlen p m = Some (of_nat (length bs))"
  by (simp add: strlen_def find_nul_cstr)

lemma strcmp_cstr: "cstr m p xs \<Longrightarrow> cstr m q ys \<Longrightarrow> strcmp p q m = Some (byte_order xs ys)"
proof (induction xs arbitrary: p q ys)
  case Nil
  then show ?case by (cases ys) (auto simp: strcmp.simps word_gt_0)
next
  case (Cons x xs)
  show ?case
  proof (cases ys)
    case Nil
    then show ?thesis using Cons.prems by (auto simp: strcmp.simps)
  next
    case (Cons y ys')
    then show ?thesis using Cons.prems Cons.IH [of "p + 1" "q + 1" ys']
      by (subst strcmp.simps) auto
  qed
qed

lemma strncmp_cstr:
  "cstr m p xs \<Longrightarrow> cstr m q ys \<Longrightarrow> strncmp_loop n p q m = byte_order (take n xs) (take n ys)"
proof (induction n arbitrary: p q xs ys)
  case (Suc n)
  then show ?case by (cases xs; cases ys) (auto simp: word_gt_0)
qed simp

lemma strcpy_loop_copy_up:
  assumes "cstr m s bs" and "\<And>i j. j < i \<Longrightarrow> i \<le> length bs \<Longrightarrow> s + of_nat i \<noteq> d + of_nat j"
  shows "strcpy_loop d s m = Some (copy_up (Suc (length bs)) d s m)"
  using assms
proof (induction bs arbitrary: d s m)
  case Nil
  then show ?case by (simp add: strcpy_loop.simps fun_upd_def)
next
  case (Cons b bs)
  have "cstr (m(d := b)) (s + 1) bs = cstr m (s + 1) bs"
    using Cons.prems(2) [of 0 "Suc _"] by (intro cstr_fun_upd) (simp add: algebra_simps)
  note src = this
  have "strcpy_loop (d + 1) (s + 1) (m(d := b)) = Some (copy_up (Suc (length bs)) (d + 1) (s + 1) (m(d := b)))"
  proof (rule Cons.IH)
    show "cstr (m(d := b)) (s + 1) bs"
      using Cons.prems(1) src by simp
    show "s + 1 + of_nat i \<noteq> d + 1 + of_nat j" if "j < i" "i \<le> length bs" for i j
      using Cons.prems(2) [of "Suc j" "Suc i"] that by (simp add: algebra_simps)
  qed
  then show ?case using Cons.prems(1) by (subst strcpy_loop.simps) simp
qed

lemma block_addrs_apart:
  assumes "block_addrs s n \<inter> block_addrs d n' = {}" and "i < n" and "j < n'"
  shows "s + of_nat i \<noteq> d + of_nat j"
proof -
  have "s + of_nat i \<in> block_addrs s n" "d + of_nat j \<in> block_addrs d n'"
    using assms(2,3) unfolding block_addrs_def by blast+
  then show ?thesis using assms(1) by auto
qed

lemma strcpy_loop_cstr:
  assumes "cstr m s bs" and "length bs < 2 ^ 32"
    and "block_addrs s (Suc (length bs)) \<inter> block_addrs d (Suc (length bs)) = {}"
  shows "\<exists>m'. strcpy_loop d s m = Some m' \<and> cstr m' d bs \<and>
    (\<forall>a. a \<notin> block_addrs d (Suc (length bs)) \<longrightarrow> m' a = m a)"
proof -
  have ne: "s + of_nat i \<noteq> d + of_nat j" if "j < i" "i \<le> length bs" for i j
    by (rule block_addrs_apart [OF assms(3)]) (use that in auto)
  then have loop: "strcpy_loop d s m = Some (copy_up (Suc (length bs)) d s m)"
    by (rule strcpy_loop_copy_up [OF assms(1)])
  have spec: "copy_up (Suc (length bs)) d s m a =
      (if a \<in> block_addrs d (Suc (length bs)) then m (s + (a - d)) else m a)" for a
    by (rule copy_up_spec) (use assms(2) ne in auto)
  have "copy_up (Suc (length bs)) d s m (d + of_nat i) = m (s + of_nat i)" if "i \<le> length bs" for i
  proof -
    have "d + of_nat i \<in> block_addrs d (Suc (length bs))"
      using that unfolding block_addrs_def by (intro image_eqI [of _ _ i]) auto
    then show ?thesis using spec by simp
  qed
  then have "block (copy_up (Suc (length bs)) d s m) d (length bs) = block m s (length bs)"
      "copy_up (Suc (length bs)) d s m (d + of_nat (length bs)) = m (s + of_nat (length bs))"
    by (auto intro: block_cong simp del: copy_up.simps)
  then have "cstr (copy_up (Suc (length bs)) d s m) d bs"
    using assms(1) unfolding cstr_block by (simp del: copy_up.simps)
  then show ?thesis using loop spec by auto
qed


lemma strncpy_loop_cstr:
  assumes "cstr m s bs" and "n \<le> 2 ^ 32"
    and "block_addrs s (Suc (length bs)) \<inter> block_addrs d n = {}"
  shows "block (strncpy_loop n d s m) d n = take n bs @ replicate (n - length bs) 0 \<and>
    (\<forall>a. a \<notin> block_addrs d n \<longrightarrow> strncpy_loop n d s m a = m a)"
  using assms
proof (induction n arbitrary: d s m bs)
  case 0
  then show ?case by (simp add: block_def)
next
  case (Suc n)
  define s1 where "s1 = (if m s \<noteq> 0 then s + 1 else s)"
  let ?m = "m(d := m s)" and ?r = "strncpy_loop n (d + 1) s1 (m(d := m s))"
  note addrs = block_addrs_Suc [of d n]
  have d_fresh: "d \<notin> block_addrs (d + 1) n"
  proof
    assume "d \<in> block_addrs (d + 1) n"
    then obtain i where "i < n" "d + of_nat 0 = d + of_nat (Suc i)" by (auto simp: block_addrs_iff algebra_simps)
    then show False using offset_inj [of 0 "Suc i" d] Suc.prems(2) by simp
  qed
  have far: "s + of_nat i \<noteq> d" if "i \<le> length bs" for i
    using block_addrs_apart [OF Suc.prems(3), of i 0] that by simp
  have cs: "cstr ?m s bs"
    using Suc.prems(1) far by (simp add: cstr_fun_upd)
  have IH: "block ?r (d + 1) n = take n (tl bs) @ replicate (n - length (tl bs)) 0 \<and>
      (\<forall>a. a \<notin> block_addrs (d + 1) n \<longrightarrow> ?r a = ?m a)"
  proof (rule Suc.IH)
    show "cstr ?m s1 (tl bs)"
      using cs Suc.prems(1) by (cases bs) (auto simp: s1_def)
    have "block_addrs s1 (Suc (length (tl bs))) \<subseteq> block_addrs s (Suc (length bs))"
    proof (cases bs)
      case Nil
      then show ?thesis using Suc.prems(1) by (simp add: s1_def)
    next
      case (Cons b cs)
      then show ?thesis using Suc.prems(1)
        by (auto simp: s1_def block_addrs_Suc [of s])
    qed
    then show "block_addrs s1 (Suc (length (tl bs))) \<inter> block_addrs (d + 1) n = {}"
      using Suc.prems(3) addrs by blast
  qed (use Suc.prems in simp)
  have "m s = (case bs of [] \<Rightarrow> 0 | b # _ \<Rightarrow> b)" using Suc.prems(1) by (cases bs) auto
  moreover have "?r d = m s" using IH d_fresh by simp
  ultimately show ?case using IH addrs
    by (cases bs) (auto simp: block_Suc s1_def)
qed


lemma cstr_append:
  "cstr m p (xs @ ys) \<longleftrightarrow> block m p (length xs) = xs \<and> 0 \<notin> set xs \<and> cstr m (p + of_nat (length xs)) ys"
  by (induction xs arbitrary: p) (auto simp: block_Suc algebra_simps, simp add: block_def)

lemma block_addrs_offset: "k + n \<le> n' \<Longrightarrow> block_addrs (p + of_nat k) n \<subseteq> block_addrs p n'"
  unfolding block_addrs_iff subset_iff
proof (intro allI impI)
  fix a assume "k + n \<le> n'" "\<exists>i < n. a = p + of_nat k + of_nat i"
  then obtain i where "i < n" "a = p + of_nat (k + i)" by (auto simp: algebra_simps)
  with \<open>k + n \<le> n'\<close> have "k + i < n'" "a = p + of_nat (k + i)" by simp_all
  then show "\<exists>i < n'. a = p + of_nat i" by blast
qed

lemma strcat_cstr:
  assumes "cstr m src ys" and "cstr m dest xs" and "length xs + length ys < 2 ^ 32"
    and "block_addrs src (Suc (length ys)) \<inter> block_addrs dest (Suc (length xs + length ys)) = {}"
  shows "\<exists>m'. strcat dest src m = Some (dest, m') \<and> cstr m' dest (xs @ ys)"
proof -
  let ?e = "dest + of_nat (length xs)"
  have "block_addrs src (Suc (length ys)) \<inter> block_addrs ?e (Suc (length ys)) = {}"
    using assms(4) block_addrs_offset [of "length xs" "Suc (length ys)" "Suc (length xs + length ys)" dest]
    by auto
  then obtain m' where m': "strcpy_loop ?e src m = Some m'" "cstr m' ?e ys"
      "\<forall>a. a \<notin> block_addrs ?e (Suc (length ys)) \<longrightarrow> m' a = m a"
    using strcpy_loop_cstr [OF assms(1), of ?e] assms(3) by auto
  have "m' (dest + of_nat i) = m (dest + of_nat i)" if i: "i < length xs" for i
  proof -
    have "dest + of_nat i \<noteq> dest + of_nat (length xs + j)" if "j < Suc (length ys)" for j
      using offset_inj [of i "length xs + j" dest] i that assms(3) by simp
    then have "dest + of_nat i \<notin> block_addrs ?e (Suc (length ys))"
      by (auto simp: block_addrs_iff algebra_simps)
    then show ?thesis using m'(3) by simp
  qed
  then have "block m' dest (length xs) = block m dest (length xs)" by (rule block_cong)
  then have "cstr m' dest (xs @ ys)"
    using m'(2) assms(2) [unfolded cstr_block] unfolding cstr_append by simp
  then show ?thesis using m'(1) find_nul_cstr [OF assms(2)] by (simp add: strcat_def)
qed

subsection \<open>Properties\<close>

definition example_memory :: memory where
  "example_memory = (\<lambda>_. 0)(16 := 121, 17 := 97, 18 := 107, 32 := 121, 33 := 111)"

text \<open>
  C38. \<open>memmove\<close> copies correctly whether or not the two regions overlap: if neither region
  runs past the end of the address space, the destination then holds the bytes the source held
  before the call, and no byte outside the destination changes.
\<close>

theorem memmove_overlap_safe:
  assumes "unat dest + unat count \<le> 2 ^ 32" and "unat src + unat count \<le> 2 ^ 32"
  shows "\<exists>m'. memmove dest src count m = (dest, m') \<and>
    block m' dest (unat count) = block m src (unat count) \<and>
    (\<forall>a. a \<notin> block_addrs dest (unat count) \<longrightarrow> m' a = m a)"
proof -
  have "snd (memmove dest src count m) (dest + of_nat i) = m (src + of_nat i)" if "i < unat count" for i
  proof -
    have "dest + of_nat i \<in> block_addrs dest (unat count)" using that unfolding block_addrs_def by blast
    then show ?thesis using memmove_spec [OF assms] by simp
  qed
  then have "block (snd (memmove dest src count m)) dest (unat count) = block m src (unat count)"
    by (rule block_cong)
  moreover have "fst (memmove dest src count m) = dest" by (simp add: memmove_def)
  ultimately show ?thesis using memmove_spec [OF assms] by (metis prod.collapse)
qed

theorem memmove_overlap_safe_witness:
  "block (snd (memmove 17 16 3 example_memory)) 17 3 = [121, 97, 107]"
  using memmove_overlap_safe [of 17 3 16 example_memory]
  by (auto simp: example_memory_def block_def upt_rec)

text \<open>
  On NUL-terminated strings \<open>strlen\<close>, \<open>strcmp\<close> and \<open>strncmp\<close> return. \<open>strlen\<close> is the length,
  \<open>strcmp\<close> is 0 exactly for equal strings and otherwise the lexicographic order of the unsigned
  bytes, and \<open>strncmp\<close> compares the first \<open>count\<close> bytes the same way.
\<close>

theorem string_length_and_order:
  assumes "cstr m p xs" and "cstr m q ys"
  shows "strlen p m = Some (of_nat (length xs)) \<and>
    strcmp p q m = Some (if xs = ys then 0 else if (xs, ys) \<in> lexord {(a, b). a < b} then - 1 else 1) \<and>
    (strncmp p q count m = 0 \<longleftrightarrow> take (unat count) xs = take (unat count) ys)"
  using assms
  by (simp add: strlen_cstr strcmp_cstr strncmp_cstr strncmp_def byte_order_lexord)

theorem string_length_and_order_witness:
  "strlen 16 example_memory = Some 3 \<and> strcmp 16 32 example_memory = Some (- 1) \<and>
   strncmp 16 32 1 example_memory = 0"
proof -
  have "cstr example_memory 16 [121, 97, 107]" "cstr example_memory 32 [121, 111]"
    by (simp_all add: example_memory_def)
  from string_length_and_order [OF this, of 1] show ?thesis by simp
qed

text \<open>
  \<open>strcpy\<close>, \<open>strcat\<close> and \<open>strncpy\<close> return and copy: where source and destination do not
  overlap, \<open>strcpy\<close> leaves the source string at \<open>dest\<close>, \<open>strcat\<close> leaves the concatenation, and
  \<open>strncpy\<close> leaves exactly \<open>count\<close> bytes, the string cut or padded with NULs.
\<close>

theorem string_copies:
  assumes "cstr m src ys" and "cstr m dest xs" and "length xs + length ys < 2 ^ 32"
    and "block_addrs src (Suc (length ys)) \<inter> block_addrs dest (Suc (length xs + length ys)) = {}"
    and "block_addrs src (Suc (length ys)) \<inter> block_addrs buf (unat count) = {}"
    and "block_addrs src (Suc (length ys)) \<inter> block_addrs dst (Suc (length ys)) = {}"
  shows "(\<exists>m'. strcpy dst src m = Some (dst, m') \<and> cstr m' dst ys) \<and>
    (\<exists>m'. strcat dest src m = Some (dest, m') \<and> cstr m' dest (xs @ ys)) \<and>
    block (snd (strncpy buf src count m)) buf (unat count) =
      take (unat count) ys @ replicate (unat count - length ys) 0"
proof -
  have "unat count \<le> 2 ^ 32" using unat_u32_less [of count] by simp
  then show ?thesis
    using strcpy_loop_cstr [OF assms(1) _ assms(6)] strcat_cstr [OF assms(1-4)] assms(3)
      strncpy_loop_cstr [OF assms(1) _ assms(5)]
    by (auto simp: strcpy_def strncpy_def)
qed

theorem string_copies_witness:
  "block (snd (strncpy 64 32 3 example_memory)) 64 3 = [121, 111, 0] \<and>
   (\<exists>m'. strcat 16 32 example_memory = Some (16, m') \<and> cstr m' 16 [121, 97, 107, 121, 111])"
proof -
  have c: "cstr example_memory 32 [121, 111]" "cstr example_memory 16 [121, 97, 107]"
    by (simp_all add: example_memory_def)
  have a: "block_addrs 32 (Suc (length [121, 111 :: u8])) \<inter>
      block_addrs 16 (Suc (length [121, 97, 107 :: u8] + length [121, 111 :: u8])) = {}"
    "block_addrs 32 (Suc (length [121, 111 :: u8])) \<inter> block_addrs 64 (unat (3 :: u32)) = {}"
    "block_addrs 32 (Suc (length [121, 111 :: u8])) \<inter> block_addrs 64 (Suc (length [121, 111 :: u8])) = {}"
    by (simp_all add: block_addrs_def lessThan_Suc lessThan_nat_numeral)
  show ?thesis using string_copies [OF c _ a] by simp
qed

text \<open>
  \<open>memcmp\<close> returns 0 exactly when the two regions are equal. Its sign is not the order of
  the regions: the difference is cut to a \<open>signed char\<close>, so a first byte that is larger by 128
  or more gives a negative result.
\<close>

theorem memcmp_equality_and_sign:
  "(memcmp p q count m = 0 \<longleftrightarrow> block m p (unat count) = block m q (unat count)) \<and>
   (0 < unat count \<and> uint (m q) + 128 \<le> uint (m p) \<longrightarrow> memcmp p q count m < 0)"
proof -
  have "memcmp p q count m < 0" if "0 < unat count" "uint (m q) + 128 \<le> uint (m p)"
    using that(1) byte_diff_negative [OF that(2)] by (cases "unat count") (auto simp: memcmp_def Let_def)
  then show ?thesis using memcmp_loop_zero_iff [of "unat count" p q m] by (simp add: memcmp_def)
qed

theorem memcmp_equality_and_sign_witness:
  "memcmp 16 0 1 (example_memory(16 := 200)) < 0"
  using memcmp_equality_and_sign [of 16 0 1 "example_memory(16 := 200)"]
  by (simp add: example_memory_def)

end
