(* ===== verification/Sched.thy ===== *)
theory Sched
  imports Linked_List Bitops
begin

section \<open>The FIFO scheduler: \<open>kernel/sched_fifo.c\<close>, \<open>kernel/sched.c\<close>\<close>

text \<open>
  Every run queue is an intrusive list whose head is \<open>all_task[i]\<close>; a task's list node is its
  first field, so the node and the task have one address and \<open>(task_t *)iterator\<close> is the
  iterator itself. The state holds the list heap, the tasks by address, the bitmap, and the
  two globals \<open>current_task\<close> and \<open>next_task\<close>. The address of \<open>all_task\<close> is chosen by the linker
  and is a field that no operation writes. The loops over a queue are partial: they end only
  on a proper circular list, which the invariant \<open>sched_inv\<close> provides.
\<close>

abbreviation MAX_PRIORITY :: nat where "MAX_PRIORITY \<equiv> 8"

datatype task_state = RUNNING | SLEEPING | SUSPENDED | READY | CREATING | BLOCKED | EXITED

record task =
  sp :: u32
  priority :: u32
  state :: task_state
  stack :: ptr
  stack_size :: u32
  mm_pgd :: ptr
  task_pid :: u32
  entry :: ptr
  args :: ptr
  ret :: u32
  task_name :: "u8 list"

record sched =
  links :: list_heap
  task_at :: "ptr \<Rightarrow> task"
  all_task_base :: ptr
  task_bitmap :: "nat \<Rightarrow> u32"
  current_task :: ptr
  next_task :: ptr

definition all_task :: "'a sched_scheme \<Rightarrow> nat \<Rightarrow> ptr" where
  "all_task s i = all_task_base s + 8 * of_nat i"

definition prio :: "'a sched_scheme \<Rightarrow> ptr \<Rightarrow> nat" where
  "prio s t = unat (priority (task_at s t))"

definition state_of :: "'a sched_scheme \<Rightarrow> ptr \<Rightarrow> task_state" where
  "state_of s t = state (task_at s t)"

definition set_task_state :: "ptr \<Rightarrow> task_state \<Rightarrow> 'a sched_scheme \<Rightarrow> 'a sched_scheme" where
  "set_task_state t v s = s\<lparr>task_at := (task_at s)(t := (task_at s t)\<lparr>state := v\<rparr>)\<rparr>"

subsection \<open>The operations of the scheduler class\<close>

definition sched_fifo_init :: "'a sched_scheme \<Rightarrow> 'a sched_scheme" where
  "sched_fifo_init s =
     fold (\<lambda>i s. s\<lparr>links := INIT_LIST_HEAD (all_task s i) (links s)\<rparr>) [0..<MAX_PRIORITY] s"

text \<open>The names \<open>sched_fifo_dump\<close> prints.\<close>

definition sched_fifo_dump :: "'a sched_scheme \<Rightarrow> u8 list list option" where
  "sched_fifo_dump s =
     map_option (map (\<lambda>t. task_name (task_at s t)))
       (list_for_each (links s) (all_task s (prio s (current_task s))))"

partial_function (option) find_next_loop :: "'a sched_scheme \<Rightarrow> nat \<Rightarrow> ptr \<Rightarrow> ptr \<Rightarrow> ptr option" where
  "find_next_loop s p start iterator =
     (if iterator = start then Some NULL
      else if iterator = all_task s p \<or> state_of s iterator = BLOCKED
           then find_next_loop s p start (nxt (links s) iterator)
      else Some iterator)"

definition find_next_task :: "'a sched_scheme \<Rightarrow> nat \<Rightarrow> ptr \<Rightarrow> ptr option" where
  "find_next_task s p start = find_next_loop s p start (nxt (links s) start)"

definition sched_fifo_enqueue_task :: "ptr \<Rightarrow> 'a sched_scheme \<Rightarrow> 'a sched_scheme" where
  "sched_fifo_enqueue_task p s =
     s\<lparr>links := list_add_tail p (all_task s (prio s p)) (links s),
       task_bitmap := set_bit_ul (prio s p) (task_bitmap s)\<rparr>"

definition sched_fifo_dequeue_task :: "ptr \<Rightarrow> 'a sched_scheme \<Rightarrow> 'a sched_scheme option" where
  "sched_fifo_dequeue_task p s =
     Option.bind (find_next_task s (prio s p) p) (\<lambda>n.
       let s1 = s\<lparr>next_task := n, links := list_del p (links s)\<rparr>
       in Some (if list_empty (all_task s (prio s p)) (links s1)
                then s1\<lparr>task_bitmap := clear_bit_ul (prio s p) (task_bitmap s)\<rparr> else s1))"

function pick_loop :: "nat \<Rightarrow> 'a sched_scheme \<Rightarrow> (ptr option \<times> 'a sched_scheme) option" where
  "pick_loop i s =
     (if i < MAX_PRIORITY then
        if test_bit_ul i (task_bitmap s) = 0 then pick_loop (Suc i) s
        else if i = prio s (current_task s) \<and>
                (state_of s (current_task s) = EXITED \<or> state_of s (current_task s) = SLEEPING)
        then if next_task s \<noteq> NULL then Some (Some (next_task s), s\<lparr>next_task := NULL\<rparr>)
             else pick_loop (Suc i) s
        else
          (case find_next_task s i
                  (if i \<noteq> prio s (current_task s) then all_task s i else current_task s) of
             None \<Rightarrow> None
           | Some new_task \<Rightarrow>
               if new_task = NULL then pick_loop (Suc i) s else Some (Some new_task, s))
      else Some (None, s))"
  by pat_completeness auto
termination
  by (relation "measure (\<lambda>(i, s). MAX_PRIORITY - i)") auto

declare pick_loop.simps [simp del]

definition sched_fifo_pick_next_task :: "'a sched_scheme \<Rightarrow> (ptr \<times> 'a sched_scheme) option" where
  "sched_fifo_pick_next_task s =
     (case pick_loop 0 s of
        None \<Rightarrow> None
      | Some (None, s1) \<Rightarrow> Some (NULL, s1)
      | Some (Some new_task, s1) \<Rightarrow>
          Some (new_task, (set_task_state new_task RUNNING s1)\<lparr>current_task := new_task\<rparr>))"

record 's sched_class =
  sc_init :: "'s \<Rightarrow> 's"
  sc_enqueue_task :: "ptr \<Rightarrow> 's \<Rightarrow> 's"
  sc_dequeue_task :: "ptr \<Rightarrow> 's \<Rightarrow> 's option"
  sc_pick_next_task :: "'s \<Rightarrow> (ptr \<times> 's) option"
  sc_dump :: "'s \<Rightarrow> u8 list list option"

definition sched_class_fifo :: "'a sched_scheme sched_class" where
  "sched_class_fifo =
     \<lparr>sc_init = sched_fifo_init, sc_enqueue_task = sched_fifo_enqueue_task,
      sc_dequeue_task = sched_fifo_dequeue_task, sc_pick_next_task = sched_fifo_pick_next_task,
      sc_dump = sched_fifo_dump\<rparr>"

text \<open>\<open>sched_init\<close> makes \<open>sched_class_fifo\<close> the scheduler and calls its \<open>init\<close>.\<close>

definition sched_init :: "'a sched_scheme \<Rightarrow> 'a sched_scheme" where
  "sched_init s = sc_init sched_class_fifo s"

lemmas sched_class_fifo_sel [simp] =
  sched_class_fifo_def [THEN arg_cong [where f = sc_init], simplified]
  sched_class_fifo_def [THEN arg_cong [where f = sc_enqueue_task], simplified]
  sched_class_fifo_def [THEN arg_cong [where f = sc_dequeue_task], simplified]
  sched_class_fifo_def [THEN arg_cong [where f = sc_pick_next_task], simplified]

subsection \<open>The invariant\<close>

definition sched_inv :: "'a sched_scheme \<Rightarrow> (nat \<Rightarrow> ptr list) \<Rightarrow> bool" where
  "sched_inv s Q \<longleftrightarrow>
     queue_family dlist (links s) (all_task s) {..<MAX_PRIORITY} Q \<and>
     (\<forall>i < MAX_PRIORITY. bit_at (task_bitmap s) i \<longleftrightarrow> Q i \<noteq> []) \<and>
     (\<forall>i < MAX_PRIORITY. \<forall>t \<in> set (Q i). prio s t = i \<and> t \<noteq> NULL)"

definition queue_nodes :: "'a sched_scheme \<Rightarrow> (nat \<Rightarrow> ptr list) \<Rightarrow> ptr set" where
  "queue_nodes s Q = (\<Union>i \<in> {..<MAX_PRIORITY}. set (all_task s i # Q i))"

definition first_ready :: "'a sched_scheme \<Rightarrow> ptr list \<Rightarrow> ptr" where
  "first_ready s ts = (case filter (\<lambda>t. state_of s t \<noteq> BLOCKED) ts of [] \<Rightarrow> NULL | t # _ \<Rightarrow> t)"

lemma dlist_rotate: "dlist h q (xs @ c # ys) \<Longrightarrow> dlist h c (ys @ q # xs)"
  using linked_Cons_append [of h q xs c "ys @ [q]"] linked_Cons_append [of h c ys q "xs @ [c]"]
  by (auto simp: dlist_def)

lemma find_next_loop_linked:
  assumes "linked (links s) (x # zs @ [start])" and "start \<notin> set (x # zs)"
  shows "find_next_loop s p start x = Some (first_ready s (filter (\<lambda>t. t \<noteq> all_task s p) (x # zs)))"
  using assms
proof (induction zs arbitrary: x)
  case Nil
  then show ?case
    by (subst find_next_loop.simps, subst find_next_loop.simps) (auto simp: first_ready_def)
next
  case (Cons a zs)
  then have "nxt (links s) x = a" and
    IH: "find_next_loop s p start a = Some (first_ready s (filter (\<lambda>t. t \<noteq> all_task s p) (a # zs)))"
    by auto
  then show ?case
    using Cons.prems by (subst find_next_loop.simps) (auto simp: first_ready_def)
qed

lemma find_next_task_dlist:
  assumes "dlist (links s) start zs"
  shows "find_next_task s p start = Some (first_ready s (filter (\<lambda>t. t \<noteq> all_task s p) zs))"
proof (cases zs)
  case Nil
  then show ?thesis
    using assms by (simp add: find_next_task_def dlist_next find_next_loop.simps first_ready_def)
next
  case (Cons a cs)
  then show ?thesis
    using assms find_next_loop_linked [of s a cs start p]
    by (auto simp: find_next_task_def dlist_next dlist_def)
qed

subsection \<open>Every operation keeps the invariant\<close>

lemma all_task_upd [simp]:
  "all_task (s\<lparr>links := l\<rparr>) i = all_task s i"
  "all_task (s\<lparr>task_bitmap := b\<rparr>) i = all_task s i"
  "all_task (s\<lparr>next_task := n\<rparr>) i = all_task s i"
  "all_task (s\<lparr>current_task := n\<rparr>) i = all_task s i"
  "all_task (s\<lparr>task_at := f\<rparr>) i = all_task s i"
  "all_task (set_task_state t v s) i = all_task s i"
  by (simp_all add: all_task_def set_task_state_def)

lemma prio_upd [simp]:
  "prio (s\<lparr>links := l\<rparr>) t = prio s t"
  "prio (s\<lparr>task_bitmap := b\<rparr>) t = prio s t"
  "prio (s\<lparr>next_task := n\<rparr>) t = prio s t"
  "prio (s\<lparr>current_task := n\<rparr>) t = prio s t"
  "prio (set_task_state u v s) t = prio s t"
  by (simp_all add: prio_def set_task_state_def)

lemma state_of_upd [simp]:
  "state_of (s\<lparr>links := l\<rparr>) t = state_of s t"
  "state_of (s\<lparr>task_bitmap := b\<rparr>) t = state_of s t"
  "state_of (s\<lparr>next_task := n\<rparr>) t = state_of s t"
  "state_of (s\<lparr>current_task := n\<rparr>) t = state_of s t"
  "state_of (set_task_state u v s) t = (if t = u then v else state_of s t)"
  by (simp_all add: state_of_def set_task_state_def)

lemma set_task_state_sel [simp]:
  "links (set_task_state t v s) = links s"
  "task_bitmap (set_task_state t v s) = task_bitmap s"
  "current_task (set_task_state t v s) = current_task s"
  "next_task (set_task_state t v s) = next_task s"
  by (simp_all add: set_task_state_def)

lemma all_task_fun_upd [simp]:
  "all_task (s\<lparr>links := l\<rparr>) = all_task s"
  "all_task (s\<lparr>task_bitmap := b\<rparr>) = all_task s"
  "all_task (s\<lparr>next_task := n\<rparr>) = all_task s"
  "all_task (s\<lparr>current_task := n\<rparr>) = all_task s"
  "all_task (set_task_state t v s) = all_task s"
  by (simp_all add: fun_eq_iff)

lemma sched_inv_set_task_state [simp]: "sched_inv (set_task_state t v s) Q = sched_inv s Q"
  by (simp add: sched_inv_def)

lemma sched_inv_current_next [simp]:
  "sched_inv (s\<lparr>current_task := t\<rparr>) Q = sched_inv s Q"
  "sched_inv (s\<lparr>next_task := t\<rparr>) Q = sched_inv s Q"
  by (simp_all add: sched_inv_def)

lemma sched_inv_dlist: "sched_inv s Q \<Longrightarrow> i < MAX_PRIORITY \<Longrightarrow> dlist (links s) (all_task s i) (Q i)"
  by (simp add: sched_inv_def queue_family_def)

lemma sched_inv_head_notin:
  assumes "sched_inv s Q" and "i < MAX_PRIORITY" and "j < MAX_PRIORITY"
  shows "all_task s i \<notin> set (Q j)"
proof (cases "i = j")
  case True
  then show ?thesis using assms sched_inv_dlist [of s Q j] by (simp add: dlist_def)
next
  case False
  then show ?thesis using assms by (auto simp: sched_inv_def queue_family_def)
qed

lemma sched_invD:
  assumes "sched_inv s Q"
  shows "queue_family dlist (links s) (all_task s) {..<MAX_PRIORITY} Q"
    and "i < MAX_PRIORITY \<Longrightarrow> bit_at (task_bitmap s) i \<longleftrightarrow> Q i \<noteq> []"
    and "i < MAX_PRIORITY \<Longrightarrow> t \<in> set (Q i) \<Longrightarrow> prio s t = i"
    and "i < MAX_PRIORITY \<Longrightarrow> t \<in> set (Q i) \<Longrightarrow> t \<noteq> NULL"
  using assms unfolding sched_inv_def by blast+

lemma sched_invI:
  assumes "queue_family dlist (links s) (all_task s) {..<MAX_PRIORITY} Q"
    and "\<And>i. i < MAX_PRIORITY \<Longrightarrow> bit_at (task_bitmap s) i \<longleftrightarrow> Q i \<noteq> []"
    and "\<And>i t. i < MAX_PRIORITY \<Longrightarrow> t \<in> set (Q i) \<Longrightarrow> prio s t = i \<and> t \<noteq> NULL"
  shows "sched_inv s Q"
  using assms unfolding sched_inv_def by blast

lemma filter_neq_id: "q \<notin> set zs \<Longrightarrow> filter (\<lambda>t. t \<noteq> q) zs = zs"
  by (rule filter_True) auto

lemma enqueue_sched_inv:
  assumes "sched_inv s Q" and "prio s p < MAX_PRIORITY" and "p \<notin> queue_nodes s Q" and "p \<noteq> NULL"
  shows "sched_inv (sched_fifo_enqueue_task p s) (Q(prio s p := Q (prio s p) @ [p]))"
proof -
  let ?i = "prio s p" and ?s = "sched_fifo_enqueue_task p s"
  have sel: "links ?s = list_add_tail p (all_task s ?i) (links s)" "all_task ?s = all_task s"
    "task_bitmap ?s = set_bit_ul ?i (task_bitmap s)" "\<And>t. prio ?s t = prio s t"
    by (simp_all add: sched_fifo_enqueue_task_def)
  show ?thesis
  proof (rule sched_invI)
    show "queue_family dlist (links ?s) (all_task ?s) {..<MAX_PRIORITY} (Q(?i := Q ?i @ [p]))"
      unfolding sel using klist.family_add_tail [OF sched_invD(1) [OF assms(1)], of ?i p] assms(2,3)
      by (simp only: queue_nodes_def lessThan_iff not_False_eq_True)
    show "bit_at (task_bitmap ?s) i \<longleftrightarrow> (Q(?i := Q ?i @ [p])) i \<noteq> []" if "i < MAX_PRIORITY" for i
      using sched_invD(2) [OF assms(1) that] by (simp add: sel)
    show "prio ?s t = i \<and> t \<noteq> NULL" if "i < MAX_PRIORITY" "t \<in> set ((Q(?i := Q ?i @ [p])) i)" for i t
      using sched_invD(3,4) [OF assms(1) that(1), of t] that(2) assms(4) by (auto simp: sel split: if_splits)
  qed
qed

lemma dequeue_result:
  assumes "sched_inv s Q" and "prio s p < MAX_PRIORITY" and Q: "Q (prio s p) = xs @ p # ys"
  shows "sched_fifo_dequeue_task p s =
    Some (s\<lparr>next_task := first_ready s (ys @ xs), links := list_del p (links s),
            task_bitmap := (if xs @ ys = [] then clear_bit_ul (prio s p) (task_bitmap s)
                            else task_bitmap s)\<rparr>)"
proof -
  let ?q = "all_task s (prio s p)"
  have d: "dlist (links s) ?q (xs @ p # ys)"
    using sched_inv_dlist [OF assms(1,2)] Q by simp
  have "?q \<notin> set (xs @ p # ys)" using dlist_distinct [OF d] by simp
  then have "filter (\<lambda>t. t \<noteq> ?q) (ys @ ?q # xs) = ys @ xs"
    by (simp add: filter_neq_id)
  then have "find_next_task s (prio s p) p = Some (first_ready s (ys @ xs))"
    using find_next_task_dlist [OF dlist_rotate [OF d], of "prio s p"] by simp
  moreover have "list_empty ?q (list_del p (links s)) \<longleftrightarrow> xs @ ys = []"
    using list_empty_dlist [OF list_del_dlist [OF d]] .
  ultimately show ?thesis by (simp add: sched_fifo_dequeue_task_def Let_def)
qed

lemma dequeue_sched_inv:
  assumes "sched_inv s Q" and "prio s p < MAX_PRIORITY" and "p \<in> set (Q (prio s p))"
  shows "\<exists>s'. sched_fifo_dequeue_task p s = Some s' \<and>
    sched_inv s' (Q(prio s p := remove1 p (Q (prio s p))))"
proof -
  obtain xs ys where Q: "Q (prio s p) = xs @ p # ys" and "p \<notin> set xs"
    using assms(3) by (meson split_list_first)
  then have r: "remove1 p (Q (prio s p)) = xs @ ys" by (simp add: remove1_append)
  define s' where "s' = s\<lparr>next_task := first_ready s (ys @ xs), links := list_del p (links s),
      task_bitmap := (if xs @ ys = [] then clear_bit_ul (prio s p) (task_bitmap s) else task_bitmap s)\<rparr>"
  have sel: "links s' = list_del p (links s)" "all_task s' = all_task s" "\<And>t. prio s' t = prio s t"
    "\<And>i. bit_at (task_bitmap s') i \<longleftrightarrow> (xs @ ys \<noteq> [] \<or> i \<noteq> prio s p) \<and> bit_at (task_bitmap s) i"
    by (simp_all add: s'_def)
  have "sched_inv s' (Q(prio s p := xs @ ys))"
  proof (rule sched_invI)
    show "queue_family dlist (links s') (all_task s') {..<MAX_PRIORITY} (Q(prio s p := xs @ ys))"
      unfolding sel r [symmetric]
      using klist.family_del [OF sched_invD(1) [OF assms(1)], of "prio s p" p] assms(2,3)
      by (simp only: lessThan_iff)
    show "bit_at (task_bitmap s') i \<longleftrightarrow> (Q(prio s p := xs @ ys)) i \<noteq> []" if "i < MAX_PRIORITY" for i
      using sched_invD(2) [OF assms(1) that] Q by (auto simp: sel)
    show "prio s' t = i \<and> t \<noteq> NULL" if "i < MAX_PRIORITY" "t \<in> set ((Q(prio s p := xs @ ys)) i)" for i t
      using sched_invD(3,4) [OF assms(1) that(1), of t] that(2) Q by (auto simp: sel split: if_splits)
  qed
  then show ?thesis
    using dequeue_result [OF assms(1,2) Q] r by (simp add: s'_def)
qed

subsection \<open>Which task is picked\<close>

text \<open>
  The tasks a level offers. The level of the running task is searched from that task on,
  around the ring, and never offers the task itself; a task that has just left its queue is
  replaced by the \<open>next_task\<close> that \<open>dequeue_task\<close> remembered.
\<close>

definition after_in_ring :: "ptr \<Rightarrow> ptr list \<Rightarrow> ptr list" where
  "after_in_ring c ts = tl (dropWhile (\<lambda>t. t \<noteq> c) ts) @ takeWhile (\<lambda>t. t \<noteq> c) ts"

definition has_left :: "'a sched_scheme \<Rightarrow> bool" where
  "has_left s \<longleftrightarrow> state_of s (current_task s) = EXITED \<or> state_of s (current_task s) = SLEEPING"

definition candidates :: "'a sched_scheme \<Rightarrow> (nat \<Rightarrow> ptr list) \<Rightarrow> nat \<Rightarrow> ptr list" where
  "candidates s Q i =
     (if Q i = [] then []
      else if i = prio s (current_task s) \<and> has_left s
      then (if next_task s = NULL then [] else [next_task s])
      else filter (\<lambda>t. state_of s t \<noteq> BLOCKED)
             (if i = prio s (current_task s) then after_in_ring (current_task s) (Q i) else Q i))"

definition current_queued :: "'a sched_scheme \<Rightarrow> (nat \<Rightarrow> ptr list) \<Rightarrow> bool" where
  "current_queued s Q \<longleftrightarrow>
     has_left s \<or> current_task s \<in> set (Q (prio s (current_task s)))"

lemma after_in_ring_split:
  "c \<notin> set xs \<Longrightarrow> after_in_ring c (xs @ c # ys) = ys @ xs"
  by (auto simp: after_in_ring_def dropWhile_append takeWhile_tail)

lemma set_after_in_ring: "set (after_in_ring c ts) \<subseteq> set ts"
  by (auto simp: after_in_ring_def dest: set_takeWhileD in_set_tlD set_dropWhileD)

lemma find_next_task_candidates:
  assumes "sched_inv s Q" and "current_queued s Q" and "i < MAX_PRIORITY" and "Q i \<noteq> []"
    and "\<not> (i = prio s (current_task s) \<and> has_left s)"
  shows "find_next_task s i (if i \<noteq> prio s (current_task s) then all_task s i else current_task s) =
    Some (case candidates s Q i of [] \<Rightarrow> NULL | t # _ \<Rightarrow> t)"
proof -
  let ?q = "all_task s i"
  have d: "dlist (links s) ?q (Q i)" using assms(1,3) by (rule sched_inv_dlist)
  show ?thesis
  proof (cases "i = prio s (current_task s)")
    case False
    then have "filter (\<lambda>t. t \<noteq> ?q) (Q i) = Q i"
      using dlist_distinct [OF d] by (simp add: filter_neq_id)
    with False assms show ?thesis
      by (simp add: find_next_task_dlist [OF d] first_ready_def candidates_def)
  next
    case True
    then have "current_task s \<in> set (Q i)" using assms(2,5) by (auto simp: current_queued_def)
    then obtain xs ys where Q: "Q i = xs @ current_task s # ys" and nx: "current_task s \<notin> set xs"
      by (meson split_list_first)
    have "?q \<notin> set (Q i)" using dlist_distinct [OF d] by simp
    then have "filter (\<lambda>t. t \<noteq> ?q) (ys @ ?q # xs) = ys @ xs"
      unfolding Q by (simp add: filter_neq_id)
    moreover have "dlist (links s) (current_task s) (ys @ ?q # xs)"
      using d unfolding Q by (rule dlist_rotate)
    ultimately show ?thesis
      using True assms(4,5) Q after_in_ring_split [OF nx, of ys]
      by (simp add: find_next_task_dlist first_ready_def candidates_def)
  qed
qed

lemma candidates_not_NULL:
  assumes "sched_inv s Q" and "i < MAX_PRIORITY" and "t \<in> set (candidates s Q i)"
  shows "t \<noteq> NULL"
  using assms set_after_in_ring by (fastforce simp: candidates_def sched_inv_def split: if_splits)

lemma pick_loop_done: "\<not> i < MAX_PRIORITY \<Longrightarrow> pick_loop i s = Some (None, s)"
  by (subst pick_loop.simps) simp

lemma pick_loop_skip:
  "i < MAX_PRIORITY \<Longrightarrow> test_bit_ul i (task_bitmap s) = 0 \<Longrightarrow> pick_loop i s = pick_loop (Suc i) s"
  by (subst pick_loop.simps) simp

lemma pick_loop_left:
  "i < MAX_PRIORITY \<Longrightarrow> test_bit_ul i (task_bitmap s) \<noteq> 0 \<Longrightarrow> i = prio s (current_task s) \<Longrightarrow> has_left s \<Longrightarrow>
   pick_loop i s = (if next_task s \<noteq> NULL then Some (Some (next_task s), s\<lparr>next_task := NULL\<rparr>)
                    else pick_loop (Suc i) s)"
  by (subst pick_loop.simps) (simp add: has_left_def)

lemma pick_loop_search:
  "i < MAX_PRIORITY \<Longrightarrow> test_bit_ul i (task_bitmap s) \<noteq> 0 \<Longrightarrow> \<not> (i = prio s (current_task s) \<and> has_left s) \<Longrightarrow>
   find_next_task s i (if i \<noteq> prio s (current_task s) then all_task s i else current_task s) = Some t \<Longrightarrow>
   pick_loop i s = (if t = NULL then pick_loop (Suc i) s else Some (Some t, s))"
  by (subst pick_loop.simps) (auto simp: has_left_def)

lemma pick_loop_candidates:
  assumes "sched_inv s Q" and "current_queued s Q"
  shows "\<exists>n. pick_loop i s =
    Some (case concat (map (candidates s Q) [i..<MAX_PRIORITY]) of [] \<Rightarrow> None | t # _ \<Rightarrow> Some t,
          s\<lparr>next_task := n\<rparr>)"
proof (induction "MAX_PRIORITY - i" arbitrary: i)
  case 0
  then show ?case using pick_loop_done [of i s] by (auto intro: exI [of _ "next_task s"])
next
  case (Suc n)
  then have i: "i < MAX_PRIORITY" by simp
  then have upt: "[i..<MAX_PRIORITY] = i # [Suc i..<MAX_PRIORITY]" by (simp add: upt_conv_Cons)
  have IH: "\<exists>n. pick_loop (Suc i) s =
    Some (case concat (map (candidates s Q) [Suc i..<MAX_PRIORITY]) of [] \<Rightarrow> None | t # _ \<Rightarrow> Some t,
          s\<lparr>next_task := n\<rparr>)"
    using Suc.hyps by (intro Suc.hyps(1)) simp
  have bit: "test_bit_ul i (task_bitmap s) = 0 \<longleftrightarrow> Q i = []"
    using assms(1) i by (simp add: test_bit_bit_at sched_inv_def)
  consider (empty) "Q i = []" | (left) "Q i \<noteq> []" "i = prio s (current_task s)" "has_left s"
    | (search) "Q i \<noteq> []" "\<not> (i = prio s (current_task s) \<and> has_left s)" by blast
  then show ?case
  proof cases
    case empty
    then show ?thesis
      using IH bit pick_loop_skip [OF i, of s] by (simp add: upt candidates_def)
  next
    case left
    then have c: "candidates s Q i = (if next_task s = NULL then [] else [next_task s])"
      by (simp add: candidates_def)
    have "pick_loop i s = (if next_task s \<noteq> NULL then Some (Some (next_task s), s\<lparr>next_task := NULL\<rparr>)
        else pick_loop (Suc i) s)"
      using left bit by (intro pick_loop_left [OF i]) simp_all
    then show ?thesis using IH unfolding upt by (auto simp: c)
  next
    case search
    have f: "find_next_task s i (if i \<noteq> prio s (current_task s) then all_task s i else current_task s) =
        Some (case candidates s Q i of [] \<Rightarrow> NULL | t # _ \<Rightarrow> t)"
      using find_next_task_candidates [OF assms i search] .
    have p: "pick_loop i s = (if (case candidates s Q i of [] \<Rightarrow> NULL | t # _ \<Rightarrow> t) = NULL
        then pick_loop (Suc i) s else Some (Some (case candidates s Q i of [] \<Rightarrow> NULL | t # _ \<Rightarrow> t), s))"
      using search bit by (intro pick_loop_search [OF i _ _ f]) simp_all
    show ?thesis
    proof (cases "candidates s Q i")
      case Nil
      then show ?thesis using IH p unfolding upt by simp
    next
      case (Cons t ts)
      then have "t \<noteq> NULL" using candidates_not_NULL [OF assms(1) i, of t] by simp
      then show ?thesis
        using p Cons unfolding upt by (auto intro: exI [of _ "next_task s"])
    qed
  qed
qed

lemma concat_map_upt_Cons:
  assumes "concat (map f [0..<n]) = t # ts"
  obtains i where "i < n" and "t = hd (f i)" and "f i \<noteq> []" and "\<forall>j < i. f j = []"
proof -
  have "\<exists>k < n. f k \<noteq> []"
  proof (rule ccontr)
    assume "\<not> (\<exists>k < n. f k \<noteq> [])"
    then have "concat (map f [0..<n]) = []" by auto
    with assms show False by simp
  qed
  then obtain k where k: "k < n" "f k \<noteq> []" by blast
  define i where "i = (LEAST k. f k \<noteq> [])"
  have i: "f i \<noteq> []" "\<forall>j < i. f j = []" "i \<le> k"
    unfolding i_def using LeastI [of "\<lambda>k. f k \<noteq> []", OF k(2)] Least_le [of "\<lambda>k. f k \<noteq> []", OF k(2)]
      not_less_Least [of _ "\<lambda>k. f k \<noteq> []"] by blast+
  then have "i < n" using k(1) by simp
  then have "[0..<n] = [0..<i] @ i # [Suc i..<n]"
    using upt_add_eq_append [of 0 i "n - i"] by (simp add: upt_conv_Cons)
  then have "concat (map f [0..<n]) = concat (map f [0..<i]) @ f i @ concat (map f [Suc i..<n])" by simp
  moreover have "concat (map f [0..<i]) = []" using i(2) by simp
  ultimately have "t = hd (f i)" using assms i(1) by (metis append_Nil hd_append2 list.sel(1))
  then show thesis using that [of i] i k by auto
qed

definition offered :: "'a sched_scheme \<Rightarrow> (nat \<Rightarrow> ptr list) \<Rightarrow> ptr list" where
  "offered s Q = concat (map (candidates s Q) [0..<MAX_PRIORITY])"

lemma pick_next_result:
  assumes "sched_inv s Q" and "current_queued s Q"
  shows "\<exists>n. sched_fifo_pick_next_task s = Some
    (case offered s Q of
       [] \<Rightarrow> (NULL, s\<lparr>next_task := n\<rparr>)
     | t # _ \<Rightarrow> (t, (set_task_state t RUNNING (s\<lparr>next_task := n\<rparr>))\<lparr>current_task := t\<rparr>))"
proof -
  obtain n where "pick_loop 0 s =
      Some (case offered s Q of [] \<Rightarrow> None | t # _ \<Rightarrow> Some t, s\<lparr>next_task := n\<rparr>)"
    using pick_loop_candidates [OF assms, of 0] unfolding offered_def by blast
  then show ?thesis
    by (cases "offered s Q") (simp_all add: sched_fifo_pick_next_task_def, blast+)
qed

lemma pick_next_sched_inv:
  assumes "sched_inv s Q" and "current_queued s Q" and "sched_fifo_pick_next_task s = Some (t, s')"
  shows "sched_inv s' Q"
  using pick_next_result [OF assms(1,2)] assms(1,3) by (cases "offered s Q") auto

subsection \<open>Initialisation\<close>

lemma fold_init_heads:
  "q \<in> set qs \<or> (nxt h q = q \<and> prv h q = q) \<Longrightarrow>
   nxt (fold INIT_LIST_HEAD qs h) q = q \<and> prv (fold INIT_LIST_HEAD qs h) q = q"
proof (induction qs arbitrary: h)
  case (Cons a qs)
  show ?case
    unfolding fold_simps by (rule Cons.IH) (use Cons.prems in \<open>auto simp: INIT_LIST_HEAD_def\<close>)
qed simp

lemma sched_fifo_init_fold:
  "fold (\<lambda>i s. s\<lparr>links := INIT_LIST_HEAD (all_task s i) (links s)\<rparr>) is s =
   s\<lparr>links := fold INIT_LIST_HEAD (map (all_task s) is) (links s)\<rparr>"
  by (induction "is" arbitrary: s) simp_all

lemma all_task_inj:
  assumes "i < MAX_PRIORITY" and "j < MAX_PRIORITY" and "all_task s i = all_task s j"
  shows "i = j"
proof -
  have "8 * (of_nat i :: u32) = 8 * of_nat j" using assms(3) by (simp add: all_task_def)
  then have "(of_nat (8 * i) :: u32) = of_nat (8 * j)" by simp
  then have "8 * i = 8 * j" using assms(1,2) by (subst (asm) of_nat_inj_below) simp_all
  then show ?thesis by simp
qed

lemma sched_init_inv:
  assumes "\<forall>i < MAX_PRIORITY. \<not> bit_at (task_bitmap s) i"
  shows "sched_inv (sched_init s) (\<lambda>_. [])"
proof (rule sched_invI)
  let ?h = "fold INIT_LIST_HEAD (map (all_task s) [0..<MAX_PRIORITY]) (links s)"
  have s': "sched_init s = s\<lparr>links := ?h\<rparr>"
    by (simp add: sched_init_def sched_fifo_init_def sched_fifo_init_fold del: upt_rec_numeral)
  have "dlist ?h (all_task s i) []" if "i < MAX_PRIORITY" for i
    using fold_init_heads [of "all_task s i" "map (all_task s) [0..<MAX_PRIORITY]" "links s"] that
    by (simp add: dlist_Nil_iff del: upt_rec_numeral)
  then show "queue_family dlist (links (sched_init s)) (all_task (sched_init s)) {..<MAX_PRIORITY} (\<lambda>_. [])"
    unfolding s' by (auto simp: queue_family_def dest: all_task_inj)
  show "bit_at (task_bitmap (sched_init s)) i \<longleftrightarrow> [] \<noteq> []" if "i < MAX_PRIORITY" for i
    unfolding s' using assms that by simp
qed simp

subsection \<open>Reachable scheduler states\<close>

text \<open>
  The kernel drives the scheduler through these operations only: a task is enqueued when it
  is in no queue, dequeued when it is in one, its state field is written at any time, and
  the next task is picked while the running task is queued or has just left.
\<close>

inductive sched_reach :: "'a sched_scheme \<Rightarrow> (nat \<Rightarrow> ptr list) \<Rightarrow> bool" where
  reach_init: "(\<forall>i < MAX_PRIORITY. \<not> bit_at (task_bitmap s) i) \<Longrightarrow> sched_reach (sched_init s) (\<lambda>_. [])"
| reach_enqueue: "sched_reach s Q \<Longrightarrow> prio s p < MAX_PRIORITY \<Longrightarrow> p \<notin> queue_nodes s Q \<Longrightarrow> p \<noteq> NULL \<Longrightarrow>
    sched_reach (sched_fifo_enqueue_task p s) (Q(prio s p := Q (prio s p) @ [p]))"
| reach_dequeue: "sched_reach s Q \<Longrightarrow> prio s p < MAX_PRIORITY \<Longrightarrow> p \<in> set (Q (prio s p)) \<Longrightarrow>
    sched_fifo_dequeue_task p s = Some s' \<Longrightarrow> sched_reach s' (Q(prio s p := remove1 p (Q (prio s p))))"
| reach_pick: "sched_reach s Q \<Longrightarrow> current_queued s Q \<Longrightarrow> sched_fifo_pick_next_task s = Some (t, s') \<Longrightarrow>
    sched_reach s' Q"
| reach_state: "sched_reach s Q \<Longrightarrow> sched_reach (set_task_state t v s) Q"
| reach_current: "sched_reach s Q \<Longrightarrow> sched_reach (s\<lparr>current_task := t\<rparr>) Q"

lemma sched_reach_inv: "sched_reach s Q \<Longrightarrow> sched_inv s Q"
proof (induction rule: sched_reach.induct)
  case (reach_init s)
  then show ?case by (rule sched_init_inv)
next
  case (reach_enqueue s Q p)
  then show ?case by (intro enqueue_sched_inv)
next
  case (reach_dequeue s Q p s')
  then show ?case using dequeue_sched_inv [of s Q p] by (metis option.inject)
next
  case (reach_pick s Q t s')
  then show ?case using pick_next_sched_inv by blast
qed simp_all

subsection \<open>Properties\<close>

definition example_task :: "u32 \<Rightarrow> task_state \<Rightarrow> task" where
  "example_task p st = \<lparr>sp = 0, priority = p, state = st, stack = 0, stack_size = 8192, mm_pgd = 0,
     task_pid = 0, entry = 0, args = 0, ret = 0, task_name = []\<rparr>"

definition example_boot :: sched where
  "example_boot = \<lparr>links = \<lparr>nxt = \<lambda>_. 0, prv = \<lambda>_. 0\<rparr>,
     task_at = (\<lambda>_. example_task 7 READY)(8192 := example_task 1 RUNNING, 12288 := example_task 5 READY),
     all_task_base = 4096, task_bitmap = (\<lambda>_. 0), current_task = 8192, next_task = 0\<rparr>"

definition example_sched :: sched where
  "example_sched = sched_fifo_enqueue_task 12288 (sched_fifo_enqueue_task 8192 (sched_init example_boot))"

definition example_queues :: "nat \<Rightarrow> ptr list" where
  "example_queues = (\<lambda>_. [])(1 := [8192], 5 := [12288])"

lemma sched_init_sel [simp]:
  "prio (sched_init s) t = prio s t" "all_task (sched_init s) = all_task s"
  "state_of (sched_init s) t = state_of s t" "current_task (sched_init s) = current_task s"
  "next_task (sched_init s) = next_task s" "task_at (sched_init s) = task_at s"
  "all_task_base (sched_init s) = all_task_base s"
  by (simp_all add: sched_init_def sched_fifo_init_def sched_fifo_init_fold del: upt_rec_numeral)

lemma enqueue_sel [simp]:
  "prio (sched_fifo_enqueue_task p s) t = prio s t" "all_task (sched_fifo_enqueue_task p s) = all_task s"
  "state_of (sched_fifo_enqueue_task p s) t = state_of s t"
  "current_task (sched_fifo_enqueue_task p s) = current_task s"
  "next_task (sched_fifo_enqueue_task p s) = next_task s"
  "task_at (sched_fifo_enqueue_task p s) = task_at s"
  "all_task_base (sched_fifo_enqueue_task p s) = all_task_base s"
  by (simp_all add: sched_fifo_enqueue_task_def)

lemma example_boot_sel [simp]:
  "prio example_boot 8192 = 1" "prio example_boot 12288 = 5" "current_task example_boot = 8192"
  "state_of example_boot 8192 = RUNNING" "state_of example_boot 12288 = READY"
  "all_task example_boot i = 4096 + 8 * of_nat i"
  by (simp_all add: example_boot_def example_task_def prio_def state_of_def all_task_def)

lemma lessThan_MAX_PRIORITY: "{..<MAX_PRIORITY} = {0, 1, 2, 3, 4, 5, 6, 7}"
  by auto

lemma upt_MAX_PRIORITY: "[0..<MAX_PRIORITY] = [0, 1, 2, 3, 4, 5, 6, 7]"
  by (simp add: upt_rec)

definition example_sched1 :: sched where
  "example_sched1 = sched_fifo_enqueue_task 8192 (sched_init example_boot)"

lemma example_reach1: "sched_reach example_sched1 ((\<lambda>_. [])(1 := [8192]))"
proof -
  have "sched_reach (sched_init example_boot) (\<lambda>_. [])"
    by (rule reach_init) (simp add: example_boot_def bit_at_def)
  from reach_enqueue [OF this, of 8192] show ?thesis
    by (simp add: queue_nodes_def lessThan_MAX_PRIORITY example_sched1_def)
qed

lemma example_reach: "sched_reach example_sched example_queues"
  using reach_enqueue [OF example_reach1, of 12288]
  by (simp add: queue_nodes_def lessThan_MAX_PRIORITY example_sched_def example_sched1_def example_queues_def)

text \<open>
  C1. Scheduler invariant. In every state the scheduler reaches from \<open>sched_init\<close> by
  enqueuing, dequeuing, picking and writing task states, each of the eight run queues is a
  well-formed circular list, no task is in two queues or twice in one, every queued task has
  the priority of its queue, and bit \<open>i\<close> of \<open>task_bitmap\<close> is set exactly when queue \<open>i\<close> is
  not empty.
\<close>

theorem reachable_run_queues_well_formed:
  assumes "sched_reach s Q"
  shows "(\<forall>i < MAX_PRIORITY. dlist (links s) (all_task s i) (Q i) \<and> distinct (Q i) \<and>
      (bit_at (task_bitmap s) i \<longleftrightarrow> Q i \<noteq> []) \<and> (\<forall>t \<in> set (Q i). prio s t = i)) \<and>
    (\<forall>i < MAX_PRIORITY. \<forall>j < MAX_PRIORITY. i \<noteq> j \<longrightarrow> set (Q i) \<inter> set (Q j) = {})"
proof -
  have inv: "sched_inv s Q" using assms by (rule sched_reach_inv)
  have "dlist (links s) (all_task s i) (Q i) \<and> distinct (Q i) \<and>
      (bit_at (task_bitmap s) i \<longleftrightarrow> Q i \<noteq> []) \<and> (\<forall>t \<in> set (Q i). prio s t = i)" if "i < MAX_PRIORITY" for i
    using sched_inv_dlist [OF inv that] sched_invD(2,3) [OF inv that] dlist_distinct by blast
  moreover have "set (Q i) \<inter> set (Q j) = {}" if "i < MAX_PRIORITY" "j < MAX_PRIORITY" "i \<noteq> j" for i j
    using sched_invD(3) [OF inv that(1)] sched_invD(3) [OF inv that(2)] that(3) by blast
  ultimately show ?thesis by blast
qed

theorem reachable_run_queues_well_formed_witness:
  "dlist (links example_sched) (all_task example_sched 1) [8192] \<and>
   bit_at (task_bitmap example_sched) 5 \<and> \<not> bit_at (task_bitmap example_sched) 0"
proof -
  note w = reachable_run_queues_well_formed [OF example_reach, THEN conjunct1, rule_format]
  show ?thesis using w [of 1] w [of 5] w [of 0] by (simp add: example_queues_def)
qed

text \<open>
  C18. Dequeuing ends, removes exactly the task, clears the bit of a queue that became empty,
  and stores in \<open>next_task\<close> the first task that is not blocked after it in the ring of its
  queue (\<open>NULL\<close> if there is none): the FIFO order of the others is kept.
\<close>

theorem dequeue_keeps_fifo_order:
  assumes "sched_reach s Q" and "prio s p < MAX_PRIORITY" and "Q (prio s p) = xs @ p # ys"
  shows "\<exists>s'. sched_fifo_dequeue_task p s = Some s' \<and> next_task s' = first_ready s (ys @ xs) \<and>
    dlist (links s') (all_task s' (prio s p)) (xs @ ys) \<and>
    (bit_at (task_bitmap s') (prio s p) \<longleftrightarrow> xs @ ys \<noteq> [])"
proof -
  have inv: "sched_inv s Q" using assms(1) by (rule sched_reach_inv)
  have "dlist (list_del p (links s)) (all_task s (prio s p)) (xs @ ys)"
    using list_del_dlist sched_inv_dlist [OF inv assms(2)] assms(3) by metis
  then show ?thesis
    using dequeue_result [OF inv assms(2,3)] sched_invD(2) [OF inv assms(2)] assms(3) by simp
qed

theorem dequeue_keeps_fifo_order_witness:
  "\<exists>s'. sched_fifo_dequeue_task 8192 example_sched = Some s' \<and> next_task s' = NULL \<and>
     \<not> bit_at (task_bitmap s') 1"
  using dequeue_keeps_fifo_order [OF example_reach, of 8192 "[]" "[]"]
  by (auto simp: example_sched_def example_queues_def first_ready_def)

text \<open>
  C19. Picking the next task ends and returns the head of what the levels offer, searched
  from level 0 up: a level other than the running task's offers its tasks that are not
  blocked, in queue order; the running task's own level offers the tasks after it in the
  ring, or \<open>next_task\<close> if the running task has exited or gone to sleep. The task picked is
  \<open>RUNNING\<close> and current, no level above its own offered anything, and if nothing is offered
  the result is \<open>NULL\<close> and the running task stays current.
\<close>

theorem pick_next_takes_first_offer:
  assumes "sched_reach s Q" and "current_queued s Q"
  shows "\<exists>t s'. sched_fifo_pick_next_task s = Some (t, s') \<and> links s' = links s \<and>
    (if offered s Q = [] then t = NULL \<and> current_task s' = current_task s
     else t = hd (offered s Q) \<and> t \<noteq> NULL \<and> current_task s' = t \<and> state_of s' t = RUNNING \<and>
       (\<exists>i < MAX_PRIORITY. t = hd (candidates s Q i) \<and> candidates s Q i \<noteq> [] \<and>
          (\<forall>j < i. candidates s Q j = [])))"
proof -
  have inv: "sched_inv s Q" using assms(1) by (rule sched_reach_inv)
  show ?thesis
  proof (cases "offered s Q")
    case Nil
    then show ?thesis using pick_next_result [OF inv assms(2)] by auto
  next
    case (Cons t ts)
    then obtain i where i: "i < MAX_PRIORITY" "t = hd (candidates s Q i)" "candidates s Q i \<noteq> []"
        "\<forall>j < i. candidates s Q j = []"
      unfolding offered_def by (rule concat_map_upt_Cons)
    then have "t \<noteq> NULL" using candidates_not_NULL [OF inv i(1), of t] by simp
    then show ?thesis using pick_next_result [OF inv assms(2)] Cons i by auto
  qed
qed

theorem pick_next_takes_first_offer_witness:
  "\<exists>s'. sched_fifo_pick_next_task example_sched = Some (12288, s') \<and> current_task s' = 12288"
proof -
  have sel: "current_task example_sched = 8192" "prio example_sched 8192 = 1"
    "state_of example_sched 8192 = RUNNING" "state_of example_sched 12288 = READY"
    by (simp_all add: example_sched_def)
  have "current_queued example_sched example_queues"
    by (simp add: current_queued_def sel example_queues_def)
  moreover have "offered example_sched example_queues = [12288]"
    unfolding offered_def upt_MAX_PRIORITY
    by (simp add: candidates_def example_queues_def has_left_def sel after_in_ring_def)
  ultimately show ?thesis
    using pick_next_takes_first_offer [OF example_reach] by auto
qed

text \<open>
  The running task does not compete with lower priorities: if it is the only ready task
  of its level and no higher level offers a task, a reschedule hands the processor to a task
  of a strictly lower priority (a larger number), although the running task is still ready.
\<close>

theorem pick_next_yields_to_lower_priority:
  assumes "sched_reach s Q" and "current_task s \<in> set (Q (prio s (current_task s)))"
    and "state_of s (current_task s) = RUNNING"
    and "\<forall>i \<le> prio s (current_task s). candidates s Q i = []"
    and "k < MAX_PRIORITY" and "candidates s Q k \<noteq> []"
  shows "\<exists>t s'. sched_fifo_pick_next_task s = Some (t, s') \<and>
    prio s (current_task s) < prio s t \<and> current_task s' = t"
proof -
  have inv: "sched_inv s Q" using assms(1) by (rule sched_reach_inv)
  have cq: "current_queued s Q" using assms(2) by (simp add: current_queued_def)
  have ne: "offered s Q \<noteq> []" using assms(5,6) unfolding offered_def by auto
  then obtain t ts where t: "offered s Q = t # ts" by (cases "offered s Q") auto
  then obtain i where i: "i < MAX_PRIORITY" "t = hd (candidates s Q i)" "candidates s Q i \<noteq> []"
    unfolding offered_def by (rule concat_map_upt_Cons)
  then have lt: "prio s (current_task s) < i" using assms(4) by (meson not_le)
  then have "candidates s Q i = filter (\<lambda>t. state_of s t \<noteq> BLOCKED) (Q i)"
    by (simp add: candidates_def)
  then have "t \<in> set (Q i)"
    using hd_in_set [OF i(3)] i(2) by simp
  then have "prio s t = i" using sched_invD(3) [OF inv i(1)] by blast
  then show ?thesis using pick_next_result [OF inv cq] t lt by auto
qed

theorem pick_next_yields_to_lower_priority_witness:
  "\<exists>t s'. sched_fifo_pick_next_task example_sched = Some (t, s') \<and> 1 < prio example_sched t"
proof -
  have sel: "current_task example_sched = 8192" "prio example_sched 8192 = 1"
    "state_of example_sched 8192 = RUNNING" "state_of example_sched 12288 = READY"
    by (simp_all add: example_sched_def)
  have "\<forall>i \<le> prio example_sched (current_task example_sched). candidates example_sched example_queues i = []"
    by (auto simp: sel candidates_def example_queues_def has_left_def after_in_ring_def)
  from pick_next_yields_to_lower_priority [OF example_reach _ _ this, of 5] show ?thesis
    by (auto simp: sel candidates_def example_queues_def has_left_def)
qed

end
