(* ===== verification/Kernel.thy ===== *)
theory Kernel
  imports Sched
begin

section \<open>The state the tasks share, and critical sections\<close>

text \<open>
  The scheduler's state extended with what \<open>kernel/task.c\<close>, \<open>kernel/timer.c\<close> and the
  primitives built on them keep: the nesting counter of critical sections and the interrupt
  flag, the timers by address and the head of the timer list, the tick counter, the pid
  counter, the words of the task stacks and the list of blocks given to \<open>kfree\<close>. One list heap
  \<open>links\<close> holds every intrusive list of the kernel, so that an operation on one list can be
  shown to leave the others alone. What the console prints is not part of the state.

  \<open>kmalloc\<close> is an argument of the operations that call it (its result; \<open>NULL\<close> when it fails).
  A context switch returns when the old task is scheduled again; what ran in between is the
  argument \<open>others\<close> of the operations that switch, an arbitrary function on the state.
\<close>

datatype handler_return = INT_NO_RESCHEDULE | INT_RESCHEDULE

record timer =
  expired_time :: u32
  periodic_time :: u32
  timer_fn :: ptr
  timer_arg :: ptr

record kernel = sched +
  critical_section_count :: int
  ints_enabled :: bool
  timer_at :: "ptr \<Rightarrow> timer"
  timer_list :: ptr
  ticks :: u64
  first_time :: bool
  tick_registered :: bool
  kernel_pgd :: ptr
  mmu_pgd :: ptr
  pid :: u32
  stack_words :: "ptr \<Rightarrow> u32"
  initial_task_func_addr :: ptr
  task_sleep_function_addr :: ptr
  freed :: "ptr list"

definition enter_critical_section :: "'a kernel_scheme \<Rightarrow> 'a kernel_scheme" where
  "enter_critical_section s =
     (let s1 = (if critical_section_count s = 0 then s\<lparr>ints_enabled := False\<rparr> else s)
      in s1\<lparr>critical_section_count := critical_section_count s1 + 1\<rparr>)"

definition exit_critical_section :: "'a kernel_scheme \<Rightarrow> 'a kernel_scheme" where
  "exit_critical_section s =
     (let s1 = s\<lparr>critical_section_count := critical_section_count s - 1\<rparr>
      in if critical_section_count s1 = 0 then s1\<lparr>ints_enabled := True\<rparr> else s1)"

definition current_time :: "'a kernel_scheme \<Rightarrow> u64" where
  "current_time s = ticks s"

definition kfree_block :: "ptr \<Rightarrow> 'a kernel_scheme \<Rightarrow> 'a kernel_scheme" where
  "kfree_block p s = s\<lparr>freed := freed s @ [p]\<rparr>"

definition upd_task :: "ptr \<Rightarrow> (task \<Rightarrow> task) \<Rightarrow> 'a sched_scheme \<Rightarrow> 'a sched_scheme" where
  "upd_task t f s = s\<lparr>task_at := (task_at s)(t := f (task_at s t))\<rparr>"

definition upd_timer :: "ptr \<Rightarrow> (timer \<Rightarrow> timer) \<Rightarrow> 'a kernel_scheme \<Rightarrow> 'a kernel_scheme" where
  "upd_timer t f s = s\<lparr>timer_at := (timer_at s)(t := f (timer_at s t))\<rparr>"

subsection \<open>Critical sections\<close>

text \<open>Interrupts are off exactly while the nesting counter is not zero.\<close>

definition ints_balanced :: "'a kernel_scheme \<Rightarrow> bool" where
  "ints_balanced s \<longleftrightarrow> 0 \<le> critical_section_count s \<and> (ints_enabled s \<longleftrightarrow> critical_section_count s = 0)"

lemma enter_critical_section_sel [simp]:
  "links (enter_critical_section s) = links s" "task_at (enter_critical_section s) = task_at s"
  "all_task_base (enter_critical_section s) = all_task_base s"
  "task_bitmap (enter_critical_section s) = task_bitmap s"
  "current_task (enter_critical_section s) = current_task s"
  "next_task (enter_critical_section s) = next_task s"
  "timer_at (enter_critical_section s) = timer_at s" "timer_list (enter_critical_section s) = timer_list s"
  "ticks (enter_critical_section s) = ticks s" "freed (enter_critical_section s) = freed s"
  "critical_section_count (enter_critical_section s) = critical_section_count s + 1"
  by (simp_all add: enter_critical_section_def Let_def)

lemma exit_critical_section_sel [simp]:
  "links (exit_critical_section s) = links s" "task_at (exit_critical_section s) = task_at s"
  "all_task_base (exit_critical_section s) = all_task_base s"
  "task_bitmap (exit_critical_section s) = task_bitmap s"
  "current_task (exit_critical_section s) = current_task s"
  "next_task (exit_critical_section s) = next_task s"
  "timer_at (exit_critical_section s) = timer_at s" "timer_list (exit_critical_section s) = timer_list s"
  "ticks (exit_critical_section s) = ticks s" "freed (exit_critical_section s) = freed s"
  "critical_section_count (exit_critical_section s) = critical_section_count s - 1"
  by (simp_all add: exit_critical_section_def Let_def)

lemma ints_balanced_critical [intro]:
  "ints_balanced s \<Longrightarrow> ints_balanced (enter_critical_section s)"
  "ints_balanced s \<Longrightarrow> 0 < critical_section_count s \<Longrightarrow> ints_balanced (exit_critical_section s)"
  by (auto simp: ints_balanced_def enter_critical_section_def exit_critical_section_def Let_def)

lemma critical_section_round_trip:
  "ints_balanced s \<Longrightarrow> exit_critical_section (enter_critical_section s) = s"
  by (cases s) (auto simp: ints_balanced_def enter_critical_section_def exit_critical_section_def Let_def)

subsection \<open>What the scheduler depends on\<close>

text \<open>The scheduler functions and the invariant read the scheduler's fields only.\<close>

lemma sched_inv_cong:
  assumes "links s' = links s" and "all_task_base s' = all_task_base s"
    and "task_bitmap s' = task_bitmap s" and "\<And>t. prio s' t = prio s t"
  shows "sched_inv s' Q = sched_inv s Q"
proof -
  have "all_task s' = all_task s" by (simp add: all_task_def assms fun_eq_iff)
  then show ?thesis by (simp add: sched_inv_def assms)
qed

lemma queue_nodes_cong:
  "all_task_base s' = all_task_base s \<Longrightarrow> queue_nodes s' Q = queue_nodes s Q"
  by (simp add: queue_nodes_def all_task_def)

end
