(* ===== verification/Timer.thy ===== *)
theory Timer
  imports Kernel
begin

section \<open>Kernel timers: \<open>kernel/timer.c\<close>\<close>

text \<open>
  A timer's list node is its first field, so the timer and the node have one address. The
  function a timer calls is a code address; what the code at an address does is the argument
  \<open>call\<close> of \<open>timer_tick\<close> (the kernel's own timer functions are modelled with the components
  they belong to, and the locale \<open>timer_callbacks\<close> states what the tick relies on).
\<close>

definition init_timer_value :: "ptr \<Rightarrow> 'a kernel_scheme \<Rightarrow> 'a kernel_scheme" where
  "init_timer_value t s =
     (upd_timer t (\<lambda>_. \<lparr>expired_time = 0, periodic_time = 0, timer_fn = NULL, timer_arg = NULL\<rparr>) s)
       \<lparr>links := INIT_LIST_HEAD t (links s)\<rparr>"

text \<open>The first timer of the list that expires before the new one.\<close>

partial_function (option) timer_scan :: "'a kernel_scheme \<Rightarrow> ptr \<Rightarrow> ptr \<Rightarrow> ptr option option" where
  "timer_scan s timer iterator =
     (if iterator = timer_list s then Some None
      else if expired_time (timer_at s iterator) < expired_time (timer_at s timer) then Some (Some iterator)
      else timer_scan s timer (nxt (links s) iterator))"

definition timer_list_add :: "ptr \<Rightarrow> 'a kernel_scheme \<Rightarrow> 'a kernel_scheme option" where
  "timer_list_add timer s =
     (if list_empty (timer_list s) (links s)
      then Some (s\<lparr>links := list_add timer (timer_list s) (links s)\<rparr>)
      else case timer_scan s timer (nxt (links s) (timer_list s)) of
             None \<Rightarrow> None
           | Some (Some iterator) \<Rightarrow> Some (s\<lparr>links := list_add timer iterator (links s)\<rparr>)
           | Some None \<Rightarrow> Some (s\<lparr>links := list_add_tail timer (timer_list s) (links s)\<rparr>))"

definition timer_add :: "ptr \<Rightarrow> u32 \<Rightarrow> u32 \<Rightarrow> ptr \<Rightarrow> ptr \<Rightarrow> 'a kernel_scheme \<Rightarrow> 'a kernel_scheme option" where
  "timer_add timer delay_time period function arg s =
     (let now = current_time s;
          s1 = upd_timer timer (\<lambda>_. \<lparr>expired_time = ucast (now + ucast delay_time), periodic_time = period,
                 timer_fn = function, timer_arg = arg\<rparr>) s
      in map_option exit_critical_section (timer_list_add timer (enter_critical_section s1)))"

definition oneshot_timer_add :: "ptr \<Rightarrow> u32 \<Rightarrow> ptr \<Rightarrow> ptr \<Rightarrow> 'a kernel_scheme \<Rightarrow> 'a kernel_scheme option" where
  "oneshot_timer_add timer delay function arg s =
     timer_add timer (if 0 = delay then 1 else delay) 0 function arg s"

definition periodic_timer_add :: "ptr \<Rightarrow> u32 \<Rightarrow> ptr \<Rightarrow> ptr \<Rightarrow> 'a kernel_scheme \<Rightarrow> 'a kernel_scheme option" where
  "periodic_timer_add timer period function arg s =
     (let period = (if 0 = period then 1 else period) in timer_add timer period period function arg s)"

definition timer_delete :: "ptr \<Rightarrow> 'a kernel_scheme \<Rightarrow> 'a kernel_scheme" where
  "timer_delete timer s =
     (let s1 = enter_critical_section s;
          s2 = (if \<not> list_empty timer (links s1) then s1\<lparr>links := list_del_init timer (links s1)\<rparr> else s1)
      in exit_critical_section
           (upd_timer timer (\<lambda>_. \<lparr>expired_time = 0, periodic_time = 0, timer_fn = NULL, timer_arg = NULL\<rparr>) s2))"

type_synonym 's timer_call = "ptr \<Rightarrow> ptr \<Rightarrow> u32 \<Rightarrow> ptr \<Rightarrow> 's \<Rightarrow> (handler_return \<times> 's) option"

definition not_expired :: "u32 \<Rightarrow> u64 \<Rightarrow> bool" where
  "not_expired expired now \<longleftrightarrow> sint (expired - ucast now) > 0"

partial_function (option) timer_tick_loop ::
    "'a kernel_scheme timer_call \<Rightarrow> u64 \<Rightarrow> ptr \<Rightarrow> ptr \<Rightarrow> 'a kernel_scheme \<Rightarrow>
     (handler_return \<times> 'a kernel_scheme) option" where
  "timer_tick_loop call now timer timer_tmp s =
     (if timer = timer_list s then Some (INT_NO_RESCHEDULE, s)
      else if not_expired (expired_time (timer_at s timer)) now then Some (INT_NO_RESCHEDULE, s)
      else
        Option.bind
          (call (timer_fn (timer_at s timer)) timer (ucast now) (timer_arg (timer_at s timer))
             (s\<lparr>links := list_del timer (links s)\<rparr>))
          (\<lambda>(r, s1).
            if r = INT_RESCHEDULE then Some (INT_RESCHEDULE, s1)
            else
              Option.bind
                (if periodic_time (timer_at s timer) \<noteq> 0 \<and> list_empty timer (links s1)
                 then timer_list_add timer
                   (upd_timer timer (\<lambda>t. t\<lparr>expired_time := ucast now + periodic_time (timer_at s timer)\<rparr>) s1)
                 else Some s1)
                (\<lambda>s2. timer_tick_loop call now timer_tmp (nxt (links s2) timer_tmp) s2)))"

definition timer_tick ::
    "'a kernel_scheme timer_call \<Rightarrow> u64 \<Rightarrow> 'a kernel_scheme \<Rightarrow> (handler_return \<times> 'a kernel_scheme) option" where
  "timer_tick call now s =
     (if first_time s then Some (INT_RESCHEDULE, s\<lparr>first_time := False\<rparr>)
      else let timer = nxt (links s) (timer_list s)
           in timer_tick_loop call now timer (nxt (links s) timer) s)"

definition timer_init :: "'a kernel_scheme \<Rightarrow> 'a kernel_scheme" where
  "timer_init s = s\<lparr>links := INIT_LIST_HEAD (timer_list s) (links s), tick_registered := True\<rparr>"

text \<open>What \<open>dump_timers\<close> prints: the name of the task, the timer and its expiry.\<close>

definition dump_timers :: "'a kernel_scheme \<Rightarrow> (u8 list \<times> ptr \<times> u32) list option" where
  "dump_timers s =
     map_option (map (\<lambda>t. (task_name (task_at s (timer_arg (timer_at s t))), t, expired_time (timer_at s t))))
       (list_for_each (links s) (timer_list s))"

subsection \<open>Where a timer is inserted\<close>

lemma take_bit_add_delay: "take_bit 32 (now + take_bit 32 delay) = take_bit 32 (take_bit 64 now + delay)"
  for now delay :: int
proof -
  have "take_bit 32 (take_bit 64 now) = take_bit 32 now" by simp
  then show ?thesis
    using take_bit_add [of 32 now "take_bit 32 delay"] take_bit_add [of 32 "take_bit 64 now" delay] by simp
qed

lemma ucast_add_delay: "ucast (now + ucast delay :: u64) = (ucast now + delay :: u32)"
  by transfer (simp add: take_bit_add_delay)

definition timer_insert :: "(ptr \<Rightarrow> u32) \<Rightarrow> ptr \<Rightarrow> ptr list \<Rightarrow> ptr list" where
  "timer_insert expiry t ts =
     (case dropWhile (\<lambda>i. \<not> expiry i < expiry t) ts of
        [] \<Rightarrow> ts @ [t]
      | i # rest \<Rightarrow> takeWhile (\<lambda>i. \<not> expiry i < expiry t) ts @ i # t # rest)"

abbreviation expiry :: "'a kernel_scheme \<Rightarrow> ptr \<Rightarrow> u32" where
  "expiry s t \<equiv> expired_time (timer_at s t)"

lemma set_timer_insert [simp]: "set (timer_insert e t ts) = insert t (set ts)"
proof (cases "dropWhile (\<lambda>i. \<not> e i < e t) ts")
  case (Cons i rest)
  then have "set ts = set (takeWhile (\<lambda>i. \<not> e i < e t) ts) \<union> set (i # rest)"
    by (metis set_append takeWhile_dropWhile_id)
  with Cons show ?thesis by (auto simp: timer_insert_def)
qed (simp add: timer_insert_def del: dropWhile_eq_Nil_conv)

lemma timer_scan_linked:
  assumes "linked (links s) (x # xs @ [timer_list s])" and "timer_list s \<notin> set (x # xs)"
  shows "timer_scan s t x =
    Some (case dropWhile (\<lambda>i. \<not> expiry s i < expiry s t) (x # xs) of [] \<Rightarrow> None | i # _ \<Rightarrow> Some i)"
  using assms
proof (induction xs arbitrary: x)
  case Nil
  then show ?case by (simp add: timer_scan.simps)
next
  case (Cons a xs)
  then have "nxt (links s) x = a" by simp
  with Cons show ?case by (subst timer_scan.simps) auto
qed

lemma timer_list_add_dlist:
  assumes "dlist (links s) (timer_list s) ts" and "t \<notin> set (timer_list s # ts)"
  shows "\<exists>h. timer_list_add t s = Some (s\<lparr>links := h\<rparr>) \<and>
    dlist h (timer_list s) (timer_insert (expiry s) t ts) \<and>
    unchanged_outside (set (t # timer_list s # ts)) (links s) h"
proof (cases ts)
  case Nil
  then show ?thesis
    using assms list_add_unchanged [OF assms(1)]
    by (intro exI [of _ "list_add t (timer_list s) (links s)"])
      (simp add: timer_list_add_def list_empty_dlist timer_insert_def list_add_dlist)
next
  case (Cons x xs)
  let ?P = "\<lambda>i. \<not> expiry s i < expiry s t"
  have scan: "timer_scan s t (nxt (links s) (timer_list s)) =
      Some (case dropWhile ?P ts of [] \<Rightarrow> None | i # _ \<Rightarrow> Some i)"
    using timer_scan_linked [of s x xs t] assms(1) Cons by (simp add: dlist_def dlist_next)
  show ?thesis
  proof (cases "dropWhile ?P ts")
    case Nil
    then show ?thesis
      using assms scan \<open>ts = x # xs\<close> list_add_tail_unchanged [OF assms(1), of t]
        list_add_tail_dlist [OF assms]
      by (intro exI [of _ "list_add_tail t (timer_list s) (links s)"])
        (simp add: timer_list_add_def list_empty_dlist timer_insert_def list_add_tail_dlist
          del: dropWhile_eq_Nil_conv dropWhile.simps)
  next
    case (Cons i rest)
    then have ts: "ts = takeWhile ?P ts @ i # rest" by (rule takeWhile_dropWhile_split)
    have d: "dlist (list_add t i (links s)) (timer_list s) (takeWhile ?P ts @ i # t # rest)"
      using list_add_after_dlist assms ts by metis
    have "nxt (links s) i = hd (rest @ [timer_list s])"
      using dlist_node_links(2) [of "links s" "timer_list s" "takeWhile ?P ts" i rest] assms(1) ts by simp
    moreover have sub: "set (i # rest) \<subseteq> set ts" by (subst ts) auto
    ultimately have "nxt (links s) i \<in> set (timer_list s # ts)" by (cases rest) auto
    moreover have "i \<in> set ts" using sub by simp
    ultimately have "unchanged_outside (set (t # timer_list s # ts)) (links s) (list_add t i (links s))"
      by (auto simp: unchanged_outside_def list_add_def list_add_between_def)
    then show ?thesis
      using scan Cons d assms(1) \<open>ts = x # xs\<close>
      by (intro exI [of _ "list_add t i (links s)"])
        (simp add: timer_list_add_def list_empty_dlist timer_insert_def del: dropWhile.simps)
  qed
qed


subsection \<open>Which timers a tick fires\<close>

text \<open>
  What \<open>timer_tick\<close> relies on: a timer function returns, keeps the rest of the timer list and
  the timers, and does not make the fired node look like an empty list again.
\<close>

locale timer_callbacks =
  fixes call :: "'a kernel_scheme timer_call"
    and inv :: "'a kernel_scheme \<Rightarrow> ptr list \<Rightarrow> bool"
  assumes inv_dlist: "inv s ts \<Longrightarrow> dlist (links s) (timer_list s) ts"
    and call_ok: "inv s (t # ts) \<Longrightarrow>
      \<exists>r s'. call (timer_fn (timer_at s t)) t n (timer_arg (timer_at s t)) (s\<lparr>links := list_del t (links s)\<rparr>) = Some (r, s') \<and>
        inv s' ts \<and> timer_at s' = timer_at s \<and> timer_list s' = timer_list s \<and> \<not> list_empty t (links s')"
begin

lemma tick_loop_fires_prefix:
  assumes "inv s ts"
  shows "\<exists>r s' k. timer_tick_loop call now (hd (ts @ [timer_list s])) (nxt (links s) (hd (ts @ [timer_list s]))) s = Some (r, s') \<and>
    k \<le> length ts \<and> inv s' (drop k ts) \<and> timer_at s' = timer_at s \<and>
    (\<forall>t \<in> set (take k ts). \<not> not_expired (expiry s t) now) \<and>
    (if r = INT_RESCHEDULE then 0 < k else drop k ts = [] \<or> not_expired (expiry s (hd (drop k ts))) now)"
  using assms
proof (induction ts arbitrary: s)
  case Nil
  then show ?case by (auto simp: timer_tick_loop.simps intro: exI [of _ 0])
next
  case (Cons t ts)
  have d: "dlist (links s) (timer_list s) (t # ts)" using Cons.prems by (rule inv_dlist)
  then have t: "t \<noteq> timer_list s" and tmp: "nxt (links s) t = hd (ts @ [timer_list s])"
    using dlist_distinct [OF d] dlist_node_links(2) [of _ _ "[]"] by auto
  show ?case
  proof (cases "not_expired (expiry s t) now")
    case True
    then show ?thesis using t Cons.prems by (auto simp: timer_tick_loop.simps intro!: exI [of _ 0])
  next
    case False
    obtain r s' where c: "call (timer_fn (timer_at s t)) t (ucast now) (timer_arg (timer_at s t))
          (s\<lparr>links := list_del t (links s)\<rparr>) = Some (r, s')" "inv s' ts" "timer_at s' = timer_at s"
        "timer_list s' = timer_list s" "\<not> list_empty t (links s')"
      using call_ok [OF Cons.prems] by blast
    show ?thesis
    proof (cases r)
      case INT_RESCHEDULE
      then show ?thesis using c t False
        by (auto simp: timer_tick_loop.simps tmp intro!: exI [of _ 1])
    next
      case INT_NO_RESCHEDULE
      then have "timer_tick_loop call now t (hd (ts @ [timer_list s])) s =
          timer_tick_loop call now (hd (ts @ [timer_list s'])) (nxt (links s') (hd (ts @ [timer_list s']))) s'"
        using c t False by (subst timer_tick_loop.simps) simp
      moreover obtain r2 s2 k where "timer_tick_loop call now (hd (ts @ [timer_list s']))
            (nxt (links s') (hd (ts @ [timer_list s']))) s' = Some (r2, s2)" "k \<le> length ts"
          "inv s2 (drop k ts)" "timer_at s2 = timer_at s" "\<forall>t \<in> set (take k ts). \<not> not_expired (expiry s t) now"
          "if r2 = INT_RESCHEDULE then 0 < k else drop k ts = [] \<or> not_expired (expiry s (hd (drop k ts))) now"
        using Cons.IH [OF c(2)] unfolding c(3) by blast
      ultimately show ?thesis using False
        by (intro exI [of _ r2] exI [of _ s2] exI [of _ "Suc k"]) (auto simp: tmp)
    qed
  qed
qed

end

lemma timer_add_result:
  assumes "dlist (links s) (timer_list s) ts" and "t \<notin> set (timer_list s # ts)"
  shows "\<exists>h. timer_add t delay period f arg s =
      Some (exit_critical_section ((enter_critical_section (upd_timer t
        (\<lambda>_. \<lparr>expired_time = ucast (ticks s) + delay, periodic_time = period, timer_fn = f, timer_arg = arg\<rparr>) s))
          \<lparr>links := h\<rparr>)) \<and>
    dlist h (timer_list s) (timer_insert ((expiry s)(t := ucast (ticks s) + delay)) t ts) \<and>
    unchanged_outside (set (t # timer_list s # ts)) (links s) h"
proof -
  let ?s1 = "enter_critical_section (upd_timer t
        (\<lambda>_. \<lparr>expired_time = ucast (ticks s) + delay, periodic_time = period, timer_fn = f, timer_arg = arg\<rparr>) s)"
  have sel: "links ?s1 = links s" "timer_list ?s1 = timer_list s"
    "expiry ?s1 = (expiry s)(t := ucast (ticks s) + delay)"
    by (simp_all add: upd_timer_def fun_eq_iff)
  show ?thesis
    using timer_list_add_dlist [of ?s1 ts t] assms unfolding sel
    by (auto simp: timer_add_def current_time_def Let_def ucast_add_delay)
qed

subsection \<open>Properties\<close>

definition example_timers :: kernel where
  "example_timers = \<lparr>links = INIT_LIST_HEAD 256 \<lparr>nxt = \<lambda>_. 0, prv = \<lambda>_. 0\<rparr>,
     task_at = (\<lambda>_. example_task 7 READY), all_task_base = 4096, task_bitmap = (\<lambda>_. 0),
     current_task = 8192, next_task = 0, critical_section_count = 0, ints_enabled = True,
     timer_at = (\<lambda>_. \<lparr>expired_time = 0, periodic_time = 0, timer_fn = 0, timer_arg = 0\<rparr>),
     timer_list = 256, ticks = 100, first_time = False, tick_registered = True, kernel_pgd = 0,
     mmu_pgd = 0, pid = 0, stack_words = (\<lambda>_. 0), initial_task_func_addr = 64,
     task_sleep_function_addr = 128, freed = []\<rparr>"

text \<open>
  Adding a timer returns, stores the expiry \<open>now + delay\<close> (a zero delay counts as one) and
  links the timer into the list: behind the first timer of the list that expires strictly
  earlier, or last if there is none. No other list node changes and the nesting of critical
  sections is as before.
\<close>

theorem oneshot_timer_add_inserts:
  assumes "dlist (links s) (timer_list s) ts" and "t \<notin> set (timer_list s # ts)"
  shows "\<exists>s'. oneshot_timer_add t delay f arg s = Some s' \<and>
    timer_at s' t = \<lparr>expired_time = ucast (ticks s) + (if delay = 0 then 1 else delay),
                     periodic_time = 0, timer_fn = f, timer_arg = arg\<rparr> \<and>
    (\<forall>u. u \<noteq> t \<longrightarrow> timer_at s' u = timer_at s u) \<and>
    timer_list s' = timer_list s \<and> dlist (links s') (timer_list s') (timer_insert (expiry s') t ts) \<and>
    unchanged_outside (set (t # timer_list s # ts)) (links s) (links s') \<and>
    critical_section_count s' = critical_section_count s"
  using timer_add_result [OF assms, of "if delay = 0 then 1 else delay" 0 f arg]
  by (auto simp: oneshot_timer_add_def upd_timer_def fun_upd_def if_distrib [of expired_time] cong: if_cong)

theorem oneshot_timer_add_inserts_witness:
  "\<exists>s'. oneshot_timer_add 512 0 128 8192 example_timers = Some s' \<and>
     expired_time (timer_at s' 512) = 101 \<and> dlist (links s') 256 [512] \<and> critical_section_count s' = 0"
proof -
  have "dlist (links example_timers) (timer_list example_timers) []" "512 \<notin> set (timer_list example_timers # [])"
    by (simp_all add: example_timers_def INIT_LIST_HEAD_dlist)
  from oneshot_timer_add_inserts [OF this, of 0 128 8192] show ?thesis
    by (auto simp: example_timers_def timer_insert_def)
qed

text \<open>
  The timer list is not kept in expiry order. If its first timer expires before the new
  one, the new timer goes second, ahead of every other timer however early it expires; and a
  tick stops at the first timer that has not expired, so it fires nothing while that timer is
  at the front, whatever has expired behind it.
\<close>

theorem late_timer_hides_expired_ones:
  assumes "dlist (links s) (timer_list s) (a # ts)" and "t \<notin> set (timer_list s # a # ts)"
    and "expiry s a < expiry s t" and "\<not> first_time u" and "dlist (links u) (timer_list u) (t # us)"
    and "not_expired (expiry u t) now"
  shows "(\<exists>s'. timer_list_add t s = Some s' \<and> dlist (links s') (timer_list s') (a # t # ts)) \<and>
    timer_tick call now u = Some (INT_NO_RESCHEDULE, u)"
proof -
  have "timer_insert (expiry s) t (a # ts) = a # t # ts" using assms(3) by (simp add: timer_insert_def)
  then have "\<exists>s'. timer_list_add t s = Some s' \<and> dlist (links s') (timer_list s') (a # t # ts)"
    using timer_list_add_dlist [OF assms(1,2)] by auto
  moreover have "nxt (links u) (timer_list u) = t" "t \<noteq> timer_list u"
    using assms(5) dlist_distinct [OF assms(5)] by (auto simp: dlist_next)
  ultimately show ?thesis using assms(4,6) by (simp add: timer_tick_def timer_tick_loop.simps)
qed

definition example_timers3 :: kernel where
  "example_timers3 = (example_timers\<lparr>timer_at := (\<lambda>t. \<lparr>expired_time =
       (if t = 512 then 10 else if t = 544 then 20 else 30), periodic_time = 0, timer_fn = 128, timer_arg = 0\<rparr>)\<rparr>)
     \<lparr>links := list_add_tail 544 256 (list_add_tail 512 256 (links example_timers))\<rparr>"

theorem late_timer_hides_expired_ones_witness:
  "(\<exists>s'. timer_list_add 576 example_timers3 = Some s' \<and> dlist (links s') (timer_list s') [512, 576, 544]) \<and>
   timer_tick (\<lambda>_ _ _ _ _. None) 25 (example_timers3\<lparr>links := list_add_tail 544 256 (list_add_tail 576 256 (links example_timers))\<rparr>) =
     Some (INT_NO_RESCHEDULE, example_timers3\<lparr>links := list_add_tail 544 256 (list_add_tail 576 256 (links example_timers))\<rparr>)"
proof -
  have e: "dlist (links example_timers) 256 []" by (simp add: example_timers_def INIT_LIST_HEAD_dlist)
  have d: "dlist (list_add_tail 544 256 (list_add_tail 512 256 (links example_timers))) 256 ([512] @ [544])"
    "dlist (list_add_tail 544 256 (list_add_tail 576 256 (links example_timers))) 256 ([576] @ [544])"
    using list_add_tail_dlist [OF e, of 512] list_add_tail_dlist [OF e, of 576]
    by (intro list_add_tail_dlist; simp)+
  show ?thesis
    using d by (intro late_timer_hides_expired_ones)
      (simp_all add: example_timers3_def not_expired_def, simp_all add: example_timers_def)
qed

end
