(* ===== verification/Task.thy ===== *)
theory Task
  imports Timer
begin

section \<open>Tasks: \<open>kernel/task.c\<close>, \<open>arch/arm/arch_task.c\<close>\<close>

text \<open>
  Creating, switching, sleeping, waking and ending tasks. Arguments stand for what is outside
  these files: the results of \<open>kmalloc\<close>, and \<open>others old new\<close>, the effect of the assembly
  routine \<open>arm_context_switch\<close> up to the moment at which \<open>old\<close> runs again.
\<close>

abbreviation STACK_DEF_SIZE :: u32 where "STACK_DEF_SIZE \<equiv> 0x2000"

abbreviation TASK_NAME_SIZE :: nat where "TASK_NAME_SIZE \<equiv> 32"

type_synonym 's switch = "ptr \<Rightarrow> ptr \<Rightarrow> 's \<Rightarrow> 's"

subsection \<open>Creating a task\<close>

definition zero_task :: task where
  "zero_task = \<lparr>sp = 0, priority = 0, state = RUNNING, stack = 0, stack_size = 0, mm_pgd = 0,
     task_pid = 0, entry = 0, args = 0, ret = 0, task_name = []\<rparr>"

text \<open>
  The name is copied without a length check into the 32 bytes at the end of the structure; a
  longer name is written past the allocated block, here the error \<open>Out_Of_Bounds\<close>.
\<close>

definition task_alloc ::
    "u8 list option \<Rightarrow> u32 \<Rightarrow> u32 \<Rightarrow> ptr \<Rightarrow> 'a kernel_scheme \<Rightarrow> (ptr \<times> 'a kernel_scheme) res" where
  "task_alloc name size_of_stack prio_level t s =
     (case name of
        None \<Rightarrow> Inr (NULL, s)
      | Some n \<Rightarrow>
          if prio_level \<ge> of_nat MAX_PRIORITY then Inr (NULL, s)
          else if t = NULL then Inr (NULL, s)
          else if length n + 1 > TASK_NAME_SIZE then Inl Out_Of_Bounds
          else Inr (t, (upd_task t (\<lambda>_. zero_task\<lparr>task_name := n, task_pid := pid s,
                  stack_size := size_of_stack, priority := prio_level, mm_pgd := kernel_pgd s\<rparr>) s)
                \<lparr>links := set_prev t 0 (set_next t 0 (links s)), pid := pid s + 1\<rparr>))"

definition task_free :: "ptr \<Rightarrow> 'a kernel_scheme \<Rightarrow> 'a kernel_scheme" where
  "task_free t s = (if NULL = t then s else kfree_block t (kfree_block (stack (task_at s t)) s))"

text \<open>The nine words of a \<open>context_switch_frame\<close>; \<open>lr\<close> is the last.\<close>

definition arch_task_initialize :: "ptr \<Rightarrow> 'a kernel_scheme \<Rightarrow> 'a kernel_scheme" where
  "arch_task_initialize t s =
     (let stack_top = (stack (task_at s t) + stack_size (task_at s t)) AND NOT 7;
          frame = stack_top - 36;
          zeroed = (\<lambda>a. if a \<in> {frame, frame + 4, frame + 8, frame + 12, frame + 16, frame + 20,
                                frame + 24, frame + 28, frame + 32} then 0 else stack_words s a)
      in upd_task t (\<lambda>r. r\<lparr>sp := frame\<rparr>)
           (s\<lparr>stack_words := zeroed(frame + 32 := initial_task_func_addr s)\<rparr>))"

definition task_create :: "ptr \<Rightarrow> ptr \<Rightarrow> ptr \<Rightarrow> ptr \<Rightarrow> 'a kernel_scheme \<Rightarrow> int \<times> 'a kernel_scheme" where
  "task_create t routine arg stack_addr s =
     (let s1 = (if 0 = stack_size (task_at s t) then upd_task t (\<lambda>r. r\<lparr>stack_size := STACK_DEF_SIZE\<rparr>) s else s)
      in if stack_addr = NULL then (- 1, s1)
         else
           let s2 = upd_task t (\<lambda>r. r\<lparr>stack := stack_addr, entry := routine, args := arg, state := CREATING\<rparr>) s1;
               s3 = arch_task_initialize t s2;
               s4 = s3\<lparr>links := INIT_LIST_HEAD t (links s3)\<rparr>
           in (0, sc_enqueue_task sched_class_fifo t s4))"

text \<open>The bytes of the string \<open>init\<close>.\<close>

definition INIT_TASK_NAME :: "u8 list" where
  "INIT_TASK_NAME = [105, 110, 105, 116]"

definition task_create_init :: "ptr \<Rightarrow> ptr \<Rightarrow> 'a kernel_scheme \<Rightarrow> 'a kernel_scheme" where
  "task_create_init init stack_addr s =
     (if init = NULL then s
      else if stack_addr = NULL then kfree_block init s
      else
        let s1 = upd_task init (\<lambda>r. r\<lparr>sp := stack_addr + STACK_DEF_SIZE, stack_size := STACK_DEF_SIZE,
                   priority := of_nat MAX_PRIORITY - 1, state := CREATING, mm_pgd := kernel_pgd s,
                   task_name := INIT_TASK_NAME\<rparr>) s;
            s2 = s1\<lparr>links := INIT_LIST_HEAD init (links s1)\<rparr>
        in (sc_enqueue_task sched_class_fifo init s2)\<lparr>current_task := init\<rparr>)"

definition task_init :: "'a kernel_scheme \<Rightarrow> 'a kernel_scheme" where
  "task_init s = sched_init s"

subsection \<open>Switching, sleeping and waking\<close>

definition arch_context_switch :: "'a kernel_scheme switch \<Rightarrow> ptr \<Rightarrow> ptr \<Rightarrow> 'a kernel_scheme \<Rightarrow> 'a kernel_scheme" where
  "arch_context_switch others oldtask newtask s =
     others oldtask newtask (s\<lparr>mmu_pgd := mm_pgd (task_at s newtask)\<rparr>)"

definition task_schedule :: "'a kernel_scheme switch \<Rightarrow> 'a kernel_scheme \<Rightarrow> 'a kernel_scheme option" where
  "task_schedule others s =
     (let old_task = current_task s in
      case sc_pick_next_task sched_class_fifo s of
        None \<Rightarrow> None
      | Some (new_task, s1) \<Rightarrow>
          if NULL = new_task \<or> old_task = new_task then Some s1
          else Some (arch_context_switch others old_task new_task s1))"

definition task_sleep_function :: "ptr \<Rightarrow> u32 \<Rightarrow> ptr \<Rightarrow> 'a kernel_scheme \<Rightarrow> (handler_return \<times> 'a kernel_scheme) option" where
  "task_sleep_function timer now t s =
     (let s1 = enter_critical_section (set_task_state t READY s);
          s2 = kfree_block timer (sc_enqueue_task sched_class_fifo t s1)
      in Some (INT_RESCHEDULE, exit_critical_section s2))"

text \<open>When \<open>kmalloc\<close> fails the code only reports it and goes on with the null pointer.\<close>

definition task_sleep :: "'a kernel_scheme switch \<Rightarrow> ptr \<Rightarrow> u32 \<Rightarrow> 'a kernel_scheme \<Rightarrow> 'a kernel_scheme option" where
  "task_sleep others timer delay s =
     (let s1 = enter_critical_section (init_timer_value timer s) in
      Option.bind (oneshot_timer_add timer delay (task_sleep_function_addr s1) (current_task s1) s1) (\<lambda>s2.
      Option.bind (sc_dequeue_task sched_class_fifo (current_task s2) (set_task_state (current_task s2) SLEEPING s2)) (\<lambda>s3.
      map_option exit_critical_section (task_schedule others s3))))"

definition task_exit :: "'a kernel_scheme switch \<Rightarrow> u32 \<Rightarrow> 'a kernel_scheme \<Rightarrow> 'a kernel_scheme option" where
  "task_exit others retcode s =
     (let s1 = enter_critical_section s;
          s2 = upd_task (current_task s1) (\<lambda>r. r\<lparr>state := EXITED, ret := retcode\<rparr>) s1
      in Option.bind (sc_dequeue_task sched_class_fifo (current_task s2) s2) (task_schedule others))"

text \<open>The body of a new task; \<open>run\<close> is the code at \<open>entry\<close>.\<close>

definition initial_task_func ::
    "'a kernel_scheme switch \<Rightarrow> (ptr \<Rightarrow> ptr \<Rightarrow> 'a kernel_scheme \<Rightarrow> (u32 \<times> 'a kernel_scheme) option) \<Rightarrow>
     'a kernel_scheme \<Rightarrow> 'a kernel_scheme option" where
  "initial_task_func others run s =
     (let s1 = exit_critical_section s in
      case run (entry (task_at s1 (current_task s1))) (args (task_at s1 (current_task s1))) s1 of
        None \<Rightarrow> None
      | Some (r, s2) \<Rightarrow> task_exit others r s2)"

definition try_to_wake_up :: "'a kernel_scheme switch \<Rightarrow> ptr \<Rightarrow> 'a kernel_scheme \<Rightarrow> (int \<times> 'a kernel_scheme) option" where
  "try_to_wake_up others t s =
     (let s1 = enter_critical_section (set_task_state t READY s);
          s2 = sc_enqueue_task sched_class_fifo t s1
      in map_option (\<lambda>s3. (0, exit_critical_section s3)) (task_schedule others s2))"

abbreviation MAX_SCHEDULE_TIMEOUT :: u32 where "MAX_SCHEDULE_TIMEOUT \<equiv> 0x7FFFFFFF"

definition schedule_timeout :: "'a kernel_scheme switch \<Rightarrow> ptr \<Rightarrow> u32 \<Rightarrow> 'a kernel_scheme \<Rightarrow> (int \<times> 'a kernel_scheme) option" where
  "schedule_timeout others timer timeout s =
     (let out = (\<lambda>(t :: u32) s. (if sint t < 0 then 0 else sint t, s)) in
      if timeout = MAX_SCHEDULE_TIMEOUT then
        Option.bind (sc_dequeue_task sched_class_fifo (current_task s) (set_task_state (current_task s) SLEEPING s)) (\<lambda>s1.
          map_option (out timeout) (task_schedule others s1))
      else if sint timeout < 0 then Some (out timeout (set_task_state (current_task s) RUNNING s))
      else
        let expire = ucast (scast timeout + current_time s) :: u32 in
        map_option (\<lambda>s1. out (expire - ucast (current_time s1)) s1) (task_sleep others timer expire s))"


subsection \<open>The lists of the kernel\<close>

text \<open>
  The run queues and the timer list share one heap. \<open>lists_inv\<close> says both are well formed and
  have no node in common; \<open>kernel_inv\<close> adds that every timer belongs to a sleeping task of its
  own that is in no run queue.
\<close>

definition lists_inv :: "'a kernel_scheme \<Rightarrow> (nat \<Rightarrow> ptr list) \<Rightarrow> ptr list \<Rightarrow> bool" where
  "lists_inv s Q T \<longleftrightarrow>
     sched_inv s Q \<and> dlist (links s) (timer_list s) T \<and>
     set (timer_list s # T) \<inter> queue_nodes s Q = {} \<and> NULL \<notin> set T"

abbreviation sleeper :: "'a kernel_scheme \<Rightarrow> ptr \<Rightarrow> ptr" where
  "sleeper s t \<equiv> timer_arg (timer_at s t)"

definition sleepers_ok :: "'a kernel_scheme \<Rightarrow> (nat \<Rightarrow> ptr list) \<Rightarrow> ptr list \<Rightarrow> bool" where
  "sleepers_ok s Q T \<longleftrightarrow>
     inj_on (sleeper s) (set T) \<and>
     (\<forall>t \<in> set T. timer_fn (timer_at s t) = task_sleep_function_addr s \<and> sleeper s t \<noteq> NULL \<and>
        prio s (sleeper s t) < MAX_PRIORITY \<and> sleeper s t \<notin> queue_nodes s Q \<and>
        sleeper s t \<notin> set (timer_list s # T))"

definition kernel_inv :: "'a kernel_scheme \<Rightarrow> (nat \<Rightarrow> ptr list) \<Rightarrow> ptr list \<Rightarrow> bool" where
  "kernel_inv s Q T \<longleftrightarrow> lists_inv s Q T \<and> sleepers_ok s Q T"

lemma lists_invD:
  assumes "lists_inv s Q T"
  shows "sched_inv s Q" and "dlist (links s) (timer_list s) T"
    and "set (timer_list s # T) \<inter> queue_nodes s Q = {}" and "NULL \<notin> set T"
  using assms unfolding lists_inv_def by blast+

lemma lists_invI:
  "sched_inv s Q \<Longrightarrow> dlist (links s) (timer_list s) T \<Longrightarrow>
   set (timer_list s # T) \<inter> queue_nodes s Q = {} \<Longrightarrow> NULL \<notin> set T \<Longrightarrow> lists_inv s Q T"
  unfolding lists_inv_def by blast

lemma lists_inv_cong:
  assumes "links s' = links s" and "all_task_base s' = all_task_base s"
    and "task_bitmap s' = task_bitmap s" and "\<And>t. prio s' t = prio s t" and "timer_list s' = timer_list s"
  shows "lists_inv s' Q T = lists_inv s Q T"
  unfolding lists_inv_def
  using sched_inv_cong [OF assms(1-4)] queue_nodes_cong [OF assms(2)] assms(1,5) by simp

lemma queue_node_dlist:
  "i < MAX_PRIORITY \<Longrightarrow> set (all_task s i # Q i) \<subseteq> queue_nodes s Q"
  unfolding queue_nodes_def by blast

lemma sched_inv_links_frame:
  assumes "sched_inv s Q" and "unchanged_outside S (links s) h" and "S \<inter> queue_nodes s Q = {}"
  shows "sched_inv (s\<lparr>links := h\<rparr>) Q"
proof (rule sched_invI)
  have "dlist h (all_task s i) (Q i)" if "i < MAX_PRIORITY" for i
    using unchanged_outside_dlist [OF assms(2) sched_inv_dlist [OF assms(1) that]]
      queue_node_dlist [OF that, of s Q] assms(3) by blast
  then show "queue_family dlist (links (s\<lparr>links := h\<rparr>)) (all_task (s\<lparr>links := h\<rparr>)) {..<MAX_PRIORITY} Q"
    using sched_invD(1) [OF assms(1)] by (simp add: queue_family_def)
qed (use sched_invD [OF assms(1)] in auto)

lemma lists_inv_timers:
  assumes "lists_inv s Q T" and "dlist h (timer_list s) T'" and "unchanged_outside S (links s) h"
    and "S \<inter> queue_nodes s Q = {}" and "set T' \<inter> queue_nodes s Q = {}" and "NULL \<notin> set T'"
  shows "lists_inv (s\<lparr>links := h\<rparr>) Q T'"
proof (rule lists_invI)
  show "sched_inv (s\<lparr>links := h\<rparr>) Q"
    using lists_invD(1) [OF assms(1)] assms(3,4) by (rule sched_inv_links_frame)
  have "queue_nodes (s\<lparr>links := h\<rparr>) Q = queue_nodes s Q" by (rule queue_nodes_cong) simp
  then show "set (timer_list (s\<lparr>links := h\<rparr>) # T') \<inter> queue_nodes (s\<lparr>links := h\<rparr>) Q = {}"
    using lists_invD(3) [OF assms(1)] assms(5) by auto
qed (use assms in simp_all)

lemma lists_inv_del_timer:
  assumes "lists_inv s Q (t # T)"
  shows "lists_inv (s\<lparr>links := list_del t (links s)\<rparr>) Q T"
proof (rule lists_inv_timers [OF assms])
  note d = lists_invD(2) [OF assms]
  show "dlist (list_del t (links s)) (timer_list s) T"
    using list_del_dlist [of _ _ "[]"] d by fastforce
  show "unchanged_outside (set (timer_list s # t # T)) (links s) (list_del t (links s))"
    using d by (rule list_del_unchanged) simp
qed (use lists_invD(3,4) [OF assms] in auto)

lemma lists_inv_enqueue:
  assumes "lists_inv s Q T" and "prio s p < MAX_PRIORITY" and "p \<notin> queue_nodes s Q" and "p \<noteq> NULL"
    and "p \<notin> set (timer_list s # T)"
  shows "lists_inv (sched_fifo_enqueue_task p s) (Q(prio s p := Q (prio s p) @ [p])) T"
proof (rule lists_invI)
  let ?s = "sched_fifo_enqueue_task p s" and ?q = "all_task s (prio s p)"
  show "sched_inv ?s (Q(prio s p := Q (prio s p) @ [p]))"
    using lists_invD(1) [OF assms(1)] assms(2-4) by (rule enqueue_sched_inv)
  have "set (p # ?q # Q (prio s p)) \<inter> set (timer_list s # T) = {}"
    using lists_invD(3) [OF assms(1)] queue_node_dlist [OF assms(2), of s Q] assms(5) by auto
  then show "dlist (links ?s) (timer_list ?s) T"
    using klist.frame_add_tail [OF sched_inv_dlist [OF lists_invD(1) [OF assms(1)] assms(2)] lists_invD(2) [OF assms(1)]]
    by (simp add: sched_fifo_enqueue_task_def)
  have "queue_nodes ?s (Q(prio s p := Q (prio s p) @ [p])) \<subseteq> insert p (queue_nodes s Q)"
    by (auto simp: queue_nodes_def split: if_splits)
  moreover have "timer_list ?s = timer_list s" by (simp add: sched_fifo_enqueue_task_def)
  ultimately show "set (timer_list ?s # T) \<inter> queue_nodes ?s (Q(prio s p := Q (prio s p) @ [p])) = {}"
    using lists_invD(3) [OF assms(1)] assms(5) by auto
qed (rule lists_invD(4) [OF assms(1)])

lemma first_ready_in: "first_ready s ts \<in> insert NULL (set ts)"
proof (cases "filter (\<lambda>t. state_of s t \<noteq> BLOCKED) ts")
  case (Cons t us)
  then have "t \<in> set (filter (\<lambda>t. state_of s t \<noteq> BLOCKED) ts)" by (simp only: list.set_intros)
  then have "t \<in> set ts" by simp
  then show ?thesis using Cons by (simp add: first_ready_def)
qed (simp add: first_ready_def)

lemma lists_inv_dequeue:
  assumes "lists_inv s Q T" and "prio s p < MAX_PRIORITY" and "p \<in> set (Q (prio s p))"
  shows "\<exists>s' h b n. sched_fifo_dequeue_task p s = Some s' \<and>
    s' = s\<lparr>next_task := n, links := h, task_bitmap := b\<rparr> \<and> n \<noteq> p \<and>
    lists_inv s' (Q(prio s p := remove1 p (Q (prio s p)))) T"
proof -
  obtain xs ys where Q: "Q (prio s p) = xs @ p # ys" using assms(3) by (meson split_list)
  note inv = lists_invD(1) [OF assms(1)]
  obtain s' where s': "sched_fifo_dequeue_task p s = Some s'"
      "sched_inv s' (Q(prio s p := remove1 p (Q (prio s p))))"
    using dequeue_sched_inv [OF inv assms(2,3)] by blast
  have eq: "s' = s\<lparr>next_task := first_ready s (ys @ xs), links := list_del p (links s),
       task_bitmap := (if xs @ ys = [] then clear_bit_ul (prio s p) (task_bitmap s) else task_bitmap s)\<rparr>"
    using dequeue_result [OF inv assms(2) Q] s'(1) by simp
  have "lists_inv s' (Q(prio s p := remove1 p (Q (prio s p)))) T"
  proof (rule lists_invI [OF s'(2)])
    have "set (all_task s (prio s p) # Q (prio s p)) \<inter> set (timer_list s # T) = {}"
      using lists_invD(3) [OF assms(1)] queue_node_dlist [OF assms(2), of s Q] by blast
    then show "dlist (links s') (timer_list s') T"
      using klist.frame_del [OF sched_inv_dlist [OF inv assms(2)] assms(3) lists_invD(2) [OF assms(1)]] eq by simp
    have "queue_nodes s' (Q(prio s p := remove1 p (Q (prio s p)))) \<subseteq> queue_nodes s Q"
      using set_remove1_subset [of p "Q (prio s p)"] queue_nodes_cong [of s' s Q] eq
      by (auto simp: queue_nodes_def split: if_splits)
    moreover have "timer_list s' = timer_list s" using eq by simp
    ultimately show "set (timer_list s' # T) \<inter> queue_nodes s' (Q(prio s p := remove1 p (Q (prio s p)))) = {}"
      using lists_invD(3) [OF assms(1)] by auto
  qed (rule lists_invD(4) [OF assms(1)])
  moreover have "first_ready s (ys @ xs) \<noteq> p"
  proof -
    have "p \<notin> set (ys @ xs)" "p \<noteq> NULL"
      using dlist_distinct [OF sched_inv_dlist [OF inv assms(2)]] sched_invD(4) [OF inv assms(2,3)] Q by auto
    then show ?thesis using first_ready_in [of s "ys @ xs"] by auto
  qed
  ultimately show ?thesis using s'(1) eq by blast
qed


subsection \<open>Waking a sleeper\<close>

lemma kfree_block_sel [simp]:
  "links (kfree_block p s) = links s" "task_at (kfree_block p s) = task_at s"
  "all_task_base (kfree_block p s) = all_task_base s" "task_bitmap (kfree_block p s) = task_bitmap s"
  "timer_at (kfree_block p s) = timer_at s" "timer_list (kfree_block p s) = timer_list s"
  "freed (kfree_block p s) = freed s @ [p]" "current_task (kfree_block p s) = current_task s"
  "next_task (kfree_block p s) = next_task s"
  "critical_section_count (kfree_block p s) = critical_section_count s"
  by (simp_all add: kfree_block_def)

lemma prio_critical [simp]:
  "prio (enter_critical_section s) t = prio s t" "prio (exit_critical_section s) t = prio s t"
  "prio (kfree_block p s) t = prio s t"
  by (simp_all add: prio_def)

lemma state_of_critical [simp]:
  "state_of (enter_critical_section s) t = state_of s t" "state_of (exit_critical_section s) t = state_of s t"
  "state_of (kfree_block p s) t = state_of s t"
  by (simp_all add: state_of_def)

lemma kernel_sel_through_sched [simp]:
  "timer_at (sched_fifo_enqueue_task p s) = timer_at s" "timer_list (sched_fifo_enqueue_task p s) = timer_list s"
  "freed (sched_fifo_enqueue_task p s) = freed s" "ticks (sched_fifo_enqueue_task p s) = ticks s"
  "task_sleep_function_addr (sched_fifo_enqueue_task p s) = task_sleep_function_addr s"
  "critical_section_count (sched_fifo_enqueue_task p s) = critical_section_count s"
  "timer_at (set_task_state p v s) = timer_at s" "timer_list (set_task_state p v s) = timer_list s"
  "freed (set_task_state p v s) = freed s" "ticks (set_task_state p v s) = ticks s"
  "task_sleep_function_addr (set_task_state p v s) = task_sleep_function_addr s"
  "critical_section_count (set_task_state p v s) = critical_section_count s"
  "all_task_base (set_task_state p v s) = all_task_base s"
  by (simp_all add: sched_fifo_enqueue_task_def set_task_state_def)

lemma task_sleep_function_addr_critical [simp]:
  "task_sleep_function_addr (enter_critical_section s) = task_sleep_function_addr s"
  "task_sleep_function_addr (exit_critical_section s) = task_sleep_function_addr s"
  "task_sleep_function_addr (kfree_block p s) = task_sleep_function_addr s"
  by (simp_all add: enter_critical_section_def exit_critical_section_def kfree_block_def Let_def)

lemma lists_inv_critical [simp]:
  "lists_inv (enter_critical_section s) Q T = lists_inv s Q T"
  "lists_inv (exit_critical_section s) Q T = lists_inv s Q T"
  "lists_inv (kfree_block p s) Q T = lists_inv s Q T"
  "lists_inv (set_task_state p v s) Q T = lists_inv s Q T"
  by (rule lists_inv_cong; simp)+

lemma queue_nodes_critical [simp]:
  "queue_nodes (enter_critical_section s) Q = queue_nodes s Q"
  "queue_nodes (exit_critical_section s) Q = queue_nodes s Q"
  "queue_nodes (kfree_block p s) Q = queue_nodes s Q"
  "queue_nodes (set_task_state p v s) Q = queue_nodes s Q"
  "queue_nodes (sched_fifo_enqueue_task p s) Q = queue_nodes s Q"
  "queue_nodes (s\<lparr>links := h\<rparr>) Q = queue_nodes s Q"
  by (rule queue_nodes_cong; simp)+

lemma sleepers_ok_cong:
  assumes "timer_at s' = timer_at s" and "timer_list s' = timer_list s" and "\<And>p. prio s' p = prio s p"
    and "all_task_base s' = all_task_base s" and "task_sleep_function_addr s' = task_sleep_function_addr s"
  shows "sleepers_ok s' Q T = sleepers_ok s Q T"
  using queue_nodes_cong [OF assms(4), of Q] by (simp add: sleepers_ok_def assms)

lemma sleepers_ok_tl:
  assumes "sleepers_ok s Q (t # T)"
  shows "sleepers_ok s Q T"
  using assms by (auto simp: sleepers_ok_def inj_on_def)

lemma sleepers_ok_queue:
  assumes "sleepers_ok s Q T" and "queue_nodes s Q' \<subseteq> insert p (queue_nodes s Q)" and "\<forall>t \<in> set T. sleeper s t \<noteq> p"
  shows "sleepers_ok s Q' T"
  using assms unfolding sleepers_ok_def by blast

lemma queue_nodes_append: "queue_nodes s (Q(i := Q i @ [p])) \<subseteq> insert p (queue_nodes s Q)"
  by (auto simp: queue_nodes_def split: if_splits)

lemma unqueued_node_kept:
  assumes "sched_inv s Q" and "prio s p < MAX_PRIORITY" and "t \<notin> queue_nodes s Q" and "t \<noteq> p"
  shows "nxt (links (sched_fifo_enqueue_task p s)) t = nxt (links s) t"
proof -
  have "unchanged_outside (set (p # all_task s (prio s p) # Q (prio s p))) (links s)
      (list_add_tail p (all_task s (prio s p)) (links s))"
    using sched_inv_dlist [OF assms(1,2)] by (rule list_add_tail_unchanged)
  moreover have "t \<notin> set (p # all_task s (prio s p) # Q (prio s p))"
    using queue_node_dlist [OF assms(2), of s Q] assms(3,4) by auto
  ultimately show ?thesis by (simp add: unchanged_outside_def sched_fifo_enqueue_task_def)
qed

lemma task_sleep_function_wakes:
  assumes "kernel_inv s Q (t # T)"
  defines "p \<equiv> sleeper s t"
  shows "\<exists>s'. task_sleep_function t n p (s\<lparr>links := list_del t (links s)\<rparr>) = Some (INT_RESCHEDULE, s') \<and>
    kernel_inv s' (Q(prio s p := Q (prio s p) @ [p])) T \<and> timer_at s' = timer_at s \<and>
    timer_list s' = timer_list s \<and> \<not> list_empty t (links s') \<and> state_of s' p = READY \<and>
    freed s' = freed s @ [t] \<and> critical_section_count s' = critical_section_count s"
proof -
  let ?Q = "Q(prio s p := Q (prio s p) @ [p])"
  let ?s1 = "s\<lparr>links := list_del t (links s)\<rparr>"
  let ?s2 = "enter_critical_section (set_task_state p READY ?s1)"
  let ?s' = "exit_critical_section (kfree_block t (sched_fifo_enqueue_task p ?s2))"
  have l: "lists_inv s Q (t # T)" and sl: "sleepers_ok s Q (t # T)" using assms(1) by (auto simp: kernel_inv_def)
  have p: "p \<noteq> NULL" "prio s p < MAX_PRIORITY" "p \<notin> queue_nodes s Q" "p \<notin> set (timer_list s # t # T)"
    using sl by (auto simp: sleepers_ok_def p_def)
  have t: "t \<noteq> NULL" "t \<notin> queue_nodes s Q" "t \<notin> set T"
    using lists_invD [OF l] dlist_distinct [OF lists_invD(2) [OF l]] by auto
  have l2: "lists_inv ?s2 Q T" using lists_inv_del_timer [OF l] by simp
  have "lists_inv (sched_fifo_enqueue_task p ?s2) ?Q T"
    using lists_inv_enqueue [OF l2, of p] p by simp
  moreover have "\<forall>u \<in> set T. sleeper s u \<noteq> p"
    using sl t(3) unfolding sleepers_ok_def inj_on_def p_def by (metis list.set_intros)
  then have "sleepers_ok s ?Q T"
    by (rule sleepers_ok_queue [OF sleepers_ok_tl [OF sl] queue_nodes_append])
  then have "sleepers_ok ?s' ?Q T" by (subst sleepers_ok_cong [of _ s]) simp_all
  ultimately have "kernel_inv ?s' ?Q T" by (simp add: kernel_inv_def)
  moreover have "nxt (links ?s') t = NULL"
    using unqueued_node_kept [OF lists_invD(1) [OF l2], of p t] p t by (auto simp: list_del_node)
  ultimately show ?thesis
    using t(1) by (simp add: task_sleep_function_def Let_def list_empty_def)
qed

text \<open>The kernel's timer functions by address. A timer of the kernel only runs \<open>task_sleep_function\<close>
  here; any other address has no value.\<close>

definition kernel_timer_call :: "'a kernel_scheme timer_call" where
  "kernel_timer_call f timer now arg s =
     (if f = task_sleep_function_addr s then task_sleep_function timer now arg s else None)"

lemma kernel_timer_call_wakes:
  assumes "kernel_inv s Q (t # T)"
  shows "kernel_timer_call (timer_fn (timer_at s t)) t n (sleeper s t) (s\<lparr>links := list_del t (links s)\<rparr>) =
    task_sleep_function t n (sleeper s t) (s\<lparr>links := list_del t (links s)\<rparr>)"
  using assms by (simp add: kernel_timer_call_def kernel_inv_def sleepers_ok_def)

interpretation sleep_timers: timer_callbacks kernel_timer_call "\<lambda>s T. \<exists>Q. kernel_inv s Q T"
proof unfold_locales
  show "dlist (links s) (timer_list s) ts" if "\<exists>Q. kernel_inv s Q ts" for s ts
    using that lists_invD(2) by (auto simp: kernel_inv_def)
  fix s :: "'a kernel_scheme" and t ts n assume "\<exists>Q. kernel_inv s Q (t # ts)"
  then obtain Q where Q: "kernel_inv s Q (t # ts)" by blast
  show "\<exists>r s'. kernel_timer_call (timer_fn (timer_at s t)) t n (sleeper s t) (s\<lparr>links := list_del t (links s)\<rparr>) =
        Some (r, s') \<and> (\<exists>Q. kernel_inv s' Q ts) \<and> timer_at s' = timer_at s \<and> timer_list s' = timer_list s \<and>
        \<not> list_empty t (links s')"
    unfolding kernel_timer_call_wakes [OF Q] using task_sleep_function_wakes [OF Q, of n] by blast
qed


subsection \<open>Going to sleep\<close>

text \<open>
  The task that runs after a reschedule: the head of what the levels offer, if that is another
  task. \<open>switched\<close> is the state handed to the code that runs next.
\<close>

lemma task_schedule_result:
  assumes "sched_inv s Q" and "current_queued s Q"
  shows "\<exists>s1. sched_inv s1 Q \<and> links s1 = links s \<and> timer_at s1 = timer_at s \<and>
    timer_list s1 = timer_list s \<and> task_sleep_function_addr s1 = task_sleep_function_addr s \<and>
    critical_section_count s1 = critical_section_count s \<and> all_task_base s1 = all_task_base s \<and>
    ticks s1 = ticks s \<and> (\<forall>p. prio s1 p = prio s p) \<and>
    (\<forall>p. p \<noteq> current_task s1 \<longrightarrow> state_of s1 p = state_of s p) \<and>
    task_schedule others s =
      Some (if current_task s1 = current_task s then s1 else others (current_task s) (current_task s1) s1) \<and>
    (case offered s Q of [] \<Rightarrow> current_task s1 = current_task s \<and> (\<forall>p. state_of s1 p = state_of s p)
     | t # _ \<Rightarrow> current_task s1 = t \<and> state_of s1 t = RUNNING)"
proof -
  obtain n where pick: "sched_fifo_pick_next_task s = Some
    (case offered s Q of
       [] \<Rightarrow> (NULL, s\<lparr>next_task := n\<rparr>)
     | t # _ \<Rightarrow> (t, (set_task_state t RUNNING (s\<lparr>next_task := n\<rparr>))\<lparr>current_task := t\<rparr>))"
    using pick_next_result [OF assms] by blast
  show ?thesis
  proof (cases "offered s Q")
    case Nil
    then show ?thesis using pick assms(1)
      by (intro exI [of _ "s\<lparr>next_task := n\<rparr>"]) (simp add: task_schedule_def)
  next
    case (Cons t ts)
    then have t: "t \<noteq> NULL"
      using candidates_not_NULL [OF assms(1)] by (auto simp: offered_def elim!: concat_map_upt_Cons)
    let ?s1 = "(set_task_state t RUNNING (s\<lparr>next_task := n\<rparr>))\<lparr>current_task := t\<rparr>"
    show ?thesis
    proof (cases "t = current_task s")
      case True
      then show ?thesis using pick assms(1) t Cons
        by (intro exI [of _ ?s1]) (simp add: task_schedule_def Let_def)
    next
      case False
      have upd: "sched_inv (?s1\<lparr>mmu_pgd := m\<rparr>) Q = sched_inv ?s1 Q" for m
        by (rule sched_inv_cong) (simp_all add: prio_def)
      from False show ?thesis using pick assms(1) t Cons upd
        by (intro exI [of _ "?s1\<lparr>mmu_pgd := mm_pgd (task_at ?s1 t)\<rparr>"])
          (simp add: task_schedule_def arch_context_switch_def, simp add: prio_def state_of_def set_task_state_def)
    qed
  qed
qed


lemma offered_subset: "set (offered s Q) \<subseteq> insert (next_task s) (queue_nodes s Q)"
  using set_after_in_ring by (fastforce simp: offered_def candidates_def queue_nodes_def split: if_splits)

lemma queue_nodes_remove1: "queue_nodes s (Q(i := remove1 p (Q i))) \<subseteq> queue_nodes s Q"
  using set_remove1_subset [of p "Q i"] by (auto simp: queue_nodes_def split: if_splits)

lemma removed_not_queued:
  assumes "sched_inv s Q" and "prio s p < MAX_PRIORITY" and "p \<in> set (Q (prio s p))"
  shows "p \<notin> queue_nodes s (Q(prio s p := remove1 p (Q (prio s p))))"
proof -
  have "p \<notin> set (remove1 p (Q (prio s p)))"
    using dlist_distinct [OF sched_inv_dlist [OF assms(1,2)]] by simp
  moreover have "p \<notin> set (Q i)" if "i < MAX_PRIORITY" "i \<noteq> prio s p" for i
    using sched_invD(3) [OF assms(1) that(1)] that(2) by blast
  moreover have "p \<noteq> all_task s i" if "i < MAX_PRIORITY" for i
    using sched_inv_head_notin [OF assms(1) that assms(2)] assms(3) by blast
  ultimately show ?thesis by (auto simp: queue_nodes_def split: if_splits)
qed

lemma unchanged_outside_INIT: "unchanged_outside {t} h (INIT_LIST_HEAD t h)"
  by (auto simp: unchanged_outside_def INIT_LIST_HEAD_def)

text \<open>The state in which the timer of a task that goes to sleep has been linked.\<close>

lemma sleep_timer_added:
  assumes "lists_inv s Q T" and "t \<noteq> NULL" and "t \<notin> queue_nodes s Q" and "t \<notin> set (timer_list s # T)"
  shows "\<exists>s2. oneshot_timer_add t delay f a (enter_critical_section (init_timer_value t s)) = Some s2 \<and>
    lists_inv s2 Q (timer_insert (expiry s2) t T) \<and>
    timer_at s2 = (timer_at s)(t := \<lparr>expired_time = ucast (ticks s) + (if delay = 0 then 1 else delay),
      periodic_time = 0, timer_fn = f, timer_arg = a\<rparr>) \<and>
    task_at s2 = task_at s \<and> current_task s2 = current_task s \<and> timer_list s2 = timer_list s \<and>
    all_task_base s2 = all_task_base s \<and> ticks s2 = ticks s \<and>
    task_sleep_function_addr s2 = task_sleep_function_addr s \<and>
    critical_section_count s2 = critical_section_count s + 1"
proof -
  let ?s1 = "enter_critical_section (init_timer_value t s)"
  let ?d = "if delay = 0 then 1 else delay" and ?h1 = "INIT_LIST_HEAD t (links s)"
  have sel: "links ?s1 = ?h1" "timer_list ?s1 = timer_list s" "ticks ?s1 = ticks s"
    by (simp_all add: init_timer_value_def upd_timer_def)
  have d1: "dlist ?h1 (timer_list s) T"
    using lists_invD(2) [OF assms(1)] assms(4) by (rule INIT_LIST_HEAD_frame)
  have "lists_inv (s\<lparr>links := ?h1\<rparr>) Q T"
    using lists_invD(3,4) [OF assms(1)] assms(3)
    by (intro lists_inv_timers [OF assms(1) d1 unchanged_outside_INIT]) auto
  then have l1: "lists_inv ?s1 Q T"
    unfolding lists_inv_critical
    by (subst lists_inv_cong [of _ "s\<lparr>links := ?h1\<rparr>"]) (simp_all add: init_timer_value_def upd_timer_def prio_def)
  obtain h where h: "timer_add t ?d 0 f a ?s1 =
      Some (exit_critical_section ((enter_critical_section (upd_timer t
        (\<lambda>_. \<lparr>expired_time = ucast (ticks s) + ?d, periodic_time = 0, timer_fn = f, timer_arg = a\<rparr>) ?s1))
          \<lparr>links := h\<rparr>))"
      "dlist h (timer_list s) (timer_insert ((expiry ?s1)(t := ucast (ticks s) + ?d)) t T)"
      "unchanged_outside (set (t # timer_list s # T)) ?h1 h"
    using timer_add_result [of ?s1 T t ?d 0 f a] d1 assms(4) unfolding sel by blast
  let ?s2 = "exit_critical_section ((enter_critical_section (upd_timer t
        (\<lambda>_. \<lparr>expired_time = ucast (ticks s) + ?d, periodic_time = 0, timer_fn = f, timer_arg = a\<rparr>) ?s1))
          \<lparr>links := h\<rparr>)"
  have e: "(expiry ?s1)(t := ucast (ticks s) + ?d) = expiry ?s2"
    by (simp add: fun_eq_iff upd_timer_def)
  have "lists_inv (?s1\<lparr>links := h\<rparr>) Q (timer_insert (expiry ?s2) t T)"
  proof (rule lists_inv_timers [OF l1])
    show "dlist h (timer_list ?s1) (timer_insert (expiry ?s2) t T)" using h(2) unfolding e sel .
    show "unchanged_outside (set (t # timer_list s # T)) (links ?s1) h" using h(3) unfolding sel .
    have "queue_nodes ?s1 Q = queue_nodes s Q"
      by (rule queue_nodes_cong) (simp add: init_timer_value_def upd_timer_def)
    then show "set (t # timer_list s # T) \<inter> queue_nodes ?s1 Q = {}"
        "set (timer_insert (expiry ?s2) t T) \<inter> queue_nodes ?s1 Q = {}"
      using lists_invD(3) [OF assms(1)] assms(3) by auto
  qed (use assms(2) lists_invD(4) [OF assms(1)] in auto)
  then have "lists_inv ?s2 Q (timer_insert (expiry ?s2) t T)"
    by (subst lists_inv_cong [of _ "?s1\<lparr>links := h\<rparr>"]) (simp_all add: upd_timer_def prio_def)
  then show ?thesis
    using h(1) by (intro exI [of _ ?s2]) (simp add: oneshot_timer_add_def upd_timer_def init_timer_value_def)
qed


lemma sleepers_ok_insert:
  assumes "sleepers_ok s Q T" and "t \<notin> set T" and "set T' = insert t (set T)"
    and "timer_at s' = (timer_at s)(t := r)" and "timer_fn r = task_sleep_function_addr s"
    and "timer_list s' = timer_list s" "task_sleep_function_addr s' = task_sleep_function_addr s"
    and "\<And>p. prio s' p = prio s p" and "all_task_base s' = all_task_base s"
    and "queue_nodes s Q' \<subseteq> queue_nodes s Q" and "timer_arg r \<notin> queue_nodes s Q'"
    and "timer_arg r \<noteq> NULL" "prio s (timer_arg r) < MAX_PRIORITY" "timer_arg r \<notin> set (t # timer_list s # T)"
    and "\<forall>u \<in> set T. sleeper s u \<noteq> t \<and> sleeper s u \<noteq> timer_arg r"
  shows "sleepers_ok s' Q' T'"
proof -
  have q: "queue_nodes s' Q' = queue_nodes s Q'" using assms(9) by (rule queue_nodes_cong)
  have at: "sleeper s' u = (if u = t then timer_arg r else sleeper s u)"
    "timer_fn (timer_at s' u) = (if u = t then timer_fn r else timer_fn (timer_at s u))" for u
    using assms(4) by simp_all
  have "inj_on (sleeper s') (insert t (set T))"
  proof -
    have "inj_on (sleeper s') (set T)"
      using assms(1,2) by (subst inj_on_cong [of _ _ "sleeper s"]) (auto simp: at sleepers_ok_def)
    moreover have "sleeper s' t \<notin> sleeper s' ` set T" using assms(2,15) by (auto simp: at split: if_splits)
    ultimately show ?thesis using assms(2) by simp
  qed
  moreover have "timer_fn (timer_at s' u) = task_sleep_function_addr s \<and> sleeper s' u \<noteq> NULL \<and>
      prio s (sleeper s' u) < MAX_PRIORITY \<and> sleeper s' u \<notin> queue_nodes s Q' \<and>
      sleeper s' u \<notin> insert (timer_list s) (insert t (set T))" if u: "u \<in> insert t (set T)" for u
  proof (cases "u = t")
    case True
    then show ?thesis using assms(5,11-14) by (simp add: at)
  next
    case False
    with u have "u \<in> set T" by simp
    then show ?thesis using assms(1,10,15) False by (auto simp: at sleepers_ok_def)
  qed
  ultimately show ?thesis unfolding sleepers_ok_def assms(3,6-8) q list.set by blast
qed

lemma init_timer_value_sel [simp]:
  "current_task (init_timer_value t s) = current_task s"
  "task_sleep_function_addr (init_timer_value t s) = task_sleep_function_addr s"
  by (simp_all add: init_timer_value_def upd_timer_def)

text \<open>The state in which a task that goes to sleep has left its run queue.\<close>

lemma task_sleep_dequeues:
  fixes s :: "'a kernel_scheme" and Q :: "nat \<Rightarrow> ptr list"
  assumes l: "lists_inv s Q T" and c: "prio s (current_task s) < MAX_PRIORITY" "current_task s \<in> set (Q (prio s (current_task s)))"
    and t: "t \<noteq> NULL" "t \<notin> queue_nodes s Q" "t \<notin> set (timer_list s # T)"
  defines "Q' \<equiv> Q(prio s (current_task s) := remove1 (current_task s) (Q (prio s (current_task s))))"
  shows "\<exists>s3. (\<forall>others. task_sleep others t delay s = map_option exit_critical_section (task_schedule others s3)) \<and>
    lists_inv s3 Q' (timer_insert (expiry s3) t T) \<and> has_left s3 \<and> next_task s3 \<noteq> current_task s \<and>
    current_task s3 = current_task s \<and> state_of s3 (current_task s) = SLEEPING \<and>
    timer_at s3 = (timer_at s)(t := \<lparr>expired_time = ucast (ticks s) + (if delay = 0 then 1 else delay),
      periodic_time = 0, timer_fn = task_sleep_function_addr s, timer_arg = current_task s\<rparr>) \<and>
    timer_list s3 = timer_list s \<and> all_task_base s3 = all_task_base s \<and> ticks s3 = ticks s \<and>
    task_sleep_function_addr s3 = task_sleep_function_addr s \<and>
    critical_section_count s3 = critical_section_count s + 1 \<and> (\<forall>p. prio s3 p = prio s p)"
proof -
  let ?c = "current_task s"
  obtain s2 where s2: "oneshot_timer_add t delay (task_sleep_function_addr s) ?c
      (enter_critical_section (init_timer_value t s)) = Some s2"
    "lists_inv s2 Q (timer_insert (expiry s2) t T)"
    "timer_at s2 = (timer_at s)(t := \<lparr>expired_time = ucast (ticks s) + (if delay = 0 then 1 else delay),
      periodic_time = 0, timer_fn = task_sleep_function_addr s, timer_arg = ?c\<rparr>)"
    "task_at s2 = task_at s" "current_task s2 = ?c" "timer_list s2 = timer_list s"
    "all_task_base s2 = all_task_base s" "ticks s2 = ticks s"
    "task_sleep_function_addr s2 = task_sleep_function_addr s"
    "critical_section_count s2 = critical_section_count s + 1"
    using sleep_timer_added [OF l t, of delay "task_sleep_function_addr s" ?c] by blast
  have p2: "prio s2 p = prio s p" for p using s2(4) by (simp add: prio_def)
  let ?s2 = "set_task_state ?c SLEEPING s2"
  obtain s3 h b n where s3: "sched_fifo_dequeue_task ?c ?s2 = Some s3"
      "s3 = ?s2\<lparr>next_task := n, links := h, task_bitmap := b\<rparr>" "n \<noteq> ?c"
      "lists_inv s3 Q' (timer_insert (expiry s2) t T)"
    using lists_inv_dequeue [of ?s2 Q "timer_insert (expiry s2) t T" ?c] s2(2) c p2 by (auto simp: Q'_def)
  have "has_left s3" using s3(2) s2(5) by (simp add: has_left_def)
  moreover have "task_sleep others t delay s = map_option exit_critical_section (task_schedule others s3)" for others
    using s2(1) s2(5) s3(1) by (simp add: task_sleep_def Let_def)
  moreover have "current_task s3 = ?c" "next_task s3 \<noteq> ?c" "state_of s3 ?c = SLEEPING" "timer_at s3 = timer_at s2" "timer_list s3 = timer_list s"
      "all_task_base s3 = all_task_base s" "ticks s3 = ticks s" "task_sleep_function_addr s3 = task_sleep_function_addr s"
      "critical_section_count s3 = critical_section_count s + 1" "prio s3 p = prio s p" for p
    using s2 s3(3) p2 unfolding s3(2) by simp_all
  ultimately show ?thesis using s3(4) s2(3) by (intro exI [of _ s3]) simp
qed

lemma task_sleep_result:
  assumes inv: "kernel_inv s Q T" and cur: "prio s (current_task s) < MAX_PRIORITY"
      "current_task s \<in> set (Q (prio s (current_task s)))"
    and t: "t \<noteq> NULL" "t \<notin> queue_nodes s Q" "t \<notin> set (timer_list s # T)" "\<forall>u \<in> set T. sleeper s u \<noteq> t"
  shows "\<exists>s1. kernel_inv s1 (Q(prio s (current_task s) := remove1 (current_task s) (Q (prio s (current_task s)))))
        (timer_insert (expiry s1) t T) \<and>
    state_of s1 (current_task s) = SLEEPING \<and>
    timer_at s1 t = \<lparr>expired_time = ucast (ticks s) + (if delay = 0 then 1 else delay), periodic_time = 0,
      timer_fn = task_sleep_function_addr s, timer_arg = current_task s\<rparr> \<and>
    critical_section_count s1 = critical_section_count s + 1 \<and> ticks s1 = ticks s \<and>
    task_sleep others t delay s = Some (exit_critical_section
      (if current_task s1 = current_task s then s1 else others (current_task s) (current_task s1) s1))"
proof -
  define c where "c = current_task s"
  define Q' where "Q' = Q(prio s c := remove1 c (Q (prio s c)))"
  note c = cur [folded c_def]
  have l: "lists_inv s Q T" and sl: "sleepers_ok s Q T" using inv by (auto simp: kernel_inv_def)
  have sinv: "sched_inv s Q" using lists_invD(1) [OF l] .
  have cq: "c \<in> queue_nodes s Q" "c \<noteq> NULL"
    using queue_node_dlist [OF c(1), of s Q] sched_invD(4) [OF sinv c(1,2)] c(2) by auto
  obtain s3 where s3: "task_sleep others t delay s = map_option exit_critical_section (task_schedule others s3)"
    "lists_inv s3 Q' (timer_insert (expiry s3) t T)" "has_left s3" "next_task s3 \<noteq> c" "current_task s3 = c" "state_of s3 c = SLEEPING"
    "timer_at s3 = (timer_at s)(t := \<lparr>expired_time = ucast (ticks s) + (if delay = 0 then 1 else delay), periodic_time = 0,
      timer_fn = task_sleep_function_addr s, timer_arg = c\<rparr>)"
    and base: "timer_list s3 = timer_list s" "all_task_base s3 = all_task_base s" "ticks s3 = ticks s"
      "task_sleep_function_addr s3 = task_sleep_function_addr s" "critical_section_count s3 = critical_section_count s + 1"
      "\<And>p. prio s3 p = prio s p"
    using task_sleep_dequeues [OF l cur t(1-3), of delay] unfolding Q'_def c_def by blast
  obtain s1 where s1: "sched_inv s1 Q'" "links s1 = links s3" "timer_at s1 = timer_at s3"
    "timer_list s1 = timer_list s3" "task_sleep_function_addr s1 = task_sleep_function_addr s3"
    "critical_section_count s1 = critical_section_count s3" "all_task_base s1 = all_task_base s3"
    "ticks s1 = ticks s3" "\<forall>p. prio s1 p = prio s3 p"
    "\<forall>p. p \<noteq> current_task s1 \<longrightarrow> state_of s1 p = state_of s3 p"
    "task_schedule others s3 =
      Some (if current_task s1 = current_task s3 then s1 else others (current_task s3) (current_task s1) s1)"
    "case offered s3 Q' of [] \<Rightarrow> current_task s1 = current_task s3 \<and> (\<forall>p. state_of s1 p = state_of s3 p)
     | t # _ \<Rightarrow> current_task s1 = t \<and> state_of s1 t = RUNNING"
    using task_schedule_result [OF lists_invD(1) [OF s3(2)], of others] s3(3) by (auto simp: current_queued_def)
  have n: "c \<notin> queue_nodes s Q'" unfolding Q'_def using sinv c by (rule removed_not_queued)
  have "set (offered s3 Q') \<subseteq> insert (next_task s3) (queue_nodes s Q')"
    using offered_subset [of s3 Q'] queue_nodes_cong [OF base(2)] by simp
  then have "c \<notin> set (offered s3 Q')" using n s3(4) by auto
  then have "state_of s1 c = SLEEPING" using s1(10,12) s3(5,6) by (cases "offered s3 Q'") auto
  moreover have "lists_inv s1 Q' (timer_insert (expiry s1) t T)"
    using lists_invD(2-4) [OF s3(2)] s1(2-4) queue_nodes_cong [OF s1(7), of Q'] by (intro lists_invI [OF s1(1)]) simp_all
  moreover have "sleepers_ok s1 Q' (timer_insert (expiry s1) t T)"
  proof (rule sleepers_ok_insert [OF sl])
    show "timer_at s1 = (timer_at s)(t := \<lparr>expired_time = ucast (ticks s) + (if delay = 0 then 1 else delay),
        periodic_time = 0, timer_fn = task_sleep_function_addr s, timer_arg = c\<rparr>)"
      using s1(3) s3(7) by simp
    show "queue_nodes s Q' \<subseteq> queue_nodes s Q" unfolding Q'_def by (rule queue_nodes_remove1)
  qed (use t s1 base n cq c lists_invD(3) [OF l] sl in \<open>auto simp: sleepers_ok_def\<close>)
  ultimately show ?thesis
    using s1(3,6,8,11) s3(1,5,7) base unfolding kernel_inv_def Q'_def c_def [symmetric]
    by (intro exI [of _ s1]) simp
qed


subsection \<open>Starting and ending a task\<close>

lemma stack_frame_in_stack:
  fixes stk size :: u32
  assumes "unat stk + unat size < 2 ^ 32" and "43 \<le> unat size"
  shows "unat stk \<le> unat (((stk + size) AND NOT 7) - 36) \<and>
    unat (((stk + size) AND NOT 7) - 36) + 36 \<le> unat stk + unat size"
proof -
  have m: "(7 :: u32) = mask 3" by (simp add: mask_eq_exp_minus_1)
  have top: "unat (stk + size) = unat stk + unat size"
    using assms(1) by (intro unat_add_no_wrap) simp
  have b: "unat ((stk + size) AND NOT 7) \<le> unat stk + unat size"
    "unat stk + unat size < unat ((stk + size) AND NOT 7) + 8"
    using align_down_bounds(1,2) [of "stk + size" 3] unfolding m top by simp_all
  have "unat (((stk + size) AND NOT 7) - 36) = unat ((stk + size) AND NOT 7) - 36"
    using b assms(2) by (subst unat_sub_no_wrap) simp_all
  then show ?thesis using b assms(2) by linarith
qed

lemma task_create_fields:
  fixes s :: "'a kernel_scheme" and t :: ptr
  assumes "stk \<noteq> NULL"
  defines "sz \<equiv> if stack_size (task_at s t) = 0 then STACK_DEF_SIZE else stack_size (task_at s t)"
  shows "\<exists>s0. task_create t f a stk s = (0, sched_fifo_enqueue_task t s0) \<and>
    links s0 = INIT_LIST_HEAD t (links s) \<and> all_task_base s0 = all_task_base s \<and>
    task_bitmap s0 = task_bitmap s \<and> timer_list s0 = timer_list s \<and> (\<forall>p. prio s0 p = prio s p) \<and>
    task_at s0 t = (task_at s t)\<lparr>stack := stk, entry := f, args := a, state := CREATING, stack_size := sz,
      sp := ((stk + sz) AND NOT 7) - 36\<rparr> \<and>
    stack_words s0 (((stk + sz) AND NOT 7) - 36 + 32) = initial_task_func_addr s"
proof -
  define s1 where "s1 = (if 0 = stack_size (task_at s t) then upd_task t (\<lambda>r. r\<lparr>stack_size := STACK_DEF_SIZE\<rparr>) s else s)"
  define s2 where "s2 = upd_task t (\<lambda>r. r\<lparr>stack := stk, entry := f, args := a, state := CREATING\<rparr>) s1"
  define s3 where "s3 = arch_task_initialize t s2"
  have s1: "links s1 = links s" "all_task_base s1 = all_task_base s" "task_bitmap s1 = task_bitmap s"
    "timer_list s1 = timer_list s" "task_at s1 = (task_at s)(t := (task_at s t)\<lparr>stack_size := sz\<rparr>)"
    "initial_task_func_addr s1 = initial_task_func_addr s"
    by (auto simp: s1_def upd_task_def sz_def fun_eq_iff)
  have s2: "links s2 = links s" "all_task_base s2 = all_task_base s" "task_bitmap s2 = task_bitmap s"
    "timer_list s2 = timer_list s"
    "task_at s2 = (task_at s)(t := (task_at s t)\<lparr>stack_size := sz, stack := stk, entry := f, args := a, state := CREATING\<rparr>)"
    "initial_task_func_addr s2 = initial_task_func_addr s"
    using s1 by (simp_all add: s2_def upd_task_def)
  have s3: "links s3 = links s" "all_task_base s3 = all_task_base s" "task_bitmap s3 = task_bitmap s"
    "timer_list s3 = timer_list s"
    "task_at s3 = (task_at s)(t := (task_at s t)\<lparr>stack_size := sz, stack := stk, entry := f, args := a, state := CREATING,
       sp := ((stk + sz) AND NOT 7) - 36\<rparr>)"
    "stack_words s3 (((stk + sz) AND NOT 7) - 36 + 32) = initial_task_func_addr s"
    using s2 by (simp_all add: s3_def arch_task_initialize_def upd_task_def Let_def)
  have "task_create t f a stk s = (0, sched_fifo_enqueue_task t (s3\<lparr>links := INIT_LIST_HEAD t (links s3)\<rparr>))"
    using assms(1) by (simp add: task_create_def Let_def s1_def s2_def s3_def)
  then show ?thesis
    using s3 by (intro exI [of _ "s3\<lparr>links := INIT_LIST_HEAD t (links s3)\<rparr>"]) (simp add: prio_def)
qed

lemma task_create_lists_inv:
  assumes "lists_inv s Q T" and "prio s t < MAX_PRIORITY" and "t \<notin> queue_nodes s Q" and "t \<noteq> NULL"
    and "t \<notin> set (timer_list s # T)" and "links s0 = INIT_LIST_HEAD t (links s)"
    and "all_task_base s0 = all_task_base s" and "task_bitmap s0 = task_bitmap s"
    and "timer_list s0 = timer_list s" and "\<forall>p. prio s0 p = prio s p"
  shows "lists_inv (sched_fifo_enqueue_task t s0) (Q(prio s t := Q (prio s t) @ [t])) T"
proof -
  have "lists_inv (s\<lparr>links := INIT_LIST_HEAD t (links s)\<rparr>) Q T"
  proof (rule lists_inv_timers [OF assms(1) _ unchanged_outside_INIT])
    show "dlist (INIT_LIST_HEAD t (links s)) (timer_list s) T"
      using lists_invD(2) [OF assms(1)] assms(5) by (rule INIT_LIST_HEAD_frame)
  qed (use assms(3) lists_invD(3,4) [OF assms(1)] in auto)
  then have "lists_inv s0 Q T"
    using assms by (subst lists_inv_cong [of _ "s\<lparr>links := INIT_LIST_HEAD t (links s)\<rparr>"]) simp_all
  then show ?thesis
    using lists_inv_enqueue [of s0 Q T t] assms queue_nodes_cong [OF assms(7), of Q] by simp
qed

lemma upd_task_sel [simp]:
  "links (upd_task t f s) = links s" "all_task_base (upd_task t f s) = all_task_base s"
  "task_bitmap (upd_task t f s) = task_bitmap s" "current_task (upd_task t f s) = current_task s"
  by (simp_all add: upd_task_def)

lemma task_exit_result:
  assumes inv: "lists_inv s Q T" and c: "prio s (current_task s) < MAX_PRIORITY"
      "current_task s \<in> set (Q (prio s (current_task s)))"
  shows "\<exists>s1. lists_inv s1 (Q(prio s (current_task s) := remove1 (current_task s) (Q (prio s (current_task s))))) T \<and>
    state_of s1 (current_task s) = EXITED \<and> critical_section_count s1 = critical_section_count s + 1 \<and>
    task_exit others code s =
      Some (if current_task s1 = current_task s then s1 else others (current_task s) (current_task s1) s1)"
proof -
  define c where "c = current_task s"
  define Q' where "Q' = Q(prio s c := remove1 c (Q (prio s c)))"
  define s2 where "s2 = upd_task c (\<lambda>r. r\<lparr>state := EXITED, ret := code\<rparr>) (enter_critical_section s)"
  have p2: "prio s2 p = prio s p" for p by (simp add: s2_def prio_def upd_task_def)
  have "lists_inv s2 Q T"
    using inv p2 by (subst lists_inv_cong [of _ s]) (simp_all add: s2_def upd_task_def)
  then obtain s3 h b n where s3: "sched_fifo_dequeue_task c s2 = Some s3"
      "s3 = s2\<lparr>next_task := n, links := h, task_bitmap := b\<rparr>" "n \<noteq> c" "lists_inv s3 Q' T"
    using lists_inv_dequeue [of s2 Q T c] c p2 unfolding Q'_def c_def [symmetric] by auto
  have st: "state_of s3 c = EXITED" "current_task s3 = c" "timer_list s3 = timer_list s"
    "critical_section_count s3 = critical_section_count s + 1" "next_task s3 = n" "all_task_base s3 = all_task_base s"
    unfolding s3(2) s2_def by (simp_all add: state_of_def upd_task_def c_def)
  then have cq: "current_queued s3 Q'" by (simp add: current_queued_def has_left_def)
  obtain s1 where s1: "sched_inv s1 Q'" "links s1 = links s3" "timer_list s1 = timer_list s3"
    "critical_section_count s1 = critical_section_count s3" "all_task_base s1 = all_task_base s3"
    "\<forall>p. p \<noteq> current_task s1 \<longrightarrow> state_of s1 p = state_of s3 p"
    "task_schedule others s3 =
      Some (if current_task s1 = current_task s3 then s1 else others (current_task s3) (current_task s1) s1)"
    "case offered s3 Q' of [] \<Rightarrow> current_task s1 = current_task s3 \<and> (\<forall>p. state_of s1 p = state_of s3 p)
     | t # _ \<Rightarrow> current_task s1 = t \<and> state_of s1 t = RUNNING"
    using task_schedule_result [OF lists_invD(1) [OF s3(4)] cq] by blast
  have "c \<notin> queue_nodes s Q'"
    unfolding Q'_def using lists_invD(1) [OF inv] assms(2,3) unfolding c_def by (rule removed_not_queued)
  then have "c \<notin> set (offered s3 Q')"
    using offered_subset [of s3 Q'] queue_nodes_cong [OF st(6), of Q'] st(5) s3(3) by auto
  then have "state_of s1 c = EXITED" using s1(6,8) st(1,2) by (cases "offered s3 Q'") auto
  moreover have "lists_inv s1 Q' T"
    using lists_invD(2-4) [OF s3(4)] s1(2,3) queue_nodes_cong [OF s1(5), of Q']
    by (intro lists_invI [OF s1(1)]) simp_all
  moreover have "task_exit others code s = task_schedule others s3"
    using s3(1) by (simp add: task_exit_def Let_def s2_def c_def)
  ultimately show ?thesis
    using s1(4,7) st(2,4) unfolding Q'_def c_def [symmetric] by (intro exI [of _ s1]) simp
qed

lemma take_bit_signed_add: "take_bit 32 (signed_take_bit 31 a + k) = take_bit 32 (a + take_bit 64 k)"
  for a k :: int
proof -
  have "take_bit 32 (take_bit 64 k) = take_bit 32 k" "take_bit 32 (signed_take_bit 31 a) = take_bit 32 a"
    by (simp_all add: take_bit_signed_take_bit)
  then show ?thesis
    using take_bit_add [of 32 "signed_take_bit 31 a" k] take_bit_add [of 32 a "take_bit 64 k"] by simp
qed

lemma ucast_scast_add: "(ucast (scast timeout + t :: u64) :: u32) = timeout + ucast t"
  by transfer (simp add: take_bit_signed_add)

subsection \<open>Properties\<close>

text \<open>A kernel with the running task 8192 and the task 12288 asleep until tick 120 on timer 512.\<close>

definition example_kernel :: kernel where
  "example_kernel = example_timers\<lparr>links := list_add 512 256 (INIT_LIST_HEAD 256 (links example_sched1)),
     task_at := task_at example_sched1, task_bitmap := task_bitmap example_sched1,
     timer_at := (\<lambda>_. \<lparr>expired_time = 120, periodic_time = 0, timer_fn = 128, timer_arg = 12288\<rparr>)\<rparr>"

abbreviation example_run_queues :: "nat \<Rightarrow> ptr list" where
  "example_run_queues \<equiv> (\<lambda>_. [])(1 := [8192])"

lemma example_kernel_sel [simp]:
  "timer_list example_kernel = 256" "current_task example_kernel = 8192" "ticks example_kernel = 100"
  "prio example_kernel 8192 = 1" "prio example_kernel 12288 = 5" "first_time example_kernel = False"
  "timer_at example_kernel t = \<lparr>expired_time = 120, periodic_time = 0, timer_fn = 128, timer_arg = 12288\<rparr>"
  "task_sleep_function_addr example_kernel = 128" "freed example_kernel = []"
  "critical_section_count example_kernel = 0"
  by (simp_all add: example_kernel_def example_timers_def prio_def example_sched1_def example_boot_def
      example_task_def)

lemma example_queue_nodes:
  "queue_nodes example_kernel example_run_queues =
     {4096, 4104, 4112, 4120, 4128, 4136, 4144, 4152, 8192}"
  by (auto simp: queue_nodes_def lessThan_MAX_PRIORITY all_task_def example_kernel_def example_timers_def)

lemma example_kernel_inv: "kernel_inv example_kernel example_run_queues [512]"
proof -
  let ?k = "example_kernel\<lparr>links := links example_sched1\<rparr>" and ?h = "INIT_LIST_HEAD 256 (links example_sched1)"
  have q: "queue_nodes ?k example_run_queues = queue_nodes example_kernel example_run_queues"
    by (rule queue_nodes_cong) simp
  have "sched_inv ?k example_run_queues"
    using sched_reach_inv [OF example_reach1]
    by (subst sched_inv_cong [of _ example_sched1])
      (simp_all add: example_kernel_def example_timers_def prio_def example_sched1_def, simp add: example_boot_def)
  from sched_inv_links_frame [OF this, of "{256}" ?h]
  have "sched_inv (example_kernel\<lparr>links := ?h\<rparr>) example_run_queues"
    using unchanged_outside_INIT [of 256 "links example_sched1"] unfolding q example_queue_nodes by simp
  then have "lists_inv (example_kernel\<lparr>links := ?h\<rparr>) example_run_queues []"
    unfolding lists_inv_def queue_nodes_critical example_queue_nodes by (simp add: INIT_LIST_HEAD_dlist)
  from lists_inv_timers [OF this, of "list_add 512 256 ?h" "[512]" "{512, 256}"]
  have "lists_inv (example_kernel\<lparr>links := list_add 512 256 ?h\<rparr>) example_run_queues [512]"
    using list_add_unchanged [OF INIT_LIST_HEAD_dlist, of 512 256 "links example_sched1"]
      list_add_dlist [OF INIT_LIST_HEAD_dlist, of 512 256 "links example_sched1"]
    unfolding queue_nodes_critical example_queue_nodes by simp
  moreover have "example_kernel\<lparr>links := list_add 512 256 ?h\<rparr> = example_kernel"
    by (simp add: example_kernel_def)
  moreover have "sleepers_ok example_kernel example_run_queues [512]"
    unfolding sleepers_ok_def example_queue_nodes by simp
  ultimately show ?thesis by (simp add: kernel_inv_def)
qed

text \<open>
  C20. \<open>task_sleep\<close> parks its caller and keeps the kernel consistent: in the state in which it gives the
  processor to the next task the sleeping task is \<open>SLEEPING\<close>, in no run queue, and has a one-shot timer in the timer
  list that expires after the delay; the run queues and the timer list are well formed and
  disjoint, and the switch happens inside exactly one more critical section, which is left
  when the task runs again. What the other tasks do until then is arbitrary, and the call returns the state
  they leave.
\<close>

theorem task_sleep_parks_current:
  assumes "kernel_inv s Q T" and "prio s (current_task s) < MAX_PRIORITY"
    and "current_task s \<in> set (Q (prio s (current_task s)))"
    and "t \<noteq> NULL" and "t \<notin> queue_nodes s Q" and "t \<notin> set (timer_list s # T)"
    and "\<forall>u \<in> set T. sleeper s u \<noteq> t"
  shows "\<exists>s1. kernel_inv s1 (Q(prio s (current_task s) := remove1 (current_task s) (Q (prio s (current_task s)))))
        (timer_insert (expiry s1) t T) \<and>
    state_of s1 (current_task s) = SLEEPING \<and>
    timer_at s1 t = \<lparr>expired_time = ucast (ticks s) + (if delay = 0 then 1 else delay), periodic_time = 0,
      timer_fn = task_sleep_function_addr s, timer_arg = current_task s\<rparr> \<and>
    critical_section_count s1 = critical_section_count s + 1 \<and>
    task_sleep others t delay s = Some (exit_critical_section
      (if current_task s1 = current_task s then s1 else others (current_task s) (current_task s1) s1))"
  using task_sleep_result [OF assms, of delay others] by blast

theorem task_sleep_parks_current_witness:
  "\<exists>s1. state_of s1 8192 = SLEEPING \<and> expired_time (timer_at s1 544) = 150 \<and> sleeper s1 544 = 8192 \<and>
     critical_section_count s1 = 1 \<and>
     task_sleep (\<lambda>_ _ s. s) 544 50 example_kernel = Some (exit_critical_section s1)"
proof -
  have "544 \<notin> queue_nodes example_kernel example_run_queues" unfolding example_queue_nodes by simp
  from task_sleep_parks_current [OF example_kernel_inv _ _ _ this, of 50 "\<lambda>_ _ s. s"] show ?thesis by auto
qed

text \<open>One tick, with at least one timer in the list.\<close>

lemma timer_tick_first:
  assumes "kernel_inv s Q (t # ts)" and "\<not> first_time s"
  shows "timer_tick kernel_timer_call now s =
    (if not_expired (expiry s t) now then Some (INT_NO_RESCHEDULE, s)
     else task_sleep_function t (ucast now) (sleeper s t) (s\<lparr>links := list_del t (links s)\<rparr>))"
proof -
  have d: "dlist (links s) (timer_list s) (t # ts)" using assms(1) lists_invD(2) by (auto simp: kernel_inv_def)
  then have t: "nxt (links s) (timer_list s) = t" "t \<noteq> timer_list s"
    using dlist_distinct [OF d] by (auto simp: dlist_next)
  obtain s' where "task_sleep_function t (ucast now) (sleeper s t) (s\<lparr>links := list_del t (links s)\<rparr>) = Some (INT_RESCHEDULE, s')"
    using task_sleep_function_wakes [OF assms(1)] by blast
  then show ?thesis
    using t assms(2) kernel_timer_call_wakes [OF assms(1)]
    by (simp add: timer_tick_def timer_tick_loop.simps)
qed

text \<open>
  A tick wakes at most one sleeper. Once the timer is started, a tick returns; if the first
  timer of the list has expired, its task becomes \<open>READY\<close> at the tail of the run queue of its
  priority, the timer is unlinked and freed and a reschedule is requested, and every other
  timer, expired or not, stays in the list; otherwise nothing changes. The kernel invariant holds
  afterwards.
\<close>

theorem tick_wakes_one_sleeper:
  assumes "kernel_inv s Q T" and "\<not> first_time s"
  shows "case T of
      [] \<Rightarrow> timer_tick kernel_timer_call now s = Some (INT_NO_RESCHEDULE, s)
    | t # ts \<Rightarrow>
        if not_expired (expiry s t) now then timer_tick kernel_timer_call now s = Some (INT_NO_RESCHEDULE, s)
        else \<exists>s'. timer_tick kernel_timer_call now s = Some (INT_RESCHEDULE, s') \<and>
          kernel_inv s' (Q(prio s (sleeper s t) := Q (prio s (sleeper s t)) @ [sleeper s t])) ts \<and>
          state_of s' (sleeper s t) = READY \<and> freed s' = freed s @ [t]"
proof (cases T)
  case Nil
  then have "nxt (links s) (timer_list s) = timer_list s"
    using assms(1) lists_invD(2) dlist_next by (fastforce simp: kernel_inv_def)
  with Nil show ?thesis using assms(2) by (simp add: timer_tick_def timer_tick_loop.simps)
next
  case (Cons t ts)
  then have inv: "kernel_inv s Q (t # ts)" using assms(1) by simp
  show ?thesis
    using Cons timer_tick_first [OF inv assms(2), of now] task_sleep_function_wakes [OF inv, of "ucast now"] by auto
qed

theorem tick_wakes_one_sleeper_witness:
  "\<exists>s'. timer_tick kernel_timer_call 121 example_kernel = Some (INT_RESCHEDULE, s') \<and>
     state_of s' 12288 = READY \<and> freed s' = [512] \<and> timer_tick kernel_timer_call 119 example_kernel = Some (INT_NO_RESCHEDULE, example_kernel)"
  using tick_wakes_one_sleeper [OF example_kernel_inv, of 121] tick_wakes_one_sleeper [OF example_kernel_inv, of 119]
  by (auto simp: not_expired_def)


text \<open>
  Creating a task. Without a stack \<open>task_create\<close> returns -1 and no list changes. With one it
  returns 0, the task is \<open>CREATING\<close> and last in the run queue of its priority, its saved stack
  pointer and the nine-word frame lie inside the stack (which must hold at least 43 bytes and
  not wrap), and the frame returns into \<open>initial_task_func\<close>.
\<close>

theorem task_create_starts_task:
  assumes "lists_inv s Q T" and "prio s t < MAX_PRIORITY" and "t \<notin> queue_nodes s Q" and "t \<noteq> NULL"
    and "t \<notin> set (timer_list s # T)" and "stk \<noteq> NULL"
  shows "(\<exists>s'. task_create t f a NULL s = (- 1, s') \<and> links s' = links s) \<and>
    (\<exists>s'. task_create t f a stk s = (0, s') \<and> lists_inv s' (Q(prio s t := Q (prio s t) @ [t])) T \<and>
      state_of s' t = CREATING \<and> entry (task_at s' t) = f \<and> args (task_at s' t) = a \<and>
      stack_words s' (sp (task_at s' t) + 32) = initial_task_func_addr s \<and>
      (unat stk + unat (stack_size (task_at s' t)) < 2 ^ 32 \<and> 43 \<le> unat (stack_size (task_at s' t)) \<longrightarrow>
        unat stk \<le> unat (sp (task_at s' t)) \<and>
        unat (sp (task_at s' t)) + 36 \<le> unat stk + unat (stack_size (task_at s' t))))"
proof (rule conjI)
  show "\<exists>s'. task_create t f a NULL s = (- 1, s') \<and> links s' = links s"
    by (simp add: task_create_def Let_def)
next
  let ?sz = "if stack_size (task_at s t) = 0 then STACK_DEF_SIZE else stack_size (task_at s t)"
  obtain s0 where s0: "task_create t f a stk s = (0, sched_fifo_enqueue_task t s0)"
    "links s0 = INIT_LIST_HEAD t (links s)" "all_task_base s0 = all_task_base s"
    "task_bitmap s0 = task_bitmap s" "timer_list s0 = timer_list s" "\<forall>p. prio s0 p = prio s p"
    "task_at s0 t = (task_at s t)\<lparr>stack := stk, entry := f, args := a, state := CREATING, stack_size := ?sz,
      sp := ((stk + ?sz) AND NOT 7) - 36\<rparr>"
    "stack_words s0 (((stk + ?sz) AND NOT 7) - 36 + 32) = initial_task_func_addr s"
    using task_create_fields [OF assms(6)] by blast
  have "stack_words (sched_fifo_enqueue_task t s0) = stack_words s0" by (simp add: sched_fifo_enqueue_task_def)
  then show "\<exists>s'. task_create t f a stk s = (0, s') \<and> lists_inv s' (Q(prio s t := Q (prio s t) @ [t])) T \<and>
      state_of s' t = CREATING \<and> entry (task_at s' t) = f \<and> args (task_at s' t) = a \<and>
      stack_words s' (sp (task_at s' t) + 32) = initial_task_func_addr s \<and>
      (unat stk + unat (stack_size (task_at s' t)) < 2 ^ 32 \<and> 43 \<le> unat (stack_size (task_at s' t)) \<longrightarrow>
        unat stk \<le> unat (sp (task_at s' t)) \<and>
        unat (sp (task_at s' t)) + 36 \<le> unat stk + unat (stack_size (task_at s' t)))"
    using task_create_lists_inv [OF assms(1-5) s0(2-6)] stack_frame_in_stack [of stk ?sz] s0(1,7,8)
    by (intro exI [of _ "sched_fifo_enqueue_task t s0"]) (simp add: state_of_def)
qed

theorem task_create_starts_task_witness:
  "\<exists>s'. task_create 16384 77 5 65536 (example_kernel) = (0, s') \<and> state_of s' 16384 = CREATING \<and>
     entry (task_at s' 16384) = 77"
proof -
  have l: "lists_inv example_kernel example_run_queues [512]"
    using example_kernel_inv by (simp add: kernel_inv_def)
  have p: "prio example_kernel 16384 < MAX_PRIORITY"
    by (simp add: example_kernel_def example_timers_def prio_def example_sched1_def example_boot_def example_task_def)
  have "16384 \<notin> queue_nodes example_kernel example_run_queues" unfolding example_queue_nodes by simp
  from task_create_starts_task [OF l p this, of 65536 77 5] show ?thesis by auto
qed

text \<open>
  A task that ends is never run again: \<open>task_exit\<close> returns to the next task with the ended
  task \<open>EXITED\<close> and in no run queue, with the lists well formed, and with the critical section it
  entered still open.
\<close>

theorem task_exit_removes_current:
  assumes "lists_inv s Q T" and "prio s (current_task s) < MAX_PRIORITY"
    and "current_task s \<in> set (Q (prio s (current_task s)))"
  shows "\<exists>s1 Q'. lists_inv s1 Q' T \<and> (\<forall>i < MAX_PRIORITY. current_task s \<notin> set (Q' i)) \<and>
    state_of s1 (current_task s) = EXITED \<and> critical_section_count s1 = critical_section_count s + 1 \<and>
    task_exit others code s =
      Some (if current_task s1 = current_task s then s1 else others (current_task s) (current_task s1) s1)"
proof -
  let ?Q = "Q(prio s (current_task s) := remove1 (current_task s) (Q (prio s (current_task s))))"
  have "current_task s \<notin> set (?Q i)" if "i < MAX_PRIORITY" for i
    using removed_not_queued [OF lists_invD(1) [OF assms(1)] assms(2,3)] that unfolding queue_nodes_def by fastforce
  then show ?thesis using task_exit_result [OF assms, of others code] by blast
qed

theorem task_exit_removes_current_witness:
  "\<exists>s1. state_of s1 8192 = EXITED \<and> critical_section_count s1 = 1 \<and>
     task_exit (\<lambda>_ _ s. s) 0 example_kernel = Some s1"
proof -
  have l: "lists_inv example_kernel example_run_queues [512]"
    using example_kernel_inv by (simp add: kernel_inv_def)
  from task_exit_removes_current [OF l, of "\<lambda>_ _ s. s" 0] show ?thesis by auto
qed

text \<open>
  \<open>schedule_timeout\<close> oversleeps. It adds the current time to the timeout and passes the sum
  to \<open>task_sleep\<close>, which adds the current time once more: the timer of the caller expires at twice
  the current time plus the timeout.
\<close>

theorem schedule_timeout_adds_time_twice:
  assumes "kernel_inv s Q T" and "prio s (current_task s) < MAX_PRIORITY"
    and "current_task s \<in> set (Q (prio s (current_task s)))"
    and "t \<noteq> NULL" and "t \<notin> queue_nodes s Q" and "t \<notin> set (timer_list s # T)"
    and "\<forall>u \<in> set T. sleeper s u \<noteq> t"
    and "0 \<le> sint timeout" and "timeout \<noteq> MAX_SCHEDULE_TIMEOUT" and "timeout + ucast (ticks s) \<noteq> 0"
  shows "\<exists>s1 r. state_of s1 (current_task s) = SLEEPING \<and>
    expired_time (timer_at s1 t) = 2 * ucast (ticks s) + timeout \<and>
    schedule_timeout others t timeout s = Some (r, exit_critical_section
      (if current_task s1 = current_task s then s1 else others (current_task s) (current_task s1) s1))"
proof -
  have e: "(ucast (scast timeout + ticks s :: u64) :: u32) = timeout + ucast (ticks s)"
    by (rule ucast_scast_add)
  then show ?thesis
    using task_sleep_result [OF assms(1-7), of "timeout + ucast (ticks s)" others] assms(8-10)
    by (auto simp: schedule_timeout_def Let_def current_time_def e algebra_simps)
qed

theorem schedule_timeout_adds_time_twice_witness:
  "\<exists>s1 r. expired_time (timer_at s1 544) = 250 \<and>
     schedule_timeout (\<lambda>_ _ s. s) 544 50 example_kernel = Some (r, exit_critical_section s1)"
proof -
  have "544 \<notin> queue_nodes example_kernel example_run_queues" unfolding example_queue_nodes by simp
  from schedule_timeout_adds_time_twice [OF example_kernel_inv _ _ _ this, of 50 "\<lambda>_ _ s. s"]
  show ?thesis by auto
qed

end
