(* ===== verification/Semaphore.thy ===== *)
theory Semaphore
  imports Task
begin

section \<open>Semaphores: \<open>kernel/semaphore.c\<close>\<close>

text \<open>
  A semaphore is its address; its count is a field of the state by address and its wait list is
  the list node at offset 4. A waiter lives on the stack of the task that blocks: its address is
  an argument of \<open>down\<close>. A blocked task stays in its run queue, marked \<open>BLOCKED\<close>, and the loop of
  \<open>down_wait\<close> (the code's \<open>__down\<close>) gives the processor away until \<open>up\<close> has been set: what runs
  meanwhile is the argument \<open>others\<close>.
\<close>

record sync = kernel +
  sem_count :: "ptr \<Rightarrow> u32"
  waiter_task :: "ptr \<Rightarrow> ptr"
  waiter_up :: "ptr \<Rightarrow> int"

definition wait_list :: "ptr \<Rightarrow> ptr" where
  "wait_list sem = sem + 4"

definition sema_init :: "ptr \<Rightarrow> u32 \<Rightarrow> 'a sync_scheme \<Rightarrow> 'a sync_scheme" where
  "sema_init sem val s =
     s\<lparr>sem_count := (sem_count s)(sem := val), links := INIT_LIST_HEAD (wait_list sem) (links s)\<rparr>"

text \<open>The statements of \<open>__down\<close> before its loop.\<close>

definition down_enqueue :: "ptr \<Rightarrow> ptr \<Rightarrow> 'a sync_scheme \<Rightarrow> 'a sync_scheme" where
  "down_enqueue waiter sem s =
     s\<lparr>links := list_add_tail waiter (wait_list sem) (links s),
       waiter_task := (waiter_task s)(waiter := current_task s),
       waiter_up := (waiter_up s)(waiter := 0)\<rparr>"

partial_function (option) down_loop ::
    "'a sync_scheme switch \<Rightarrow> ptr \<Rightarrow> ptr \<Rightarrow> 'a sync_scheme \<Rightarrow> 'a sync_scheme option" where
  "down_loop others waiter t s =
     Option.bind (task_schedule others (enter_critical_section (set_task_state t BLOCKED s))) (\<lambda>s1.
       let s2 = exit_critical_section s1 in
       if waiter_up s2 waiter \<noteq> 0 then Some s2 else down_loop others waiter t s2)"

definition down_wait :: "'a sync_scheme switch \<Rightarrow> ptr \<Rightarrow> ptr \<Rightarrow> 'a sync_scheme \<Rightarrow> 'a sync_scheme option" where
  "down_wait others waiter sem s = down_loop others waiter (current_task s) (down_enqueue waiter sem s)"

definition up_wake :: "ptr \<Rightarrow> 'a sync_scheme \<Rightarrow> 'a sync_scheme" where
  "up_wake sem s =
     (let waiter = nxt (links s) (wait_list sem);
          s1 = s\<lparr>links := list_del waiter (links s), waiter_up := (waiter_up s)(waiter := 1)\<rparr>
      in set_task_state (waiter_task s1 waiter) READY s1)"

definition down :: "'a sync_scheme switch \<Rightarrow> ptr \<Rightarrow> ptr \<Rightarrow> 'a sync_scheme \<Rightarrow> 'a sync_scheme option" where
  "down others waiter sem s =
     (let s1 = enter_critical_section s in
      map_option exit_critical_section
        (if sem_count s1 sem > 0
         then Some (s1\<lparr>sem_count := (sem_count s1)(sem := sem_count s1 sem - 1)\<rparr>)
         else down_wait others waiter sem s1))"

definition up :: "ptr \<Rightarrow> 'a sync_scheme \<Rightarrow> 'a sync_scheme" where
  "up sem s =
     (let s1 = enter_critical_section s in
      exit_critical_section
        (if list_empty (wait_list sem) (links s1)
         then s1\<lparr>sem_count := (sem_count s1)(sem := sem_count s1 sem + 1)\<rparr>
         else up_wake sem s1))"

subsection \<open>What waiting leaves alone\<close>

text \<open>
  A property that does not depend on the scheduler's fields and that the other tasks keep is kept by a reschedule; one that
  does not depend on the fields of semaphores either is kept by \<open>down\<close> and \<open>up\<close>, blocking included.
\<close>

lemma pick_loop_more: "pick_loop i s = Some (r, s') \<Longrightarrow> sched.more s' = sched.more s"
  by (induction i s rule: pick_loop.induct) (subst (asm) pick_loop.simps, auto split: if_splits option.splits)

lemma task_schedule_keeps:
  fixes s :: "'a kernel_scheme"
  assumes indep: "\<And>s s' :: 'a kernel_scheme. kernel.more s' = kernel.more s \<Longrightarrow> P s \<Longrightarrow> P s'"
    and others: "\<And>a b s. P s \<Longrightarrow> P (others a b s)"
    and "P s" "task_schedule others s = Some s'"
  shows "P s'"
proof -
  obtain n s1 where p: "sched_fifo_pick_next_task s = Some (n, s1)"
    using assms(4) by (auto simp: task_schedule_def Let_def split: option.splits)
  then have "sched.more s1 = sched.more s"
    by (auto simp: sched_fifo_pick_next_task_def set_task_state_def split: option.splits dest!: pick_loop_more)
  then have "kernel.more s1 = kernel.more s" by (cases s; cases s1) simp
  then have "P s1" "P (s1\<lparr>mmu_pgd := v\<rparr>)" for v
    using indep [of s1 s] indep [of "s1\<lparr>mmu_pgd := v\<rparr>" s] assms(3) by simp_all
  then show ?thesis
    using assms(4) p others by (auto simp: task_schedule_def Let_def arch_context_switch_def split: if_splits)
qed

lemma critical_more [simp]:
  "kernel.more (enter_critical_section s) = kernel.more s" "kernel.more (exit_critical_section s) = kernel.more s"
  by (simp_all add: enter_critical_section_def exit_critical_section_def Let_def)

lemma sync_more_kernel: "kernel.more s' = kernel.more s \<Longrightarrow> sync.more s' = sync.more s"
  by (cases s; cases s') simp

lemma set_task_state_more [simp]: "kernel.more (set_task_state t v s) = kernel.more s"
  by (simp add: set_task_state_def)

lemma down_keeps:
  fixes s :: "'a sync_scheme"
  assumes indep: "\<And>s s' :: 'a sync_scheme. sync.more s' = sync.more s \<Longrightarrow> P s \<Longrightarrow> P s'"
    and others: "\<And>a b s. P s \<Longrightarrow> P (others a b s)"
    and "P s" "down others w sem s = Some s'"
  shows "P s'"
proof -
  have k: "P s2" if "kernel.more s2 = kernel.more s1" "P s1" for s1 s2 :: "'a sync_scheme"
    using indep [OF sync_more_kernel [OF that(1)] that(2)] .
  have sched: "P s2" if "task_schedule others s1 = Some s2" "P s1" for s1 s2
    using task_schedule_keeps [of P others s1 s2] k others that by blast
  have loop: "P s2" if "down_loop others w t s1 = Some s2" "P s1" for t s1 s2
  proof -
    have "others = others \<longrightarrow> w = w \<longrightarrow> P s1 \<longrightarrow> P s2"
    proof (rule down_loop.raw_induct [OF _ that(1),
        where P = "\<lambda>others' w' t s s'. others' = others \<longrightarrow> w' = w \<longrightarrow> P s \<longrightarrow> P s'"])
      fix f others' w' t s s'
      assume IH: "\<And>others' w' t s s'. f others' w' t s = Some s' \<Longrightarrow> others' = others \<longrightarrow> w' = w \<longrightarrow> P s \<longrightarrow> P s'"
        and eq: "Option.bind (task_schedule others' (enter_critical_section (set_task_state t BLOCKED s))) (\<lambda>s1.
          let s2 = exit_critical_section s1 in if waiter_up s2 w' \<noteq> 0 then Some s2 else f others' w' t s2) = Some s'"
      show "others' = others \<longrightarrow> w' = w \<longrightarrow> P s \<longrightarrow> P s'"
      proof (intro impI)
        assume o: "others' = others" "w' = w" "P s"
        obtain s1 where s1: "task_schedule others (enter_critical_section (set_task_state t BLOCKED s)) = Some s1"
          using eq o(1) by (auto simp: bind_eq_Some_conv)
        have "P s1" using sched [OF s1] k [OF _ o(3), of "enter_critical_section (set_task_state t BLOCKED s)"] by simp
        then have "P (exit_critical_section s1)" using k by (metis critical_more(2))
        then show "P s'" using eq s1 o IH by (auto simp: Let_def split: if_splits)
      qed
    qed
    then show ?thesis using that(2) by simp
  qed
  have m: "sync.more (enter_critical_section s) = sync.more s" "sync.more (exit_critical_section u) = sync.more u" for u :: "'a sync_scheme"
    by (rule sync_more_kernel, simp)+
  have "P (down_enqueue w sem (enter_critical_section s))"
    by (rule indep [OF _ assms(3)]) (simp add: down_enqueue_def m)
  moreover have "P (exit_critical_section ((enter_critical_section s)\<lparr>sem_count := f\<rparr>))" for f
    by (rule indep [OF _ assms(3)]) (simp add: m)
  moreover have "P (exit_critical_section u)" if "P u" for u using indep [OF m(2) that] .
  ultimately show ?thesis
    using assms(4) loop by (auto simp: down_def down_wait_def Let_def split: if_splits)
qed

lemma up_more: "sync.more (up sem s) = sync.more s"
  by (simp add: up_def up_wake_def Let_def set_task_state_def enter_critical_section_def exit_critical_section_def)

subsection \<open>What the operations do to a semaphore\<close>

text \<open>
  The abstract semaphore: a count and the waiters in order. A waiter only waits when no unit is
  left, and only a unit that nobody waits for is counted.
\<close>

definition sem_rep :: "'a sync_scheme \<Rightarrow> ptr \<Rightarrow> nat \<Rightarrow> ptr list \<Rightarrow> bool" where
  "sem_rep s sem n W \<longleftrightarrow> dlist (links s) (wait_list sem) W \<and> unat (sem_count s sem) = n \<and> (W \<noteq> [] \<longrightarrow> n = 0)"

lemma sync_critical_sel [simp]:
  "sem_count (enter_critical_section s) = sem_count s" "sem_count (exit_critical_section s) = sem_count s"
  "waiter_task (enter_critical_section s) = waiter_task s" "waiter_task (exit_critical_section s) = waiter_task s"
  "waiter_up (enter_critical_section s) = waiter_up s" "waiter_up (exit_critical_section s) = waiter_up s"
  by (simp_all add: enter_critical_section_def exit_critical_section_def Let_def)

lemma sync_state_sel [simp]:
  "sem_count (set_task_state t v s) = sem_count s" "waiter_task (set_task_state t v s) = waiter_task s"
  "waiter_up (set_task_state t v s) = waiter_up s"
  by (simp_all add: set_task_state_def)

lemma down_enqueue_sel [simp]:
  "prio (down_enqueue w sem s) t = prio s t" "state_of (down_enqueue w sem s) t = state_of s t"
  "current_task (down_enqueue w sem s) = current_task s" "all_task_base (down_enqueue w sem s) = all_task_base s"
  "task_bitmap (down_enqueue w sem s) = task_bitmap s" "sem_count (down_enqueue w sem s) = sem_count s"
  "waiter_task (down_enqueue w sem s) w = current_task s"
  "links (down_enqueue w sem s) = list_add_tail w (wait_list sem) (links s)"
  by (simp_all add: down_enqueue_def prio_def state_of_def)

lemma sem_rep_cong:
  "links s' = links s \<Longrightarrow> sem_count s' sem = sem_count s sem \<Longrightarrow> sem_rep s' sem n W = sem_rep s sem n W"
  by (simp add: sem_rep_def)

lemma sema_init_rep: "sem_rep (sema_init sem val s) sem (unat val) []"
  by (simp add: sem_rep_def sema_init_def INIT_LIST_HEAD_dlist)

lemma down_takes_unit:
  assumes "sem_rep s sem (Suc n) W"
  shows "\<exists>s'. down others waiter sem s = Some s' \<and> sem_rep s' sem n W \<and> links s' = links s \<and>
    task_at s' = task_at s \<and> critical_section_count s' = critical_section_count s"
proof -
  have W: "W = []" and c: "unat (sem_count s sem) = Suc n" using assms by (auto simp: sem_rep_def)
  then have pos: "0 < sem_count s sem" by (simp add: word_less_nat_alt)
  then have "unat (sem_count s sem - 1) = n"
    using c by (subst unat_sub_no_wrap) (simp_all add: word_less_nat_alt)
  then show ?thesis using assms pos W by (simp add: down_def sem_rep_def)
qed

lemma down_enqueue_rep:
  assumes "sem_rep s sem 0 W" and "w \<notin> set (wait_list sem # W)"
  shows "sem_rep (down_enqueue w sem s) sem 0 (W @ [w])"
  using assms by (simp add: sem_rep_def down_enqueue_def list_add_tail_dlist)

lemma up_counts:
  assumes "sem_rep s sem n []" and "Suc n < 2 ^ 32"
  shows "sem_rep (up sem s) sem (Suc n) [] \<and> links (up sem s) = links s \<and> task_at (up sem s) = task_at s"
proof -
  have "unat (sem_count s sem + 1) = Suc n"
    using assms by (subst unat_Suc_no_wrap) (simp_all add: sem_rep_def)
  then show ?thesis using assms by (simp add: up_def sem_rep_def list_empty_dlist [of _ _ "[]"] Let_def)
qed

lemma up_wakes_first:
  assumes "sem_rep s sem n (w # W)"
  shows "sem_rep (up sem s) sem n W \<and> waiter_up (up sem s) w = 1 \<and>
    state_of (up sem s) (waiter_task s w) = READY \<and> waiter_task (up sem s) = waiter_task s"
proof -
  have d: "dlist (links s) (wait_list sem) (w # W)" using assms by (simp add: sem_rep_def)
  have "dlist (list_del w (links s)) (wait_list sem) W"
    using list_del_dlist [of "links s" "wait_list sem" "[]" w W] d by simp
  moreover have "nxt (links s) (wait_list sem) = w" using d by (simp add: dlist_next)
  ultimately show ?thesis
    using assms d by (simp add: up_def up_wake_def Let_def sem_rep_def list_empty_dlist)
qed

subsection \<open>Free locks\<close>

text \<open>Taking and releasing a semaphore nobody waits for only moves its count.\<close>

lemma down_free:
  assumes "ints_balanced s" and "0 < sem_count s sem"
  shows "down others w sem s = Some (s\<lparr>sem_count := (sem_count s)(sem := sem_count s sem - 1)\<rparr>)"
proof -
  have "exit_critical_section ((enter_critical_section s)\<lparr>sem_count := f\<rparr>) =
      (exit_critical_section (enter_critical_section s))\<lparr>sem_count := f\<rparr>" for f
    by (simp add: enter_critical_section_def exit_critical_section_def Let_def)
  then show ?thesis
    using assms by (simp add: down_def Let_def critical_section_round_trip)
qed

lemma up_free:
  assumes "ints_balanced s" and "list_empty (wait_list sem) (links s)"
  shows "up sem s = s\<lparr>sem_count := (sem_count s)(sem := sem_count s sem + 1)\<rparr>"
proof -
  have "exit_critical_section ((enter_critical_section s)\<lparr>sem_count := f\<rparr>) =
      (exit_critical_section (enter_critical_section s))\<lparr>sem_count := f\<rparr>" for f
    by (simp add: enter_critical_section_def exit_critical_section_def Let_def)
  then show ?thesis
    using assms by (simp add: up_def Let_def critical_section_round_trip)
qed

lemma ints_balanced_upd [simp]:
  "ints_balanced (s\<lparr>sem_count := f\<rparr>) = ints_balanced s" "ints_balanced (s\<lparr>links := h\<rparr>) = ints_balanced s"
  by (simp_all add: ints_balanced_def)

text \<open>A change of a list under a free lock that leaves the waiters of the lock alone.\<close>

lemma locked_links:
  assumes "ints_balanced s" and "0 < sem_count s sem" and "list_empty (wait_list sem) (f (links s))"
  shows "map_option (\<lambda>s1. up sem (s1\<lparr>links := f (links s1)\<rparr>)) (down others w sem s) = Some (s\<lparr>links := f (links s)\<rparr>)"
  using assms by (simp add: down_free up_free)

subsection \<open>A task that blocks\<close>

text \<open>The state in which a blocking \<open>down\<close> first gives the processor away.\<close>

definition down_blocked :: "ptr \<Rightarrow> ptr \<Rightarrow> 'a sync_scheme \<Rightarrow> 'a sync_scheme" where
  "down_blocked waiter sem s =
     enter_critical_section (set_task_state (current_task s) BLOCKED
       (down_enqueue waiter sem (enter_critical_section s)))"

text \<open>
  One round of the waiting loop, from giving the processor away to getting it back, and \<open>n\<close> of them. The
  loop ends after the first round that finds the flag of the waiter set.
\<close>

definition wait_round :: "'a sync_scheme switch \<Rightarrow> ptr \<Rightarrow> 'a sync_scheme \<Rightarrow> 'a sync_scheme option" where
  "wait_round others t s =
     map_option exit_critical_section (task_schedule others (enter_critical_section (set_task_state t BLOCKED s)))"

fun wait_rounds :: "nat \<Rightarrow> 'a sync_scheme switch \<Rightarrow> ptr \<Rightarrow> 'a sync_scheme \<Rightarrow> 'a sync_scheme option" where
  "wait_rounds 0 others t s = Some s"
| "wait_rounds (Suc n) others t s = Option.bind (wait_round others t s) (wait_rounds n others t)"

definition woken_after :: "nat \<Rightarrow> 'a sync_scheme switch \<Rightarrow> ptr \<Rightarrow> ptr \<Rightarrow> 'a sync_scheme \<Rightarrow> 'a sync_scheme \<Rightarrow> bool" where
  "woken_after n others w t s r \<longleftrightarrow> wait_rounds (Suc n) others t s = Some r \<and> waiter_up r w \<noteq> 0 \<and>
     (\<forall>j < n. \<exists>r'. wait_rounds (Suc j) others t s = Some r' \<and> waiter_up r' w = 0)"

lemma woken_after_0: "woken_after 0 others w t s r \<longleftrightarrow> wait_round others t s = Some r \<and> waiter_up r w \<noteq> 0"
  by (auto simp: woken_after_def bind_eq_Some_conv)

lemma woken_after_Suc:
  "woken_after (Suc n) others w t s r \<longleftrightarrow>
     (\<exists>s1. wait_round others t s = Some s1 \<and> waiter_up s1 w = 0 \<and> woken_after n others w t s1 r)"
  by (cases "wait_round others t s") (auto simp: woken_after_def All_less_Suc2)

lemma down_loop_round:
  "down_loop others w t s =
     Option.bind (wait_round others t s) (\<lambda>s1. if waiter_up s1 w \<noteq> 0 then Some s1 else down_loop others w t s1)"
  by (subst down_loop.simps) (cases "task_schedule others (enter_critical_section (set_task_state t BLOCKED s))";
      simp add: wait_round_def Let_def)

lemma down_loop_returns: "woken_after n others w t s r \<Longrightarrow> down_loop others w t s = Some r"
  by (induction n arbitrary: s; subst down_loop_round) (auto simp: woken_after_0 woken_after_Suc)

lemma down_loop_woken:
  assumes "down_loop others w t s = Some r"
  shows "\<exists>n. woken_after n others w t s r"
proof (rule down_loop.raw_induct [OF _ assms, where P = "\<lambda>others w t s r. \<exists>n. woken_after n others w t s r"])
  fix f others w t and s r :: "'a sync_scheme"
  assume IH: "\<And>others w t s r. f others w t s = Some r \<Longrightarrow> \<exists>n. woken_after n others w t s r"
    and eq: "Option.bind (task_schedule others (enter_critical_section (set_task_state t BLOCKED s))) (\<lambda>s1.
      let s2 = exit_critical_section s1 in if waiter_up s2 w \<noteq> 0 then Some s2 else f others w t s2) = Some r"
  then obtain s1 where s1: "wait_round others t s = Some s1" "(if waiter_up s1 w \<noteq> 0 then Some s1 else f others w t s1) = Some r"
    by (auto simp: wait_round_def bind_eq_Some_conv Let_def)
  show "\<exists>n. woken_after n others w t s r"
  proof (cases "waiter_up s1 w = 0")
    case True
    then obtain n where "woken_after n others w t s1 r" using IH [of others w t s1 r] s1(2) by auto
    then have "woken_after (Suc n) others w t s r" unfolding woken_after_Suc using s1(1) True by blast
    then show ?thesis by blast
  next
    case False
    then have "woken_after 0 others w t s r" using s1 by (simp add: woken_after_0)
    then show ?thesis by blast
  qed
qed

lemma down_returns_woken:
  assumes "sem_rep s sem 0 W"
  shows "down others w sem s = Some s' \<longleftrightarrow>
    (\<exists>n r. woken_after n others w (current_task s) (down_enqueue w sem (enter_critical_section s)) r \<and> s' = exit_critical_section r)"
proof -
  have "\<not> 0 < sem_count s sem" using assms by (simp add: sem_rep_def word_less_nat_alt)
  then have "down others w sem s = map_option exit_critical_section
      (down_loop others w (current_task s) (down_enqueue w sem (enter_critical_section s)))"
    by (simp add: down_def down_wait_def Let_def)
  moreover have "down_loop others w t e = Some r \<longleftrightarrow> (\<exists>n. woken_after n others w t e r)" for t e r
    using down_loop_returns down_loop_woken by blast
  ultimately show ?thesis by (auto simp: map_option_eq_Some)
qed

text \<open>Several calls of \<open>up\<close> while tasks wait.\<close>

lemma up_wakes_only:
  assumes "sem_rep s sem c (v # V)"
  shows "waiter_up (up sem s) = (waiter_up s)(v := 1)" "waiter_task (up sem s) = waiter_task s"
    "state_of (up sem s) t = (if t = waiter_task s v then READY else state_of s t)"
proof -
  have d: "dlist (links s) (wait_list sem) (v # V)" using assms by (simp add: sem_rep_def)
  then have "nxt (links s) (wait_list sem) = v" by (simp add: dlist_next)
  then show "waiter_up (up sem s) = (waiter_up s)(v := 1)" "waiter_task (up sem s) = waiter_task s"
    "state_of (up sem s) t = (if t = waiter_task s v then READY else state_of s t)"
    using d by (simp_all add: up_def up_wake_def Let_def list_empty_dlist)
      (simp add: state_of_def enter_critical_section_def Let_def)
qed

lemma ups_wake_in_order:
  assumes "sem_rep s sem c V" and "n \<le> length V"
  shows "sem_rep ((up sem ^^ n) s) sem c (drop n V) \<and> waiter_task ((up sem ^^ n) s) = waiter_task s \<and>
    (\<forall>v. waiter_up ((up sem ^^ n) s) v = (if v \<in> set (take n V) then 1 else waiter_up s v)) \<and>
    (\<forall>v \<in> set (take n V). state_of ((up sem ^^ n) s) (waiter_task s v) = READY)"
  using assms(2)
proof (induction n)
  case 0
  then show ?case using assms(1) by simp
next
  case (Suc n)
  let ?u = "(up sem ^^ n) s"
  have "drop n V = V ! n # drop (Suc n) V" using Suc.prems by (simp add: Cons_nth_drop_Suc)
  then have r: "sem_rep ?u sem c (V ! n # drop (Suc n) V)" using Suc by simp
  have "set (take (Suc n) V) = insert (V ! n) (set (take n V))" using Suc.prems by (simp add: take_Suc_conv_app_nth)
  then show ?case using Suc up_wakes_first [OF r] up_wakes_only [OF r] by simp
qed

subsection \<open>Histories of a semaphore\<close>

text \<open>
  The states a semaphore initialised with \<open>n\<close> goes through, with its waiters and the number of
  tasks that hold a unit. Between the operations on it anything may happen that leaves its
  count and its wait list alone.
\<close>

inductive sem_history :: "u32 \<Rightarrow> ptr \<Rightarrow> 'a sync_scheme \<Rightarrow> ptr list \<Rightarrow> nat \<Rightarrow> bool" for n sem where
  hist_init: "sem_history n sem (sema_init sem n s) [] 0"
| hist_acquire: "sem_history n sem s W h \<Longrightarrow> 0 < sem_count s sem \<Longrightarrow> down others w sem s = Some s' \<Longrightarrow>
    sem_history n sem s' W (Suc h)"
| hist_block: "sem_history n sem s W h \<Longrightarrow> sem_count s sem = 0 \<Longrightarrow> w \<notin> set (wait_list sem # W) \<Longrightarrow>
    sem_history n sem (down_blocked w sem s) (W @ [w]) h"
| hist_release: "sem_history n sem s W (Suc h) \<Longrightarrow>
    sem_history n sem (up sem s) (tl W) (if W = [] then h else Suc h)"
| hist_other: "sem_history n sem s W h \<Longrightarrow> unchanged_outside S (links s) (links s') \<Longrightarrow>
    S \<inter> set (wait_list sem # W) = {} \<Longrightarrow> sem_count s' sem = sem_count s sem \<Longrightarrow>
    sem_history n sem s' W h"

inductive_cases sem_historyE: "sem_history n sem s W h"

lemma sem_history_inv:
  "sem_history n sem s W h \<Longrightarrow> \<exists>c. sem_rep s sem c W \<and> c + h = unat n"
proof (induction rule: sem_history.induct)
  case (hist_init s)
  then show ?case using sema_init_rep by fastforce
next
  case (hist_acquire s W h others w s')
  then obtain c where c: "sem_rep s sem c W" "c + h = unat n" by blast
  then obtain c' where "c = Suc c'"
    using hist_acquire.hyps(2) by (cases c) (auto simp: sem_rep_def word_less_nat_alt)
  then show ?case using down_takes_unit [of s sem c' W others w] c hist_acquire.hyps(3) by auto
next
  case (hist_block s W h w)
  then obtain c where c: "sem_rep s sem c W" "c + h = unat n" by blast
  moreover have "c = 0" using c(1) hist_block.hyps(2) by (simp add: sem_rep_def)
  ultimately have "sem_rep (down_enqueue w sem (enter_critical_section s)) sem 0 (W @ [w])"
    using hist_block.hyps(3) by (intro down_enqueue_rep) (simp_all add: sem_rep_def)
  then have "sem_rep (down_blocked w sem s) sem 0 (W @ [w])"
    by (subst sem_rep_cong [of _ "down_enqueue w sem (enter_critical_section s)"]) (simp_all add: down_blocked_def)
  then show ?case using \<open>c = 0\<close> c(2) by auto
next
  case (hist_release s W h)
  then obtain c where c: "sem_rep s sem c W" "c + Suc h = unat n" by blast
  show ?case
  proof (cases W)
    case Nil
    have "Suc c < 2 ^ 32" using c(2) unat_u32_less [of n] by simp
    then show ?thesis using up_counts [of s sem c] c Nil by auto
  next
    case (Cons w ws)
    then show ?thesis using up_wakes_first [of s sem c w ws] c by auto
  qed
next
  case (hist_other s W h S s')
  then show ?case
    using unchanged_outside_dlist unfolding sem_rep_def by metis
qed

subsection \<open>Properties\<close>

definition example_sync :: sync where
  "example_sync = kernel.extend example_timers (sync.fields (\<lambda>_. 0) (\<lambda>_. 0) (\<lambda>_. 0))"

text \<open>
  C6. A semaphore never lets more tasks hold a unit than it was initialised with. Whatever
  sequence of acquisitions, blocked downs and releases, mixed with other activity, has run:
  the units held and the count add up to the initial value, and a task waits only while every
  unit is held. Initialised with 1, at most one task holds it.
\<close>

theorem semaphore_conserves_units:
  assumes "sem_history n sem s W h"
  shows "unat (sem_count s sem) + h = unat n \<and> (W \<noteq> [] \<longrightarrow> h = unat n) \<and> (n = 1 \<longrightarrow> h \<le> 1) \<and>
    dlist (links s) (wait_list sem) W"
  using sem_history_inv [OF assms] by (auto simp: sem_rep_def)

theorem semaphore_conserves_units_witness:
  "\<exists>s :: sync. sem_history 1 1024 s [2048] 1 \<and> sem_count s 1024 = 0"
proof -
  let ?s0 = "sema_init 1024 1 example_sync"
  have h0: "sem_history 1 1024 ?s0 [] 0" by (rule hist_init)
  have "sem_rep ?s0 1024 (Suc 0) []" using sema_init_rep [of 1024 1 example_sync] by simp
  then obtain s1 where s1: "down (\<lambda>_ _ s. s) 1536 1024 ?s0 = Some s1" "sem_rep s1 1024 0 []"
    using down_takes_unit by blast
  have "sem_history 1 1024 s1 [] (Suc 0)"
    by (rule hist_acquire [OF h0 _ s1(1)]) (simp add: sema_init_def)
  moreover have "sem_count s1 1024 = 0" using s1(2) by (simp add: sem_rep_def unsigned_eq_0_iff)
  ultimately have "sem_history 1 1024 (down_blocked 2048 1024 s1) ([] @ [2048]) 1"
    unfolding One_nat_def by (rule hist_block) (simp add: wait_list_def)
  from this semaphore_conserves_units [OF this] show ?thesis by (auto simp: unsigned_eq_0_iff)
qed

text \<open>
  C21. Units are handed over in the order of arrival, and a blocked \<open>down\<close> returns exactly when it has been given one. A
  \<open>down\<close> that finds no unit leaves its waiter last in the wait list and the caller \<open>BLOCKED\<close> when it first gives the
  processor away. While \<open>V\<close> wait, \<open>n\<close> calls of \<open>up\<close> take the first \<open>n\<close> of them off the list, set their flags and no
  others, make their tasks \<open>READY\<close> and count no unit. And \<open>down\<close> returns \<open>s'\<close> if and only if there is a round of its waiting loop after
  which the flag of its waiter is set, after all earlier rounds it was not, and \<open>s'\<close> is the state after that round
  with the critical section of \<open>down\<close> closed: it does not return without a unit, and it does return with one.
\<close>

theorem semaphore_fifo_handoff:
  assumes "sem_rep s sem 0 W" and "w \<notin> set (wait_list sem # W)" and "sem_rep u sem k V" and "n \<le> length V"
  shows "sem_rep (down_blocked w sem s) sem 0 (W @ [w]) \<and>
    state_of (down_blocked w sem s) (current_task s) = BLOCKED \<and>
    waiter_task (down_blocked w sem s) w = current_task s \<and>
    sem_rep ((up sem ^^ n) u) sem k (drop n V) \<and>
    (\<forall>v. waiter_up ((up sem ^^ n) u) v = (if v \<in> set (take n V) then 1 else waiter_up u v)) \<and>
    (\<forall>v \<in> set (take n V). state_of ((up sem ^^ n) u) (waiter_task u v) = READY) \<and>
    (down others w sem s = Some s' \<longleftrightarrow>
      (\<exists>m r. woken_after m others w (current_task s) (down_enqueue w sem (enter_critical_section s)) r \<and> s' = exit_critical_section r))"
proof -
  have "sem_rep (down_enqueue w sem (enter_critical_section s)) sem 0 (W @ [w])"
    using assms(1,2) by (intro down_enqueue_rep) (simp_all add: sem_rep_def)
  then have "sem_rep (down_blocked w sem s) sem 0 (W @ [w])"
    by (subst sem_rep_cong [of _ "down_enqueue w sem (enter_critical_section s)"]) (simp_all add: down_blocked_def)
  moreover have "state_of (down_blocked w sem s) (current_task s) = BLOCKED"
    "waiter_task (down_blocked w sem s) w = current_task s"
    by (simp_all add: down_blocked_def)
  ultimately show ?thesis
    using ups_wake_in_order [OF assms(3,4)] down_returns_woken [OF assms(1)] by blast
qed


text \<open>Two tasks, 8192 running and 12288 ready, and a semaphore at 1024 without units.\<close>

definition example_two :: sync where
  "example_two = sema_init 1024 0 (example_sync\<lparr>links := links example_sched, task_at := task_at example_sched,
     task_bitmap := task_bitmap example_sched\<rparr>)"

lemma example_two_sel [simp]:
  "current_task example_two = 8192" "prio example_two 8192 = 1" "prio example_two 12288 = 5"
  "state_of example_two 12288 = READY" "all_task_base example_two = 4096"
  "links example_two = INIT_LIST_HEAD 1028 (links example_sched)" "task_bitmap example_two = task_bitmap example_sched"
  "sem_count example_two 1024 = 0" "task_at example_two = task_at example_sched"
  by (simp_all add: example_two_def sema_init_def example_sync_def example_timers_def kernel.defs sync.defs
      prio_def state_of_def example_sched_def example_boot_def example_task_def wait_list_def)

lemma example_two_nodes:
  "all_task_base s = 4096 \<Longrightarrow> queue_nodes s example_queues =
     {4096, 4104, 4112, 4120, 4128, 4136, 4144, 4152, 8192, 12288}"
  by (auto simp: queue_nodes_def lessThan_MAX_PRIORITY all_task_def example_queues_def)

lemma example_blocked_inv: "sched_inv (down_blocked 2048 1024 example_two) example_queues"
proof -
  let ?s = "example_two\<lparr>links := links example_sched\<rparr>"
  have "sched_inv ?s example_queues"
    using sched_reach_inv [OF example_reach]
    by (subst sched_inv_cong [of _ example_sched]) (simp_all add: prio_def, simp add: example_sched_def example_boot_def)
  from sched_inv_links_frame [OF this, of "{1028}" "links example_two"]
  have i: "sched_inv example_two example_queues"
    using unchanged_outside_INIT [of 1028 "links example_sched"]
    by (simp add: example_two_nodes del: example_two_sel(6)) simp
  have "unchanged_outside {2048, 1028} (links example_two) (list_add_tail 2048 1028 (links example_two))"
    using list_add_tail_unchanged [OF INIT_LIST_HEAD_dlist, of 2048 1028 "links example_sched"] by simp
  from sched_inv_links_frame [OF i this]
  have "sched_inv (example_two\<lparr>links := list_add_tail 2048 1028 (links example_two)\<rparr>) example_queues"
    by (simp add: example_two_nodes)
  then show ?thesis
    by (subst sched_inv_cong [of _ "example_two\<lparr>links := list_add_tail 2048 1028 (links example_two)\<rparr>"])
      (simp_all add: down_blocked_def wait_list_def)
qed

theorem semaphore_fifo_handoff_witness:
  "\<exists>s1. down (\<lambda>_ _ s. up 1024 s) 2048 1024 example_two = Some (exit_critical_section (exit_critical_section s1)) \<and>
     state_of (down_blocked 2048 1024 example_two) 8192 = BLOCKED"
proof -
  let ?b = "down_blocked 2048 1024 example_two"
  have sel: "current_task ?b = 8192" "prio ?b 8192 = 1" "state_of ?b 8192 = BLOCKED" "state_of ?b 12288 = READY"
    by (simp_all add: down_blocked_def)
  have cq: "current_queued ?b example_queues" by (simp add: current_queued_def sel example_queues_def)
  have off: "offered ?b example_queues = [12288]"
    unfolding offered_def upt_MAX_PRIORITY
    by (simp add: candidates_def example_queues_def has_left_def sel after_in_ring_def)
  obtain n where pick: "sched_fifo_pick_next_task ?b =
      Some (12288, (set_task_state 12288 RUNNING (?b\<lparr>next_task := n\<rparr>))\<lparr>current_task := 12288\<rparr>)"
    using pick_next_result [OF example_blocked_inv cq] unfolding off by auto
  have r0: "sem_rep example_two 1024 0 []"
    by (simp add: sem_rep_def wait_list_def INIT_LIST_HEAD_dlist)
  have w: "2048 \<notin> set (wait_list 1024 # [])" by (simp add: wait_list_def)
  have r1: "sem_rep ?b 1024 0 [2048]"
    using down_enqueue_rep [OF r0 w] by (simp add: sem_rep_def down_blocked_def)
  let ?k = "((set_task_state 12288 RUNNING (?b\<lparr>next_task := n\<rparr>))\<lparr>current_task := 12288\<rparr>)"
  let ?s1 = "up 1024 (?k\<lparr>mmu_pgd := mm_pgd (task_at ?k 12288)\<rparr>)"
  have sched: "task_schedule (\<lambda>_ _ s. up 1024 s) ?b = Some ?s1"
    by (simp add: task_schedule_def pick arch_context_switch_def sel)
  have "sem_rep (?k\<lparr>mmu_pgd := mm_pgd (task_at ?k 12288)\<rparr>) 1024 0 [2048]"
    using r1 by (simp add: sem_rep_def)
  then have "waiter_up ?s1 2048 \<noteq> 0" using up_wakes_first by fastforce
  then have "woken_after 0 (\<lambda>_ _ s. up 1024 s) 2048 (current_task example_two)
      (down_enqueue 2048 1024 (enter_critical_section example_two)) (exit_critical_section ?s1)"
    using sched by (simp add: woken_after_0 wait_round_def down_blocked_def)
  then show ?thesis using semaphore_fifo_handoff [OF r0 w r1, of 1 "\<lambda>_ _ s. up 1024 s"] by auto
qed

end
