(* ===== verification/Wait_Queue.thy ===== *)
theory Wait_Queue
  imports Semaphore
begin

section \<open>Wait queues and completions: \<open>kernel/wait_queue.c\<close>, \<open>kernel/completion.c\<close>\<close>

text \<open>
  The offsets of the structures are those of the 32-bit layout: in a queue head the lock is at 0
  and the list at 12, in an entry the list node is at 12, in a completion the queue head is at 4.
  The function an entry names is a code address; \<open>call\<close> says what the code there does.
  \<open>w\<close> is the waiter on the caller's stack that a blocking \<open>down\<close> uses.
\<close>

record waits = sync +
  wq_flags :: "ptr \<Rightarrow> u32"
  wq_private :: "ptr \<Rightarrow> ptr"
  wq_func :: "ptr \<Rightarrow> ptr"
  done_count :: "ptr \<Rightarrow> u32"
  default_wake_function_addr :: ptr

abbreviation WQ_FLAG_EXCLUSIVE :: u32 where "WQ_FLAG_EXCLUSIVE \<equiv> 1"

definition task_list :: "ptr \<Rightarrow> ptr" where
  "task_list q = q + 12"

type_synonym 's wake_call = "ptr \<Rightarrow> ptr \<Rightarrow> 's \<Rightarrow> (int \<times> 's) option"

subsection \<open>Wait queues\<close>

definition init_waitqueue_head :: "ptr \<Rightarrow> 'a waits_scheme \<Rightarrow> 'a waits_scheme" where
  "init_waitqueue_head q s =
     (let s1 = sema_init q 1 s in s1\<lparr>links := INIT_LIST_HEAD (task_list q) (links s1)\<rparr>)"

definition init_waitqueue_entry :: "ptr \<Rightarrow> ptr \<Rightarrow> 'a waits_scheme \<Rightarrow> 'a waits_scheme" where
  "init_waitqueue_entry q p s =
     s\<lparr>wq_flags := (wq_flags s)(q := 0), wq_private := (wq_private s)(q := p),
       wq_func := (wq_func s)(q := default_wake_function_addr s)\<rparr>"

definition init_waitqueue_func_entry :: "ptr \<Rightarrow> ptr \<Rightarrow> 'a waits_scheme \<Rightarrow> 'a waits_scheme" where
  "init_waitqueue_func_entry q func s =
     s\<lparr>wq_flags := (wq_flags s)(q := 0), wq_private := (wq_private s)(q := NULL),
       wq_func := (wq_func s)(q := func)\<rparr>"

text \<open>\<open>DECLARE_WAITQUEUE\<close> also clears both links of the entry.\<close>

definition DECLARE_WAITQUEUE :: "ptr \<Rightarrow> ptr \<Rightarrow> 'a waits_scheme \<Rightarrow> 'a waits_scheme" where
  "DECLARE_WAITQUEUE name tsk s =
     (init_waitqueue_entry name tsk s)
       \<lparr>links := set_prev (task_list name) NULL (set_next (task_list name) NULL (links s))\<rparr>"

definition waitqueue_active :: "ptr \<Rightarrow> 'a waits_scheme \<Rightarrow> bool" where
  "waitqueue_active q s \<longleftrightarrow> \<not> list_empty (task_list q) (links s)"

definition add_wait_queue_node :: "ptr \<Rightarrow> ptr \<Rightarrow> 'a waits_scheme \<Rightarrow> 'a waits_scheme" where
  "add_wait_queue_node head new s = s\<lparr>links := list_add (task_list new) (task_list head) (links s)\<rparr>"

definition add_wait_queue_tail_node :: "ptr \<Rightarrow> ptr \<Rightarrow> 'a waits_scheme \<Rightarrow> 'a waits_scheme" where
  "add_wait_queue_tail_node head new s = s\<lparr>links := list_add_tail (task_list new) (task_list head) (links s)\<rparr>"

definition set_exclusive :: "ptr \<Rightarrow> 'a waits_scheme \<Rightarrow> 'a waits_scheme" where
  "set_exclusive wait s = s\<lparr>wq_flags := (wq_flags s)(wait := wq_flags s wait OR WQ_FLAG_EXCLUSIVE)\<rparr>"

definition add_wait_queue_exclusive_node :: "ptr \<Rightarrow> ptr \<Rightarrow> 'a waits_scheme \<Rightarrow> 'a waits_scheme" where
  "add_wait_queue_exclusive_node q wait s = add_wait_queue_node q wait (set_exclusive wait s)"

definition add_wait_queue_tail_exclusive_node :: "ptr \<Rightarrow> ptr \<Rightarrow> 'a waits_scheme \<Rightarrow> 'a waits_scheme" where
  "add_wait_queue_tail_exclusive_node q wait s = add_wait_queue_tail_node q wait (set_exclusive wait s)"

definition remove_wait_queue :: "ptr \<Rightarrow> ptr \<Rightarrow> 'a waits_scheme \<Rightarrow> 'a waits_scheme" where
  "remove_wait_queue q wait s = s\<lparr>links := list_del (task_list wait) (links s)\<rparr>"

definition add_wait_queue :: "'a waits_scheme switch \<Rightarrow> ptr \<Rightarrow> ptr \<Rightarrow> ptr \<Rightarrow> 'a waits_scheme \<Rightarrow> 'a waits_scheme option" where
  "add_wait_queue others w q wait s =
     (let s1 = s\<lparr>wq_flags := (wq_flags s)(wait := wq_flags s wait AND NOT WQ_FLAG_EXCLUSIVE)\<rparr>
      in map_option (\<lambda>s2. up q (add_wait_queue_node q wait s2)) (down others w q s1))"

definition add_wait_queue_exclusive :: "'a waits_scheme switch \<Rightarrow> ptr \<Rightarrow> ptr \<Rightarrow> ptr \<Rightarrow> 'a waits_scheme \<Rightarrow> 'a waits_scheme option" where
  "add_wait_queue_exclusive others w q wait s =
     map_option (\<lambda>s2. up q (add_wait_queue_tail_node q wait s2)) (down others w q (set_exclusive wait s))"

text \<open>The waiters are visited with their successor remembered, so that a function may unlink its own.\<close>

partial_function (option) wake_loop ::
    "'a waits_scheme wake_call \<Rightarrow> ptr \<Rightarrow> int \<Rightarrow> ptr \<Rightarrow> ptr \<Rightarrow> 'a waits_scheme \<Rightarrow> 'a waits_scheme option" where
  "wake_loop call q nr_exclusive cur next s =
     (if cur = task_list q then Some s
      else let wait = cur - 12; flags = wq_flags s wait in
        Option.bind (call (wq_func s wait) wait s) (\<lambda>(r, s1).
          if r \<noteq> 0 \<and> flags AND WQ_FLAG_EXCLUSIVE \<noteq> 0
          then if nr_exclusive - 1 = 0 then Some s1
               else wake_loop call q (nr_exclusive - 1) next (nxt (links s1) next) s1
          else wake_loop call q nr_exclusive next (nxt (links s1) next) s1))"

definition wake_up_common :: "'a waits_scheme wake_call \<Rightarrow> ptr \<Rightarrow> int \<Rightarrow> 'a waits_scheme \<Rightarrow> 'a waits_scheme option" where
  "wake_up_common call q nr_exclusive s =
     (let cur = nxt (links s) (task_list q) in wake_loop call q nr_exclusive cur (nxt (links s) cur) s)"

definition wake_up :: "'a waits_scheme switch \<Rightarrow> ptr \<Rightarrow> 'a waits_scheme wake_call \<Rightarrow> ptr \<Rightarrow> int \<Rightarrow> 'a waits_scheme \<Rightarrow> 'a waits_scheme option" where
  "wake_up others w call q nr_exclusive s =
     Option.bind (down others w q s) (\<lambda>s1. map_option (up q) (wake_up_common call q nr_exclusive s1))"

definition wake_up_locked :: "'a waits_scheme wake_call \<Rightarrow> ptr \<Rightarrow> int \<Rightarrow> 'a waits_scheme \<Rightarrow> 'a waits_scheme option" where
  "wake_up_locked call q nr s = wake_up_common call q nr s"

definition finish_wait :: "'a waits_scheme switch \<Rightarrow> ptr \<Rightarrow> ptr \<Rightarrow> ptr \<Rightarrow> 'a waits_scheme \<Rightarrow> 'a waits_scheme option" where
  "finish_wait others w q wait s =
     (let s1 = set_task_state (current_task s) RUNNING s in
      if \<not> list_empty_careful (task_list wait) (links s1)
      then map_option (\<lambda>s2. up q (s2\<lparr>links := list_del_init (task_list wait) (links s2)\<rparr>)) (down others w q s1)
      else Some s1)"

definition default_wake_function :: "'a waits_scheme switch \<Rightarrow> ptr \<Rightarrow> 'a waits_scheme \<Rightarrow> (int \<times> 'a waits_scheme) option" where
  "default_wake_function others cur s = try_to_wake_up others (wq_private s cur) s"

subsection \<open>Completions\<close>

definition completion_wait :: "ptr \<Rightarrow> ptr" where
  "completion_wait x = x + 4"

definition init_completion :: "ptr \<Rightarrow> 'a waits_scheme \<Rightarrow> 'a waits_scheme" where
  "init_completion x s = init_waitqueue_head (completion_wait x) (s\<lparr>done_count := (done_count s)(x := 0)\<rparr>)"

definition reinit_completion :: "ptr \<Rightarrow> 'a waits_scheme \<Rightarrow> 'a waits_scheme" where
  "reinit_completion x s = s\<lparr>done_count := (done_count s)(x := 0)\<rparr>"

definition complete :: "'a waits_scheme wake_call \<Rightarrow> ptr \<Rightarrow> 'a waits_scheme \<Rightarrow> 'a waits_scheme option" where
  "complete call x s =
     wake_up_locked call (completion_wait x) 1 (s\<lparr>done_count := (done_count s)(x := done_count s x + 1)\<rparr>)"

definition complete_all :: "'a waits_scheme wake_call \<Rightarrow> ptr \<Rightarrow> 'a waits_scheme \<Rightarrow> 'a waits_scheme option" where
  "complete_all call x s =
     wake_up_locked call (completion_wait x) 0 (s\<lparr>done_count := (done_count s)(x := done_count s x + 0x7FFFFFFF)\<rparr>)"

type_synonym 's action = "int \<Rightarrow> 's \<Rightarrow> (int \<times> 's) option"

partial_function (option) wait_loop ::
    "ptr \<Rightarrow> 'a waits_scheme action \<Rightarrow> task_state \<Rightarrow> int \<Rightarrow> 'a waits_scheme \<Rightarrow> (int \<times> 'a waits_scheme) option" where
  "wait_loop x action st timeout s =
     Option.bind (action timeout (set_task_state (current_task s) st s)) (\<lambda>(t, s1).
       if done_count s1 x = 0 \<and> t \<noteq> 0 then wait_loop x action st t s1 else Some (t, s1))"

text \<open>\<open>wait\<close> is the address of the entry on the caller's stack.\<close>

definition do_wait_for_common ::
    "ptr \<Rightarrow> ptr \<Rightarrow> 'a waits_scheme action \<Rightarrow> int \<Rightarrow> task_state \<Rightarrow> 'a waits_scheme \<Rightarrow> (int \<times> 'a waits_scheme) option" where
  "do_wait_for_common wait x action timeout st s =
     (let finish = (\<lambda>t s. Some (if t \<noteq> 0 then 0 else 1,
                                s\<lparr>done_count := (done_count s)(x := done_count s x - 1)\<rparr>)) in
      if done_count s x = 0 then
        let s1 = add_wait_queue_tail_exclusive_node (completion_wait x) wait (DECLARE_WAITQUEUE wait (current_task s) s) in
        Option.bind (wait_loop x action st timeout s1) (\<lambda>(t, s2).
          let s3 = remove_wait_queue (completion_wait x) wait s2 in
          if done_count s3 x = 0 then Some (t, s3) else finish t s3)
      else finish timeout s)"

definition wait_for_common_locked ::
    "'a waits_scheme switch \<Rightarrow> ptr \<Rightarrow> ptr \<Rightarrow> ptr \<Rightarrow> 'a waits_scheme action \<Rightarrow> int \<Rightarrow> task_state \<Rightarrow>
     'a waits_scheme \<Rightarrow> (int \<times> 'a waits_scheme) option" where
  "wait_for_common_locked others w wait x action timeout st s =
     Option.bind (down others w (completion_wait x) s) (\<lambda>s1.
       map_option (\<lambda>(t, s2). (t, up (completion_wait x) s2)) (do_wait_for_common wait x action timeout st s1))"

definition wait_for_common ::
    "'a waits_scheme switch \<Rightarrow> ptr \<Rightarrow> ptr \<Rightarrow> ptr \<Rightarrow> ptr \<Rightarrow> int \<Rightarrow> task_state \<Rightarrow>
     'a waits_scheme \<Rightarrow> (int \<times> 'a waits_scheme) option" where
  "wait_for_common others w wait timer x timeout st s =
     wait_for_common_locked others w wait x (\<lambda>t. schedule_timeout others timer (word_of_int t)) timeout st s"

definition wait_for_completion ::
    "'a waits_scheme switch \<Rightarrow> ptr \<Rightarrow> ptr \<Rightarrow> ptr \<Rightarrow> ptr \<Rightarrow> 'a waits_scheme \<Rightarrow> 'a waits_scheme option" where
  "wait_for_completion others w wait timer x s =
     map_option snd (wait_for_common others w wait timer x (sint MAX_SCHEDULE_TIMEOUT) SLEEPING s)"

definition wait_for_completion_timeout ::
    "'a waits_scheme switch \<Rightarrow> ptr \<Rightarrow> ptr \<Rightarrow> ptr \<Rightarrow> ptr \<Rightarrow> u32 \<Rightarrow> 'a waits_scheme \<Rightarrow> (u32 \<times> 'a waits_scheme) option" where
  "wait_for_completion_timeout others w wait timer x timeout s =
     map_option (\<lambda>(t, s1). (word_of_int t, s1))
       (wait_for_common others w wait timer x (sint timeout) SLEEPING s)"

definition completion_done :: "'a waits_scheme switch \<Rightarrow> ptr \<Rightarrow> ptr \<Rightarrow> 'a waits_scheme \<Rightarrow> (bool \<times> 'a waits_scheme) option" where
  "completion_done others w x s =
     map_option (\<lambda>s1. (done_count s1 x \<noteq> 0, up (completion_wait x) s1)) (down others w (completion_wait x) s)"

subsection \<open>Waking\<close>

text \<open>Calling the function of every waiter of a list, in order, whatever the functions return.\<close>

primrec wake_each :: "'a waits_scheme wake_call \<Rightarrow> ptr list \<Rightarrow> 'a waits_scheme \<Rightarrow> 'a waits_scheme option" where
  "wake_each call [] s = Some s"
| "wake_each call (c # cs) s =
     Option.bind (call (wq_func s (c - 12)) (c - 12) s) (\<lambda>(r, s1). wake_each call cs s1)"

lemma default_wake_function_zero:
  "default_wake_function others cur s = Some (r, s') \<Longrightarrow> r = 0"
  by (auto simp: default_wake_function_def try_to_wake_up_def Let_def)

lemma wake_loop_each:
  assumes keeps: "\<And>c s. J s \<Longrightarrow> c \<in> set W \<Longrightarrow>
      \<exists>s'. call (wq_func s (c - 12)) (c - 12) s = Some (0, s') \<and> J s'"
    and J: "\<And>s. J s \<Longrightarrow> dlist (links s) (task_list q) W"
    and "J s" and "W = us @ vs"
  shows "\<exists>s'. wake_loop call q nr (hd (vs @ [task_list q])) (nxt (links s) (hd (vs @ [task_list q]))) s = Some s' \<and>
    wake_each call vs s = Some s' \<and> J s'"
  using assms(3,4)
proof (induction vs arbitrary: us s)
  case Nil
  then show ?case by (simp add: wake_loop.simps)
next
  case (Cons c vs)
  have d: "dlist (links s) (task_list q) (us @ c # vs)" using J [OF Cons.prems(1)] Cons.prems(2) by simp
  have c: "c \<noteq> task_list q" "nxt (links s) c = hd (vs @ [task_list q])"
    using dlist_distinct [OF d] dlist_node_links(2) [OF d] by auto
  obtain s1 where s1: "call (wq_func s (c - 12)) (c - 12) s = Some (0, s1)" "J s1"
    using keeps [OF Cons.prems(1), of c] Cons.prems(2) by auto
  have "\<exists>s'. wake_loop call q nr (hd (vs @ [task_list q])) (nxt (links s1) (hd (vs @ [task_list q]))) s1 = Some s' \<and>
      wake_each call vs s1 = Some s' \<and> J s'"
    using Cons.IH [of s1 "us @ [c]"] s1(2) Cons.prems(2) by simp
  then show ?case using c s1(1) by (auto simp: wake_loop.simps [of call q nr c])
qed


lemma wake_up_common_each:
  assumes "\<And>c s. J s \<Longrightarrow> c \<in> set W \<Longrightarrow> \<exists>s'. call (wq_func s (c - 12)) (c - 12) s = Some (0, s') \<and> J s'"
    and "\<And>s. J s \<Longrightarrow> dlist (links s) (task_list q) W" and "J s"
  shows "\<exists>s'. wake_up_common call q nr s = Some s' \<and> wake_each call W s = Some s'"
proof -
  have "nxt (links s) (task_list q) = hd (W @ [task_list q])"
    using assms(2) [OF assms(3)] by (rule dlist_next)
  then show ?thesis
    using wake_loop_each [of J W call q s "[]" W nr] assms by (auto simp: wake_up_common_def Let_def)
qed

lemma complete_no_waiters:
  assumes "dlist (links s) (task_list (completion_wait x)) []"
  shows "complete call x s = Some (s\<lparr>done_count := (done_count s)(x := done_count s x + 1)\<rparr>)"
  using assms
  by (simp add: complete_def wake_up_locked_def wake_up_common_def Let_def dlist_next wake_loop.simps)

subsection \<open>Properties\<close>

definition example_waits :: waits where
  "example_waits = sync.extend example_sync (waits.fields (\<lambda>_. 1) (\<lambda>_. 8192) (\<lambda>_. 99) (\<lambda>_. 0) 99)
     \<lparr>links := list_add_tail 2060 1036 (list_add_tail 2012 1036 (INIT_LIST_HEAD 1036 \<lparr>nxt = \<lambda>_. 0, prv = \<lambda>_. 0\<rparr>))\<rparr>"

lemma example_waits_dlist: "dlist (links example_waits) (task_list 1024) [2012, 2060]"
proof -
  let ?h = "INIT_LIST_HEAD 1036 \<lparr>nxt = \<lambda>_. 0, prv = \<lambda>_. 0\<rparr>"
  have "dlist (list_add_tail 2012 1036 ?h) 1036 ([] @ [2012])"
    by (rule list_add_tail_dlist [OF INIT_LIST_HEAD_dlist]) simp
  then have "dlist (list_add_tail 2060 1036 (list_add_tail 2012 1036 ?h)) 1036 ([2012] @ [2060])"
    by (intro list_add_tail_dlist) simp_all
  then show ?thesis by (simp add: example_waits_def task_list_def)
qed

text \<open>
  A wake-up returns and calls the function of every waiter exactly once, in queue order,
  whatever the number of exclusive waiters it was asked to wake: the limit is only counted down
  for a function that returns non-zero, and \<open>default_wake_function\<close> returns 0 whenever it
  returns. The functions may do anything that keeps the wait list as it is.
\<close>

theorem wake_up_ignores_exclusive_limit:
  assumes "\<forall>c \<in> set W. \<forall>s. J s \<longrightarrow> (\<exists>s'. call (wq_func s (c - 12)) (c - 12) s = Some (0, s') \<and> J s')"
    and "\<forall>s. J s \<longrightarrow> dlist (links s) (task_list q) W" and "J s"
  shows "(\<exists>s'. wake_up_common call q nr s = Some s' \<and> wake_each call W s = Some s') \<and>
    (default_wake_function others cur u = Some (r, u') \<longrightarrow> r = 0)"
  using wake_up_common_each [of J W call q s nr] assms default_wake_function_zero by blast

theorem wake_up_ignores_exclusive_limit_witness:
  "\<exists>s'. wake_up_common (\<lambda>_ c s. Some (0, set_task_state c READY s)) 1024 1 example_waits = Some s' \<and>
     state_of s' 2000 = READY \<and> state_of s' 2048 = READY"
proof -
  let ?J = "\<lambda>s :: waits. links s = links example_waits"
  have "\<exists>s'. wake_up_common (\<lambda>_ c s. Some (0, set_task_state c READY s)) 1024 1 example_waits = Some s' \<and>
      wake_each (\<lambda>_ c s. Some (0, set_task_state c READY s)) [2012, 2060] example_waits = Some s'"
    using example_waits_dlist
    by (intro wake_up_ignores_exclusive_limit [of "[2012, 2060]" ?J, THEN conjunct1]) auto
  then show ?thesis by auto
qed

text \<open>
  What waiting for a completion returns. After a \<open>complete\<close> without waiters the wait takes one
  count and does not sleep, leaving the state as before \<open>complete\<close>; its result is 0 when there was
  time left and 1 when there was none. A wait that times out also returns 0, so that a caller of
  \<open>wait_for_completion_timeout\<close> cannot tell a completion from a timeout.
\<close>

theorem completion_result_ambiguous:
  assumes "dlist (links s) (task_list (completion_wait x)) []" and "done_count s x + 1 \<noteq> 0"
    and "done_count u x = 0"
    and "action timeout (set_task_state (current_task u) st (add_wait_queue_tail_exclusive_node (completion_wait x) wait
           (DECLARE_WAITQUEUE wait (current_task u) u))) = Some (0, u1)"
    and "done_count u1 x = 0"
  shows "(\<exists>s1. complete call x s = Some s1 \<and>
      do_wait_for_common wait x action timeout st s1 = Some (if timeout \<noteq> 0 then 0 else 1, s)) \<and>
    do_wait_for_common wait x action timeout st u = Some (0, remove_wait_queue (completion_wait x) wait u1)"
proof -
  have cur: "current_task (add_wait_queue_tail_exclusive_node q w (DECLARE_WAITQUEUE w t v)) = current_task v"
    for q w t and v :: "'a waits_scheme"
    by (simp add: add_wait_queue_tail_exclusive_node_def add_wait_queue_tail_node_def set_exclusive_def
        DECLARE_WAITQUEUE_def init_waitqueue_entry_def)
  have "wait_loop x action st timeout (add_wait_queue_tail_exclusive_node (completion_wait x) wait
      (DECLARE_WAITQUEUE wait (current_task u) u)) = Some (0, u1)"
    using assms(4,5) by (subst wait_loop.simps) (simp add: cur)
  then have "do_wait_for_common wait x action timeout st u = Some (0, remove_wait_queue (completion_wait x) wait u1)"
    using assms(3,5) by (simp add: do_wait_for_common_def Let_def remove_wait_queue_def)
  then show ?thesis
    using complete_no_waiters [OF assms(1)] assms(2) by (simp add: do_wait_for_common_def Let_def)
qed

theorem completion_result_ambiguous_witness:
  "(\<exists>s1. complete (\<lambda>_ _ _. None) 4096 (example_waits\<lparr>links := INIT_LIST_HEAD 4112 (links example_waits)\<rparr>) = Some s1 \<and>
      do_wait_for_common 6000 4096 (\<lambda>t s. Some (0, s)) 10 SLEEPING s1 =
        Some (0, example_waits\<lparr>links := INIT_LIST_HEAD 4112 (links example_waits)\<rparr>)) \<and>
   (\<exists>u. do_wait_for_common 6000 4096 (\<lambda>t s. Some (0, s)) 10 SLEEPING example_waits = Some (0, u))"
proof -
  let ?s = "example_waits\<lparr>links := INIT_LIST_HEAD 4112 (links example_waits)\<rparr>"
  have d: "dlist (links ?s) (task_list (completion_wait 4096)) []"
    by (simp add: task_list_def completion_wait_def INIT_LIST_HEAD_dlist)
  have z: "done_count example_waits 4096 = 0" by (simp add: example_waits_def waits.defs sync.defs)
  show ?thesis
    using completion_result_ambiguous [OF d, of example_waits "\<lambda>t s. Some (0, s)" 10 SLEEPING 6000 _ "\<lambda>_ _ _. None"] z
    by (auto simp: add_wait_queue_tail_exclusive_node_def add_wait_queue_tail_node_def set_exclusive_def
        DECLARE_WAITQUEUE_def init_waitqueue_entry_def set_task_state_def)
qed

end
