(* ===== verification/Workqueue.thy ===== *)
theory Workqueue
  imports Wait_Queue
begin

section \<open>Work queues: \<open>kernel/workqueue.c\<close>\<close>

text \<open>
  A work queue has, at the offsets of the 32-bit layout, its lock at 0, the list of works at 20,
  the wait queues of the worker (\<open>more_work\<close>) and of flushers (\<open>work_done\<close>) at 28 and 48 and the
  completion \<open>exit\<close> at 72; a work has its list node at 4 and its timer at 24. \<open>exec f data\<close> is
  what the function of a work does, \<open>call\<close> what the functions of wait-queue entries do. \<open>w\<close> and
  \<open>wait\<close> are stack addresses of the caller.
\<close>

record works = waits +
  work_pending :: "ptr \<Rightarrow> nat \<Rightarrow> u32"
  work_func :: "ptr \<Rightarrow> ptr"
  work_data :: "ptr \<Rightarrow> ptr"
  work_wq :: "ptr \<Rightarrow> ptr"
  remove_sequence :: "ptr \<Rightarrow> u32"
  insert_sequence :: "ptr \<Rightarrow> u32"
  wq_task :: "ptr \<Rightarrow> ptr"
  startup_wq :: "ptr \<Rightarrow> ptr"
  keventd_wq :: ptr
  delayed_work_timer_fn_addr :: ptr
  worker_thread_addr :: ptr

definition worklist :: "ptr \<Rightarrow> ptr" where "worklist wq = wq + 20"
definition more_work :: "ptr \<Rightarrow> ptr" where "more_work wq = wq + 28"
definition work_done :: "ptr \<Rightarrow> ptr" where "work_done wq = wq + 48"
definition wq_exit :: "ptr \<Rightarrow> ptr" where "wq_exit wq = wq + 72"
definition work_entry :: "ptr \<Rightarrow> ptr" where "work_entry work = work + 4"
definition work_timer :: "ptr \<Rightarrow> ptr" where "work_timer work = work + 24"

type_synonym 's exec = "ptr \<Rightarrow> ptr \<Rightarrow> 's \<Rightarrow> 's option"

definition INIT_WORK :: "ptr \<Rightarrow> ptr \<Rightarrow> ptr \<Rightarrow> 'a works_scheme \<Rightarrow> 'a works_scheme" where
  "INIT_WORK work func data s =
     init_timer_value (work_timer work)
       (s\<lparr>links := INIT_LIST_HEAD (work_entry work) (links s),
          work_pending := (work_pending s)(work := (work_pending s work)(0 := 0)),
          work_func := (work_func s)(work := func), work_data := (work_data s)(work := data)\<rparr>)"

text \<open>Linking a work into the list of its queue and waking the worker; the lock is taken around it.\<close>

definition insert_work :: "'a works_scheme switch \<Rightarrow> ptr \<Rightarrow> 'a works_scheme wake_call \<Rightarrow> ptr \<Rightarrow> ptr \<Rightarrow>
    'a works_scheme \<Rightarrow> 'a works_scheme option" where
  "insert_work others w call wq work s =
     Option.bind (down others w wq s) (\<lambda>s1.
       let s2 = s1\<lparr>links := list_add_tail (work_entry work) (worklist wq) (links s1),
                   insert_sequence := (insert_sequence s1)(wq := insert_sequence s1 wq + 1)\<rparr>
       in map_option (up wq) (wake_up others w call (more_work wq) 1 s2))"

definition queue_work :: "'a works_scheme switch \<Rightarrow> ptr \<Rightarrow> 'a works_scheme wake_call \<Rightarrow> ptr \<Rightarrow> ptr \<Rightarrow>
    'a works_scheme \<Rightarrow> (int \<times> 'a works_scheme) option" where
  "queue_work others w call wq work s =
     (let (old, pending) = test_and_set_bit 0 (work_pending s work);
          s1 = s\<lparr>work_pending := (work_pending s)(work := pending)\<rparr>
      in if \<not> old
         then map_option (Pair 1) (insert_work others w call wq work (s1\<lparr>work_wq := (work_wq s1)(work := wq)\<rparr>))
         else Some (0, s1))"

definition delayed_work_timer_fn :: "'a works_scheme switch \<Rightarrow> ptr \<Rightarrow> 'a works_scheme wake_call \<Rightarrow>
    ptr \<Rightarrow> u32 \<Rightarrow> ptr \<Rightarrow> 'a works_scheme \<Rightarrow> (handler_return \<times> 'a works_scheme) option" where
  "delayed_work_timer_fn others w call timer now work s =
     map_option (Pair INT_RESCHEDULE) (insert_work others w call (work_wq s work) work s)"

definition queue_delayed_work :: "ptr \<Rightarrow> ptr \<Rightarrow> u32 \<Rightarrow> 'a works_scheme \<Rightarrow> (int \<times> 'a works_scheme) option" where
  "queue_delayed_work wq work delay s =
     (let (old, pending) = test_and_set_bit 0 (work_pending s work);
          s1 = s\<lparr>work_pending := (work_pending s)(work := pending)\<rparr>
      in if \<not> old
         then map_option (Pair 1)
                (oneshot_timer_add (work_timer work) delay (delayed_work_timer_fn_addr s1) work
                   (s1\<lparr>work_wq := (work_wq s1)(work := wq)\<rparr>))
         else Some (0, s1))"

partial_function (option) run_loop :: "'a works_scheme switch \<Rightarrow> ptr \<Rightarrow> 'a works_scheme wake_call \<Rightarrow>
    'a works_scheme exec \<Rightarrow> ptr \<Rightarrow> 'a works_scheme \<Rightarrow> 'a works_scheme option" where
  "run_loop others w call exec wq s =
     (if list_empty (worklist wq) (links s) then Some s
      else
        let node = nxt (links s) (worklist wq); work = node - 4; f = work_func s work; data = work_data s work;
            s1 = up wq (s\<lparr>links := list_del_init node (links s)\<rparr>);
            s2 = s1\<lparr>work_pending := (work_pending s1)(work := clear_bit_ul 0 (work_pending s1 work))\<rparr>
        in Option.bind (exec f data s2) (\<lambda>s3.
           Option.bind (down others w wq s3) (\<lambda>s4.
           Option.bind (wake_up others w call (work_done wq) 1
               (s4\<lparr>remove_sequence := (remove_sequence s4)(wq := remove_sequence s4 wq + 1)\<rparr>))
             (run_loop others w call exec wq))))"

definition run_workqueue :: "'a works_scheme switch \<Rightarrow> ptr \<Rightarrow> 'a works_scheme wake_call \<Rightarrow>
    'a works_scheme exec \<Rightarrow> ptr \<Rightarrow> 'a works_scheme \<Rightarrow> 'a works_scheme option" where
  "run_workqueue others w call exec wq s =
     Option.bind (down others w wq s) (\<lambda>s1. map_option (up wq) (run_loop others w call exec wq s1))"

partial_function (option) worker_loop :: "'a works_scheme switch \<Rightarrow> ptr \<Rightarrow> ptr \<Rightarrow> ptr \<Rightarrow> 'a works_scheme wake_call \<Rightarrow>
    'a works_scheme exec \<Rightarrow> ptr \<Rightarrow> 'a works_scheme \<Rightarrow> 'a works_scheme option" where
  "worker_loop others w wait timer call exec wq s =
     Option.bind (add_wait_queue others w (more_work wq) wait s) (\<lambda>s1.
       if wq_task s1 wq = NULL then Some s1
       else
         Option.bind
           (if list_empty (worklist wq) (links s1)
            then map_option snd (schedule_timeout others timer MAX_SCHEDULE_TIMEOUT s1) else Some s1) (\<lambda>s2.
         let s3 = remove_wait_queue (more_work wq) wait s2 in
         Option.bind
           (if \<not> list_empty (worklist wq) (links s3) then run_workqueue others w call exec wq s3 else Some s3)
           (worker_loop others w wait timer call exec wq)))"

definition worker_thread :: "'a works_scheme switch \<Rightarrow> ptr \<Rightarrow> ptr \<Rightarrow> ptr \<Rightarrow> 'a works_scheme wake_call \<Rightarrow>
    'a works_scheme exec \<Rightarrow> ptr \<Rightarrow> 'a works_scheme \<Rightarrow> (u32 \<times> 'a works_scheme) option" where
  "worker_thread others w wait timer call exec startup s =
     (let wq = startup_wq s startup;
          s1 = DECLARE_WAITQUEUE wait (current_task s) s;
          s2 = s1\<lparr>wq_task := (wq_task s1)(wq := current_task s1)\<rparr>
      in Option.bind (complete call (startup + 4) s2) (\<lambda>s3.
         Option.bind (worker_loop others w wait timer call exec wq s3) (\<lambda>s4.
           map_option (Pair 0) (complete call (wq_exit wq) (remove_wait_queue (more_work wq) wait s4)))))"

partial_function (option) flush_loop :: "'a works_scheme switch \<Rightarrow> ptr \<Rightarrow> ptr \<Rightarrow> ptr \<Rightarrow> u32 \<Rightarrow> ptr \<Rightarrow>
    'a works_scheme \<Rightarrow> 'a works_scheme option" where
  "flush_loop others w wait timer sequence_needed wq s =
     (if sint (sequence_needed - remove_sequence s wq) > 0 then
        Option.bind (add_wait_queue others w (work_done wq) wait s) (\<lambda>s1.
        Option.bind (schedule_timeout others timer MAX_SCHEDULE_TIMEOUT (up wq s1)) (\<lambda>(t, s2).
        Option.bind (down others w wq s2) (flush_loop others w wait timer sequence_needed wq)))
      else Some s)"

definition flush_workqueue :: "'a works_scheme switch \<Rightarrow> ptr \<Rightarrow> ptr \<Rightarrow> ptr \<Rightarrow> ptr \<Rightarrow> 'a works_scheme \<Rightarrow> 'a works_scheme option" where
  "flush_workqueue others w wait timer wq s =
     Option.bind (down others w wq (DECLARE_WAITQUEUE wait (current_task s) s)) (\<lambda>s1.
     Option.bind (flush_loop others w wait timer (insert_sequence s1 wq) wq s1) (\<lambda>s2.
       map_option (up wq) (finish_wait others w (work_done wq) wait s2)))"

text \<open>The name \<open>workqueue\<close> the worker task gets.\<close>

definition WORKQUEUE_NAME :: "u8 list" where
  "WORKQUEUE_NAME = [119, 111, 114, 107, 113, 117, 101, 117, 101]"

abbreviation WQ_STACK_SIZE :: u32 where "WQ_STACK_SIZE \<equiv> 0x2000"

text \<open>\<open>new_task\<close> and \<open>stk\<close> are the blocks \<open>task_alloc\<close> and \<open>task_create\<close> get; \<open>startup\<close> is on the stack.\<close>

definition create_workqueue_thread :: "'a works_scheme switch \<Rightarrow> ptr \<Rightarrow> ptr \<Rightarrow> ptr \<Rightarrow> ptr \<Rightarrow> ptr \<Rightarrow> ptr \<Rightarrow> ptr \<Rightarrow>
    'a works_scheme \<Rightarrow> (int \<times> 'a works_scheme) option" where
  "create_workqueue_thread others w wait timer startup new_task stk wq s =
     (let s1 = sema_init wq 1 s;
          s2 = s1\<lparr>wq_task := (wq_task s1)(wq := NULL), insert_sequence := (insert_sequence s1)(wq := 0),
                  remove_sequence := (remove_sequence s1)(wq := 0),
                  links := INIT_LIST_HEAD (worklist wq) (links s1)\<rparr>;
          s3 = init_waitqueue_head (work_done wq) (init_waitqueue_head (more_work wq) s2);
          s4 = init_completion (startup + 4) (init_completion (wq_exit wq) s3);
          s5 = s4\<lparr>startup_wq := (startup_wq s4)(startup := wq)\<rparr>
      in case task_alloc (Some WORKQUEUE_NAME) WQ_STACK_SIZE 1 new_task s5 of
           Inl e \<Rightarrow> None
         | Inr (task_wq, s6) \<Rightarrow>
             if NULL = task_wq then Some (- 1, s6)
             else case task_create task_wq (worker_thread_addr s6) startup stk s6 of
               (rc, s7) \<Rightarrow>
                 if 0 = rc then map_option (Pair rc) (wait_for_completion others w wait timer (startup + 4) s7)
                 else Some (rc, s7))"

definition cleanup_workqueue_task :: "'a works_scheme switch \<Rightarrow> ptr \<Rightarrow> ptr \<Rightarrow> ptr \<Rightarrow> 'a works_scheme wake_call \<Rightarrow> ptr \<Rightarrow>
    'a works_scheme \<Rightarrow> 'a works_scheme option" where
  "cleanup_workqueue_task others w wait timer call wq s =
     (if wq_task s wq \<noteq> NULL then
        Option.bind (wake_up others w call (more_work wq) 1 (s\<lparr>wq_task := (wq_task s)(wq := NULL)\<rparr>))
          (wait_for_completion others w wait timer (wq_exit wq))
      else Some s)"

definition destroy_workqueue :: "'a works_scheme switch \<Rightarrow> ptr \<Rightarrow> ptr \<Rightarrow> ptr \<Rightarrow> 'a works_scheme wake_call \<Rightarrow> ptr \<Rightarrow>
    'a works_scheme \<Rightarrow> 'a works_scheme option" where
  "destroy_workqueue others w wait timer call wq s =
     Option.bind (flush_workqueue others w wait timer wq s) (\<lambda>s1.
       map_option (kfree_block wq) (cleanup_workqueue_task others w wait timer call wq s1))"

definition create_workqueue :: "'a works_scheme switch \<Rightarrow> ptr \<Rightarrow> ptr \<Rightarrow> ptr \<Rightarrow> 'a works_scheme wake_call \<Rightarrow>
    ptr \<Rightarrow> ptr \<Rightarrow> ptr \<Rightarrow> ptr \<Rightarrow> 'a works_scheme \<Rightarrow> (ptr \<times> 'a works_scheme) option" where
  "create_workqueue others w wait timer call startup new_task stk wq s =
     (if wq = NULL then Some (NULL, s)
      else Option.bind (create_workqueue_thread others w wait timer startup new_task stk wq s) (\<lambda>(rc, s1).
        if rc < 0 then map_option (Pair NULL) (destroy_workqueue others w wait timer call wq s1)
        else Some (wq, s1)))"

definition schedule_work :: "'a works_scheme switch \<Rightarrow> ptr \<Rightarrow> 'a works_scheme wake_call \<Rightarrow> ptr \<Rightarrow>
    'a works_scheme \<Rightarrow> (int \<times> 'a works_scheme) option" where
  "schedule_work others w call work s = queue_work others w call (keventd_wq s) work s"

definition schedule_delayed_work :: "ptr \<Rightarrow> u32 \<Rightarrow> 'a works_scheme \<Rightarrow> (int \<times> 'a works_scheme) option" where
  "schedule_delayed_work work delay s = queue_delayed_work (keventd_wq s) work delay s"

definition flush_scheduled_work :: "'a works_scheme switch \<Rightarrow> ptr \<Rightarrow> ptr \<Rightarrow> ptr \<Rightarrow> 'a works_scheme \<Rightarrow> 'a works_scheme option" where
  "flush_scheduled_work others w wait timer s = flush_workqueue others w wait timer (keventd_wq s) s"

definition current_is_keventd :: "'a works_scheme \<Rightarrow> bool" where
  "current_is_keventd s \<longleftrightarrow> current_task s = wq_task s (keventd_wq s)"

definition init_workqueues :: "'a works_scheme switch \<Rightarrow> ptr \<Rightarrow> ptr \<Rightarrow> ptr \<Rightarrow> 'a works_scheme wake_call \<Rightarrow>
    ptr \<Rightarrow> ptr \<Rightarrow> ptr \<Rightarrow> ptr \<Rightarrow> 'a works_scheme \<Rightarrow> 'a works_scheme option" where
  "init_workqueues others w wait timer call startup new_task stk wq s =
     map_option (\<lambda>(p, s1). s1\<lparr>keventd_wq := p\<rparr>)
       (create_workqueue others w wait timer call startup new_task stk wq s)"

definition cancel_delayed_work :: "ptr \<Rightarrow> 'a works_scheme \<Rightarrow> 'a works_scheme" where
  "cancel_delayed_work work s = timer_delete (work_timer work) s"

subsection \<open>Free locks\<close>

lemma wake_up_nobody:
  assumes "ints_balanced s" and "0 < sem_count s q" and "list_empty (wait_list q) (links s)"
    and "list_empty (task_list q) (links s)"
  shows "wake_up others w call q nr s = Some s"
proof -
  have "wake_up_common call q nr (s\<lparr>sem_count := f\<rparr>) = Some (s\<lparr>sem_count := f\<rparr>)" for f
    using assms(4) by (simp add: wake_up_common_def Let_def list_empty_def wake_loop.simps)
  then show ?thesis
    using assms by (simp add: wake_up_def down_free up_free)
qed


subsection \<open>An idle work queue\<close>

text \<open>
  A work queue whose locks are free and on which nobody waits, with the works \<open>L\<close>. Its list
  heads are apart from the works.
\<close>

definition wq_heads :: "ptr \<Rightarrow> ptr set" where
  "wq_heads wq = {wait_list wq, wait_list (more_work wq), task_list (more_work wq),
                  wait_list (work_done wq), task_list (work_done wq)}"

definition wq_idle :: "'a works_scheme \<Rightarrow> ptr \<Rightarrow> ptr list \<Rightarrow> bool" where
  "wq_idle s wq L \<longleftrightarrow> ints_balanced s \<and>
     0 < sem_count s wq \<and> 0 < sem_count s (more_work wq) \<and> 0 < sem_count s (work_done wq) \<and>
     (\<forall>q \<in> wq_heads wq. list_empty q (links s)) \<and>
     dlist (links s) (worklist wq) L \<and> wq_heads wq \<inter> set (worklist wq # L) = {}"

definition lock_held :: "ptr \<Rightarrow> 'a works_scheme \<Rightarrow> 'a works_scheme" where
  "lock_held wq s = s\<lparr>sem_count := (sem_count s)(wq := sem_count s wq - 1)\<rparr>"

lemma wq_offsets [simp]: "more_work wq \<noteq> wq" "work_done wq \<noteq> wq"
  by (simp_all add: more_work_def work_done_def)

lemma lock_held_sel [simp]:
  "links (lock_held wq s) = links s" "work_func (lock_held wq s) = work_func s"
  "work_data (lock_held wq s) = work_data s" "work_pending (lock_held wq s) = work_pending s"
  "remove_sequence (lock_held wq s) = remove_sequence s"
  "(lock_held wq s)\<lparr>remove_sequence := r\<rparr> = lock_held wq (s\<lparr>remove_sequence := r\<rparr>)"
  by (simp_all add: lock_held_def)

lemma wq_idleD:
  assumes "wq_idle s wq L"
  shows "ints_balanced s" "0 < sem_count s wq" "0 < sem_count s (more_work wq)" "0 < sem_count s (work_done wq)"
    and "\<And>q. q \<in> wq_heads wq \<Longrightarrow> list_empty q (links s)"
    and "dlist (links s) (worklist wq) L" "wq_heads wq \<inter> set (worklist wq # L) = {}"
  using assms unfolding wq_idle_def by blast+

lemma down_idle: "wq_idle s wq L \<Longrightarrow> down others w wq s = Some (lock_held wq s)"
  unfolding lock_held_def by (intro down_free wq_idleD)

lemma up_held:
  assumes "wq_idle s wq L" and "links t = h" and "t = (lock_held wq s)\<lparr>links := h\<rparr>" and "list_empty (wait_list wq) h"
  shows "up wq t = s\<lparr>links := h\<rparr>"
proof -
  have "up wq t = t\<lparr>sem_count := (sem_count t)(wq := sem_count t wq + 1)\<rparr>"
    using assms wq_idleD(1) [OF assms(1)] by (intro up_free) (simp_all add: lock_held_def)
  then show ?thesis using assms(3) by (cases s) (simp add: lock_held_def)
qed

lemma wq_idle_links:
  assumes "wq_idle s wq L" and "unchanged_outside (set (worklist wq # M)) (links s) h"
    and "wq_heads wq \<inter> set (worklist wq # M) = {}" and "dlist h (worklist wq) L'" and "set L' \<subseteq> set M"
  shows "wq_idle (s\<lparr>links := h\<rparr>) wq L'"
proof -
  have "list_empty q h" if "q \<in> wq_heads wq" for q
  proof -
    have "q \<notin> set (worklist wq # M)" using assms(3) that by blast
    then have "nxt h q = nxt (links s) q" using assms(2) unfolding unchanged_outside_def by blast
    then show ?thesis using wq_idleD(5) [OF assms(1) that] by (simp add: list_empty_def)
  qed
  moreover have "wq_heads wq \<inter> set (worklist wq # L') = {}" using assms(3,5) by auto
  ultimately show ?thesis using wq_idleD [OF assms(1)] assms(4) by (simp add: wq_idle_def)
qed

lemma wq_idle_cong:
  "wq_idle (s\<lparr>insert_sequence := f\<rparr>) wq L = wq_idle s wq L"
  "wq_idle (s\<lparr>remove_sequence := f\<rparr>) wq L = wq_idle s wq L"
  "wq_idle (s\<lparr>work_pending := p\<rparr>) wq L = wq_idle s wq L" "wq_idle (s\<lparr>work_wq := r\<rparr>) wq L = wq_idle s wq L"
  by (simp_all add: wq_idle_def ints_balanced_def)

lemma wq_idle_insert:
  assumes "wq_idle s wq L" and "n \<notin> wq_heads wq \<union> set (worklist wq # L)"
  shows "wq_idle (s\<lparr>links := list_add_tail n (worklist wq) (links s)\<rparr>) wq (L @ [n])"
proof (rule wq_idle_links [OF assms(1), of "n # L"])
  show "unchanged_outside (set (worklist wq # n # L)) (links s) (list_add_tail n (worklist wq) (links s))"
    using list_add_tail_unchanged [OF wq_idleD(6) [OF assms(1)], of n] by (simp add: insert_commute)
  show "dlist (list_add_tail n (worklist wq) (links s)) (worklist wq) (L @ [n])"
    using wq_idleD(6) [OF assms(1)] assms(2) by (intro list_add_tail_dlist) auto
qed (use wq_idleD(7) [OF assms(1)] assms(2) in auto)

lemma insert_work_idle:
  assumes "wq_idle s wq L" and "work_entry work \<notin> wq_heads wq \<union> set (worklist wq # L)"
  shows "insert_work others w call wq work s =
    Some (s\<lparr>links := list_add_tail (work_entry work) (worklist wq) (links s),
            insert_sequence := (insert_sequence s)(wq := insert_sequence s wq + 1)\<rparr>)"
proof -
  let ?h = "list_add_tail (work_entry work) (worklist wq) (links s)"
  let ?i = "(insert_sequence s)(wq := insert_sequence s wq + 1)"
  note idle = wq_idle_insert [OF assms]
  have e: "list_empty q ?h" if "q \<in> wq_heads wq" for q using wq_idleD(5) [OF idle that] by simp
  let ?t = "(lock_held wq s)\<lparr>links := ?h, insert_sequence := ?i\<rparr>"
  have "wake_up others w call (more_work wq) 1 ?t = Some ?t"
    using wq_idleD(1,3) [OF assms(1)] e
    by (intro wake_up_nobody) (simp_all add: lock_held_def wq_heads_def ints_balanced_def)
  moreover have "up wq ?t = s\<lparr>links := ?h, insert_sequence := ?i\<rparr>"
    using up_held [of "s\<lparr>insert_sequence := ?i\<rparr>" wq L ?t ?h] assms(1) e
    by (simp add: wq_idle_cong lock_held_def wq_heads_def)
  ultimately show ?thesis
    using down_idle [OF assms(1)] by (simp add: insert_work_def Let_def lock_held_def)
qed


subsection \<open>Running the works\<close>

text \<open>Every work of a list in turn: unlinked, no longer pending, executed, counted.\<close>

primrec run_each :: "'a works_scheme exec \<Rightarrow> ptr \<Rightarrow> ptr list \<Rightarrow> 'a works_scheme \<Rightarrow> 'a works_scheme option" where
  "run_each exec wq [] s = Some s"
| "run_each exec wq (n # ns) s =
     Option.bind
       (exec (work_func s (n - 4)) (work_data s (n - 4))
          (s\<lparr>links := list_del_init n (links s),
             work_pending := (work_pending s)(n - 4 := clear_bit_ul 0 (work_pending s (n - 4)))\<rparr>))
       (\<lambda>s1. run_each exec wq ns (s1\<lparr>remove_sequence := (remove_sequence s1)(wq := remove_sequence s1 wq + 1)\<rparr>))"

lemma wq_idle_remove:
  assumes "wq_idle s wq (n # ns)"
  shows "wq_idle (s\<lparr>links := list_del_init n (links s)\<rparr>) wq ns"
proof (rule wq_idle_links [OF assms, of "n # ns"])
  note d = wq_idleD(6) [OF assms]
  show "unchanged_outside (set (worklist wq # n # ns)) (links s) (list_del_init n (links s))"
    using d by (rule list_del_init_unchanged) simp
  show "dlist (list_del_init n (links s)) (worklist wq) ns"
    using list_del_init_dlist(1) [of "links s" "worklist wq" "[]" n ns] d by simp
qed (use wq_idleD(7) [OF assms] in auto)

lemma run_loop_idle:
  assumes exec: "\<And>f d s ns. wq_idle s wq ns \<Longrightarrow> \<exists>s1. exec f d s = Some s1 \<and> wq_idle s1 wq ns"
    and "wq_idle s wq L"
  shows "\<exists>s'. run_loop others w call exec wq (lock_held wq s) = Some (lock_held wq s') \<and>
    run_each exec wq L s = Some s' \<and> wq_idle s' wq []"
  using assms(2)
proof (induction L arbitrary: s)
  case Nil
  then have "list_empty (worklist wq) (links (lock_held wq s))"
    using wq_idleD(6) list_empty_dlist by (fastforce simp: lock_held_def)
  with Nil show ?case by (simp add: run_loop.simps)
next
  case (Cons n ns)
  note d = wq_idleD(6) [OF Cons.prems]
  let ?h = "list_del_init n (links s)"
  let ?p = "(work_pending s)(n - 4 := clear_bit_ul 0 (work_pending s (n - 4)))"
  let ?s2 = "s\<lparr>links := ?h, work_pending := ?p\<rparr>"
  have idle: "wq_idle (s\<lparr>links := ?h\<rparr>) wq ns" using Cons.prems by (rule wq_idle_remove)
  then have idle2: "wq_idle ?s2 wq ns" by (simp only: wq_idle_cong)
  have "list_empty (wait_list wq) ?h" using wq_idleD(5) [OF idle, of "wait_list wq"] by (simp add: wq_heads_def)
  then have up: "up wq ((lock_held wq s)\<lparr>links := ?h\<rparr>) = s\<lparr>links := ?h\<rparr>"
    by (intro up_held [OF Cons.prems]) (simp_all add: lock_held_def)
  obtain s3 where s3: "exec (work_func s (n - 4)) (work_data s (n - 4)) ?s2 = Some s3" "wq_idle s3 wq ns"
    using exec [OF idle2] by blast
  let ?s4 = "s3\<lparr>remove_sequence := (remove_sequence s3)(wq := remove_sequence s3 wq + 1)\<rparr>"
  have idle4: "wq_idle ?s4 wq ns" using s3(2) by (simp only: wq_idle_cong)
  have "wake_up others w call (work_done wq) 1 (lock_held wq ?s4) = Some (lock_held wq ?s4)"
    using wq_idleD(1,4,5) [OF idle4]
    by (intro wake_up_nobody) (simp_all add: lock_held_def wq_heads_def ints_balanced_def)
  moreover have "nxt (links (lock_held wq s)) (worklist wq) = n" "\<not> list_empty (worklist wq) (links (lock_held wq s))"
    using d list_empty_dlist [OF d] by (simp_all add: lock_held_def dlist_next)
  ultimately have "run_loop others w call exec wq (lock_held wq s) = run_loop others w call exec wq (lock_held wq ?s4)"
    using up s3(1) down_idle [OF s3(2), of others w]
    by (subst run_loop.simps) (simp add: Let_def)
  then show ?case using Cons.IH [OF idle4] s3(1) by simp
qed

lemma run_workqueue_idle:
  assumes exec: "\<And>f d s ns. wq_idle s wq ns \<Longrightarrow> \<exists>s1. exec f d s = Some s1 \<and> wq_idle s1 wq ns"
    and idle: "wq_idle s wq L"
  shows "\<exists>s'. run_workqueue others w call exec wq s = Some s' \<and> run_each exec wq L s = Some s' \<and> wq_idle s' wq []"
proof -
  obtain s' where s': "run_loop others w call exec wq (lock_held wq s) = Some (lock_held wq s')"
      "run_each exec wq L s = Some s'" "wq_idle s' wq []"
    using run_loop_idle [of wq exec s L others w call] exec idle by blast
  have "up wq (lock_held wq s') = s'"
    using up_held [OF s'(3), of "lock_held wq s'" "links s'"] wq_idleD(5) [OF s'(3), of "wait_list wq"]
    by (simp add: lock_held_def wq_heads_def)
  then show ?thesis using s' down_idle [OF idle, of others w] by (simp add: run_workqueue_def)
qed


subsection \<open>Properties\<close>

lemma test_and_set_pending:
  "test_and_set_bit 0 p = (bit_at p 0, set_bit_ul 0 p)"
  by (simp add: test_and_set_bit_def set_bit_ul_def Let_def bit_at_def BIT_WORD_def and_BIT_MASK_iff)

lemma set_bit_ul_idem: "bit_at p nr \<Longrightarrow> set_bit_ul nr p = p"
proof (rule ext)
  fix i assume b: "bit_at p nr"
  have "p (nr div 32) OR BIT_MASK nr = p (nr div 32)"
    using b by (intro bit_word_eqI) (auto simp: bit_simps bit_BIT_MASK bit_at_def)
  then show "set_bit_ul nr p i = p i" by (simp add: set_bit_ul_def BIT_WORD_def)
qed

text \<open>
  A work is queued once. On an idle work queue \<open>queue_work\<close> of a work that is not pending
  returns 1, puts it last in the list, marks it pending, counts the insertion and leaves the
  queue idle; a second \<open>queue_work\<close> before it has run returns 0 and changes nothing.
\<close>

theorem queue_work_queues_once:
  assumes "wq_idle s wq L" and "work_entry work \<notin> wq_heads wq \<union> set (worklist wq # L)"
    and "\<not> bit_at (work_pending s work) 0"
  shows "\<exists>s'. queue_work others w call wq work s = Some (1, s') \<and> wq_idle s' wq (L @ [work_entry work]) \<and>
    bit_at (work_pending s' work) 0 \<and> work_wq s' work = wq \<and>
    insert_sequence s' wq = insert_sequence s wq + 1 \<and>
    queue_work others' w' call' wq' work s' = Some (0, s')"
proof -
  define s1 where "s1 = s\<lparr>work_pending := (work_pending s)(work := set_bit_ul 0 (work_pending s work)),
    work_wq := (work_wq s)(work := wq)\<rparr>"
  have i1: "wq_idle s1 wq L" using assms(1) unfolding s1_def by (simp only: wq_idle_cong)
  define s2 where "s2 = s1\<lparr>links := list_add_tail (work_entry work) (worklist wq) (links s1),
            insert_sequence := (insert_sequence s1)(wq := insert_sequence s1 wq + 1)\<rparr>"
  have "queue_work others w call wq work s = Some (1, s2)"
    using insert_work_idle [OF i1 assms(2)] assms(3)
    by (simp add: queue_work_def test_and_set_pending s1_def s2_def)
  moreover have "wq_idle s2 wq (L @ [work_entry work])"
    using wq_idle_insert [OF i1 assms(2)] unfolding s2_def by (simp only: wq_idle_cong)
  moreover have b: "bit_at (work_pending s2 work) 0" by (simp add: s2_def s1_def bit_at_set_bit)
  moreover have "queue_work others' w' call' wq' work s2 = Some (0, s2)"
    using b by (simp add: queue_work_def test_and_set_pending set_bit_ul_idem)
  moreover have "work_wq s2 work = wq" "insert_sequence s2 wq = insert_sequence s wq + 1"
    by (simp_all add: s2_def s1_def)
  ultimately show ?thesis by blast
qed

definition example_works :: works where
  "example_works = waits.extend (example_waits\<lparr>sem_count := (\<lambda>_. 1),
       links := fold INIT_LIST_HEAD [65556, 65540, 65568, 65576, 65588, 65596] (links example_waits)\<rparr>)
     (works.fields (\<lambda>_ _. 0) (\<lambda>_. 7) (\<lambda>_. 9) (\<lambda>_. 0) (\<lambda>_. 0) (\<lambda>_. 0) (\<lambda>_. 0) (\<lambda>_. 0) 65536 11 13)"

lemma example_works_idle: "wq_idle example_works 65536 []"
proof -
  have sel: "links example_works = fold INIT_LIST_HEAD [65556, 65540, 65568, 65576, 65588, 65596] (links example_waits)"
    "sem_count example_works = (\<lambda>_. 1)" "ints_enabled example_works" "critical_section_count example_works = 0"
    by (simp_all add: example_works_def works.defs waits.defs example_waits_def sync.defs example_sync_def
        kernel.defs example_timers_def)
  have n: "nxt (links example_works) q = q \<and> prv (links example_works) q = q"
    if "q \<in> set [65556, 65540, 65568, 65576, 65588, 65596]" for q
    unfolding sel by (rule fold_init_heads) (use that in blast)
  show ?thesis
    using n [of 65556] n [of 65540] n [of 65568] n [of 65576] n [of 65588] n [of 65596]
    by (simp add: wq_idle_def sel ints_balanced_def wq_heads_def wait_list_def task_list_def more_work_def
        work_done_def worklist_def list_empty_def dlist_Nil_iff)
qed

lemma example_work_free: "work_entry 131072 \<notin> wq_heads 65536 \<union> set (worklist 65536 # [])"
  by (simp add: work_entry_def wq_heads_def wait_list_def task_list_def more_work_def work_done_def worklist_def)

theorem queue_work_queues_once_witness:
  "\<exists>s'. queue_work (\<lambda>_ _ s. s) 4 (\<lambda>_ _ _. None) 65536 131072 example_works = Some (1, s') \<and>
     dlist (links s') 65556 [131076] \<and>
     queue_work (\<lambda>_ _ s. s) 4 (\<lambda>_ _ _. None) 65536 131072 s' = Some (0, s')"
proof -
  have "\<not> bit_at (work_pending example_works 131072) 0"
    by (simp add: example_works_def works.defs waits.defs bit_at_def)
  from queue_work_queues_once [OF example_works_idle example_work_free this,
      of "\<lambda>_ _ s. s" 4 "\<lambda>_ _ _. None" "\<lambda>_ _ s. s" 4 "\<lambda>_ _ _. None" 65536]
  obtain s' where s': "queue_work (\<lambda>_ _ s. s) 4 (\<lambda>_ _ _. None) 65536 131072 example_works = Some (1, s')"
      "wq_idle s' 65536 [work_entry 131072]"
      "queue_work (\<lambda>_ _ s. s) 4 (\<lambda>_ _ _. None) 65536 131072 s' = Some (0, s')" by auto
  have "dlist (links s') 65556 [131076]"
    using wq_idleD(6) [OF s'(2)] by (simp add: worklist_def work_entry_def)
  with s' show ?thesis by blast
qed

text \<open>
  C22. The worker drains the queue in order. If the functions of the works return and leave the
  work queue itself alone, \<open>run_workqueue\<close> returns, has executed every queued work exactly once
  in the order of queuing, each after it was unlinked and no longer pending, has counted each in
  \<open>remove_sequence\<close>, and leaves the list empty and the lock free.
\<close>

theorem run_workqueue_drains_in_order:
  assumes "\<forall>f d s ns. wq_idle s wq ns \<longrightarrow> (\<exists>s1. exec f d s = Some s1 \<and> wq_idle s1 wq ns)"
    and "wq_idle s wq L"
  shows "\<exists>s'. run_workqueue others w call exec wq s = Some s' \<and> run_each exec wq L s = Some s' \<and> wq_idle s' wq []"
  using run_workqueue_idle [of wq exec s L others w call] assms by blast

theorem run_workqueue_drains_in_order_witness:
  "\<exists>(s :: works) s'. dlist (links s) 65556 [131076] \<and>
     run_workqueue (\<lambda>_ _ s. s) 4 (\<lambda>_ _ _. None) (\<lambda>f d s. Some (s\<lparr>remove_sequence := (remove_sequence s)(d := f)\<rparr>)) 65536 s = Some s' \<and>
     remove_sequence s' 9 = 7 \<and> remove_sequence s' 65536 = 1 \<and> dlist (links s') 65556 []"
proof -
  let ?exec = "\<lambda>f d s :: works. Some (s\<lparr>remove_sequence := (remove_sequence s)(d := f)\<rparr>)"
  let ?s = "example_works\<lparr>links := list_add_tail (work_entry 131072) (worklist 65536) (links example_works)\<rparr>"
  have idle: "wq_idle ?s 65536 [131076]"
    using wq_idle_insert [OF example_works_idle example_work_free] by (simp add: work_entry_def)
  obtain s' where s': "run_workqueue (\<lambda>_ _ s. s) 4 (\<lambda>_ _ _. None) ?exec 65536 ?s = Some s'"
      "run_each ?exec 65536 [131076] ?s = Some s'" "wq_idle s' 65536 []"
    using run_workqueue_drains_in_order [of 65536 ?exec ?s "[131076]" "\<lambda>_ _ s. s" 4 "\<lambda>_ _ _. None"] idle
    by (auto simp: wq_idle_cong)
  have "work_func example_works 131072 = 7" "work_data example_works 131072 = 9" "remove_sequence example_works = (\<lambda>_. 0)"
    by (simp_all add: example_works_def works.defs waits.defs)
  then have "remove_sequence s' 9 = 7 \<and> remove_sequence s' 65536 = 1" using s'(2) by auto
  moreover have "dlist (links ?s) 65556 [131076]" "dlist (links s') 65556 []"
    using wq_idleD(6) [OF idle] wq_idleD(6) [OF s'(3)] by (simp_all add: worklist_def)
  ultimately show ?thesis using s'(1) by blast
qed

end
