(* ===== verification/Page_Alloc.thy ===== *)
theory Page_Alloc
  imports Semaphore
begin

section \<open>The buddy page allocator: \<open>mm/page_alloc.c\<close>\<close>

text \<open>
  A page structure is 24 bytes and is named by its address; its list node is at offset 4. The
  field \<open>units\<close> is the union with \<open>_mapcount\<close>, \<open>page_index\<close> the union with the slob free list.
  The zone lies at \<open>zone_addr\<close>: the list heads of its free areas at offset 12, 12 bytes apart,
  its lock at offset 144. Orders are natural numbers; a free into an order that has no free area
  is the error \<open>Out_Of_Bounds\<close>.
\<close>

abbreviation MAX_ORDER :: nat where "MAX_ORDER \<equiv> 11"
abbreviation PAGE_SHIFT :: nat where "PAGE_SHIFT \<equiv> 12"
abbreviation PAGE_SIZE :: u32 where "PAGE_SIZE \<equiv> 4096"
abbreviation PAGE_MASK :: u32 where "PAGE_MASK \<equiv> NOT (mask 12)"

record pages = sync +
  page_flags :: "ptr \<Rightarrow> u32"
  page_index :: "ptr \<Rightarrow> u32"
  page_units :: "ptr \<Rightarrow> int"
  page_private :: "ptr \<Rightarrow> u32"
  zone_start_pfn :: u32
  spanned_pages :: u32
  managed_pages :: u32
  nr_free :: "nat \<Rightarrow> u32"
  zone_addr :: ptr
  memmap_pages :: ptr

definition free_list :: "'a pages_scheme \<Rightarrow> nat \<Rightarrow> ptr" where
  "free_list s k = zone_addr s + 12 + 12 * of_nat k"

definition zone_lock :: "'a pages_scheme \<Rightarrow> ptr" where
  "zone_lock s = zone_addr s + 144"

definition page_node :: "ptr \<Rightarrow> ptr" where
  "page_node page = page + 4"

definition page_plus :: "ptr \<Rightarrow> u32 \<Rightarrow> ptr" where
  "page_plus page n = page + 24 * n"

subsection \<open>Page state\<close>

definition PageBuddy :: "ptr \<Rightarrow> 'a pages_scheme \<Rightarrow> bool" where
  "PageBuddy page s \<longleftrightarrow> page_units s page = - 128"

definition SetPageBuddy :: "ptr \<Rightarrow> 'a pages_scheme \<Rightarrow> 'a pages_scheme" where
  "SetPageBuddy page s = s\<lparr>page_units := (page_units s)(page := - 128)\<rparr>"

definition ClearPageBuddy :: "ptr \<Rightarrow> 'a pages_scheme \<Rightarrow> 'a pages_scheme" where
  "ClearPageBuddy page s = s\<lparr>page_units := (page_units s)(page := - 1)\<rparr>"

definition page_order :: "ptr \<Rightarrow> 'a pages_scheme \<Rightarrow> u32" where
  "page_order page s = page_private s page"

definition set_page_order :: "ptr \<Rightarrow> nat \<Rightarrow> 'a pages_scheme \<Rightarrow> 'a pages_scheme" where
  "set_page_order page order s = SetPageBuddy page (s\<lparr>page_private := (page_private s)(page := of_nat order)\<rparr>)"

definition rmv_page_order :: "ptr \<Rightarrow> 'a pages_scheme \<Rightarrow> 'a pages_scheme" where
  "rmv_page_order page s = ClearPageBuddy page (s\<lparr>page_private := (page_private s)(page := 0)\<rparr>)"

subsection \<open>Initialisation\<close>

lemma split_block_smaller:
  fixes n :: u32
  assumes "2 ^ order \<le> n" and "order < MAX_ORDER"
  shows "unat (n - 2 ^ order) < unat n"
proof -
  have "unat (2 ^ order :: u32) = 2 ^ order" using assms(2) by (intro unat_2_power) simp
  then have "0 < unat (2 ^ order :: u32)" by simp
  then show ?thesis using assms(1) by (subst unat_sub_no_wrap) (auto simp: word_le_nat_alt)
qed

text \<open>The loop starts at the largest order, so that it never sees an order without a free area.\<close>

function insert_loop :: "nat \<Rightarrow> ptr \<Rightarrow> u32 \<Rightarrow> 'a pages_scheme \<Rightarrow> 'a pages_scheme" where
  "insert_loop order cur_page cur_num s =
     (let element_num = push_bit order 1 :: u32 in
      if cur_num \<ge> element_num \<and> order < MAX_ORDER then
        let h = INIT_LIST_HEAD (page_node cur_page) (links s);
            s1 = s\<lparr>links := list_add_tail (page_node cur_page) (free_list s order) h,
                   nr_free := (nr_free s)(order := nr_free s order + 1)\<rparr>;
            cur_page1 = page_plus cur_page element_num;
            cur_num1 = cur_num - element_num
        in if sint cur_num1 > 0 then insert_loop order cur_page1 cur_num1 s1 else s1
      else
        let order1 = (if order > 0 then order - 1 else order)
        in if sint cur_num > 0 \<and> order > 0 then insert_loop order1 cur_page cur_num s else s)"
  by pat_completeness auto
termination
  by (relation "measure (\<lambda>(order, p, n, s). unat n + order)") (auto simp: split_block_smaller)

declare insert_loop.simps [simp del]

definition insert_to_free_area :: "ptr \<Rightarrow> u32 \<Rightarrow> 'a pages_scheme \<Rightarrow> 'a pages_scheme" where
  "insert_to_free_area page page_num s = insert_loop (MAX_ORDER - 1) page page_num s"

definition init_page :: "nat \<Rightarrow> 'a pages_scheme \<Rightarrow> 'a pages_scheme" where
  "init_page i s =
     (let cur_page = page_plus (memmap_pages s) (of_nat i)
      in s\<lparr>page_flags := (page_flags s)(cur_page := 0), page_index := (page_index s)(cur_page := of_nat i),
           page_units := (page_units s)(cur_page := 0), page_private := (page_private s)(cur_page := 0)\<rparr>)"

definition page_alloc_init :: "ptr \<Rightarrow> u32 \<Rightarrow> 'a pages_scheme \<Rightarrow> 'a pages_scheme" where
  "page_alloc_init addr_origin size_origin s =
     (if NULL = addr_origin then s
      else
        let addr = (addr_origin + PAGE_SIZE - 1) AND PAGE_MASK;
            bytes = (size_origin - (addr - addr_origin)) AND PAGE_MASK;
            s1 = s\<lparr>zone_start_pfn := drop_bit PAGE_SHIFT addr, spanned_pages := drop_bit PAGE_SHIFT bytes\<rparr>;
            s2 = s1\<lparr>links := fold INIT_LIST_HEAD (map (free_list s1) [0..<MAX_ORDER]) (links s1)\<rparr>;
            used_pages = drop_bit PAGE_SHIFT (spanned_pages s2 * 24) + 1;
            s3 = s2\<lparr>managed_pages := spanned_pages s2 - used_pages\<rparr>;
            s4 = (sema_init (zone_lock s3) 1 s3)\<lparr>memmap_pages := addr\<rparr>;
            s5 = fold init_page [0..<unat (managed_pages s4)] s4
        in insert_to_free_area (page_plus (memmap_pages s5) used_pages) (managed_pages s5) s5)"

subsection \<open>Allocation\<close>

text \<open>\<open>clz\<close> is the instruction: the number of leading zeros, 32 for zero.\<close>

definition clz :: "u32 \<Rightarrow> nat" where
  "clz x = length (takeWhile Not (map (\<lambda>i. bit x (31 - i)) [0..<32]))"

definition fls :: "u32 \<Rightarrow> nat" where
  "fls x = 32 - clz x"

definition get_order :: "u32 \<Rightarrow> nat" where
  "get_order bytes = fls (drop_bit PAGE_SHIFT (bytes - 1))"

text \<open>\<open>add_free\<close>: the three statements that put a free block of an order at the front of its list.\<close>

definition add_free :: "ptr \<Rightarrow> nat \<Rightarrow> 'a pages_scheme \<Rightarrow> 'a pages_scheme" where
  "add_free page order s =
     set_page_order page order
       (s\<lparr>links := list_add (page_node page) (free_list s order) (links s),
          nr_free := (nr_free s)(order := nr_free s order + 1)\<rparr>)"

fun expand :: "ptr \<Rightarrow> nat \<Rightarrow> nat \<Rightarrow> 'a pages_scheme \<Rightarrow> 'a pages_scheme" where
  "expand page low high s =
     (if high > low then
        let high1 = high - 1; half = push_bit high1 1
        in expand page low high1 (add_free (page_plus page half) high1 s)
      else s)"

declare expand.simps [simp del]

function rmqueue_loop :: "nat \<Rightarrow> nat \<Rightarrow> 'a pages_scheme \<Rightarrow> ptr \<times> 'a pages_scheme" where
  "rmqueue_loop current_order order s =
     (if current_order < MAX_ORDER then
        if list_empty (free_list s current_order) (links s) then rmqueue_loop (Suc current_order) order s
        else
          let node = nxt (links s) (free_list s current_order); page = node - 4;
              s1 = rmv_page_order page (s\<lparr>links := list_del node (links s)\<rparr>);
              s2 = s1\<lparr>nr_free := (nr_free s1)(current_order := nr_free s1 current_order - 1)\<rparr>;
              s3 = expand page order current_order s2
          in (page, s3\<lparr>page_private := (page_private s3)(page := of_nat order)\<rparr>)
      else (NULL, s))"
  by pat_completeness auto
termination
  by (relation "measure (\<lambda>(c, order, s). MAX_ORDER - c)") auto

declare rmqueue_loop.simps [simp del]

definition rmqueue :: "nat \<Rightarrow> 'a pages_scheme \<Rightarrow> ptr \<times> 'a pages_scheme" where
  "rmqueue order s = rmqueue_loop order order s"

definition page_address :: "ptr \<Rightarrow> 'a pages_scheme \<Rightarrow> ptr" where
  "page_address page s =
     (let page_idx = word_of_int (sint (page - memmap_pages s) div 24) :: u32
      in memmap_pages s + push_bit PAGE_SHIFT page_idx)"

definition alloc_pages :: "'a pages_scheme switch \<Rightarrow> ptr \<Rightarrow> u32 \<Rightarrow> 'a pages_scheme \<Rightarrow> (ptr \<times> 'a pages_scheme) option" where
  "alloc_pages others w bytes s =
     (let order = get_order bytes in
      if order \<ge> MAX_ORDER then Some (NULL, s)
      else Option.bind (down others w (zone_lock s) s) (\<lambda>s1.
        case rmqueue order s1 of (page, s2) \<Rightarrow> Some (page, up (zone_lock s2) s2)))"

subsection \<open>Freeing\<close>

definition find_buddy_index :: "u32 \<Rightarrow> nat \<Rightarrow> u32" where
  "find_buddy_index page_idx order = page_idx XOR push_bit order 1"

definition page_is_buddy :: "ptr \<Rightarrow> ptr \<Rightarrow> nat \<Rightarrow> 'a pages_scheme \<Rightarrow> bool" where
  "page_is_buddy page buddy order s \<longleftrightarrow> PageBuddy buddy s \<and> page_order buddy s = of_nat order"

function merge_loop :: "ptr \<Rightarrow> u32 \<Rightarrow> nat \<Rightarrow> 'a pages_scheme \<Rightarrow> ptr \<times> nat \<times> 'a pages_scheme" where
  "merge_loop page page_idx order s =
     (if order < MAX_ORDER - 1 then
        let buddy_idx = find_buddy_index page_idx order;
            buddy = page_plus page (buddy_idx - page_idx)
        in if \<not> page_is_buddy page buddy order s then (page, order, s)
           else
             let s1 = s\<lparr>links := list_del (page_node buddy) (links s)\<rparr>;
                 s2 = s1\<lparr>nr_free := (nr_free s1)(order := nr_free s1 order - 1)\<rparr>;
                 s3 = rmv_page_order buddy s2;
                 combined_idx = buddy_idx AND page_idx
             in merge_loop (page_plus page (combined_idx - page_idx)) combined_idx (Suc order) s3
      else (page, order, s))"
  by pat_completeness auto
termination
  by (relation "measure (\<lambda>(p, i, order, s). MAX_ORDER - order)") auto

declare merge_loop.simps [simp del]

definition free_one_page :: "ptr \<Rightarrow> nat \<Rightarrow> 'a pages_scheme \<Rightarrow> 'a pages_scheme res" where
  "free_one_page page order s =
     (case merge_loop page (page_index s page) order s of (page1, order1, s1) \<Rightarrow>
        if order1 < MAX_ORDER then Inr (add_free page1 order1 s1) else Inl Out_Of_Bounds)"

definition free_pages_order :: "'a pages_scheme switch \<Rightarrow> ptr \<Rightarrow> ptr \<Rightarrow> nat \<Rightarrow> 'a pages_scheme \<Rightarrow> 'a pages_scheme res option" where
  "free_pages_order others w page order s =
     map_option (\<lambda>s1. bind_res (free_one_page page order s1) (\<lambda>s2. Inr (up (zone_lock s2) s2)))
       (down others w (zone_lock s) s)"

definition virt_to_page :: "ptr \<Rightarrow> 'a pages_scheme \<Rightarrow> ptr" where
  "virt_to_page addr s =
     (let pfn = drop_bit PAGE_SHIFT addr in
      if pfn > zone_start_pfn s + spanned_pages s \<or> pfn < zone_start_pfn s then NULL
      else page_plus (memmap_pages s) (pfn - zone_start_pfn s))"

definition free_pages :: "'a pages_scheme switch \<Rightarrow> ptr \<Rightarrow> ptr \<Rightarrow> 'a pages_scheme \<Rightarrow> 'a pages_scheme res option" where
  "free_pages others w addr s =
     (if 0 = addr then Some (Inr s)
      else let page = virt_to_page addr s in
        if NULL \<noteq> page then free_pages_order others w page (unat (page_private s page)) s
        else Some (Inr s))"

text \<open>The page indices \<open>print_free_list\<close> prints, from the largest order down.\<close>

definition print_free_list :: "'a pages_scheme \<Rightarrow> u32 list list option" where
  "print_free_list s =
     those (map (\<lambda>order. map_option (map (\<lambda>n. page_index s (n - 4))) (list_for_each (links s) (free_list s order)))
       (rev [0..<MAX_ORDER]))"


subsection \<open>The order of a size\<close>

lemma clz_bits:
  shows "i < clz x \<Longrightarrow> \<not> bit x (31 - i)" and "clz x < 32 \<Longrightarrow> bit x (31 - clz x)" and "clz x \<le> 32"
proof -
  let ?bs = "map (\<lambda>i. bit x (31 - i)) [0..<32]"
  have len: "length ?bs = 32" by simp
  show le: "clz x \<le> 32" using length_takeWhile_le [of Not ?bs] unfolding clz_def len .
  show "\<not> bit x (31 - i)" if "i < clz x"
  proof -
    have "\<not> takeWhile Not ?bs ! i"
      using nth_mem [of i "takeWhile Not ?bs"] that set_takeWhileD unfolding clz_def by fastforce
    then show ?thesis using that le takeWhile_nth [of i Not ?bs] unfolding clz_def by simp
  qed
  show "bit x (31 - clz x)" if "clz x < 32"
    using nth_length_takeWhile [of Not ?bs] that unfolding clz_def len by simp
qed

lemma fls_upper: "unat x < 2 ^ fls x"
proof -
  have "take_bit (fls x) x = x"
  proof (rule bit_word_eqI)
    fix n assume "n < LENGTH(32)"
    then show "bit (take_bit (fls x) x) n = bit x n"
      using clz_bits(1) [of "31 - n" x] by (cases "31 - n < clz x") (auto simp: bit_simps fls_def)
  qed
  then have "unat (take_bit (fls x) x) = unat x" by simp
  then have "take_bit (fls x) (unat x) = unat x" by (simp only: unsigned_take_bit_eq)
  then show ?thesis by (simp only: take_bit_nat_eq_self_iff)
qed

lemma fls_lower:
  assumes "x \<noteq> 0"
  shows "0 < fls x \<and> 2 ^ (fls x - 1) \<le> unat x"
proof -
  have lt: "clz x < 32"
  proof (rule ccontr)
    assume "\<not> clz x < 32"
    then have "clz x = 32" using clz_bits(3) [of x] by simp
    then have "fls x = 0" by (simp add: fls_def)
    then show False using fls_upper [of x] unat_pos [OF assms] by simp
  qed
  then have "bit (unat x) (31 - clz x)" using clz_bits(2) [of x] by (simp add: bit_unsigned_iff)
  then have "odd (unat x div 2 ^ (31 - clz x))" unfolding bit_iff_odd .
  then have "unat x div 2 ^ (31 - clz x) \<noteq> 0" by (metis even_zero)
  then have "2 ^ (31 - clz x) \<le> unat x" by (simp add: div_eq_0_iff)
  then show ?thesis using lt by (simp add: fls_def)
qed

lemma get_order_bounds:
  assumes "bytes \<noteq> 0"
  shows "unat bytes \<le> 4096 * 2 ^ get_order bytes"
    and "0 < get_order bytes \<Longrightarrow> 4096 * 2 ^ (get_order bytes - 1) < unat bytes"
proof -
  let ?x = "drop_bit PAGE_SHIFT (bytes - 1)"
  have b: "0 < unat bytes" using assms by (rule unat_pos)
  then have m: "unat (bytes - 1) = unat bytes - 1" by (subst unat_sub_no_wrap) simp_all
  have x: "unat ?x = (unat bytes - 1) div 4096"
    unfolding m [symmetric] by (simp add: drop_bit_eq_div unat_div)
  have "(unat bytes - 1) div 4096 < 2 ^ get_order bytes"
    using fls_upper [of ?x] unfolding x get_order_def .
  then have "unat bytes - 1 < 2 ^ get_order bytes * 4096" by (simp add: less_mult_imp_div_less div_less_iff_less_mult)
  then show "unat bytes \<le> 4096 * 2 ^ get_order bytes" using b by simp
  assume "0 < get_order bytes"
  then have "?x \<noteq> 0" using clz_bits(2) [of 0] by (auto simp: get_order_def fls_def)
  from fls_lower [OF this] have "2 ^ (get_order bytes - 1) \<le> (unat bytes - 1) div 4096"
    unfolding x get_order_def by simp
  then have "2 ^ (get_order bytes - 1) * 4096 \<le> unat bytes - 1"
    by (simp add: less_eq_div_iff_mult_less_eq)
  then show "4096 * 2 ^ (get_order bytes - 1) < unat bytes" using b by simp
qed


subsection \<open>Free blocks\<close>

text \<open>
  \<open>B k\<close> lists the page numbers of the free blocks of order \<open>k\<close>. The invariant: the free lists hold
  exactly these blocks and the counters count them, the blocks lie in the zone and are disjoint,
  and a page structure marked as a buddy is the first page of a free block of the recorded order.
  \<open>N\<close> is the number of pages of the zone.
\<close>

definition page_of :: "'a pages_scheme \<Rightarrow> nat \<Rightarrow> ptr" where
  "page_of s i = page_plus (memmap_pages s) (of_nat i)"

abbreviation block_pages :: "nat \<times> nat \<Rightarrow> nat set" where
  "block_pages x \<equiv> {snd x..<snd x + 2 ^ fst x}"

definition free_blocks :: "(nat \<Rightarrow> nat list) \<Rightarrow> (nat \<times> nat) set" where
  "free_blocks B = {(k, i). k < MAX_ORDER \<and> i \<in> set (B k)}"

definition free_set :: "(nat \<Rightarrow> nat list) \<Rightarrow> nat set" where
  "free_set B = (\<Union>x \<in> free_blocks B. block_pages x)"

definition blocks_disjoint :: "(nat \<Rightarrow> nat list) \<Rightarrow> bool" where
  "blocks_disjoint B \<longleftrightarrow>
     (\<forall>x \<in> free_blocks B. \<forall>y \<in> free_blocks B. x \<noteq> y \<longrightarrow> block_pages x \<inter> block_pages y = {})"

definition zone_ok :: "'a pages_scheme \<Rightarrow> nat \<Rightarrow> bool" where
  "zone_ok s N \<longleftrightarrow> N \<le> 2 ^ 20 \<and> (\<forall>k < MAX_ORDER. \<forall>i < N. free_list s k \<noteq> page_node (page_of s i))"

definition buddy_inv :: "'a pages_scheme \<Rightarrow> nat \<Rightarrow> (nat \<Rightarrow> nat list) \<Rightarrow> bool" where
  "buddy_inv s N B \<longleftrightarrow> zone_ok s N \<and>
     queue_family dlist (links s) (free_list s) {..<MAX_ORDER} (\<lambda>k. map (\<lambda>i. page_node (page_of s i)) (B k)) \<and>
     (\<forall>k < MAX_ORDER. unat (nr_free s k) = length (B k)) \<and>
     free_set B \<subseteq> {..<N} \<and> blocks_disjoint B \<and>
     (\<forall>p. PageBuddy p s \<longrightarrow> (\<exists>x \<in> free_blocks B. p = page_of s (snd x) \<and> page_order p s = of_nat (fst x)))"

lemma buddy_invD:
  assumes "buddy_inv s N B"
  shows "zone_ok s N"
    and "queue_family dlist (links s) (free_list s) {..<MAX_ORDER} (\<lambda>k. map (\<lambda>i. page_node (page_of s i)) (B k))"
    and "k < MAX_ORDER \<Longrightarrow> unat (nr_free s k) = length (B k)"
    and "free_set B \<subseteq> {..<N}" and "blocks_disjoint B"
    and "PageBuddy p s \<Longrightarrow> \<exists>x \<in> free_blocks B. p = page_of s (snd x) \<and> page_order p s = of_nat (fst x)"
  using assms unfolding buddy_inv_def by blast+

lemma page_of_inj:
  assumes "i < 2 ^ 24" and "j < 2 ^ 24"
  shows "page_of s i = page_of s j \<longleftrightarrow> i = j"
proof -
  have "page_of s i = page_of s j \<longleftrightarrow> (of_nat (24 * i) :: u32) = of_nat (24 * j)"
    by (simp add: page_of_def page_plus_def)
  also have "\<dots> \<longleftrightarrow> 24 * i = 24 * j"
    using assms by (intro of_nat_inj_below) simp_all
  finally show ?thesis by simp
qed

lemma page_node_inj [simp]: "page_node p = page_node q \<longleftrightarrow> p = q"
  by (simp add: page_node_def)

lemma free_blocks_add: "k < MAX_ORDER \<Longrightarrow> free_blocks (B(k := i # B k)) = insert (k, i) (free_blocks B)"
  by (auto simp: free_blocks_def split: if_splits)

lemma free_blocks_remove:
  "distinct (B k) \<Longrightarrow> free_blocks (B(k := remove1 i (B k))) = free_blocks B - {(k, i)}"
  by (auto simp: free_blocks_def split: if_splits)

lemma free_set_add: "k < MAX_ORDER \<Longrightarrow> free_set (B(k := i # B k)) = block_pages (k, i) \<union> free_set B"
  by (simp add: free_set_def free_blocks_add)

lemma free_set_remove:
  assumes "blocks_disjoint B" and "distinct (B k)" and "(k, i) \<in> free_blocks B"
  shows "free_set (B(k := remove1 i (B k))) = free_set B - block_pages (k, i)"
proof -
  have "free_set B = block_pages (k, i) \<union> (\<Union>x \<in> free_blocks B - {(k, i)}. block_pages x)"
    using assms(3) unfolding free_set_def by blast
  moreover have "block_pages (k, i) \<inter> (\<Union>x \<in> free_blocks B - {(k, i)}. block_pages x) = {}"
    using assms(1,3) unfolding blocks_disjoint_def by blast
  ultimately show ?thesis
    unfolding free_set_def free_blocks_remove [of B k i, OF assms(2)] by blast
qed

lemma blocks_disjoint_add:
  assumes "blocks_disjoint B" and "k < MAX_ORDER" and "block_pages (k, i) \<inter> free_set B = {}"
  shows "blocks_disjoint (B(k := i # B k))"
  using assms unfolding blocks_disjoint_def free_blocks_add [OF assms(2)] free_set_def by blast

lemma blocks_disjoint_remove:
  "blocks_disjoint B \<Longrightarrow> distinct (B k) \<Longrightarrow> blocks_disjoint (B(k := remove1 i (B k)))"
  unfolding blocks_disjoint_def by (simp add: free_blocks_remove)

lemma free_block_in_zone:
  assumes "buddy_inv s N B" and "k < MAX_ORDER" and "i \<in> set (B k)"
  shows "i < N" and "i < 2 ^ 24"
proof -
  have "i \<in> free_set B" using assms(2,3) by (force simp: free_set_def free_blocks_def)
  then show "i < N" using buddy_invD(4) [OF assms(1)] by auto
  then show "i < 2 ^ 24" using buddy_invD(1) [OF assms(1)] by (simp add: zone_ok_def)
qed

lemma free_list_distinct:
  assumes "buddy_inv s N B" and "k < MAX_ORDER"
  shows "distinct (B k)"
proof -
  have "dlist (links s) (free_list s k) (map (\<lambda>i. page_node (page_of s i)) (B k))"
    using buddy_invD(2) [OF assms(1)] assms(2) by (simp add: queue_family_def)
  then show ?thesis using dlist_distinct distinct_map by blast
qed

subsection \<open>Putting a block in and taking a block out\<close>

lemma pages_upd_sel [simp]:
  "links (set_page_order p k s) = links s" "nr_free (set_page_order p k s) = nr_free s"
  "memmap_pages (set_page_order p k s) = memmap_pages s" "zone_addr (set_page_order p k s) = zone_addr s"
  "page_index (set_page_order p k s) = page_index s"
  "links (rmv_page_order p s) = links s" "nr_free (rmv_page_order p s) = nr_free s"
  "memmap_pages (rmv_page_order p s) = memmap_pages s" "zone_addr (rmv_page_order p s) = zone_addr s"
  "page_index (rmv_page_order p s) = page_index s"
  by (simp_all add: set_page_order_def rmv_page_order_def SetPageBuddy_def ClearPageBuddy_def)

lemma PageBuddy_set [simp]:
  "PageBuddy q (set_page_order p k s) \<longleftrightarrow> q = p \<or> PageBuddy q s"
  "PageBuddy q (rmv_page_order p s) \<longleftrightarrow> q \<noteq> p \<and> PageBuddy q s"
  "page_order q (set_page_order p k s) = (if q = p then of_nat k else page_order q s)"
  "q \<noteq> p \<Longrightarrow> page_order q (rmv_page_order p s) = page_order q s"
  by (simp_all add: set_page_order_def rmv_page_order_def SetPageBuddy_def ClearPageBuddy_def PageBuddy_def page_order_def)

lemma PageBuddy_lists [simp]:
  "PageBuddy q (s\<lparr>links := h\<rparr>) = PageBuddy q s" "PageBuddy q (s\<lparr>nr_free := n\<rparr>) = PageBuddy q s"
  "page_order q (s\<lparr>links := h\<rparr>) = page_order q s" "page_order q (s\<lparr>nr_free := n\<rparr>) = page_order q s"
  by (simp_all add: PageBuddy_def page_order_def)

lemma zone_sel_cong:
  assumes "memmap_pages s' = memmap_pages s" and "zone_addr s' = zone_addr s"
  shows "page_of s' = page_of s" and "free_list s' = free_list s" and "zone_ok s' N = zone_ok s N"
  using assms by (simp_all add: page_of_def free_list_def zone_ok_def fun_eq_iff)

lemma block_fresh:
  assumes inv: "buddy_inv s N B" and i: "i < N" and free: "i \<notin> free_set B"
  shows "page_node (page_of s i) \<notin> (\<Union>l \<in> {..<MAX_ORDER}. set (free_list s l # map (\<lambda>i. page_node (page_of s i)) (B l)))"
proof -
  have N: "N \<le> 2 ^ 20" using buddy_invD(1) [OF inv] by (simp add: zone_ok_def)
  have "page_node (page_of s i) \<noteq> free_list s l" if "l < MAX_ORDER" for l
    using buddy_invD(1) [OF inv] i that unfolding zone_ok_def by metis
  moreover have "page_of s i \<noteq> page_of s j" if "l < MAX_ORDER" "j \<in> set (B l)" for l j
  proof -
    have "j \<in> free_set B" using that by (force simp: free_set_def free_blocks_def)
    then show ?thesis using page_of_inj [of i j s] free_block_in_zone [OF inv that] i N free by auto
  qed
  ultimately show ?thesis by auto
qed

text \<open>A block that has been put into the list of its order, at either end.\<close>

lemma block_added_inv:
  assumes inv: "buddy_inv s N B" and k: "k < MAX_ORDER" and i: "i + 2 ^ k \<le> N"
    and free: "block_pages (k, i) \<inter> free_set B = {}"
    and xs: "set xs = insert i (set (B k))" "length xs = Suc (length (B k))"
    and sel: "memmap_pages s' = memmap_pages s" "zone_addr s' = zone_addr s" "nr_free s' = (nr_free s)(k := nr_free s k + 1)"
    and fam: "queue_family dlist (links s') (free_list s) {..<MAX_ORDER} (\<lambda>l. map (\<lambda>i. page_node (page_of s i)) ((B(k := xs)) l))"
    and buddy: "\<And>q. PageBuddy q s' \<Longrightarrow>
      q = page_of s i \<and> page_order q s' = of_nat k \<or> PageBuddy q s \<and> page_order q s' = page_order q s"
  shows "buddy_inv s' N (B(k := xs))" "free_set (B(k := xs)) = block_pages (k, i) \<union> free_set B"
proof -
  let ?B = "B(k := xs)"
  note z = zone_sel_cong [OF sel(1,2)]
  have blocks: "free_blocks ?B = insert (k, i) (free_blocks B)" using xs(1) k by (auto simp: free_blocks_def split: if_splits)
  then show fs: "free_set ?B = block_pages (k, i) \<union> free_set B" by (simp add: free_set_def)
  have dis: "blocks_disjoint ?B"
    using buddy_invD(5) [OF inv] free unfolding blocks_disjoint_def blocks free_set_def by blast
  have cnt: "unat (nr_free s' l) = length (?B l)" if "l < MAX_ORDER" for l
  proof (cases "l = k")
    case True
    have "set (B k) \<subseteq> {..<N}" using free_block_in_zone(1) [OF inv k] by auto
    then have "length (B k) \<le> N"
      using free_list_distinct [OF inv k] card_mono [of "{..<N}" "set (B k)"] by (simp add: distinct_card)
    moreover have "N \<le> 2 ^ 20" using buddy_invD(1) [OF inv] by (simp add: zone_ok_def)
    ultimately have "unat (nr_free s k + 1) = Suc (unat (nr_free s k))"
      using buddy_invD(3) [OF inv k] by (intro unat_Suc_no_wrap) simp
    then show ?thesis using True buddy_invD(3) [OF inv k] xs(2) by (simp add: sel)
  qed (use buddy_invD(3) [OF inv that] in \<open>simp add: sel\<close>)
  have "\<exists>x \<in> free_blocks ?B. q = page_of s (snd x) \<and> page_order q s' = of_nat (fst x)" if "PageBuddy q s'" for q
    using buddy [OF that] buddy_invD(6) [OF inv, of q] unfolding blocks by auto
  moreover have "free_set ?B \<subseteq> {..<N}" using buddy_invD(4) [OF inv] i unfolding fs by auto
  ultimately show "buddy_inv s' N ?B"
    unfolding buddy_inv_def z using buddy_invD(1) [OF inv] fam cnt dis by blast
qed

lemma add_free_inv:
  assumes inv: "buddy_inv s N B" and k: "k < MAX_ORDER" and i: "i + 2 ^ k \<le> N"
    and free: "block_pages (k, i) \<inter> free_set B = {}"
  shows "buddy_inv (add_free (page_of s i) k s) N (B(k := i # B k))"
proof -
  have "i \<in> block_pages (k, i)" "i < N" using i by (auto intro: less_le_trans [of i "i + 2 ^ k"])
  then have fresh: "page_node (page_of s i) \<notin> (\<Union>l \<in> {..<MAX_ORDER}. set (free_list s l # map (\<lambda>i. page_node (page_of s i)) (B l)))"
    using free by (intro block_fresh [OF inv]) blast+
  show ?thesis
  proof (rule block_added_inv(1) [OF inv k i free])
    show "queue_family dlist (links (add_free (page_of s i) k s)) (free_list s) {..<MAX_ORDER}
        (\<lambda>l. map (\<lambda>i. page_node (page_of s i)) ((B(k := i # B k)) l))"
      using klist.family_add_front [OF buddy_invD(2) [OF inv], of k "page_node (page_of s i)"] k fresh
      by (simp add: add_free_def fun_upd_def if_distrib [of "map _"] cong: if_cong)
  qed (auto simp: add_free_def)
qed


text \<open>The statements that unlink a free block: both users of them touch only its structures.\<close>

definition take_free :: "ptr \<Rightarrow> nat \<Rightarrow> 'a pages_scheme \<Rightarrow> 'a pages_scheme" where
  "take_free page order s =
     rmv_page_order page (s\<lparr>links := list_del (page_node page) (links s),
                            nr_free := (nr_free s)(order := nr_free s order - 1)\<rparr>)"

lemma take_free_alt:
  "(rmv_page_order p (s\<lparr>links := list_del (page_node p) (links s)\<rparr>))
     \<lparr>nr_free := (nr_free s)(k := nr_free s k - 1)\<rparr> = take_free p k s"
  by (intro pages.equality) (simp_all add: take_free_def rmv_page_order_def ClearPageBuddy_def)

lemma take_free_inv:
  assumes inv: "buddy_inv s N B" and k: "k < MAX_ORDER" and i: "i \<in> set (B k)"
  shows "buddy_inv (take_free (page_of s i) k s) N (B(k := remove1 i (B k)))"
    and "free_set (B(k := remove1 i (B k))) = free_set B - block_pages (k, i)"
proof -
  let ?p = "page_of s i" and ?s = "take_free (page_of s i) k s" and ?B = "B(k := remove1 i (B k))"
  let ?nodes = "\<lambda>B k. map (\<lambda>i. page_node (page_of s i)) (B k)"
  have sel: "memmap_pages ?s = memmap_pages s" "zone_addr ?s = zone_addr s"
    "links ?s = list_del (page_node ?p) (links s)" "nr_free ?s = (nr_free s)(k := nr_free s k - 1)"
    by (simp_all add: take_free_def)
  note z = zone_sel_cong [OF sel(1,2)]
  note d = free_list_distinct [OF inv k]
  have blk: "(k, i) \<in> free_blocks B" using k i by (simp add: free_blocks_def)
  show fs: "free_set ?B = free_set B - block_pages (k, i)"
    using buddy_invD(5) [OF inv] d blk by (rule free_set_remove)
  have inj: "inj_on (\<lambda>j. page_node (page_of s j)) (set (B k))"
    using page_of_inj free_block_in_zone(2) [OF inv k] by (auto simp: inj_on_def)
  have "map (\<lambda>j. page_node (page_of s j)) (remove1 i (B k)) = remove1 (page_node ?p) (?nodes B k)"
    using inj i by (subst map_remove1_inj) (auto simp: insert_absorb)
  then have fam: "queue_family dlist (links ?s) (free_list s) {..<MAX_ORDER} (?nodes ?B)"
    using klist.family_del [OF buddy_invD(2) [OF inv], of k "page_node ?p"] k i
    unfolding sel by (simp add: fun_upd_def if_distrib [of "map _"] cong: if_cong)
  have cnt: "unat (nr_free ?s l) = length (?B l)" if "l < MAX_ORDER" for l
  proof (cases "l = k")
    case True
    have "0 < length (B k)" using i by (cases "B k") auto
    then have "unat (nr_free s k - 1) = unat (nr_free s k) - 1"
      using buddy_invD(3) [OF inv k] by (subst unat_sub_no_wrap) (simp_all add: Suc_le_eq)
    then show ?thesis using True buddy_invD(3) [OF inv k] i by (simp add: sel length_remove1)
  next
    case False
    then show ?thesis using buddy_invD(3) [OF inv that] by (simp add: sel)
  qed
  have "\<exists>x \<in> free_blocks ?B. q = page_of s (snd x) \<and> page_order q ?s = of_nat (fst x)"
    if "PageBuddy q ?s" for q
  proof -
    have q: "q \<noteq> ?p" "PageBuddy q s" and o: "page_order q ?s = page_order q s"
      using that by (simp_all add: take_free_def)
    obtain x where x: "x \<in> free_blocks B" "q = page_of s (snd x)" "page_order q s = of_nat (fst x)"
      using buddy_invD(6) [OF inv q(2)] by blast
    then have "x \<noteq> (k, i)" using q(1) by auto
    then show ?thesis using x o by (auto simp: free_blocks_remove [of B k i, OF d])
  qed
  moreover have "free_set ?B \<subseteq> {..<N}" using buddy_invD(4) [OF inv] fs by blast
  ultimately show "buddy_inv ?s N ?B"
    unfolding buddy_inv_def z
    using buddy_invD(1) [OF inv] fam cnt blocks_disjoint_remove [OF buddy_invD(5) [OF inv] d] by blast
qed


text \<open>
  What the operations on free blocks leave alone: the page map and the zone, the index and flags of
  the pages, the counts of semaphores, and every empty list whose head is neither in the zone nor
  in a page structure, such as the waiting line of the zone's lock.
\<close>

definition outside_zone :: "'a pages_scheme \<Rightarrow> nat \<Rightarrow> ptr \<Rightarrow> bool" where
  "outside_zone s N q \<longleftrightarrow> (\<forall>k < MAX_ORDER. q \<noteq> free_list s k) \<and> (\<forall>i < N. q \<noteq> page_node (page_of s i))"

definition zone_frame :: "nat \<Rightarrow> 'a pages_scheme \<Rightarrow> 'a pages_scheme \<Rightarrow> bool" where
  "zone_frame N s s' \<longleftrightarrow> memmap_pages s' = memmap_pages s \<and> zone_addr s' = zone_addr s \<and> page_index s' = page_index s \<and>
     page_flags s' = page_flags s \<and> zone_start_pfn s' = zone_start_pfn s \<and> spanned_pages s' = spanned_pages s \<and>
     managed_pages s' = managed_pages s \<and> sem_count s' = sem_count s \<and> pages.more s' = pages.more s \<and>
     (\<forall>q. outside_zone s N q \<and> dlist (links s) q [] \<longrightarrow> dlist (links s') q [])"

lemma zone_frameD:
  assumes "zone_frame N s s'"
  shows "memmap_pages s' = memmap_pages s" "zone_addr s' = zone_addr s" "page_index s' = page_index s"
    "page_flags s' = page_flags s" "zone_start_pfn s' = zone_start_pfn s" "spanned_pages s' = spanned_pages s"
    "sem_count s' = sem_count s" "pages.more s' = pages.more s" "page_of s' = page_of s" "free_list s' = free_list s"
    "outside_zone s N q \<Longrightarrow> dlist (links s) q [] \<Longrightarrow> dlist (links s') q []" "managed_pages s' = managed_pages s"
  using assms zone_sel_cong [of s' s] by (simp_all add: zone_frame_def)

lemma zone_frame_refl [simp]: "zone_frame N s s"
  by (simp add: zone_frame_def)

lemma zone_frame_trans [trans]: "zone_frame N s s' \<Longrightarrow> zone_frame N s' s'' \<Longrightarrow> zone_frame N s s''"
  unfolding zone_frame_def outside_zone_def using zone_sel_cong [of s' s] by simp

lemma zone_frame_marks [simp]:
  "zone_frame N s (set_page_order p k s') = zone_frame N s s'" "zone_frame N s (rmv_page_order p s') = zone_frame N s s'"
  "zone_frame N s (s'\<lparr>nr_free := n\<rparr>) = zone_frame N s s'" "zone_frame N s (s'\<lparr>page_private := v\<rparr>) = zone_frame N s s'"
  by (simp_all add: zone_frame_def set_page_order_def rmv_page_order_def SetPageBuddy_def ClearPageBuddy_def)

lemma zone_frame_links:
  "zone_frame N s (s\<lparr>links := h\<rparr>) \<longleftrightarrow> (\<forall>q. outside_zone s N q \<and> dlist (links s) q [] \<longrightarrow> dlist h q [])"
  by (simp add: zone_frame_def)

lemma outside_zone_list:
  assumes "buddy_inv s N B" and "k < MAX_ORDER" and "outside_zone s N q"
  shows "q \<notin> set (free_list s k # map (\<lambda>i. page_node (page_of s i)) (B k))"
  using assms free_block_in_zone(1) [OF assms(1,2)] by (auto simp: outside_zone_def)

lemma add_free_frame:
  assumes "buddy_inv s N B" and "k < MAX_ORDER" and "i < N"
  shows "zone_frame N s (add_free (page_of s i) k s)"
proof -
  have d: "dlist (links s) (free_list s k) (map (\<lambda>i. page_node (page_of s i)) (B k))"
    using buddy_invD(2) [OF assms(1)] assms(2) by (simp add: queue_family_def)
  have "zone_frame N s (s\<lparr>links := list_add (page_node (page_of s i)) (free_list s k) (links s)\<rparr>)"
    unfolding zone_frame_links
  proof (intro allI impI)
    fix q assume q: "outside_zone s N q \<and> dlist (links s) q []"
    then show "dlist (list_add (page_node (page_of s i)) (free_list s k) (links s)) q []"
      using klist.frame_add_front [OF d, of q "[]"] outside_zone_list [OF assms(1,2)] assms(3)
      by (auto simp: outside_zone_def)
  qed
  then show ?thesis by (simp add: add_free_def)
qed

lemma take_free_frame:
  assumes "buddy_inv s N B" and "k < MAX_ORDER" and "i \<in> set (B k)"
  shows "zone_frame N s (take_free (page_of s i) k s)"
proof -
  have d: "dlist (links s) (free_list s k) (map (\<lambda>i. page_node (page_of s i)) (B k))"
    using buddy_invD(2) [OF assms(1)] assms(2) by (simp add: queue_family_def)
  have "zone_frame N s (s\<lparr>links := list_del (page_node (page_of s i)) (links s)\<rparr>)"
    unfolding zone_frame_links
  proof (intro allI impI)
    fix q assume q: "outside_zone s N q \<and> dlist (links s) q []"
    then show "dlist (list_del (page_node (page_of s i)) (links s)) q []"
      using klist.frame_del [OF d, of "page_node (page_of s i)" q "[]"] outside_zone_list [OF assms(1,2)] assms(3) by auto
  qed
  then show ?thesis by (simp add: take_free_def)
qed

subsection \<open>Splitting\<close>

lemma page_plus_page_of: "page_plus (page_of s i) (of_nat n) = page_of s (i + n)"
  by (simp add: page_plus_def page_of_def algebra_simps)

lemma half_word: "push_bit k (1 :: u32) = of_nat (2 ^ k)"
  by simp

lemma add_free_sel [simp]:
  "memmap_pages (add_free p k s) = memmap_pages s" "zone_addr (add_free p k s) = zone_addr s"
  "page_index (add_free p k s) = page_index s"
  by (simp_all add: add_free_def)

lemma expand_stop: "\<not> low < high \<Longrightarrow> expand p low high s = s"
  by (subst expand.simps) simp

lemma block_end_in_zone: "block_pages (k, i) \<subseteq> {..<N} \<Longrightarrow> i + 2 ^ k \<le> N"
proof -
  assume a: "block_pages (k, i) \<subseteq> {..<N}"
  have p: "1 \<le> (2 :: nat) ^ k" by simp
  then have "i + 2 ^ k - 1 \<in> block_pages (k, i)"
    by (simp only: atLeastLessThan_iff fst_conv snd_conv) linarith
  then have "i + 2 ^ k - 1 < N" using a by blast
  then show ?thesis using p by linarith
qed

lemma split_interval:
  "a \<le> b \<Longrightarrow> {i + b..<i + b + b} \<union> F \<union> ({i..<i + b} - {i..<i + a}) = F \<union> ({i..<i + 2 * b} - {i..<i + a})"
  for a b i :: nat
  by auto

lemma expand_inv:
  assumes "buddy_inv s N B" and "low \<le> high" and "high < MAX_ORDER" and "i + 2 ^ high \<le> N"
    and "block_pages (high, i) \<inter> free_set B = {}"
  shows "\<exists>B'. buddy_inv (expand (page_of s i) low high s) N B' \<and>
    free_set B' = free_set B \<union> (block_pages (high, i) - block_pages (low, i)) \<and>
    zone_frame N s (expand (page_of s i) low high s)"
  using assms
proof (induction high arbitrary: s B)
  case 0
  then show ?case by (auto simp: expand_stop)
next
  case (Suc h)
  show ?case
  proof (cases "low = Suc h")
    case True
    then show ?thesis using Suc.prems by (auto simp: expand_stop)
  next
    case False
    then have low: "low \<le> h" using Suc.prems(2) by simp
    let ?q = "page_of s (i + 2 ^ h)" and ?B = "B(h := (i + 2 ^ h) # B h)"
    let ?s = "add_free ?q h s"
    have q: "page_plus (page_of s i) (push_bit h 1) = ?q"
      unfolding half_word by (rule page_plus_page_of)
    have h: "h < MAX_ORDER" using Suc.prems(3) by simp
    have upper: "block_pages (h, i + 2 ^ h) \<subseteq> block_pages (Suc h, i)" by auto
    have "block_pages (h, i + 2 ^ h) \<inter> free_set B = {}" using Suc.prems(5) upper by blast
    then have i1: "buddy_inv ?s N ?B"
      using Suc.prems(4) by (intro add_free_inv [OF Suc.prems(1) h]) simp_all
    have fs: "free_set ?B = block_pages (h, i + 2 ^ h) \<union> free_set B" using h by (rule free_set_add)
    have p: "page_of ?s = page_of s" by (rule zone_sel_cong) simp_all
    have "block_pages (h, i) \<subseteq> block_pages (Suc h, i)" "block_pages (h, i) \<inter> block_pages (h, i + 2 ^ h) = {}"
      by auto
    then have dj: "block_pages (h, i) \<inter> free_set ?B = {}" unfolding fs using Suc.prems(5) by blast
    have "i + 2 ^ h \<le> N" using Suc.prems(4) by simp
    from Suc.IH [OF i1 low h this dj] obtain B' where B': "buddy_inv (expand (page_of s i) low h ?s) N B'"
        "free_set B' = free_set ?B \<union> (block_pages (h, i) - block_pages (low, i))"
        "zone_frame N ?s (expand (page_of s i) low h ?s)"
      unfolding p by blast
    have "i + 2 ^ h < N" using Suc.prems(4) less_le_trans [of "i + 2 ^ h" "i + 2 ^ Suc h" N] by simp
    with zone_frame_trans [OF add_free_frame [OF Suc.prems(1) h] B'(3)]
    have fr: "zone_frame N s (expand (page_of s i) low h ?s)" by simp
    have e: "expand (page_of s i) low (Suc h) s = expand (page_of s i) low h ?s"
      using low q by (subst expand.simps) (simp add: Let_def)
    have "(2 :: nat) ^ low \<le> 2 ^ h" using low by (intro power_increasing) simp_all
    then have "free_set B' = free_set B \<union> (block_pages (Suc h, i) - block_pages (low, i))"
      unfolding B'(2) fs fst_conv snd_conv power_Suc by (rule split_interval)
    with B'(1) e fr show ?thesis by auto
  qed
qed

lemma buddy_inv_private:
  assumes "buddy_inv s N B" and "\<not> PageBuddy p s"
  shows "buddy_inv (s\<lparr>page_private := (page_private s)(p := v)\<rparr>) N B"
proof -
  let ?s = "s\<lparr>page_private := (page_private s)(p := v)\<rparr>"
  note z = zone_sel_cong [of ?s s, simplified]
  have "PageBuddy q ?s = PageBuddy q s" "q \<noteq> p \<Longrightarrow> page_order q ?s = page_order q s" for q
    by (simp_all add: PageBuddy_def page_order_def)
  then show ?thesis
    using assms unfolding buddy_inv_def z by (simp) metis
qed

lemma not_buddy_outside:
  assumes "buddy_inv s N B" and "i < N" and "i \<notin> free_set B"
  shows "\<not> PageBuddy (page_of s i) s"
proof
  assume "PageBuddy (page_of s i) s"
  then obtain x where x: "x \<in> free_blocks B" "page_of s i = page_of s (snd x)"
    using buddy_invD(6) [OF assms(1)] by blast
  have "snd x \<in> free_set B" using x(1) unfolding free_set_def by force
  moreover have "i < 2 ^ 24" "snd x < 2 ^ 24"
    using assms(2) buddy_invD(1) [OF assms(1)] free_block_in_zone(2) [OF assms(1), of "fst x" "snd x"] x(1)
    by (auto simp: zone_ok_def free_blocks_def)
  ultimately show False using page_of_inj [of i "snd x" s] x(2) assms(3) by auto
qed

lemma rmqueue_step:
  assumes inv: "buddy_inv s N B" and c: "c < MAX_ORDER" "order \<le> c" and B: "B c = i # is"
  shows "\<exists>s' B'. rmqueue_loop c order s = (page_of s i, s') \<and> buddy_inv s' N B' \<and>
    free_set B' = free_set B - block_pages (order, i) \<and> block_pages (c, i) \<subseteq> free_set B \<and>
    page_private s' (page_of s i) = of_nat order \<and> \<not> PageBuddy (page_of s i) s' \<and> zone_frame N s s' \<and>
    (c = order \<longrightarrow> B' = B(c := is))"
proof -
  let ?p = "page_of s i" and ?s2 = "take_free (page_of s i) c s" and ?B2 = "B(c := remove1 i (B c))"
  have d: "dlist (links s) (free_list s c) (map (\<lambda>i. page_node (page_of s i)) (B c))"
    using buddy_invD(2) [OF inv] c(1) by (simp add: queue_family_def)
  have nx: "nxt (links s) (free_list s c) = page_node ?p" and ne: "\<not> list_empty (free_list s c) (links s)"
    using dlist_next [OF d] list_empty_dlist [OF d] B by simp_all
  have blk: "block_pages (c, i) \<subseteq> free_set B" using c(1) B by (force simp: free_set_def free_blocks_def)
  have i: "i \<in> set (B c)" using B by simp
  note t = take_free_inv [OF inv c(1) i]
  have "i + 2 ^ c \<le> N"
    using blk buddy_invD(4) [OF inv] by (intro block_end_in_zone) blast
  then obtain B1 where B1: "buddy_inv (expand ?p order c ?s2) N B1"
      "free_set B1 = free_set ?B2 \<union> (block_pages (c, i) - block_pages (order, i))" "zone_frame N ?s2 (expand ?p order c ?s2)"
    using expand_inv [OF t(1) c(2,1), of i] t(2) zone_sel_cong(1) [of ?s2 s]
    by (auto simp: take_free_def)
  define B' where "B' = (if c = order then ?B2 else B1)"
  have B': "buddy_inv (expand ?p order c ?s2) N B'"
      "free_set B' = free_set ?B2 \<union> (block_pages (c, i) - block_pages (order, i))"
    using B1(1,2) t(1) by (auto simp: B'_def expand_stop)
  have eq: "c = order \<longrightarrow> B' = B(c := is)" unfolding B'_def using B by auto
  note fr = zone_frame_trans [OF take_free_frame [OF inv c(1) i] B1(3)]
  have fs: "free_set B' = free_set B - block_pages (order, i)"
  proof -
    have "(2 :: nat) ^ order \<le> 2 ^ c" using c(2) by (intro power_increasing) simp_all
    then have "block_pages (order, i) \<subseteq> block_pages (c, i)" by auto
    then show ?thesis unfolding B'(2) t(2) using blk by blast
  qed
  have nb: "\<not> PageBuddy ?p (expand ?p order c ?s2)"
    using not_buddy_outside [OF B'(1), of i] zone_frameD(9) [OF fr] fs free_block_in_zone(1) [OF inv c(1) i]
    by auto
  let ?s3 = "expand ?p order c ?s2"
  let ?s4 = "?s3\<lparr>page_private := (page_private ?s3)(?p := of_nat order)\<rparr>"
  have "rmqueue_loop c order s = (?p, ?s4)"
    using ne c(1) nx take_free_alt [where p = ?p and s = s and k = c]
    by (subst rmqueue_loop.simps) (simp add: Let_def page_node_def)
  moreover have "buddy_inv ?s4 N B'" using B'(1) nb by (rule buddy_inv_private)
  ultimately show ?thesis using fs blk nb fr eq by (intro exI [of _ ?s4] exI [of _ B']) (simp add: PageBuddy_def)
qed


lemma rmqueue_loop_none:
  assumes "buddy_inv s N B" and "\<forall>k. c \<le> k \<and> k < MAX_ORDER \<longrightarrow> B k = []"
  shows "rmqueue_loop c order s = (NULL, s)"
  using assms
proof (induction "MAX_ORDER - c" arbitrary: c)
  case 0
  then show ?case by (subst rmqueue_loop.simps) simp
next
  case (Suc n)
  then have c: "c < MAX_ORDER" by simp
  have "dlist (links s) (free_list s c) (map (\<lambda>i. page_node (page_of s i)) (B c))"
    using buddy_invD(2) [OF Suc.prems(1)] c by (simp add: queue_family_def)
  then have "list_empty (free_list s c) (links s)"
    using Suc.prems(2) c list_empty_dlist by fastforce
  moreover have "rmqueue_loop (Suc c) order s = (NULL, s)"
    using Suc.hyps(2) Suc.prems by (intro Suc.hyps(1)) auto
  ultimately show ?case using c by (subst rmqueue_loop.simps) simp
qed

lemma rmqueue_loop_skip:
  assumes "buddy_inv s N B" and "c \<le> d" and "d < MAX_ORDER" and "\<forall>k. c \<le> k \<and> k < d \<longrightarrow> B k = []"
  shows "rmqueue_loop c order s = rmqueue_loop d order s"
  using assms
proof (induction "d - c" arbitrary: c)
  case (Suc n)
  then have c: "c < MAX_ORDER" "c < d" by simp_all
  have "dlist (links s) (free_list s c) (map (\<lambda>i. page_node (page_of s i)) (B c))"
    using buddy_invD(2) [OF Suc.prems(1)] c by (simp add: queue_family_def)
  then have "list_empty (free_list s c) (links s)"
    using Suc.prems(4) c list_empty_dlist by fastforce
  moreover have "rmqueue_loop (Suc c) order s = rmqueue_loop d order s"
    using Suc.hyps(2) Suc.prems c by (intro Suc.hyps(1)) auto
  ultimately show ?case using c by (subst rmqueue_loop.simps) simp
qed simp

subsection \<open>Coalescing\<close>

lemma flip_word:
  fixes u :: u32
  assumes "k < 32"
  shows "u XOR 2 ^ k = (if bit u k then u - 2 ^ k else u + 2 ^ k)"
    and "(u XOR 2 ^ k) AND u = (if bit u k then u - 2 ^ k else u)"
proof -
  have "u XOR 2 ^ k = (if bit u k then unset_bit k u else set_bit k u)"
    using assms by (intro bit_word_eqI) (auto simp: bit_simps)
  then show "u XOR 2 ^ k = (if bit u k then u - 2 ^ k else u + 2 ^ k)"
    by (simp add: set_bit_eq unset_bit_eq)
  have "(u XOR 2 ^ k) AND u = unset_bit k u"
    using assms by (intro bit_word_eqI) (auto simp: bit_simps)
  then show "(u XOR 2 ^ k) AND u = (if bit u k then u - 2 ^ k else u)"
    by (simp add: unset_bit_eq)
qed

lemma bit_of_nat_le: "bit (of_nat i :: u32) k \<Longrightarrow> i < 2 ^ 32 \<Longrightarrow> 2 ^ k \<le> i"
proof -
  assume b: "bit (of_nat i :: u32) k" and i: "i < 2 ^ 32"
  have "bit i k" using b by (simp add: bit_simps)
  then have "odd (i div 2 ^ k)" unfolding bit_iff_odd .
  then have "i div 2 ^ k \<noteq> 0" by (metis even_zero)
  then show ?thesis by (simp add: div_eq_0_iff)
qed

definition buddy_of :: "nat \<Rightarrow> nat \<Rightarrow> nat" where
  "buddy_of k i = (if bit (of_nat i :: u32) k then i - 2 ^ k else i + 2 ^ k)"

lemma buddy_pages:
  assumes "i < 2 ^ 20" and "k < MAX_ORDER"
  shows "page_plus (page_of s i) (find_buddy_index (of_nat i) k - of_nat i) = page_of s (buddy_of k i)"
    and "find_buddy_index (of_nat i) k AND of_nat i = of_nat (min i (buddy_of k i))"
    and "page_plus (page_of s i) ((find_buddy_index (of_nat i) k AND of_nat i) - of_nat i) = page_of s (min i (buddy_of k i))"
    and "block_pages (Suc k, min i (buddy_of k i)) = block_pages (k, i) \<union> block_pages (k, buddy_of k i)"
    and "buddy_of k i < 2 ^ 24"
proof -
  have k: "k < 32" using assms(2) by simp
  have i32: "i < 2 ^ 32" using assms(1) by simp
  have lt: "2 ^ k \<le> i \<and> i - 2 ^ k < i" if "bit (of_nat i :: u32) k"
  proof -
    have "2 ^ k \<le> i" using that i32 by (rule bit_of_nat_le)
    moreover have "0 < (2 :: nat) ^ k" by simp
    ultimately show ?thesis by linarith
  qed
  have pk: "(2 :: nat) ^ k \<le> 2 ^ 10" using assms(2) by (intro power_increasing) simp_all
  show "buddy_of k i < 2 ^ 24"
    using assms(1) pk by (auto simp: buddy_of_def intro: less_imp_diff_less)
  show "page_plus (page_of s i) (find_buddy_index (of_nat i) k - of_nat i) = page_of s (buddy_of k i)"
    by (cases "bit (of_nat i :: u32) k")
      (use lt in \<open>simp_all add: find_buddy_index_def flip_word(1) [OF k] buddy_of_def page_plus_def page_of_def of_nat_diff algebra_simps\<close>)
  show c: "find_buddy_index (of_nat i) k AND of_nat i = of_nat (min i (buddy_of k i))"
    by (cases "bit (of_nat i :: u32) k")
      (use lt in \<open>simp_all add: find_buddy_index_def flip_word(2) [OF k] buddy_of_def of_nat_diff min_def\<close>)
  show "page_plus (page_of s i) ((find_buddy_index (of_nat i) k AND of_nat i) - of_nat i) = page_of s (min i (buddy_of k i))"
    unfolding c
    by (cases "bit (of_nat i :: u32) k")
      (use lt in \<open>simp_all add: buddy_of_def page_plus_def page_of_def of_nat_diff min_def algebra_simps\<close>)
  show "block_pages (Suc k, min i (buddy_of k i)) = block_pages (k, i) \<union> block_pages (k, buddy_of k i)"
    by (cases "bit (of_nat i :: u32) k") (use lt in \<open>auto simp: buddy_of_def min_def\<close>)
qed


lemma take_free_sel [simp]:
  "memmap_pages (take_free p k s) = memmap_pages s" "zone_addr (take_free p k s) = zone_addr s"
  "page_index (take_free p k s) = page_index s"
  by (simp_all add: take_free_def)

lemma buddy_is_free_block:
  assumes "buddy_inv s N B" and "k < MAX_ORDER" and "b < 2 ^ 24" and "page_is_buddy p (page_of s b) k s"
  shows "b \<in> set (B k)"
proof -
  have "PageBuddy (page_of s b) s" "page_order (page_of s b) s = of_nat k"
    using assms(4) by (simp_all add: page_is_buddy_def)
  then obtain x where x: "x \<in> free_blocks B" "page_of s b = page_of s (snd x)" "(of_nat k :: u32) = of_nat (fst x)"
    using buddy_invD(6) [OF assms(1)] by metis
  have "snd x < 2 ^ 24" "fst x < MAX_ORDER"
    using x(1) free_block_in_zone(2) [OF assms(1), of "fst x" "snd x"] by (auto simp: free_blocks_def)
  then have "b = snd x" "k = fst x"
    using x(2,3) page_of_inj [OF assms(3), of "snd x" s] of_nat_inj_below [of k "fst x", where 'a = 32] assms(2) by simp_all
  then show ?thesis using x(1) by (auto simp: free_blocks_def)
qed

text \<open>
  What merging a block of order \<open>k\<close> at page \<open>i\<close> comes to: a block \<open>(k', i')\<close> around it. Every free block inside it carries
  the mark of its order, and it cannot be extended: it has the largest order, or its buddy is not marked.
\<close>

definition mergeable :: "'a pages_scheme \<Rightarrow> nat \<times> nat \<Rightarrow> bool" where
  "mergeable s x \<longleftrightarrow> PageBuddy (page_of s (snd x)) s \<and> page_order (page_of s (snd x)) s = of_nat (fst x)"

definition merged_blocks :: "(nat \<Rightarrow> nat list) \<Rightarrow> nat \<times> nat \<Rightarrow> (nat \<times> nat) set" where
  "merged_blocks B x = {y \<in> free_blocks B. block_pages y \<subseteq> block_pages x}"

definition coalesced :: "'a pages_scheme \<Rightarrow> (nat \<Rightarrow> nat list) \<Rightarrow> nat \<times> nat \<Rightarrow> nat \<times> nat \<Rightarrow> bool" where
  "coalesced s B x x' \<longleftrightarrow> fst x \<le> fst x' \<and> fst x' < MAX_ORDER \<and> block_pages x \<subseteq> block_pages x' \<and>
     (\<forall>y \<in> merged_blocks B x'. mergeable s y) \<and>
     (fst x' < MAX_ORDER - 1 \<longrightarrow> \<not> mergeable s (fst x', buddy_of (fst x') (snd x')))"

lemma merged_blocks_disjoint:
  assumes "block_pages x \<inter> free_set B = {}"
  shows "merged_blocks B x = {}"
proof -
  have "\<not> block_pages y \<subseteq> block_pages x" if "y \<in> free_blocks B" for y
  proof -
    have "snd y \<in> block_pages y" by simp
    moreover from this have "snd y \<in> free_set B" unfolding free_set_def using that by (rule UN_I [rotated])
    ultimately show ?thesis using assms by blast
  qed
  then show ?thesis unfolding merged_blocks_def by blast
qed

lemma merged_blocks_take:
  assumes "distinct (B k)" and "(k, b) \<in> free_blocks B" and "block_pages (k, b) \<subseteq> block_pages x"
  shows "merged_blocks B x = insert (k, b) (merged_blocks (B(k := remove1 b (B k))) x)"
    and "free_blocks B - merged_blocks B x = free_blocks (B(k := remove1 b (B k))) - merged_blocks (B(k := remove1 b (B k))) x"
  using assms(2,3) unfolding merged_blocks_def free_blocks_remove [of B k b, OF assms(1)] by auto

lemma page_of_take [simp]: "page_of (take_free p k s) = page_of s"
  by (rule zone_sel_cong) simp_all

lemma take_free_marks:
  "PageBuddy q (take_free p k s) \<longleftrightarrow> q \<noteq> p \<and> PageBuddy q s" "q \<noteq> p \<Longrightarrow> page_order q (take_free p k s) = page_order q s"
  by (simp_all add: take_free_def)

lemma mergeable_take:
  assumes inv: "buddy_inv s N B" and b: "(k, b) \<in> free_blocks B"
  shows "mergeable (take_free (page_of s b) k s) x \<Longrightarrow> mergeable s x"
    and "mergeable s x \<Longrightarrow> fst x < MAX_ORDER \<Longrightarrow> fst x \<noteq> k \<Longrightarrow> mergeable (take_free (page_of s b) k s) x"
    and "x \<in> free_blocks B - {(k, b)} \<Longrightarrow> mergeable (take_free (page_of s b) k s) x = mergeable s x"
proof -
  show 1: "mergeable (take_free (page_of s b) k s) x \<Longrightarrow> mergeable s x"
    by (auto simp: mergeable_def take_free_marks)
  have k: "k < MAX_ORDER" "b \<in> set (B k)" using b by (simp_all add: free_blocks_def)
  have 2: "mergeable s x \<Longrightarrow> page_of s (snd x) \<noteq> page_of s b \<Longrightarrow> mergeable (take_free (page_of s b) k s) x"
    by (auto simp: mergeable_def take_free_marks)
  show "mergeable (take_free (page_of s b) k s) x = mergeable s x" if x: "x \<in> free_blocks B - {(k, b)}"
  proof -
    have "fst x < MAX_ORDER" "snd x \<in> set (B (fst x))" using x by (auto simp: free_blocks_def)
    then have "page_of s (snd x) = page_of s b \<longleftrightarrow> snd x = b"
      using page_of_inj free_block_in_zone(2) [OF inv] k by blast
    moreover have "block_pages x \<inter> block_pages (k, b) = {}" using x b buddy_invD(5) [OF inv] unfolding blocks_disjoint_def by blast
    moreover have "snd x \<in> block_pages x" "b \<in> block_pages (k, b)" by simp_all
    ultimately show ?thesis using 1 2 by blast
  qed
  assume m: "mergeable s x" and o: "fst x < MAX_ORDER" "fst x \<noteq> k"
  have "page_of s (snd x) \<noteq> page_of s b"
  proof
    assume e: "page_of s (snd x) = page_of s b"
    then have "PageBuddy (page_of s b) s" "page_order (page_of s b) s = of_nat (fst x)" using m by (simp_all add: mergeable_def)
    then have "page_is_buddy (page_of s b) (page_of s b) (fst x) s" by (simp add: page_is_buddy_def)
    then have "(fst x, b) \<in> free_blocks B"
      using buddy_is_free_block [OF inv o(1)] free_block_in_zone(2) [OF inv k] o(1) by (simp add: free_blocks_def)
    moreover have "b \<in> block_pages (fst x, b) \<inter> block_pages (k, b)" by simp
    ultimately show False using b o(2) buddy_invD(5) [OF inv] unfolding blocks_disjoint_def by blast
  qed
  with m show "mergeable (take_free (page_of s b) k s) x" by (rule 2)
qed

text \<open>A merge with one buddy, in front of what the rest of the loop does.\<close>

lemma coalesced_step:
  assumes inv: "buddy_inv s N B" and k: "k < MAX_ORDER" and b: "(k, buddy_of k i) \<in> free_blocks B" "mergeable s (k, buddy_of k i)"
    and pages: "block_pages (Suc k, m) = block_pages (k, i) \<union> block_pages (k, buddy_of k i)"
    and c: "coalesced (take_free (page_of s (buddy_of k i)) k s) (B(k := remove1 (buddy_of k i) (B k))) (Suc k, m) x'"
  shows "coalesced s B (k, i) x'"
    and "free_blocks B - merged_blocks B x' =
      free_blocks (B(k := remove1 (buddy_of k i) (B k))) - merged_blocks (B(k := remove1 (buddy_of k i) (B k))) x'"
proof -
  have sub: "block_pages (k, i) \<subseteq> block_pages x'" "block_pages (k, buddy_of k i) \<subseteq> block_pages x'"
    using c pages unfolding coalesced_def by blast+
  note t = merged_blocks_take [of B k "buddy_of k i", OF free_list_distinct [OF inv k] b(1) sub(2)]
  show "free_blocks B - merged_blocks B x' =
      free_blocks (B(k := remove1 (buddy_of k i) (B k))) - merged_blocks (B(k := remove1 (buddy_of k i) (B k))) x'"
    by (rule t(2))
  show "coalesced s B (k, i) x'"
    using c sub(1) b(2) mergeable_take(1,2) [OF inv b(1)] unfolding coalesced_def t(1) by auto
qed

lemma merge_loop_inv:
  assumes "buddy_inv s N B" and "k < MAX_ORDER" and "i + 2 ^ k \<le> N" and "block_pages (k, i) \<inter> free_set B = {}"
  shows "\<exists>i' k' s' B'. merge_loop (page_of s i) (of_nat i) k s = (page_of s i', k', s') \<and>
    buddy_inv s' N B' \<and> i' + 2 ^ k' \<le> N \<and> block_pages (k', i') \<inter> free_set B' = {} \<and>
    free_set B' \<union> block_pages (k', i') = free_set B \<union> block_pages (k, i) \<and>
    coalesced s B (k, i) (k', i') \<and> free_blocks B' = free_blocks B - merged_blocks B (k', i') \<and>
    (\<forall>x \<in> free_blocks B'. mergeable s' x = mergeable s x) \<and> zone_frame N s s'"
  using assms
proof (induction "MAX_ORDER - k" arbitrary: k i s B)
  case 0
  then show ?case by simp
next
  case (Suc n)
  let ?b = "buddy_of k i" and ?m = "min i (buddy_of k i)"
  have "i < N" using Suc.prems(3) by (rule less_le_trans [rotated]) simp
  then have i: "i < 2 ^ 20" using buddy_invD(1) [OF Suc.prems(1)] by (simp add: zone_ok_def)
  note bp = buddy_pages [OF i Suc.prems(2)]
  have is_buddy: "page_is_buddy (page_of s i) (page_of s ?b) k s \<longleftrightarrow> mergeable s (k, ?b)"
    by (simp add: page_is_buddy_def mergeable_def)
  show ?case
  proof (cases "k < MAX_ORDER - 1 \<and> mergeable s (k, ?b)")
    case False
    then have "merge_loop (page_of s i) (of_nat i) k s = (page_of s i, k, s)"
      by (subst merge_loop.simps) (auto simp: Let_def bp is_buddy)
    moreover have "coalesced s B (k, i) (k, i)"
      using False Suc.prems(2) merged_blocks_disjoint [OF Suc.prems(4)] by (auto simp: coalesced_def)
    ultimately show ?thesis using Suc.prems zone_frame_refl merged_blocks_disjoint [OF Suc.prems(4)]
      by (intro exI [of _ i] exI [of _ k] exI [of _ s] exI [of _ B]) simp
  next
    case True
    then have k: "k < MAX_ORDER - 1" and b: "?b \<in> set (B k)"
      using buddy_is_free_block [OF Suc.prems(1,2) bp(5)] is_buddy by auto
    note t = take_free_inv [OF Suc.prems(1,2) b]
    let ?s = "take_free (page_of s ?b) k s" and ?B = "B(k := remove1 ?b (B k))"
    have fb: "(k, ?b) \<in> free_blocks B" using b Suc.prems(2) by (simp add: free_blocks_def)
    then have blk: "block_pages (k, ?b) \<subseteq> free_set B" by (force simp: free_set_def)
    have "rmv_page_order (page_of s ?b) (s\<lparr>links := list_del (page_node (page_of s ?b)) (links s),
        nr_free := (nr_free s)(k := nr_free s k - 1)\<rparr>) = ?s"
      by (simp add: take_free_def)
    then have step: "merge_loop (page_of s i) (of_nat i) k s = merge_loop (page_of ?s ?m) (of_nat ?m) (Suc k) ?s"
      using True is_buddy by (subst merge_loop.simps) (simp add: Let_def bp(1,2) bp(3) [unfolded bp(2)])
    have "block_pages (Suc k, ?m) \<subseteq> {..<N}"
      unfolding bp(4) using blk buddy_invD(4) [OF Suc.prems(1)] Suc.prems(3) by auto
    then have mN: "?m + 2 ^ Suc k \<le> N" by (rule block_end_in_zone)
    have dj: "block_pages (Suc k, ?m) \<inter> free_set ?B = {}"
      unfolding bp(4) t(2) using Suc.prems(4) by blast
    have n: "n = MAX_ORDER - Suc k" "Suc k < MAX_ORDER" using Suc.hyps(2) k by simp_all
    have fs: "free_set ?B \<union> block_pages (Suc k, ?m) = free_set B \<union> block_pages (k, i)"
      unfolding bp(4) t(2) using blk by blast
    obtain i' k' s' B' where r: "merge_loop (page_of ?s ?m) (of_nat ?m) (Suc k) ?s = (page_of s i', k', s')"
      "buddy_inv s' N B'" "i' + 2 ^ k' \<le> N" "block_pages (k', i') \<inter> free_set B' = {}"
      "free_set B' \<union> block_pages (k', i') = free_set B \<union> block_pages (k, i)" "coalesced ?s ?B (Suc k, ?m) (k', i')"
      "free_blocks B' = free_blocks ?B - merged_blocks ?B (k', i')"
      "\<forall>x \<in> free_blocks B'. mergeable s' x = mergeable ?s x" "zone_frame N ?s s'"
      using Suc.hyps(1) [OF n(1) t(1) n(2) mN dj] unfolding fs page_of_take by blast
    have c: "coalesced s B (k, i) (k', i')" "free_blocks B' = free_blocks B - merged_blocks B (k', i')"
      using coalesced_step [OF Suc.prems(1,2) fb _ bp(4) r(6)] True r(7) by simp_all
    have "x \<in> free_blocks B - {(k, ?b)}" if "x \<in> free_blocks B'" for x
      using that unfolding r(7) free_blocks_remove [of B k ?b, OF free_list_distinct [OF Suc.prems(1,2)]] by blast
    then have "\<forall>x \<in> free_blocks B'. mergeable s' x = mergeable s x"
      using r(8) mergeable_take(3) [OF Suc.prems(1) fb] by blast
    moreover have "zone_frame N s s'" by (rule zone_frame_trans [OF take_free_frame [OF Suc.prems(1,2) b] r(9)])
    ultimately show ?thesis using r(1-5) c unfolding step by blast
  qed
qed

lemma free_one_page_merges:
  assumes "buddy_inv s N B" and "k < MAX_ORDER" and "i + 2 ^ k \<le> N" and "block_pages (k, i) \<inter> free_set B = {}"
    and "page_index s (page_of s i) = of_nat i"
  shows "\<exists>k' i' s' B'. free_one_page (page_of s i) k s = Inr s' \<and> buddy_inv s' N B' \<and> coalesced s B (k, i) (k', i') \<and>
    free_blocks B' = insert (k', i') (free_blocks B - merged_blocks B (k', i')) \<and> hd (B' k') = i' \<and> mergeable s' (k', i') \<and>
    (\<forall>x \<in> free_blocks B - merged_blocks B (k', i'). mergeable s' x = mergeable s x) \<and>
    free_set B' = free_set B \<union> block_pages (k, i) \<and> zone_frame N s s'"
proof -
  obtain i' k' s1 B1 where m: "merge_loop (page_of s i) (of_nat i) k s = (page_of s i', k', s1)"
    "buddy_inv s1 N B1" "i' + 2 ^ k' \<le> N" "block_pages (k', i') \<inter> free_set B1 = {}"
    "free_set B1 \<union> block_pages (k', i') = free_set B \<union> block_pages (k, i)"
    "coalesced s B (k, i) (k', i')" "free_blocks B1 = free_blocks B - merged_blocks B (k', i')"
    "\<forall>x \<in> free_blocks B1. mergeable s1 x = mergeable s x" "zone_frame N s s1"
    using merge_loop_inv [OF assms(1-4)] by blast
  let ?s = "add_free (page_of s1 i') k' s1" and ?B = "B1(k' := i' # B1 k')"
  have k': "k' < MAX_ORDER" using m(6) by (simp add: coalesced_def)
  have iN: "i' < N" using m(3) by (rule less_le_trans [rotated]) simp
  then have i24: "i' < 2 ^ 24" using buddy_invD(1) [OF m(2)] by (simp add: zone_ok_def)
  have p: "page_of ?s = page_of s1" by (rule zone_sel_cong) simp_all
  have "mergeable ?s x = mergeable s1 x" if x: "x \<in> free_blocks B1" for x
  proof -
    have "snd x < 2 ^ 24" using x free_block_in_zone(2) [OF m(2), of "fst x" "snd x"] by (auto simp: free_blocks_def)
    moreover have "snd x \<in> free_set B1" using x by (force simp: free_set_def)
    moreover have "i' \<in> block_pages (k', i')" by simp
    ultimately have "page_of s1 (snd x) \<noteq> page_of s1 i'" using page_of_inj [of "snd x" i' s1] m(4) i24 by fastforce
    then show ?thesis unfolding mergeable_def p by (simp add: add_free_def)
  qed
  then have "\<forall>x \<in> free_blocks B - merged_blocks B (k', i'). mergeable ?s x = mergeable s x" using m(7,8) by simp
  moreover have "mergeable ?s (k', i')" unfolding mergeable_def p by (simp add: add_free_def)
  moreover have "free_one_page (page_of s i) k s = Inr ?s"
    using m(1) k' assms(5) zone_frameD(9) [OF m(9)] by (simp add: free_one_page_def)
  moreover have "zone_frame N s ?s" using iN by (rule zone_frame_trans [OF m(9) add_free_frame [OF m(2) k']])
  moreover have "free_set ?B = free_set B \<union> block_pages (k, i)" using free_set_add [OF k', of B1 i'] m(5) by blast
  moreover have "hd (?B k') = i'" by simp
  ultimately show ?thesis using add_free_inv [OF m(2) k' m(3,4)] m(6) free_blocks_add [OF k', of B1 i'] unfolding m(7) by blast
qed

lemma free_one_page_inv:
  assumes "buddy_inv s N B" and "k < MAX_ORDER" and "i + 2 ^ k \<le> N" and "block_pages (k, i) \<inter> free_set B = {}"
    and "page_index s (page_of s i) = of_nat i"
  shows "\<exists>s' B'. free_one_page (page_of s i) k s = Inr s' \<and> buddy_inv s' N B' \<and>
    free_set B' = free_set B \<union> block_pages (k, i) \<and> zone_frame N s s'"
  using free_one_page_merges [OF assms] by blast


lemma rmqueue_result:
  assumes inv: "buddy_inv s N B" and "order \<le> k" and "k < MAX_ORDER" and "B k \<noteq> []"
  shows "\<exists>c i s' B'. order \<le> c \<and> c \<le> k \<and> (\<forall>j. order \<le> j \<and> j < c \<longrightarrow> B j = []) \<and> B c \<noteq> [] \<and> i = hd (B c) \<and>
    rmqueue order s = (page_of s i, s') \<and> buddy_inv s' N B' \<and>
    free_set B' = free_set B - block_pages (order, i) \<and> block_pages (order, i) \<subseteq> free_set B \<and>
    page_private s' (page_of s i) = of_nat order \<and> zone_frame N s s' \<and> (c = order \<longrightarrow> B' = B(c := tl (B c)))"
proof -
  define c where "c = (LEAST j. order \<le> j \<and> B j \<noteq> [])"
  have c: "order \<le> c" "B c \<noteq> []" "c \<le> k"
    using LeastI [of "\<lambda>j. order \<le> j \<and> B j \<noteq> []" k] Least_le [of "\<lambda>j. order \<le> j \<and> B j \<noteq> []" k] assms(2,4)
    unfolding c_def by blast+
  have min: "\<forall>j. order \<le> j \<and> j < c \<longrightarrow> B j = []"
    using not_less_Least [of _ "\<lambda>j. order \<le> j \<and> B j \<noteq> []"] unfolding c_def by blast
  have cM: "c < MAX_ORDER" using c(3) assms(3) by simp
  obtain i rest where B: "B c = i # rest" using c(2) by (cases "B c") auto
  have "rmqueue order s = rmqueue_loop c order s"
    unfolding rmqueue_def using rmqueue_loop_skip [OF inv c(1) cM] min by simp
  moreover have "(2 :: nat) ^ order \<le> 2 ^ c" using c(1) by (intro power_increasing) simp_all
  then have "block_pages (order, i) \<subseteq> block_pages (c, i)" by auto
  moreover obtain s' B' where "rmqueue_loop c order s = (page_of s i, s')" "buddy_inv s' N B'"
      "free_set B' = free_set B - block_pages (order, i)" "block_pages (c, i) \<subseteq> free_set B"
      "page_private s' (page_of s i) = of_nat order" "zone_frame N s s'" "c = order \<longrightarrow> B' = B(c := tl (B c))"
    using rmqueue_step [OF inv cM c(1) B] unfolding B list.sel by blast
  ultimately have r: "rmqueue order s = (page_of s i, s') \<and> buddy_inv s' N B' \<and>
    free_set B' = free_set B - block_pages (order, i) \<and> block_pages (order, i) \<subseteq> free_set B \<and>
    page_private s' (page_of s i) = of_nat order \<and> zone_frame N s s' \<and> (c = order \<longrightarrow> B' = B(c := tl (B c)))"
    by (simp only:) blast
  have "i = hd (B c)" using B by simp
  with r min c show ?thesis by blast
qed

subsection \<open>Establishing the invariant\<close>

text \<open>The statements with which \<open>insert_to_free_area\<close> links one block at the end of its list.\<close>

definition link_block :: "ptr \<Rightarrow> nat \<Rightarrow> 'a pages_scheme \<Rightarrow> 'a pages_scheme" where
  "link_block page order s =
     s\<lparr>links := list_add_tail (page_node page) (free_list s order) (INIT_LIST_HEAD (page_node page) (links s)),
       nr_free := (nr_free s)(order := nr_free s order + 1)\<rparr>"

lemma link_block_sel [simp]:
  "memmap_pages (link_block p k s) = memmap_pages s" "zone_addr (link_block p k s) = zone_addr s"
  "page_index (link_block p k s) = page_index s" "managed_pages (link_block p k s) = managed_pages s"
  "spanned_pages (link_block p k s) = spanned_pages s" "sem_count (link_block p k s) = sem_count s"
  "PageBuddy q (link_block p k s) = PageBuddy q s" "page_order q (link_block p k s) = page_order q s"
  by (simp_all add: link_block_def)

lemma link_block_inv:
  assumes inv: "buddy_inv s N B" and k: "k < MAX_ORDER" and i: "i + 2 ^ k \<le> N"
    and free: "block_pages (k, i) \<inter> free_set B = {}"
  shows "buddy_inv (link_block (page_of s i) k s) N (B(k := B k @ [i]))"
    and "free_set (B(k := B k @ [i])) = block_pages (k, i) \<union> free_set B"
proof -
  let ?nodes = "\<lambda>l. map (\<lambda>i. page_node (page_of s i)) (B l)" and ?n = "page_node (page_of s i)"
  have "i \<in> block_pages (k, i)" "i < N" using i by (auto intro: less_le_trans [of i "i + 2 ^ k"])
  then have fresh: "?n \<notin> (\<Union>l \<in> {..<MAX_ORDER}. set (free_list s l # ?nodes l))"
    using free by (intro block_fresh [OF inv]) blast+
  then have "queue_family dlist (INIT_LIST_HEAD ?n (links s)) (free_list s) {..<MAX_ORDER} ?nodes"
    using buddy_invD(2) [OF inv] unfolding queue_family_def by (auto intro!: INIT_LIST_HEAD_frame)
  from klist.family_add_tail [OF this, of k ?n] have
    "queue_family dlist (links (link_block (page_of s i) k s)) (free_list s) {..<MAX_ORDER}
       (\<lambda>l. map (\<lambda>i. page_node (page_of s i)) ((B(k := B k @ [i])) l))"
    using k fresh by (simp add: link_block_def fun_upd_def if_distrib [of "map _"] cong: if_cong)
  from block_added_inv [OF inv k i free _ _ _ _ _ this]
  show "buddy_inv (link_block (page_of s i) k s) N (B(k := B k @ [i]))"
    and "free_set (B(k := B k @ [i])) = block_pages (k, i) \<union> free_set B"
    by (auto simp: link_block_def)
qed

lemma insert_loop_link:
  "insert_loop order p n s =
     (if 2 ^ order \<le> n \<and> order < MAX_ORDER then
        if sint (n - 2 ^ order) > 0 then insert_loop order (page_plus p (2 ^ order)) (n - 2 ^ order) (link_block p order s)
        else link_block p order s
      else if sint n > 0 \<and> order > 0 then insert_loop (order - 1) p n s else s)"
  by (rule trans [OF insert_loop.simps]) (simp add: Let_def flip: link_block_def)

lemma link_block_frame:
  assumes inv: "buddy_inv s N B" and k: "k < MAX_ORDER" and i: "i < N" "i \<notin> free_set B"
  shows "zone_frame N s (link_block (page_of s i) k s)"
proof -
  let ?n = "page_node (page_of s i)"
  have d: "dlist (links s) (free_list s k) (map (\<lambda>i. page_node (page_of s i)) (B k))"
    using buddy_invD(2) [OF inv] k by (simp add: queue_family_def)
  have "?n \<notin> set (free_list s k # map (\<lambda>i. page_node (page_of s i)) (B k))"
    using block_fresh [OF inv i] k by blast
  then have d1: "dlist (INIT_LIST_HEAD ?n (links s)) (free_list s k) (map (\<lambda>i. page_node (page_of s i)) (B k))"
    by (rule INIT_LIST_HEAD_frame [OF d])
  have "dlist (list_add_tail ?n (free_list s k) (INIT_LIST_HEAD ?n (links s))) q []"
    if "outside_zone s N q" "dlist (links s) q []" for q
  proof -
    have "?n \<noteq> q" "q \<notin> set (free_list s k # map (\<lambda>i. page_node (page_of s i)) (B k))"
      using that(1) i(1) outside_zone_list [OF inv k that(1)] by (auto simp: outside_zone_def)
    then show ?thesis using klist.frame_add_tail [OF d1 INIT_LIST_HEAD_frame [OF that(2)]] by auto
  qed
  then have "zone_frame N s (s\<lparr>links := list_add_tail ?n (free_list s k) (INIT_LIST_HEAD ?n (links s))\<rparr>)"
    unfolding zone_frame_links by blast
  then show ?thesis by (simp add: link_block_def)
qed

lemma sint_pos_iff:
  fixes n :: u32
  assumes "unat n < 2 ^ 31"
  shows "0 < sint n \<longleftrightarrow> n \<noteq> 0"
  using sint_of_nat_below [of "unat n", where 'a = 32] assms by (auto simp: less_le unsigned_eq_0_iff)

text \<open>
  The specification of the distribution: \<open>n\<close> pages from page \<open>i\<close> on are cut into blocks, from the
  largest order down, each put at the end of the list of its order.
\<close>

function spread :: "nat \<Rightarrow> nat \<Rightarrow> nat \<Rightarrow> (nat \<Rightarrow> nat list) \<Rightarrow> (nat \<Rightarrow> nat list)" where
  "spread order i n B =
     (if 2 ^ order \<le> n then spread order (i + 2 ^ order) (n - 2 ^ order) (B(order := B order @ [i]))
      else if 0 < order then spread (order - 1) i n B else B)"
  by pat_completeness auto
termination
  by (relation "measure (\<lambda>(order, i, n, B). n + order)") (auto intro: diff_less simp: less_le_trans [of 0 "2 ^ _"])

declare spread.simps [simp del]

lemma spread_0 [simp]: "spread order i 0 B = B"
  by (induction order) (subst spread.simps, simp)+

lemma insert_loop_inv:
  assumes "buddy_inv s N B" and "order < MAX_ORDER" and "i + unat n \<le> N" and "{i..<i + unat n} \<inter> free_set B = {}"
  shows "buddy_inv (insert_loop order (page_of s i) n s) N (spread order i (unat n) B) \<and>
    free_set (spread order i (unat n) B) = {i..<i + unat n} \<union> free_set B \<and>
    zone_frame N s (insert_loop order (page_of s i) n s)"
  using assms
proof (induction "unat n + order" arbitrary: order i n s B rule: less_induct)
  case less
  note inv = less.prems(1) and o = less.prems(2)
  have N: "N \<le> 2 ^ 20" using buddy_invD(1) [OF inv] by (simp add: zone_ok_def)
  have pos: "0 < sint m \<longleftrightarrow> m \<noteq> 0" if "unat m \<le> unat n" for m :: u32
    using less.prems(3) N that by (intro sint_pos_iff) simp
  have e: "unat (2 ^ order :: u32) = 2 ^ order" using o by (intro unat_2_power) simp
  show ?case
  proof (cases "2 ^ order \<le> n")
    case True
    let ?m = "n - 2 ^ order" and ?s = "link_block (page_of s i) order s" and ?B = "B(order := B order @ [i])"
    have le: "2 ^ order \<le> unat n" using True e by (simp add: word_le_nat_alt)
    have m: "unat ?m = unat n - 2 ^ order" using True by (simp add: unat_sub_no_wrap e word_le_nat_alt)
    have "block_pages (order, i) \<subseteq> {i..<i + unat n}" using le by auto
    then have blk: "i + 2 ^ order \<le> N" "block_pages (order, i) \<inter> free_set B = {}" using le less.prems(3,4) by (simp, blast)
    note lb = link_block_inv [OF inv o blk]
    have "i \<in> block_pages (order, i)" "i < N" using blk(1) by (auto intro: less_le_trans [of i "i + 2 ^ order"])
    then have "i < N" "i \<notin> free_set B" using blk(2) by blast+
    note fr = link_block_frame [OF inv o this]
    have p: "page_plus (page_of s i) (2 ^ order) = page_of ?s (i + 2 ^ order)"
      using page_plus_page_of [of s i "2 ^ order"] by (simp add: page_of_def)
    have un: "{i + 2 ^ order..<i + 2 ^ order + unat ?m} \<union> free_set ?B = {i..<i + unat n} \<union> free_set B"
      using le unfolding m lb(2) by auto
    have "{i + 2 ^ order..<i + 2 ^ order + unat ?m} \<subseteq> {i..<i + unat n}"
      "{i + 2 ^ order..<i + 2 ^ order + unat ?m} \<inter> block_pages (order, i) = {}" using le unfolding m by auto
    then have "{i + 2 ^ order..<i + 2 ^ order + unat ?m} \<inter> free_set ?B = {}"
      using less.prems(4) unfolding lb(2) by blast
    then have ih: "buddy_inv (insert_loop order (page_of ?s (i + 2 ^ order)) ?m ?s) N (spread order (i + 2 ^ order) (unat ?m) ?B) \<and>
        free_set (spread order (i + 2 ^ order) (unat ?m) ?B) = {i..<i + unat n} \<union> free_set B \<and>
        zone_frame N s (insert_loop order (page_of ?s (i + 2 ^ order)) ?m ?s)"
      using less.hyps [of ?m order ?s ?B "i + 2 ^ order"] split_block_smaller [OF True o] lb(1) o less.prems(3) le
        zone_frame_trans [OF fr] unfolding un [symmetric] m by simp
    have sp: "spread order i (unat n) B = spread order (i + 2 ^ order) (unat ?m) ?B"
      using le by (subst spread.simps) (simp add: m)
    show ?thesis
    proof (cases "?m = 0")
      case z: True
      then show ?thesis unfolding sp using lb(1) un fr True o pos [of ?m] by (subst (1 2) insert_loop_link) auto
    qed (use ih True o pos [of ?m] m in \<open>unfold sp, subst (1 2) insert_loop_link, simp add: p\<close>)
  next
    case False
    then have "order = 0 \<Longrightarrow> n = 0" using unat_gt_0 [of n] by (auto simp: word_le_nat_alt)
    moreover have "\<not> 2 ^ order \<le> unat n" using False e by (simp add: word_le_nat_alt)
    ultimately show ?thesis
      using False less.hyps [of n "order - 1" s B i] less.prems pos [of n]
      by (subst (1 2) insert_loop_link, subst (1 2) spread.simps) auto
  qed
qed

lemma fold_INIT_LIST_HEAD:
  assumes "distinct hs" and "q \<in> set hs"
  shows "dlist (fold INIT_LIST_HEAD hs h) q []"
  using assms
proof (induction hs rule: rev_induct)
  case (snoc e hs)
  then show ?case by (cases "q = e") (auto simp: INIT_LIST_HEAD_dlist intro!: INIT_LIST_HEAD_frame)
qed simp

lemma init_page_sel [simp]:
  "memmap_pages (init_page i s) = memmap_pages s" "zone_addr (init_page i s) = zone_addr s"
  "links (init_page i s) = links s" "nr_free (init_page i s) = nr_free s" "sem_count (init_page i s) = sem_count s"
  "managed_pages (init_page i s) = managed_pages s" "spanned_pages (init_page i s) = spanned_pages s"
  "PageBuddy p (init_page i s) \<longleftrightarrow> p \<noteq> page_of s i \<and> PageBuddy p s"
  "page_index (init_page i s) = (page_index s)(page_of s i := of_nat i)"
  "page_flags (init_page i s) = (page_flags s)(page_of s i := 0)" "zone_start_pfn (init_page i s) = zone_start_pfn s"
  "pages.more (init_page i s) = pages.more s"
  by (simp_all add: init_page_def Let_def PageBuddy_def page_of_def)

lemma fold_init_page_sel [simp]:
  "memmap_pages (fold init_page is s) = memmap_pages s" "zone_addr (fold init_page is s) = zone_addr s"
  "links (fold init_page is s) = links s" "nr_free (fold init_page is s) = nr_free s"
  "sem_count (fold init_page is s) = sem_count s" "managed_pages (fold init_page is s) = managed_pages s"
  "spanned_pages (fold init_page is s) = spanned_pages s" "zone_start_pfn (fold init_page is s) = zone_start_pfn s"
  "pages.more (fold init_page is s) = pages.more s"
  by (induction "is" arbitrary: s) simp_all

lemma page_of_init [simp]: "page_of (init_page i s) = page_of s" "page_of (fold init_page is s) = page_of s"
  by (simp_all add: page_of_def fun_eq_iff)

lemma fold_init_page:
  assumes "n \<le> 2 ^ 24"
  shows "PageBuddy p (fold init_page [0..<n] s) \<longleftrightarrow> PageBuddy p s \<and> (\<forall>i < n. p \<noteq> page_of s i)"
    and "i < n \<Longrightarrow> page_index (fold init_page [0..<n] s) (page_of s i) = of_nat i"
    and "i < n \<Longrightarrow> page_flags (fold init_page [0..<n] s) (page_of s i) = 0"
  using assms by (induction n) (auto simp: less_Suc_eq page_of_inj)

lemma free_list_inj: "k < MAX_ORDER \<Longrightarrow> l < MAX_ORDER \<Longrightarrow> free_list s k = free_list s l \<longleftrightarrow> k = l"
proof -
  assume kl: "k < MAX_ORDER" "l < MAX_ORDER"
  have "free_list s k = free_list s l \<longleftrightarrow> (of_nat (12 * k) :: u32) = of_nat (12 * l)"
    by (simp add: free_list_def)
  also have "\<dots> \<longleftrightarrow> 12 * k = 12 * l" using kl by (intro of_nat_inj_below) simp_all
  finally show ?thesis by simp
qed

lemma zone_lock_outside:
  assumes "k < MAX_ORDER"
  shows "wait_list (zone_lock s) \<noteq> free_list s k"
proof -
  have "12 * k < 132" using assms by simp
  then have "(of_nat (12 * k) :: u32) \<noteq> of_nat 136" by (subst of_nat_inj_below) simp_all
  then show ?thesis by (auto simp: wait_list_def zone_lock_def free_list_def algebra_simps)
qed

text \<open>The empty zone, before the pages are distributed.\<close>

lemma empty_zone_inv:
  assumes "zone_ok s N" and "\<And>k. k < MAX_ORDER \<Longrightarrow> nr_free s k = 0" and "\<And>p. \<not> PageBuddy p s"
    and "\<And>k. k < MAX_ORDER \<Longrightarrow> dlist (links s) (free_list s k) []"
  shows "buddy_inv s N (\<lambda>_. [])"
proof -
  have "queue_family dlist (links s) (free_list s) {..<MAX_ORDER} (\<lambda>_. [])"
    using assms(4) free_list_inj by (auto simp: queue_family_def)
  then show ?thesis
    using assms(1-3) by (auto simp: buddy_inv_def free_set_def free_blocks_def blocks_disjoint_def)
qed

lemma page_number_bound: "unat (b :: u32) div 4096 < 2 ^ 20"
  using unsigned_less [of b, where 'a = nat] by (simp add: div_less_iff_less_mult)

lemma page_alloc_init_words:
  fixes b spn used :: u32
  assumes spn_eq: "spn = drop_bit PAGE_SHIFT (b AND PAGE_MASK)" and used_eq: "used = drop_bit PAGE_SHIFT (spn * 24) + 1"
  shows "unat spn = unat b div 4096" and "unat used = unat b div 4096 * 24 div 4096 + 1"
    and "4096 \<le> unat b \<Longrightarrow> unat (spn - used) = unat spn - unat used \<and> unat used \<le> unat spn"
proof -
  have "spn = drop_bit 12 b" unfolding spn_eq by (rule bit_word_eqI) (auto simp: bit_simps dest: bit_imp_le_length)
  then show spn: "unat spn = unat b div 4096" by (simp add: drop_bit_eq_div unat_div)
  note n = page_number_bound [of b]
  have "unat (spn * 24) = unat b div 4096 * 24" using n by (simp add: unat_word_ariths spn)
  then have "unat (drop_bit PAGE_SHIFT (spn * 24)) = unat b div 4096 * 24 div 4096"
    by (simp add: drop_bit_eq_div unat_div)
  then show used: "unat used = unat b div 4096 * 24 div 4096 + 1"
    unfolding used_eq using n by (subst unat_add_no_wrap) simp_all
  assume "4096 \<le> unat b"
  then have "unat used \<le> unat spn" unfolding used spn by linarith
  then show "unat (spn - used) = unat spn - unat used \<and> unat used \<le> unat spn"
    by (simp add: unat_sub_no_wrap word_le_nat_alt)
qed

text \<open>Initialising the page structures of an empty zone and distributing the pages behind them.\<close>

definition initial_blocks :: "nat \<Rightarrow> nat \<Rightarrow> nat \<Rightarrow> nat list" where
  "initial_blocks used N = spread 10 used (N - used) (\<lambda>_. [])"

lemma distribute_pages_inv:
  assumes z: "zone_ok t N" and nr: "\<And>k. k < MAX_ORDER \<Longrightarrow> nr_free t k = 0"
    and stale: "\<And>p. PageBuddy p t \<Longrightarrow> \<exists>i < unat n. p = page_of t i"
    and heads: "\<And>k. k < MAX_ORDER \<Longrightarrow> dlist (links t) (free_list t k) []" and n: "used + unat n = N"
    and t': "t' = insert_loop 10 (page_of t used) n (fold init_page [0..<unat n] t)"
  shows "buddy_inv t' N (initial_blocks used N)" "free_set (initial_blocks used N) = {used..<N}"
    "i < unat n \<Longrightarrow> page_index t' (page_of t' i) = of_nat i" "zone_frame N (fold init_page [0..<unat n] t) t'"
proof -
  let ?t = "fold init_page [0..<unat n] t"
  have N: "unat n \<le> 2 ^ 24" using z n by (simp add: zone_ok_def)
  note c = zone_sel_cong [of ?t t, simplified] and p = fold_init_page [OF N, of _ t]
  have "buddy_inv ?t N (\<lambda>_. [])"
    using z nr heads stale p(1) by (intro empty_zone_inv) (auto simp: c)
  moreover have "free_set (\<lambda>_. []) = {}" by (simp add: free_set_def free_blocks_def)
  ultimately show "buddy_inv t' N (initial_blocks used N)" "free_set (initial_blocks used N) = {used..<N}"
      and fr: "zone_frame N ?t t'"
    using insert_loop_inv [of ?t N "\<lambda>_. []" 10 used n] n unfolding t' initial_blocks_def by auto
  show "i < unat n \<Longrightarrow> page_index t' (page_of t' i) = of_nat i" using p(2) zone_frameD(3,9) [OF fr] by simp
qed

subsection \<open>Properties\<close>

text \<open>A zone of four pages, all in one free block of order 2.\<close>

definition example_zone :: pages where
  "example_zone = sync.extend (example_sync\<lparr>sem_count := (\<lambda>_. 1),
       links := fold INIT_LIST_HEAD [524, 536, 548, 560, 572, 584, 596, 608, 620, 632, 644] (links example_sync)\<rparr>)
     (pages.fields (\<lambda>_. 0) (\<lambda>p. (p - 65536) div 24) (\<lambda>_. 0) (\<lambda>_. 0) 16 4 4 (\<lambda>_. 0) 512 65536)"

definition example_pages :: pages where
  "example_pages = add_free (page_of example_zone 0) 2 example_zone"

abbreviation example_blocks :: "nat \<Rightarrow> nat list" where
  "example_blocks \<equiv> (\<lambda>_. [])(2 := [0])"

lemma example_zone_sel:
  "memmap_pages example_zone = 65536" "zone_addr example_zone = 512" "nr_free example_zone = (\<lambda>_. 0)"
  "page_units example_zone = (\<lambda>_. 0)" "page_index example_zone = (\<lambda>p. (p - 65536) div 24)"
  "links example_zone = fold INIT_LIST_HEAD [524, 536, 548, 560, 572, 584, 596, 608, 620, 632, 644] (links example_sync)"
  by (simp_all add: example_zone_def pages.defs sync.defs)

lemma lessThan_MAX_ORDER: "(k < MAX_ORDER) = (k \<in> {0, 1, 2, 3, 4, 5, 6, 7, 8, 9, 10})"
  by (simp, presburger)

lemma example_free_list:
  "k < MAX_ORDER \<Longrightarrow> free_list example_zone k \<in> set [524, 536, 548, 560, 572, 584, 596, 608, 620, 632, 644]"
  unfolding lessThan_MAX_ORDER by (auto simp: free_list_def example_zone_sel)

lemma example_zone_inv: "buddy_inv example_zone 4 (\<lambda>_. [])"
proof -
  have four: "(i < 4) = (i \<in> {0, 1, 2, 3})" for i :: nat by auto
  have "free_list example_zone k \<noteq> page_node (page_of example_zone i)" if "k < MAX_ORDER" "i < 4" for k i
    using example_free_list [OF that(1)] that(2) unfolding four
    by (auto simp: page_node_def page_of_def page_plus_def example_zone_sel)
  then have "zone_ok example_zone 4" by (simp add: zone_ok_def)
  moreover have "dlist (links example_zone) (free_list example_zone k) []" if "k < MAX_ORDER" for k
    unfolding dlist_Nil_iff example_zone_sel(6) by (rule fold_init_heads) (use example_free_list [OF that] in blast)
  moreover have "k = l" if "k < MAX_ORDER" "l < MAX_ORDER" "free_list example_zone k = free_list example_zone l" for k l
  proof -
    have "(of_nat (12 * k) :: u32) = of_nat (12 * l)" using that(3) by (simp add: free_list_def)
    then have "12 * k = 12 * l" using that(1,2) by (subst (asm) of_nat_inj_below) simp_all
    then show ?thesis by simp
  qed
  ultimately show ?thesis
    unfolding buddy_inv_def
    by (auto simp: queue_family_def example_zone_sel free_set_def free_blocks_def blocks_disjoint_def PageBuddy_def)
qed

lemma example_pages_inv: "buddy_inv example_pages 4 example_blocks"
  unfolding example_pages_def using add_free_inv [OF example_zone_inv, of 2 0]
  by (simp add: free_set_def free_blocks_def)

text \<open>
  C3. Allocation takes the smallest fit and splits it. In a consistent zone \<open>__rmqueue\<close> returns
  \<open>NULL\<close> and changes nothing if every free list of the order or above is empty; otherwise it
  returns the first block of the smallest non-empty order, records the order in it, and leaves a
  consistent zone in which exactly the allocated pages are no longer free: every piece split off
  is in the free list of its order.
\<close>

theorem rmqueue_allocates_smallest_fit:
  assumes "buddy_inv s N B"
  shows "if \<forall>k. order \<le> k \<and> k < MAX_ORDER \<longrightarrow> B k = [] then rmqueue order s = (NULL, s)
    else \<exists>c s' B'. order \<le> c \<and> c < MAX_ORDER \<and> (\<forall>j. order \<le> j \<and> j < c \<longrightarrow> B j = []) \<and> B c \<noteq> [] \<and>
      rmqueue order s = (page_of s (hd (B c)), s') \<and> buddy_inv s' N B' \<and>
      free_set B' = free_set B - block_pages (order, hd (B c)) \<and> block_pages (order, hd (B c)) \<subseteq> free_set B \<and>
      page_private s' (page_of s (hd (B c))) = of_nat order"
proof (cases "\<forall>k. order \<le> k \<and> k < MAX_ORDER \<longrightarrow> B k = []")
  case True
  then show ?thesis using rmqueue_loop_none [OF assms] by (simp add: rmqueue_def)
next
  case False
  then obtain k where k: "order \<le> k" "k < MAX_ORDER" "B k \<noteq> []" by blast
  obtain c i s' B' where r: "order \<le> c" "c \<le> k" "\<forall>j. order \<le> j \<and> j < c \<longrightarrow> B j = []" "B c \<noteq> []" "i = hd (B c)"
    "rmqueue order s = (page_of s i, s')" "buddy_inv s' N B'" "free_set B' = free_set B - block_pages (order, i)"
    "block_pages (order, i) \<subseteq> free_set B" "page_private s' (page_of s i) = of_nat order"
    using rmqueue_result [OF assms k] by blast
  moreover have "c < MAX_ORDER" using r(2) k(2) by simp
  ultimately show ?thesis unfolding if_not_P [OF False] by blast
qed


lemma example_free_set: "free_set example_blocks = {0, 1, 2, 3}"
  by (auto simp: free_set_def free_blocks_def)

theorem rmqueue_allocates_smallest_fit_witness:
  "\<exists>s' B'. rmqueue 0 example_pages = (page_of example_pages 0, s') \<and> buddy_inv s' 4 B' \<and>
     free_set B' = {1, 2, 3} \<and> page_private s' (page_of example_pages 0) = 0"
proof -
  have ne: "\<not> (\<forall>k. 0 \<le> k \<and> k < MAX_ORDER \<longrightarrow> example_blocks k = [])" by (auto intro!: exI [of _ 2])
  obtain c s' B' where r: "example_blocks c \<noteq> []" "rmqueue 0 example_pages = (page_of example_pages (hd (example_blocks c)), s')"
    "buddy_inv s' 4 B'" "free_set B' = free_set example_blocks - block_pages (0, hd (example_blocks c))"
    "page_private s' (page_of example_pages (hd (example_blocks c))) = of_nat 0"
    using rmqueue_allocates_smallest_fit [OF example_pages_inv, of 0] unfolding if_not_P [OF ne] by blast
  have c: "c = 2" using r(1) by (simp split: if_splits)
  have "free_set B' = {1, 2, 3}" using r(4) unfolding c example_free_set by auto
  then show ?thesis using r unfolding c by auto
qed

text \<open>
  C2. Freeing coalesces and loses nothing. If a block that is not free is freed at its own order,
  and the index recorded in its first page is its page number, then \<open>free_one_page\<close> succeeds and
  puts one block \<open>(k', i')\<close> around the freed one in front of the list of its order and marks it. The free
  blocks inside it are no longer listed, and each of them was marked with its order; it has the largest order or
  its buddy was not marked with that order, so that nothing more could be merged; all other free blocks stay listed with
  the marks they had. (Blocks without a mark, as \<open>page_alloc_init\<close> leaves them, are not merged.) The zone stays
  consistent: the free lists hold disjoint blocks inside the zone, the counters
  count them, every buddy mark belongs to a free block of that order; and the free pages are the
  old ones and exactly the pages of the freed block.
\<close>

theorem free_one_page_keeps_zone_consistent:
  assumes "buddy_inv s N B" and "k < MAX_ORDER" and "i + 2 ^ k \<le> N" and "block_pages (k, i) \<inter> free_set B = {}"
    and "page_index s (page_of s i) = of_nat i"
  shows "\<exists>k' i' s' B'. free_one_page (page_of s i) k s = Inr s' \<and> buddy_inv s' N B' \<and> coalesced s B (k, i) (k', i') \<and>
    free_blocks B' = insert (k', i') (free_blocks B - merged_blocks B (k', i')) \<and> hd (B' k') = i' \<and> mergeable s' (k', i') \<and>
    (\<forall>x \<in> free_blocks B - merged_blocks B (k', i'). mergeable s' x = mergeable s x) \<and>
    free_set B' = free_set B \<union> block_pages (k, i)"
  using free_one_page_merges [OF assms] by blast

text \<open>A zone of four pages in which the first two are in use and the last two are a marked free block.\<close>

abbreviation half_blocks :: "nat \<Rightarrow> nat list" where
  "half_blocks \<equiv> (\<lambda>_. [])(1 := [2])"

definition half_free_zone :: pages where
  "half_free_zone = add_free (page_of example_zone 2) 1 example_zone"

lemma half_free_zone_inv: "buddy_inv half_free_zone 4 half_blocks"
  unfolding half_free_zone_def using add_free_inv [OF example_zone_inv, of 1 2]
  by (simp add: free_set_def free_blocks_def)

lemma half_free_blocks: "free_blocks half_blocks = {(1, 2)}" "free_set half_blocks = {2, 3}"
  by (auto simp: free_set_def free_blocks_def split: if_splits)

lemma page_of_half_free: "page_of half_free_zone = page_of example_zone"
  unfolding half_free_zone_def by (rule zone_sel_cong) simp_all

lemma half_free_coalesced:
  assumes "coalesced half_free_zone half_blocks (1, 0) (k, i)" and "block_pages (k, i) \<subseteq> {0, 1, 2, 3}"
  shows "(k, i) = (2, 0)"
proof -
  have i: "i = 0" using assms(1) by (auto simp: coalesced_def)
  have k: "1 \<le> k" "\<not> (k < 10 \<and> mergeable half_free_zone (k, buddy_of k i))" using assms(1) by (auto simp: coalesced_def)
  have "k < 3"
  proof (rule ccontr)
    assume "\<not> k < 3"
    then have "(2 :: nat) ^ 3 \<le> 2 ^ k" by (intro power_increasing) simp_all
    then have "7 \<in> block_pages (k, i)" using i by simp
    then show False using assms(2) by auto
  qed
  moreover have "mergeable half_free_zone (1, buddy_of 1 0)"
    unfolding mergeable_def page_of_half_free by (simp add: half_free_zone_def add_free_def buddy_of_def numeral_2_eq_2)
  ultimately have "k = 2" using k i by (cases "k = 1") auto
  with i show ?thesis by simp
qed

text \<open>Freeing the two pages in use leaves one block of order 2 instead of two halves.\<close>

theorem free_one_page_keeps_zone_consistent_witness:
  "\<exists>s' B'. free_one_page (page_of half_free_zone 0) 1 half_free_zone = Inr s' \<and> buddy_inv s' 4 B' \<and>
     free_blocks B' = {(2, 0)} \<and> free_set B' = {0, 1, 2, 3}"
proof -
  have idx: "page_index half_free_zone (page_of half_free_zone 0) = of_nat 0"
    by (simp add: half_free_zone_def example_zone_sel page_of_def page_plus_def)
  have two: "block_pages (1, 0) = {0, 1}" by auto
  obtain k i s' B' where r: "free_one_page (page_of half_free_zone 0) 1 half_free_zone = Inr s'" "buddy_inv s' 4 B'"
    "coalesced half_free_zone half_blocks (1, 0) (k, i)"
    "free_blocks B' = insert (k, i) (free_blocks half_blocks - merged_blocks half_blocks (k, i))"
    "free_set B' = free_set half_blocks \<union> block_pages (1, 0)"
    using free_one_page_keeps_zone_consistent [OF half_free_zone_inv _ _ _ idx, of 1] unfolding half_free_blocks two by auto
  have fs: "free_set B' = {0, 1, 2, 3}" using r(5) unfolding half_free_blocks two by auto
  have "block_pages (k, i) \<subseteq> free_set B'" unfolding free_set_def r(4) by blast
  then have "(k, i) = (2, 0)" using half_free_coalesced [OF r(3)] unfolding fs by blast
  then have "free_blocks B' = {(2, 0)}" using r(4) unfolding merged_blocks_def half_free_blocks by auto
  with r(1,2) fs show ?thesis by blast
qed

text \<open>
  Allocating and freeing is a round trip: if \<open>__rmqueue\<close> returns a page for an order, then
  freeing that page at the order recorded in it leaves a consistent zone with the same free pages
  as before the allocation.
\<close>

theorem alloc_free_round_trip:
  assumes "buddy_inv s N B" and "\<And>i. i < N \<Longrightarrow> page_index s (page_of s i) = of_nat i"
    and "order \<le> k" and "k < MAX_ORDER" and "B k \<noteq> []"
  shows "\<exists>p s1 s2 B2. rmqueue order s = (p, s1) \<and> free_one_page p (unat (page_private s1 p)) s1 = Inr s2 \<and>
    buddy_inv s2 N B2 \<and> free_set B2 = free_set B"
proof -
  obtain i s1 B1 where r: "rmqueue order s = (page_of s i, s1)" "buddy_inv s1 N B1"
    "free_set B1 = free_set B - block_pages (order, i)" "block_pages (order, i) \<subseteq> free_set B"
    "page_private s1 (page_of s i) = of_nat order" "zone_frame N s s1"
    using rmqueue_result [OF assms(1,3-5)] by blast
  have o: "order < MAX_ORDER" using assms(3,4) by simp
  have p: "page_of s1 i = page_of s i" by (simp add: zone_frameD [OF r(6)])
  have "unat (page_private s1 (page_of s i)) = order" unfolding r(5) using o by (intro unat_of_nat_below) simp
  moreover have N: "i + 2 ^ order \<le> N"
    using r(4) buddy_invD(4) [OF assms(1)] by (intro block_end_in_zone) blast
  then have "i < N" by (rule less_le_trans [rotated]) simp
  then have "page_index s1 (page_of s1 i) = of_nat i" unfolding p zone_frameD(3) [OF r(6)] by (rule assms(2))
  moreover have "block_pages (order, i) \<inter> free_set B1 = {}" unfolding r(3) by blast
  ultimately obtain s2 B2 where "free_one_page (page_of s1 i) order s1 = Inr s2" "buddy_inv s2 N B2"
    "free_set B2 = free_set B1 \<union> block_pages (order, i)"
    using free_one_page_inv [OF r(2) o N] by blast
  then show ?thesis using r(1,3,4) \<open>unat _ = order\<close> unfolding p by auto
qed

theorem alloc_free_round_trip_witness:
  "\<exists>p s1 s2 B2. rmqueue 0 example_pages = (p, s1) \<and> free_one_page p (unat (page_private s1 p)) s1 = Inr s2 \<and>
     buddy_inv s2 4 B2 \<and> free_set B2 = {0, 1, 2, 3}"
proof -
  have "page_index example_pages (page_of example_pages i) = of_nat i" if "i < 4" for i
  proof -
    have "i = 0 \<or> i = 1 \<or> i = 2 \<or> i = 3" using that by auto
    then show ?thesis by (auto simp: example_pages_def example_zone_sel page_of_def page_plus_def)
  qed
  then show ?thesis
    using alloc_free_round_trip [OF example_pages_inv, of 0 2] unfolding example_free_set by simp
qed

text \<open>The zone as \<open>page_alloc_init\<close> leaves it before the page structures are initialised.\<close>

definition empty_zone :: "ptr \<Rightarrow> u32 \<Rightarrow> u32 \<Rightarrow> 'a pages_scheme \<Rightarrow> 'a pages_scheme" where
  "empty_zone a spn used s = s\<lparr>zone_start_pfn := drop_bit PAGE_SHIFT a, spanned_pages := spn, managed_pages := spn - used,
     sem_count := (sem_count s)(zone_lock s := 1),
     links := INIT_LIST_HEAD (wait_list (zone_lock s)) (fold INIT_LIST_HEAD (map (free_list s) [0..<MAX_ORDER]) (links s)),
     memmap_pages := a\<rparr>"

lemma empty_zone_sel [simp]:
  "free_list (empty_zone a spn u s) = free_list s" "page_of (empty_zone a spn u s) = (\<lambda>i. page_plus a (of_nat i))"
  "zone_lock (empty_zone a spn u s) = zone_lock s" "nr_free (empty_zone a spn u s) = nr_free s"
  "PageBuddy p (empty_zone a spn u s) = PageBuddy p s" "memmap_pages (empty_zone a spn u s) = a"
  "zone_start_pfn (empty_zone a spn u s) = drop_bit PAGE_SHIFT a" "spanned_pages (empty_zone a spn u s) = spn"
  "managed_pages (empty_zone a spn u s) = spn - u" "sem_count (empty_zone a spn u s) = (sem_count s)(zone_lock s := 1)"
  "zone_addr (empty_zone a spn u s) = zone_addr s" "pages.more (empty_zone a spn u s) = pages.more s"
  "dlist (links (empty_zone a spn u s)) (wait_list (zone_lock s)) []"
  by (simp_all add: empty_zone_def free_list_def page_of_def zone_lock_def PageBuddy_def fun_eq_iff INIT_LIST_HEAD_dlist)

lemma empty_zone_heads:
  assumes "k < MAX_ORDER"
  shows "dlist (links (empty_zone a spn u s)) (free_list s k) []"
proof -
  let ?hs = "map (free_list s) [0..<MAX_ORDER]"
  have "distinct ?hs" by (simp add: distinct_map inj_on_def free_list_inj)
  then have "dlist (fold INIT_LIST_HEAD ?hs (links s)) (free_list s k) []"
    using assms by (intro fold_INIT_LIST_HEAD) auto
  then show ?thesis
    using zone_lock_outside [OF assms, of s] by (simp add: empty_zone_def) (auto intro!: INIT_LIST_HEAD_frame)
qed

text \<open>
  What the initialisation needs: a region with at least one whole page that does not overlap the
  zone structure, counters at zero, and no stale buddy mark beyond the page structures that
  are initialised.
\<close>

definition region_ok :: "ptr \<Rightarrow> u32 \<Rightarrow> nat \<Rightarrow> nat \<Rightarrow> 'a pages_scheme \<Rightarrow> bool" where
  "region_ok addr bytes N used s \<longleftrightarrow>
     (let a = (addr + PAGE_SIZE - 1) AND PAGE_MASK in
      addr \<noteq> NULL \<and> N = unat (bytes - (a - addr)) div 4096 \<and> 0 < N \<and> used = N * 24 div 4096 + 1 \<and>
      (\<forall>k < MAX_ORDER. \<forall>i < N. free_list s k \<noteq> page_node (page_plus a (of_nat i))) \<and> (\<forall>k < MAX_ORDER. nr_free s k = 0) \<and>
      (\<forall>p. PageBuddy p s \<longrightarrow> (\<exists>i < N - used. p = page_plus a (of_nat i))))"

lemma page_alloc_init_zone:
  fixes s :: "'a pages_scheme"
  assumes ok: "region_ok addr bytes N used s" and a: "a = (addr + PAGE_SIZE - 1) AND PAGE_MASK"
    and t: "t = empty_zone a (of_nat N) (of_nat used) s"
  shows "used \<le> N" "buddy_inv (page_alloc_init addr bytes s) N (initial_blocks used N)"
    "free_set (initial_blocks used N) = {used..<N}"
    "zone_frame N (fold init_page [0..<N - used] t) (page_alloc_init addr bytes s)"
    "i < N - used \<Longrightarrow> page_index (page_alloc_init addr bytes s) (page_of (page_alloc_init addr bytes s) i) = of_nat i"
    "unat (of_nat N :: u32) = N" "unat (of_nat N - of_nat used :: u32) = N - used"
proof -
  let ?b = "bytes - (a - addr)"
  let ?sp = "drop_bit PAGE_SHIFT (?b AND PAGE_MASK)"
  let ?u = "drop_bit PAGE_SHIFT (?sp * 24) + 1"
  have r: "addr \<noteq> NULL" "N = unat ?b div 4096" "0 < N" "used = N * 24 div 4096 + 1"
      "\<And>k i. k < MAX_ORDER \<Longrightarrow> i < N \<Longrightarrow> free_list s k \<noteq> page_node (page_plus a (of_nat i))"
      "\<And>k. k < MAX_ORDER \<Longrightarrow> nr_free s k = 0" "\<And>p. PageBuddy p s \<Longrightarrow> \<exists>i < N - used. p = page_plus a (of_nat i)"
    using ok unfolding region_ok_def Let_def a [symmetric] by blast+
  have "4096 \<le> unat ?b" using r(2,3) by (simp add: div_greater_zero_iff)
  note w = page_alloc_init_words(1,2) [OF refl refl, of ?b, folded r(2), folded r(4)] page_alloc_init_words(3) [OF refl refl this]
  have N: "?sp = of_nat N" "?u = of_nat used" unfolding w(1,2) [symmetric] by simp_all
  show le: "used \<le> N" and n: "unat (of_nat N - of_nat used :: u32) = N - used" and "unat (of_nat N :: u32) = N"
    using w unfolding N(2) unfolding N(1) by simp_all
  have fl: "free_list (s\<lparr>zone_start_pfn := x, spanned_pages := y\<rparr>) = free_list s" for x y by (simp add: free_list_def fun_eq_iff)
  have init: "page_alloc_init addr bytes s = insert_loop 10 (page_of t used) (of_nat N - of_nat used) (fold init_page [0..<N - used] t)"
    using r(1) n unfolding page_alloc_init_def Let_def a [symmetric]
    by (simp add: insert_to_free_area_def sema_init_def zone_lock_def page_of_def t empty_zone_def N(1) N(2) [unfolded N(1)] fl del: drop_bit_and)
  have "zone_ok t N" using r(5) page_number_bound [of ?b] by (auto simp: zone_ok_def t r(2))
  then show "buddy_inv (page_alloc_init addr bytes s) N (initial_blocks used N)" "free_set (initial_blocks used N) = {used..<N}"
    "zone_frame N (fold init_page [0..<N - used] t) (page_alloc_init addr bytes s)"
    "i < N - used \<Longrightarrow> page_index (page_alloc_init addr bytes s) (page_of (page_alloc_init addr bytes s) i) = of_nat i"
    using distribute_pages_inv [of t N "of_nat N - of_nat used" used "page_alloc_init addr bytes s"] le n r(6,7) init
    unfolding n t by (simp_all add: empty_zone_heads)
qed

text \<open>
  C5. Initialisation establishes the invariant the allocator works with. For a region with at least
  one whole page after alignment that does not overlap the zone structure, counters at zero and no
  stale buddy mark beyond the page structures that are initialised, the result of
  \<open>page_alloc_init\<close> is a consistent zone: the pages behind the page structures, and only they, are
  free, cut into blocks from the largest order down; the lock is free, the managed pages are
  counted, and the structures of the first \<open>N - used\<close> of the \<open>N\<close> pages hold their index and no flags. (Nothing is said of the
  last \<open>used\<close> structures: their pages are free, but the code does not initialise them.)
\<close>

theorem page_alloc_init_establishes_zone:
  assumes "region_ok addr bytes N used s"
  shows "\<exists>s'. page_alloc_init addr bytes s = s' \<and> buddy_inv s' N (initial_blocks used N) \<and>
    free_set (initial_blocks used N) = {used..<N} \<and> memmap_pages s' = (addr + PAGE_SIZE - 1) AND PAGE_MASK \<and>
    unat (managed_pages s') = N - used \<and> sem_count s' (zone_lock s') = 1 \<and>
    (\<forall>i < N - used. page_index s' (page_of s' i) = of_nat i \<and> page_flags s' (page_of s' i) = 0)"
proof -
  note i = page_alloc_init_zone [OF assms refl refl] and f = zone_frameD [OF page_alloc_init_zone(4) [OF assms refl refl]]
  let ?z = "empty_zone ((addr + PAGE_SIZE - 1) AND PAGE_MASK) (of_nat N) (of_nat used) s"
  have "N \<le> 2 ^ 20" using buddy_invD(1) [OF i(2)] by (simp add: zone_ok_def)
  then have "page_flags (fold init_page [0..<N - used] ?z) (page_of ?z i) = 0" if "i < N - used" for i
    using that by (intro fold_init_page(3)) simp_all
  then show ?thesis using i f by (simp add: zone_lock_def)
qed

definition example_region :: pages where
  "example_region = example_zone\<lparr>page_units := (\<lambda>p. if p = 8192 then - 128 else 7), nr_free := (\<lambda>_. 0), zone_addr := 1024\<rparr>"

lemma example_region_ok:
  fixes s :: "'a pages_scheme"
  assumes "zone_addr s = 1024" "nr_free s = (\<lambda>_. 0)" "page_units s = page_units example_region"
  shows "region_ok 8000 20000 4 1 s"
proof -
  have z: "free_list s k \<noteq> page_node (page_plus 8192 (of_nat i))" if "k < MAX_ORDER" "i < 4" for k i
  proof -
    have "12 * k < 132" "24 * i < 96" using that by simp_all
    then have "(of_nat (1036 + 12 * k) :: u32) \<noteq> of_nat (8196 + 24 * i)" by (subst of_nat_inj_below) simp_all
    then show ?thesis by (simp add: free_list_def assms(1) page_node_def page_plus_def add.assoc)
  qed
  have b: "\<exists>i < 4 - 1. p = page_plus 8192 (of_nat i)" if "PageBuddy p s" for p
    using that by (intro exI [of _ 0]) (simp add: page_plus_def PageBuddy_def assms(3) example_region_def split: if_splits)
  have a: "(8000 + PAGE_SIZE - 1) AND PAGE_MASK = (8192 :: u32)" "unat (20000 - (8192 - 8000) :: u32) div 4096 = 4"
    by code_simp+
  show ?thesis unfolding region_ok_def Let_def a using z b assms(2) by simp
qed

lemma example_initial_blocks: "initial_blocks 1 4 = (\<lambda>_. [])(1 := [1], 0 := [3])"
  by (simp add: initial_blocks_def spread.simps, simp add: numeral_3_eq_3)

theorem page_alloc_init_establishes_zone_witness:
  "buddy_inv (page_alloc_init 8000 20000 example_region) 4 ((\<lambda>_. [])(1 := [1], 0 := [3]))"
proof -
  have "region_ok 8000 20000 4 1 example_region" by (rule example_region_ok) (simp_all add: example_region_def)
  from page_alloc_init_establishes_zone [OF this] show ?thesis unfolding example_initial_blocks by blast
qed

text \<open>
  The order computed for a size is the least one whose block holds it, for every non-zero size
  of the 32-bit machine; a size of zero wraps around and \<open>alloc_pages\<close> returns \<open>NULL\<close> for it without
  touching the zone.
\<close>

theorem get_order_least_fit:
  assumes "bytes \<noteq> 0"
  shows "(get_order bytes \<le> k \<longleftrightarrow> unat bytes \<le> 4096 * 2 ^ k) \<and> alloc_pages others w 0 s = Some (NULL, s)"
proof -
  note b = get_order_bounds [OF assms]
  have 1: "unat bytes \<le> 4096 * 2 ^ k" if "get_order bytes \<le> k"
  proof -
    have "(2 :: nat) ^ get_order bytes \<le> 2 ^ k" using that by (rule power_increasing) simp
    then show ?thesis using b(1) by linarith
  qed
  have 2: "get_order bytes \<le> k" if le: "unat bytes \<le> 4096 * 2 ^ k"
  proof (rule ccontr)
    assume n: "\<not> get_order bytes \<le> k"
    then have "(2 :: nat) ^ k \<le> 2 ^ (get_order bytes - 1)" by (intro power_increasing) simp_all
    then show False using b(2) n le by linarith
  qed
  have "get_order 0 = 20" by code_simp
  then have "alloc_pages others w 0 s = Some (NULL, s)" by (simp add: alloc_pages_def)
  with 1 2 show ?thesis by blast
qed

theorem get_order_least_fit_witness: "get_order 8193 \<le> 2 \<and> \<not> get_order 8193 \<le> 1"
  using get_order_least_fit [of 8193 2 "\<lambda>_ _ s. s" 0 example_zone]
    get_order_least_fit [of 8193 1 "\<lambda>_ _ s. s" 0 example_zone] by simp

lemma page_address_eq:
  assumes "i \<le> 2 ^ 20"
  shows "page_address (page_of s i) s = memmap_pages s + push_bit PAGE_SHIFT (of_nat i)"
proof -
  have "sint (24 * of_nat i :: u32) = int (24 * i)"
    using sint_of_nat_below [of "24 * i", where 'a = 32] assms by simp
  then show ?thesis by (simp add: page_address_def page_of_def page_plus_def)
qed

text \<open>
  A page structure and the address of its page determine each other: in a zone whose page map
  starts at its first page, \<open>virt_to_page\<close> undoes \<open>page_address\<close> for every page of the zone; and
  the range test of \<open>virt_to_page\<close> also accepts the first address after the zone.
\<close>

theorem virt_to_page_page_address:
  assumes "memmap_pages s = push_bit PAGE_SHIFT (zone_start_pfn s)"
    and "unat (zone_start_pfn s) + unat (spanned_pages s) < 2 ^ 20" and "i \<le> unat (spanned_pages s)"
  shows "virt_to_page (page_address (page_of s i) s) s = page_of s i"
proof -
  let ?z = "zone_start_pfn s"
  have i: "i \<le> 2 ^ 20" using assms(2,3) by simp
  have "page_address (page_of s i) s = push_bit 12 (?z + of_nat i)"
    unfolding page_address_eq [OF i] assms(1) by (simp add: push_bit_eq_mult distrib_right)
  moreover have u: "unat (?z + of_nat i) = unat ?z + i"
    using assms(2,3) unat_of_nat_below [of i, where 'a = 32] by (subst unat_add_no_wrap) simp_all
  have "drop_bit 12 (push_bit 12 (?z + of_nat i)) = ?z + of_nat i"
  proof (rule bit_word_eqI)
    fix n assume "n < LENGTH(32)"
    have "unat (?z + of_nat i) < 2 ^ 20" using u assms(2,3) by simp
    then have "bit (?z + of_nat i) n \<longrightarrow> n < 20"
      using bit_of_nat_le [of "unat (?z + of_nat i)" n] power_increasing [of 20 n "2 :: nat"] by fastforce
    then show "bit (drop_bit 12 (push_bit 12 (?z + of_nat i))) n = bit (?z + of_nat i) n" by (auto simp: bit_simps)
  qed
  moreover have "unat (?z + spanned_pages s) = unat ?z + unat (spanned_pages s)"
    using assms(2) by (intro unat_add_no_wrap) simp
  then have "\<not> ?z + of_nat i > ?z + spanned_pages s" "\<not> ?z + of_nat i < ?z"
    using u assms(3) by (simp_all add: word_less_nat_alt)
  ultimately show ?thesis by (simp add: virt_to_page_def page_of_def Let_def)
qed

theorem virt_to_page_page_address_witness:
  "virt_to_page (page_address (page_of example_zone 3) example_zone) example_zone = page_of example_zone 3"
  by (rule virt_to_page_page_address) (simp_all add: example_zone_def pages.defs sync.defs)

end
