(* ===== verification/Slob.thy ===== *)
theory Slob
  imports Page_Alloc Bitops
begin

section \<open>Small objects: \<open>mm/slob.c\<close>, \<open>mm/malloc.c\<close>\<close>

text \<open>
  A slob page is an array of 16-bit units. A free block of more than one unit holds its size in
  its first unit and the offset of the next free block, in units from the start of the page, in
  its second; a free block of one unit holds the negated offset. \<open>slob_mem\<close> is this memory, by
  address; the free list of a page is the union member beside \<open>page_index\<close>. The loops over the
  list of a page follow offsets stored in memory, so they are partial functions: \<open>None\<close> is a loop
  that does not end. The error \<open>Null_Deref\<close> is a page structure the address has none of.
\<close>

record slobs = pages +
  slob_mem :: "ptr \<Rightarrow> u16"
  free_slob_small :: ptr
  free_slob_medium :: ptr
  free_slob_large :: ptr
  slob_sem :: ptr

abbreviation SLOB_BREAK1 :: u32 where "SLOB_BREAK1 \<equiv> 256"
abbreviation SLOB_BREAK2 :: u32 where "SLOB_BREAK2 \<equiv> 1024"
abbreviation PG_slob_free :: nat where "PG_slob_free \<equiv> 0"
abbreviation SLOB_UNIT :: u32 where "SLOB_UNIT \<equiv> 2"
abbreviation ARCH_SLOB_MINALIGN :: u32 where "ARCH_SLOB_MINALIGN \<equiv> 8"

definition SLOB_UNITS :: "u32 \<Rightarrow> u32" where
  "SLOB_UNITS n = (n + SLOB_UNIT - 1) div SLOB_UNIT"

definition ALIGN :: "u32 \<Rightarrow> u32 \<Rightarrow> u32" where
  "ALIGN P ALIGNBYTES = P AND NOT (ALIGNBYTES - 1)"

text \<open>Pointer arithmetic on units: \<open>p + n\<close> and \<open>p - q\<close> of the C source.\<close>

definition unit_plus :: "ptr \<Rightarrow> int \<Rightarrow> ptr" where
  "unit_plus p n = p + 2 * word_of_int n"

definition unit_diff :: "ptr \<Rightarrow> ptr \<Rightarrow> int" where
  "unit_diff p q = sint (p - q) div 2"

subsection \<open>Pages and blocks\<close>

definition PageSlobFree :: "ptr \<Rightarrow> 'a pages_scheme \<Rightarrow> bool" where
  "PageSlobFree page s \<longleftrightarrow> test_bit_ul PG_slob_free (\<lambda>_. page_flags s page) \<noteq> 0"

definition SetPageSlobFree :: "ptr \<Rightarrow> 'a pages_scheme \<Rightarrow> 'a pages_scheme" where
  "SetPageSlobFree page s =
     s\<lparr>page_flags := (page_flags s)(page := set_bit_ul PG_slob_free (\<lambda>_. page_flags s page) 0)\<rparr>"

definition ClearPageSlobFree :: "ptr \<Rightarrow> 'a pages_scheme \<Rightarrow> 'a pages_scheme" where
  "ClearPageSlobFree page s =
     s\<lparr>page_flags := (page_flags s)(page := clear_bit_ul PG_slob_free (\<lambda>_. page_flags s page) 0)\<rparr>"

definition slob_page_free :: "ptr \<Rightarrow> 'a pages_scheme \<Rightarrow> bool" where
  "slob_page_free pg s = PageSlobFree pg s"

definition set_slob_page_free :: "ptr \<Rightarrow> ptr \<Rightarrow> 'a pages_scheme \<Rightarrow> 'a pages_scheme" where
  "set_slob_page_free pg lst s = SetPageSlobFree pg (s\<lparr>links := list_add (page_node pg) lst (links s)\<rparr>)"

definition clear_slob_page_free :: "ptr \<Rightarrow> 'a pages_scheme \<Rightarrow> 'a pages_scheme" where
  "clear_slob_page_free pg s = ClearPageSlobFree pg (s\<lparr>links := list_del (page_node pg) (links s)\<rparr>)"

definition PageSlob :: "ptr \<Rightarrow> 'a pages_scheme \<Rightarrow> bool" where
  "PageSlob page s \<longleftrightarrow> test_bit_ul PG_slob_free (\<lambda>_. page_flags s page) \<noteq> 0"

definition set_slob :: "ptr \<Rightarrow> int \<Rightarrow> ptr \<Rightarrow> 'a slobs_scheme \<Rightarrow> 'a slobs_scheme" where
  "set_slob b blk_units next s =
     (let base = b AND PAGE_MASK;
          offset = word_of_int (unit_diff next base) :: u16;
          n = word_of_int blk_units :: u16
      in if sint n > 1 then s\<lparr>slob_mem := (slob_mem s)(b := n, b + 2 := offset)\<rparr>
         else s\<lparr>slob_mem := (slob_mem s)(b := - offset)\<rparr>)"

definition slob_units :: "ptr \<Rightarrow> 'a slobs_scheme \<Rightarrow> int" where
  "slob_units b s = (if sint (slob_mem s b) > 0 then sint (slob_mem s b) else 1)"

definition slob_next :: "ptr \<Rightarrow> 'a slobs_scheme \<Rightarrow> ptr" where
  "slob_next b s =
     (let base = b AND PAGE_MASK;
          next = (if sint (slob_mem s b) < 0 then - slob_mem s b else slob_mem s (b + 2))
      in unit_plus base (sint next))"

definition slob_last :: "ptr \<Rightarrow> 'a slobs_scheme \<Rightarrow> bool" where
  "slob_last b s \<longleftrightarrow> slob_next b s AND NOT PAGE_MASK = 0"

definition slob_new_pages :: "'a slobs_scheme switch \<Rightarrow> ptr \<Rightarrow> u32 \<Rightarrow> 'a slobs_scheme \<Rightarrow> (ptr \<times> 'a slobs_scheme) option" where
  "slob_new_pages others w bytes s =
     map_option (\<lambda>(page, s1). if page = NULL then (NULL, s1) else (page_address page s1, s1)) (alloc_pages others w bytes s)"

definition slob_free_pages :: "'a slobs_scheme switch \<Rightarrow> ptr \<Rightarrow> ptr \<Rightarrow> 'a slobs_scheme \<Rightarrow> 'a slobs_scheme res option" where
  "slob_free_pages others w b s = free_pages others w b s"

subsection \<open>Allocating from a page\<close>

text \<open>\<open>slob_take\<close> is the body of the branch that found room; \<open>prev\<close> is \<open>NULL\<close> for the first block.\<close>

definition slob_take :: "ptr \<Rightarrow> int \<Rightarrow> u32 \<Rightarrow> ptr \<Rightarrow> ptr \<Rightarrow> ptr \<Rightarrow> int \<Rightarrow> 'a slobs_scheme \<Rightarrow> ptr \<times> 'a slobs_scheme" where
  "slob_take pg units align prev0 cur0 aligned delta s =
     (let avail0 = slob_units cur0 s;
          (prev, cur, avail, s1) =
            (if delta \<noteq> 0 then
               let next = slob_next cur0 s;
                   t = set_slob cur0 delta aligned (set_slob aligned (avail0 - delta) next s)
               in (cur0, aligned, slob_units aligned t, t)
             else (prev0, cur0, avail0, s));
          next = slob_next cur s1;
          s2 = (if avail = units then
                  if prev \<noteq> NULL then set_slob prev (slob_units prev s1) next s1
                  else s1\<lparr>page_index := (page_index s1)(pg := next)\<rparr>
                else
                  let t = (if prev \<noteq> NULL then set_slob prev (slob_units prev s1) (unit_plus cur units) s1
                           else s1\<lparr>page_index := (page_index s1)(pg := unit_plus cur units)\<rparr>)
                  in set_slob (unit_plus cur units) (avail - units) next t);
          s3 = s2\<lparr>page_units := (page_units s2)(pg := page_units s2 pg - units)\<rparr>;
          s4 = (if page_units s3 pg = 0 then clear_slob_page_free pg s3 else s3)
      in (cur + align, set_slob cur units (unit_plus cur units) s4))"

partial_function (option) slob_scan ::
  "ptr \<Rightarrow> int \<Rightarrow> u32 \<Rightarrow> ptr \<Rightarrow> ptr \<Rightarrow> 'a slobs_scheme \<Rightarrow> (ptr \<times> 'a slobs_scheme) option" where
  "slob_scan pg units align prev cur s =
     (let avail = slob_units cur s;
          aligned = (if align \<noteq> 0 then ALIGN (cur + align - 1) align else NULL);
          delta = (if align \<noteq> 0 then unit_diff aligned cur else 0)
      in if avail \<ge> units + delta then Some (slob_take pg units align prev cur aligned delta s)
         else if slob_last cur s then Some (NULL, s)
         else slob_scan pg units align cur (slob_next cur s) s)"

definition slob_page_alloc :: "ptr \<Rightarrow> u32 \<Rightarrow> u32 \<Rightarrow> 'a slobs_scheme \<Rightarrow> (ptr \<times> 'a slobs_scheme) option" where
  "slob_page_alloc pg bytes align s = slob_scan pg (sint (SLOB_UNITS bytes)) align NULL (page_index s pg) s"

subsection \<open>Allocating and freeing objects\<close>

definition slob_class :: "int \<Rightarrow> 'a slobs_scheme \<Rightarrow> ptr" where
  "slob_class bytes s =
     (if bytes < uint SLOB_BREAK1 then free_slob_small s
      else if bytes < uint SLOB_BREAK2 then free_slob_medium s
      else free_slob_large s)"

partial_function (option) slob_search ::
  "ptr \<Rightarrow> u32 \<Rightarrow> u32 \<Rightarrow> ptr \<Rightarrow> 'a slobs_scheme \<Rightarrow> (ptr \<times> 'a slobs_scheme) option" where
  "slob_search slob_list bytes align node s =
     (if node = slob_list then Some (NULL, s)
      else let pg = node - 4 in
        if (word_of_int (page_units s pg) :: u32) < SLOB_UNITS bytes
        then slob_search slob_list bytes align (nxt (links s) node) s
        else
          let prev = prv (links s) node in
          Option.bind (slob_page_alloc pg bytes align s) (\<lambda>(b, s1).
            if b = NULL then slob_search slob_list bytes align (nxt (links s1) node) s1
            else Some (b, if prev \<noteq> prv (links s1) slob_list \<and> nxt (links s1) slob_list \<noteq> nxt (links s1) prev
                          then s1\<lparr>links := list_move_tail slob_list (nxt (links s1) prev) (links s1)\<rparr>
                          else s1)))"

definition slob_init_page :: "ptr \<Rightarrow> ptr \<Rightarrow> ptr \<Rightarrow> 'a slobs_scheme \<Rightarrow> 'a slobs_scheme" where
  "slob_init_page b pg slob_list s =
     (let s1 = s\<lparr>page_units := (page_units s)(pg := sint (SLOB_UNITS PAGE_SIZE)),
                 page_index := (page_index s)(pg := b), links := INIT_LIST_HEAD (page_node pg) (links s)\<rparr>;
          s2 = set_slob b (sint (SLOB_UNITS PAGE_SIZE)) (unit_plus b (sint (SLOB_UNITS PAGE_SIZE))) s1
      in set_slob_page_free pg slob_list s2)"

definition slob_alloc :: "'a slobs_scheme switch \<Rightarrow> ptr \<Rightarrow> u32 \<Rightarrow> u32 \<Rightarrow> 'a slobs_scheme \<Rightarrow> (ptr \<times> 'a slobs_scheme) res option" where
  "slob_alloc others w bytes align s =
     (let slob_list = slob_class (uint bytes) s in
      Option.bind (down others w (slob_sem s) s) (\<lambda>s1.
      Option.bind (slob_search slob_list bytes align (nxt (links s1) slob_list) s1) (\<lambda>(b, s2).
      let s3 = up (slob_sem s2) s2 in
      if b \<noteq> NULL then Some (Inr (b, s3))
      else Option.bind (slob_new_pages others w (PAGE_SIZE - 1) s3) (\<lambda>(b1, s4).
        if b1 = NULL then Some (Inr (NULL, s4))
        else let pg = virt_to_page b1 s4 in
          Option.bind (down others w (slob_sem s4) s4) (\<lambda>s5.
          if pg = NULL then Some (Inl Null_Deref)
          else map_option (\<lambda>(b2, s6). Inr (b2, up (slob_sem s6) s6))
                 (slob_page_alloc pg bytes align (slob_init_page b1 pg slob_list s5)))))))"

text \<open>\<open>slob_spot\<close> is the loop that finds the free blocks around the block being freed.\<close>

partial_function (option) slob_spot :: "ptr \<Rightarrow> ptr \<Rightarrow> ptr \<Rightarrow> 'a slobs_scheme \<Rightarrow> (ptr \<times> ptr) option" where
  "slob_spot b prev next s =
     (if b > next then slob_spot b next (slob_next next s) s else Some (prev, next))"

definition slob_insert_first :: "ptr \<Rightarrow> ptr \<Rightarrow> int \<Rightarrow> 'a slobs_scheme \<Rightarrow> 'a slobs_scheme" where
  "slob_insert_first pg b units s =
     (let fl = page_index s pg;
          (units1, s1) =
            (if unit_plus b units = fl
             then (units + slob_units fl s, s\<lparr>page_index := (page_index s)(pg := slob_next fl s)\<rparr>)
             else (units, s));
          s2 = set_slob b units1 (page_index s1 pg) s1
      in s2\<lparr>page_index := (page_index s2)(pg := b)\<rparr>)"

definition slob_insert_between :: "ptr \<Rightarrow> int \<Rightarrow> ptr \<Rightarrow> ptr \<Rightarrow> 'a slobs_scheme \<Rightarrow> 'a slobs_scheme" where
  "slob_insert_between b units prev next s =
     (let s1 = (if \<not> slob_last prev s \<and> unit_plus b units = next
                then set_slob b (units + slob_units next s) (slob_next next s) s
                else set_slob b units next s)
      in if unit_plus prev (slob_units prev s1) = b
         then set_slob prev (slob_units b s1 + slob_units prev s1) (slob_next b s1) s1
         else set_slob prev (slob_units prev s1) b s1)"

definition slob_free :: "'a slobs_scheme switch \<Rightarrow> ptr \<Rightarrow> ptr \<Rightarrow> int \<Rightarrow> 'a slobs_scheme \<Rightarrow> 'a slobs_scheme res option" where
  "slob_free others w b bytes s =
     (let pg = virt_to_page b s;
          units = sint (ucast (SLOB_UNITS (word_of_int bytes)) :: u16)
      in Option.bind (down others w (slob_sem s) s) (\<lambda>s1.
         if pg = NULL then Some (Inl Null_Deref)
         else if (word_of_int (page_units s1 pg + units) :: u32) = SLOB_UNITS PAGE_SIZE then
           let s2 = (if slob_page_free pg s1 then clear_slob_page_free pg s1 else s1);
               s3 = up (slob_sem s2) s2
           in slob_free_pages others w b (s3\<lparr>page_units := (page_units s3)(pg := - 1)\<rparr>)
         else if \<not> slob_page_free pg s1 then
           let s2 = s1\<lparr>page_units := (page_units s1)(pg := units), page_index := (page_index s1)(pg := b)\<rparr>;
               s3 = set_slob b units (unit_plus b (sint (SLOB_UNITS PAGE_SIZE)) AND PAGE_MASK) s2;
               s4 = set_slob_page_free pg (slob_class bytes s3) s3
           in Some (Inr (up (slob_sem s4) s4))
         else
           let s2 = s1\<lparr>page_units := (page_units s1)(pg := page_units s1 pg + units)\<rparr> in
           if b < page_index s2 pg then
             let s3 = slob_insert_first pg b units s2 in Some (Inr (up (slob_sem s3) s3))
           else
             map_option (\<lambda>(prev, next). let s3 = slob_insert_between b units prev next s2
                                         in Inr (up (slob_sem s3) s3))
               (slob_spot b (page_index s2 pg) (slob_next (page_index s2 pg) s2) s2)))"

subsection \<open>\<open>kmalloc\<close> and \<open>kfree\<close>\<close>

definition kmalloc_init :: "ptr \<Rightarrow> u32 \<Rightarrow> 'a pages_scheme \<Rightarrow> 'a pages_scheme" where
  "kmalloc_init addr bytes s = (if NULL = addr then s else page_alloc_init addr bytes s)"

definition kmalloc_size :: "u32 \<Rightarrow> u32" where
  "kmalloc_size bytes = ALIGN (bytes + SLOB_UNIT + ARCH_SLOB_MINALIGN - 1) ARCH_SLOB_MINALIGN"

definition kmalloc :: "'a slobs_scheme switch \<Rightarrow> ptr \<Rightarrow> u32 \<Rightarrow> 'a slobs_scheme \<Rightarrow> (ptr \<times> 'a slobs_scheme) res option" where
  "kmalloc others w bytes s =
     (if bytes = 0 then Some (Inr (NULL, s))
      else let n = kmalloc_size bytes in
        if n < PAGE_SIZE then
          if n = 0 then Some (Inr (NULL, s)) else slob_alloc others w n ARCH_SLOB_MINALIGN s
        else map_option Inr (slob_new_pages others w n s))"

definition kfree :: "'a slobs_scheme switch \<Rightarrow> ptr \<Rightarrow> ptr \<Rightarrow> 'a slobs_scheme \<Rightarrow> 'a slobs_scheme res option" where
  "kfree others w addr s =
     (if NULL = addr then Some (Inr s)
      else let pg = virt_to_page addr s in
        if pg = NULL then Some (Inl Null_Deref)
        else if PageSlob pg s then
          let blk = addr - ARCH_SLOB_MINALIGN
          in slob_free others w blk (sint (slob_mem s blk) * 2) s
        else free_pages others w addr s)"


subsection \<open>Chains of free blocks\<close>

text \<open>
  \<open>slob_chain m base xs e\<close>: the blocks \<open>xs\<close>, pairs of an offset and a size in units, lie one after
  the other in the page at \<open>base\<close>, each header names its size and the next block, the last one
  names the offset \<open>e\<close>.
\<close>

definition unit_at :: "ptr \<Rightarrow> nat \<Rightarrow> ptr" where
  "unit_at base a = base + 2 * of_nat a"

definition put_header :: "ptr \<Rightarrow> nat \<Rightarrow> nat \<Rightarrow> nat \<Rightarrow> (ptr \<Rightarrow> u16) \<Rightarrow> (ptr \<Rightarrow> u16)" where
  "put_header base a n nx m =
     (if n > 1 then m(unit_at base a := of_nat n, unit_at base (a + 1) := of_nat nx)
      else m(unit_at base a := - of_nat nx))"

definition has_header :: "(ptr \<Rightarrow> u16) \<Rightarrow> ptr \<Rightarrow> nat \<Rightarrow> nat \<Rightarrow> nat \<Rightarrow> bool" where
  "has_header m base a n nx \<longleftrightarrow>
     (if n > 1 then m (unit_at base a) = of_nat n \<and> m (unit_at base (a + 1)) = of_nat nx
      else m (unit_at base a) = - of_nat nx)"

fun chain_head :: "(nat \<times> nat) list \<Rightarrow> nat \<Rightarrow> nat" where
  "chain_head [] e = e"
| "chain_head ((a, n) # xs) e = a"

fun slob_chain :: "(ptr \<Rightarrow> u16) \<Rightarrow> ptr \<Rightarrow> (nat \<times> nat) list \<Rightarrow> nat \<Rightarrow> bool" where
  "slob_chain m base [] e \<longleftrightarrow> e \<le> 2048"
| "slob_chain m base ((a, n) # xs) e \<longleftrightarrow>
     0 < n \<and> a + n \<le> chain_head xs e \<and> has_header m base a n (chain_head xs e) \<and> slob_chain m base xs e"

fun first_fit :: "nat \<Rightarrow> (nat \<times> nat) list \<Rightarrow> (nat \<times> (nat \<times> nat) list) option" where
  "first_fit u [] = None"
| "first_fit u ((a, n) # xs) =
     (if u \<le> n then Some (a, if n = u then xs else (a + u, n - u) # xs)
      else map_option (apsnd (Cons (a, n))) (first_fit u xs))"

lemma unit_at_inj:
  assumes "a < 2 ^ 20" and "b < 2 ^ 20"
  shows "unit_at base a = unit_at base b \<longleftrightarrow> a = b"
proof -
  have "unit_at base a = unit_at base b \<longleftrightarrow> (of_nat (2 * a) :: u32) = of_nat (2 * b)"
    by (simp add: unit_at_def)
  also have "\<dots> \<longleftrightarrow> 2 * a = 2 * b" using assms by (intro of_nat_inj_below) simp_all
  finally show ?thesis by simp
qed

lemma chain_head_le: "slob_chain m base xs e \<Longrightarrow> chain_head xs e \<le> e"
  by (induction xs) auto

lemma chain_end_le: "slob_chain m base xs e \<Longrightarrow> e \<le> 2048"
  by (induction xs) auto

lemma chain_append:
  "slob_chain m base (xs @ ys) e \<longleftrightarrow> slob_chain m base xs (chain_head ys e) \<and> slob_chain m base ys e"
proof (induction xs)
  case Nil
  have "chain_head ys e \<le> 2048" if "slob_chain m base ys e"
    using chain_head_le [OF that] chain_end_le [OF that] by simp
  then show ?case by auto
next
  case (Cons x xs)
  have "chain_head (xs @ ys) e = chain_head xs (chain_head ys e)" by (cases xs) auto
  with Cons show ?case by (cases x) simp
qed

text \<open>A write inside the units \<open>lo..<hi\<close> of the page leaves the blocks outside of them alone.\<close>

lemma chain_frame:
  assumes "slob_chain m base xs e" and "\<And>a n. (a, n) \<in> set xs \<Longrightarrow> a + n \<le> lo \<or> hi \<le> a"
    and "\<And>a. a < 2048 \<Longrightarrow> a < lo \<or> hi \<le> a \<Longrightarrow> m' (unit_at base a) = m (unit_at base a)"
  shows "slob_chain m' base xs e"
  using assms(1,2)
proof (induction xs)
  case Nil
  then show ?case by simp
next
  case (Cons x xs)
  obtain a n where x: "x = (a, n)" by (cases x)
  have c: "0 < n" "a + n \<le> chain_head xs e" "has_header m base a n (chain_head xs e)" "slob_chain m base xs e"
    using Cons.prems(1) by (simp_all add: x)
  have le: "a + n \<le> 2048" using c(2) chain_head_le [OF c(4)] chain_end_le [OF c(4)] by simp
  have out: "a + n \<le> lo \<or> hi \<le> a" using Cons.prems(2) x by simp
  have 1: "m' (unit_at base a) = m (unit_at base a)"
    using out le c(1) by (intro assms(3)) auto
  have 2: "m' (unit_at base (a + 1)) = m (unit_at base (a + 1))" if "1 < n"
    using out le that by (intro assms(3)) auto
  have "has_header m' base a n (chain_head xs e)"
    using c(3) 1 2 by (auto simp: has_header_def)
  moreover have "slob_chain m' base xs e" using Cons.prems(2) by (intro Cons.IH c(4)) simp
  ultimately show ?case using c by (simp add: x)
qed

lemma put_header_frame:
  assumes "b < 2048" and "b < a \<or> a + n \<le> b" and "0 < n" and "a + n \<le> 2048"
  shows "put_header base a n nx m (unit_at base b) = m (unit_at base b)"
  using assms by (auto simp: put_header_def unit_at_inj)

lemma put_header_has:
  assumes "a + n \<le> 2048" and "0 < n"
  shows "has_header (put_header base a n nx m) base a n nx"
  using assms by (auto simp: put_header_def has_header_def unit_at_inj)


subsection \<open>The operations on headers\<close>

abbreviation page_base :: "ptr \<Rightarrow> bool" where
  "page_base base \<equiv> 4096 dvd unat base"

lemma page_base_room: "page_base base \<Longrightarrow> unat base + 4096 \<le> 2 ^ 32"
proof -
  assume "page_base base"
  then obtain k where k: "unat base = 4096 * k" by (elim dvdE)
  have "unat base < 4294967296" by (rule unat_u32_less)
  then have "k < 1048576" unfolding k by simp
  then show ?thesis unfolding k by simp
qed

lemma unat_unit_at:
  assumes "page_base base" and "a < 2048"
  shows "unat (unit_at base a) = unat base + 2 * a"
proof -
  have "unat (of_nat (2 * a) :: u32) = 2 * a" using assms(2) by (intro unat_of_nat_below) simp
  then show ?thesis
    using page_base_room [OF assms(1)] assms(2) unat_add_no_wrap [of base "of_nat (2 * a)"]
    by (simp add: unit_at_def)
qed

lemma unit_page:
  assumes "page_base base" and "a < 2048"
  shows "unit_at base a AND PAGE_MASK = base"
proof -
  obtain k where k: "unat base = 4096 * k" using assms(1) by (elim dvdE)
  have "(4096 * k + 2 * a) mod 4096 = 2 * a" using assms(2) by simp
  then have "unat (unit_at base a AND PAGE_MASK) = unat base"
    unfolding unat_align_down unat_unit_at [OF assms] k by simp
  then show ?thesis by (simp only: unsigned_word_eqI)
qed

lemma unit_diff_at: "a \<le> 2048 \<Longrightarrow> unit_diff (unit_at base a) base = int a"
  using sint_of_nat_below [of "2 * a", where 'a = 32] by (simp add: unit_diff_def unit_at_def)

lemma unit_plus_at: "unit_plus (unit_at base a) (int n) = unit_at base (a + n)"
  by (simp add: unit_plus_def unit_at_def algebra_simps)

lemma set_slob_at:
  assumes "page_base base" and "a < 2048" and "n \<le> 2048" and "nx \<le> 2048"
  shows "set_slob (unit_at base a) (int n) (unit_at base nx) s = s\<lparr>slob_mem := put_header base a n nx (slob_mem s)\<rparr>"
proof -
  have "sint (of_nat n :: u16) = int n" using assms(3) by (intro sint_of_nat_below) simp
  moreover have "unit_at base a + 2 = unit_at base (a + 1)" by (simp add: unit_at_def)
  ultimately show ?thesis
    by (simp add: set_slob_def unit_page [OF assms(1,2)] unit_diff_at [OF assms(4)] put_header_def Let_def)
qed

lemma header_units:
  assumes "has_header (slob_mem s) base a n nx" and "0 < n" and "n \<le> 2048" and "0 < nx" and "nx \<le> 2048"
  shows "slob_units (unit_at base a) s = int n"
    and "page_base base \<Longrightarrow> a < 2048 \<Longrightarrow> slob_next (unit_at base a) s = unit_at base nx"
proof -
  have s1: "sint (of_nat n :: u16) = int n" "sint (of_nat nx :: u16) = int nx"
    using assms(3,5) by (auto intro!: sint_of_nat_below)
  have s2: "sint (- of_nat nx :: u16) = - int nx" using assms(5) by (intro sint_neg_of_nat_below) simp
  have p: "unit_at base a + 2 = unit_at base (a + 1)" by (simp add: unit_at_def)
  show "slob_units (unit_at base a) s = int n"
    using assms s1 s2 by (auto simp: slob_units_def has_header_def split: if_splits)
  have b: "unit_plus base (int nx) = unit_at base nx" by (simp add: unit_plus_def unit_at_def)
  assume "page_base base" "a < 2048"
  then show "slob_next (unit_at base a) s = unit_at base nx"
    using assms s1 s2 b p by (auto simp: slob_next_def has_header_def unit_page Let_def split: if_splits)
qed

lemma unit_last:
  assumes "page_base base" and "0 < a" and "a \<le> 2048"
  shows "unit_at base a AND NOT PAGE_MASK = 0 \<longleftrightarrow> a = 2048"
proof (cases "a = 2048")
  case True
  obtain k where k: "unat base = 4096 * k" using assms(1) by (elim dvdE)
  have "(base + 4096) AND mask 12 = 0"
  proof -
    have "unat (take_bit 12 (base + 4096)) = (unat base + 4096) mod 4294967296 mod 4096"
      by (simp add: unsigned_take_bit_eq take_bit_eq_mod unat_word_ariths)
    also have "\<dots> = (unat base + 4096) mod 4096" by (rule mod_mod_cancel) simp
    also have "\<dots> = 0" using k by simp
    finally show ?thesis by (simp add: take_bit_eq_mask unsigned_eq_0_iff)
  qed
  then show ?thesis using True by (simp add: unit_at_def)
next
  case False
  then have lt: "a < 2048" using assms(3) by simp
  have "unit_at base a AND mask 12 \<noteq> 0"
  proof
    assume "unit_at base a AND mask 12 = 0"
    then have "unit_at base a = base"
      using word_and_add_and_not [of "unit_at base a" "mask 12"] unit_page [OF assms(1) lt] by simp
    then show False using unat_unit_at [OF assms(1) lt] assms(2) by simp
  qed
  then show ?thesis using False by simp
qed


subsection \<open>First fit\<close>

lemma chain_upper: "slob_chain m base xs e \<Longrightarrow> (b, k) \<in> set xs \<Longrightarrow> b + k \<le> e"
proof (induction xs)
  case (Cons x xs)
  then show ?case using chain_head_le [of m base xs e] by (cases x) auto
qed simp

lemma chain_lower: "slob_chain m base xs e \<Longrightarrow> (b, k) \<in> set xs \<Longrightarrow> chain_head xs e \<le> b"
proof (induction xs)
  case (Cons x xs)
  then show ?case by (cases x) fastforce
qed simp

lemma chain_put:
  assumes "slob_chain m base xs e" and "0 < n" and "a + n \<le> 2048"
    and "\<And>b k. (b, k) \<in> set xs \<Longrightarrow> b + k \<le> a \<or> a + n \<le> b"
  shows "slob_chain (put_header base a n nx m) base xs e"
  using assms(1,4) by (rule chain_frame) (use assms put_header_frame in auto)

lemma header_put:
  assumes "has_header m base b k y" and "0 < n" and "a + n \<le> 2048" and "0 < k" and "b + k \<le> 2048"
    and "b + k \<le> a \<or> a + n \<le> b"
  shows "has_header (put_header base a n nx m) base b k y"
proof -
  have "put_header base a n nx m (unit_at base b) = m (unit_at base b)"
    using assms by (intro put_header_frame) auto
  moreover have "put_header base a n nx m (unit_at base (b + 1)) = m (unit_at base (b + 1))" if "1 < k"
    using assms that by (intro put_header_frame) auto
  ultimately show ?thesis using assms(1) by (auto simp: has_header_def)
qed

text \<open>The memory after the allocation: the previous block relinked, the rest split off, the size stored.\<close>

definition take_mem :: "ptr \<Rightarrow> (nat \<times> nat) list \<Rightarrow> nat \<Rightarrow> nat \<Rightarrow> nat \<Rightarrow> nat \<Rightarrow> (ptr \<Rightarrow> u16) \<Rightarrow> (ptr \<Rightarrow> u16)" where
  "take_mem base pre a n u nx m =
     (let h = (if n = u then nx else a + u);
          m1 = (if pre = [] then m else put_header base (fst (last pre)) (snd (last pre)) h m);
          m2 = (if n = u then m1 else put_header base (a + u) (n - u) nx m1)
      in put_header base a u (a + u) m2)"

lemma chain_take_mem:
  assumes c: "slob_chain m base (pre @ (a, n) # xs) 2048" and u: "0 < u" "u \<le> n"
  shows "slob_chain (take_mem base pre a n u (chain_head xs 2048) m) base
           (pre @ (if n = u then xs else (a + u, n - u) # xs)) 2048"
proof -
  let ?nx = "chain_head xs 2048" and ?bs = "if n = u then xs else (a + u, n - u) # xs"
  let ?h = "if n = u then ?nx else a + u"
  have x: "0 < n" "a + n \<le> ?nx" "slob_chain m base xs 2048" "?nx \<le> 2048" and pre: "slob_chain m base pre a"
    using c chain_head_le [of m base xs 2048] by (simp_all add: chain_append)
  have hd: "chain_head ?bs 2048 = ?h" by simp
  define m1 where "m1 = (if pre = [] then m else put_header base (fst (last pre)) (snd (last pre)) ?h m)"
  define m2 where "m2 = (if n = u then m1 else put_header base (a + u) (n - u) ?nx m1)"
  have tm: "take_mem base pre a n u ?nx m = put_header base a u (a + u) m2"
    by (simp add: take_mem_def m1_def m2_def Let_def)
  have xs_lo: "a + n \<le> b" if "(b, k) \<in> set xs" for b k
    using chain_lower [OF x(3) that] x(2) by simp
  have pre_up: "b + k \<le> a" if "(b, k) \<in> set pre" for b k
    using chain_upper [OF pre that] .
  have m1: "slob_chain m1 base pre ?h \<and> slob_chain m1 base xs 2048"
  proof (cases pre rule: rev_cases)
    case Nil
    then show ?thesis using x u by (simp add: m1_def)
  next
    case (snoc ys y)
    obtain pa pn where y: "y = (pa, pn)" by (cases y)
    have p: "slob_chain m base ys pa" "0 < pn" "pa + pn \<le> a" using pre by (simp_all add: snoc y chain_append)
    have le: "pa + pn \<le> 2048" using p(3) x by simp
    have e: "m1 = put_header base pa pn ?h m" by (simp add: m1_def snoc y)
    have "slob_chain m1 base ys pa" unfolding e
      using p(1,2) le by (rule chain_put) (use chain_upper [OF p(1)] in blast)
    moreover have "has_header m1 base pa pn ?h" unfolding e using le p(2) by (rule put_header_has)
    moreover have "slob_chain m1 base xs 2048" unfolding e
      using x(3) p(2) le by (rule chain_put) (use xs_lo p(3) in fastforce)
    ultimately show ?thesis using p x u by (simp add: snoc y chain_append)
  qed
  have m2: "slob_chain m2 base pre ?h \<and> slob_chain m2 base ?bs 2048"
  proof (cases "n = u")
    case True
    then show ?thesis using m1 by (simp add: m2_def)
  next
    case False
    then have n: "0 < n - u" "a + u + (n - u) \<le> 2048" using u x by simp_all
    have e: "m2 = put_header base (a + u) (n - u) ?nx m1" using False by (simp add: m2_def)
    have "slob_chain m2 base pre ?h" unfolding e
      using m1 n by (intro chain_put) (use pre_up in fastforce)+
    moreover have "slob_chain m2 base xs 2048" unfolding e
      using m1 n by (intro chain_put) (use xs_lo in fastforce)+
    moreover have "has_header m2 base (a + u) (n - u) ?nx" unfolding e using n(2,1) by (rule put_header_has)
    ultimately show ?thesis using False n x u by simp
  qed
  have au: "a + u \<le> 2048" using u x by simp
  have "slob_chain (put_header base a u (a + u) m2) base pre ?h"
    using m2 u(1) au by (intro chain_put) (use pre_up in blast)+
  moreover have "slob_chain (put_header base a u (a + u) m2) base ?bs 2048"
    using m2 u(1) au by (intro chain_put) (use xs_lo u in \<open>fastforce split: if_splits\<close>)+
  ultimately show ?thesis unfolding tm chain_append hd by blast
qed


definition prev_ptr :: "ptr \<Rightarrow> (nat \<times> nat) list \<Rightarrow> ptr" where
  "prev_ptr base pre = (if pre = [] then NULL else unit_at base (fst (last pre)))"

lemma clear_slob_sel [simp]:
  "slob_mem (clear_slob_page_free pg s) = slob_mem s" for s :: "'a slobs_scheme"
  by (simp add: clear_slob_page_free_def ClearPageSlobFree_def)

lemma clear_slob_page_sel [simp]:
  "page_index (clear_slob_page_free pg s) = page_index s" "page_units (clear_slob_page_free pg s) = page_units s"
  by (simp_all add: clear_slob_page_free_def ClearPageSlobFree_def)

lemma maybe_clear_sel [simp]:
  "page_index (if q then clear_slob_page_free pg s else s) = page_index s"
  "page_units (if q then clear_slob_page_free pg s else s) = page_units s"
  by simp_all

lemma maybe_clear_mem [simp]:
  "slob_mem (if q then clear_slob_page_free pg s else s) = slob_mem s" for s :: "'a slobs_scheme"
  by simp

lemma slob_view_upd [simp]:
  "slob_units p (s\<lparr>page_index := i\<rparr>) = slob_units p s" "slob_next p (s\<lparr>page_index := i\<rparr>) = slob_next p s"
  by (simp_all add: slob_units_def slob_next_def)

lemma slob_take_result:
  assumes base: "page_base base" "base \<noteq> NULL"
    and c: "slob_chain (slob_mem s) base (pre @ (a, n) # xs) 2048" and u: "0 < u" "u \<le> n"
  shows "\<exists>s'. slob_take pg (int u) align (prev_ptr base pre) (unit_at base a) al 0 s = (unit_at base a + align, s') \<and>
    slob_mem s' = take_mem base pre a n u (chain_head xs 2048) (slob_mem s) \<and>
    page_units s' = (page_units s)(pg := page_units s pg - int u) \<and>
    page_index s' = (if pre = [] then (page_index s)(pg := unit_at base (if n = u then chain_head xs 2048 else a + u))
                     else page_index s)"
proof -
  let ?nx = "chain_head xs 2048"
  have x: "0 < n" "a + n \<le> ?nx" "?nx \<le> 2048" "has_header (slob_mem s) base a n ?nx"
    and pre: "slob_chain (slob_mem s) base pre a"
    using c chain_head_le [of "slob_mem s" base xs 2048] by (simp_all add: chain_append)
  have lt: "a < 2048" using x by simp
  have cur: "slob_units (unit_at base a) s = int n" "slob_next (unit_at base a) s = unit_at base ?nx"
    using header_units [OF x(4,1)] x lt base by simp_all
  have d: "int n - int u = int (n - u)" using u(2) by simp
  have P3: "set_slob (unit_at base a) (int u) (unit_at base (a + u)) t =
      t\<lparr>slob_mem := put_header base a u (a + u) (slob_mem t)\<rparr>" for t :: "'a slobs_scheme"
    using x u lt by (intro set_slob_at [OF base(1)]) simp_all
  have P2: "set_slob (unit_at base (a + u)) (int (n - u)) (unit_at base ?nx) t =
      t\<lparr>slob_mem := put_header base (a + u) (n - u) ?nx (slob_mem t)\<rparr>" if "n \<noteq> u" for t :: "'a slobs_scheme"
    using x u lt that by (intro set_slob_at [OF base(1)]) simp_all
  note take = slob_take_def prev_ptr_def cur take_mem_def unit_plus_at d Let_def
  show ?thesis
  proof (cases pre rule: rev_cases)
    case Nil
    then show ?thesis by (cases "n = u") (simp_all add: take P3 P2 cong: if_cong)
  next
    case (snoc ys y)
    obtain pa pn where y: "y = (pa, pn)" by (cases y)
    have p: "has_header (slob_mem s) base pa pn a" "0 < pn" "pa + pn \<le> a"
      using pre by (simp_all add: snoc y chain_append)
    have pu: "slob_units (unit_at base pa) s = int pn" using header_units(1) [OF p(1,2)] p lt by simp
    have pl: "pa < 2048" using p lt by simp
    have P1: "set_slob (unit_at base pa) (int pn) (unit_at base h) t =
        t\<lparr>slob_mem := put_header base pa pn h (slob_mem t)\<rparr>" if "h \<le> 2048" for h and t :: "'a slobs_scheme"
      using p lt pl that by (intro set_slob_at [OF base(1)]) simp_all
    have h: "a + u \<le> 2048" "?nx \<le> 2048" using x u by simp_all
    have nn: "unit_at base pa \<noteq> NULL"
      using unat_unit_at [OF base(1) pl] base(2) unat_pos [of base] by (metis unsigned_0 add_is_0 less_irrefl)
    show ?thesis
      by (cases "n = u") (simp_all add: take snoc y pu nn P1 [OF h(1)] P1 [OF h(2)] P3 P2 cong: if_cong)
  qed
qed

text \<open>With blocks aligned to eight bytes no block is split in front of the object.\<close>

lemma aligned_no_delta:
  assumes "page_base base" and "a < 2048" and "4 dvd a"
  shows "ALIGN (unit_at base a + 8 - 1) 8 = unit_at base a"
proof -
  obtain k where k: "unat base = 4096 * k" using assms(1) by (elim dvdE)
  obtain j where j: "a = 4 * j" using assms(3) by (elim dvdE)
  have un: "unat (unit_at base a + 7) = unat base + 2 * a + 7"
    using page_base_room [OF assms(1)] unat_unit_at [OF assms(1,2)] assms(2) j unat_add_no_wrap [of "unit_at base a" 7]
    by simp
  have "(7 + 8 * (512 * k + j)) mod 8 = 7" by (simp only: mod_mult_self2) simp
  then have "(4096 * k + 2 * (4 * j) + 7) mod 8 = 7" by (simp add: algebra_simps)
  moreover have "NOT (7 :: u32) = NOT (mask 3)" by (simp add: mask_eq_exp_minus_1)
  ultimately have "unat (ALIGN (unit_at base a + 8 - 1) 8) = unat (unit_at base a)"
    using un unat_align_down [of "unit_at base a + 7" 3] k j unat_unit_at [OF assms(1,2)]
    by (simp add: ALIGN_def algebra_simps)
  then show ?thesis by (rule unsigned_word_eqI)
qed

lemma slob_scan_step:
  assumes base: "page_base base" "base \<noteq> NULL" and "0 < n" "a + n \<le> nx" "nx \<le> 2048" "4 dvd a" and h: "has_header (slob_mem s) base a n nx"
  shows "slob_scan pg (int u) 8 prevp (unit_at base a) s =
      (if u \<le> n then Some (slob_take pg (int u) 8 prevp (unit_at base a) (unit_at base a) 0 s)
       else if nx = 2048 then Some (NULL, s)
       else slob_scan pg (int u) 8 (unit_at base a) (unit_at base nx) s)"
proof -
  have lt: "a < 2048" using assms(3-5) by simp
  have cur: "slob_units (unit_at base a) s = int n" "slob_next (unit_at base a) s = unit_at base nx"
    using header_units [OF h assms(3)] assms lt by simp_all
  have al: "ALIGN (unit_at base a + 8 - 1) 8 = unit_at base a" using base(1) lt assms(6) by (rule aligned_no_delta)
  have last: "slob_last (unit_at base a) s \<longleftrightarrow> nx = 2048"
    unfolding slob_last_def cur(2) using assms by (intro unit_last [OF base(1)]) simp_all
  have ud: "unit_diff p p = 0" for p by (simp add: unit_diff_def)
  show ?thesis using al by (subst slob_scan.simps) (simp add: cur last ud Let_def)
qed

lemma slob_scan_first_fit:
  assumes base: "page_base base" "base \<noteq> NULL" and u: "0 < u" and c: "slob_chain (slob_mem s) base (pre @ bs) 2048"
    and al: "\<forall>x \<in> set bs. 4 dvd fst x" and ne: "bs \<noteq> []"
  shows "case first_fit u bs of
      None \<Rightarrow> slob_scan pg (int u) 8 (prev_ptr base pre) (unit_at base (chain_head bs 2048)) s = Some (NULL, s)
    | Some (a, bs') \<Rightarrow>
        \<exists>s'. slob_scan pg (int u) 8 (prev_ptr base pre) (unit_at base (chain_head bs 2048)) s = Some (unit_at base a + 8, s') \<and>
          slob_chain (slob_mem s') base (pre @ bs') 2048 \<and>
          page_units s' = (page_units s)(pg := page_units s pg - int u) \<and>
          page_index s' = (if pre = [] \<and> fst (hd bs) = a then (page_index s)(pg := unit_at base (chain_head bs' 2048)) else page_index s)"
  using c al ne
proof (induction bs arbitrary: pre)
  case Nil
  then show ?case by simp
next
  case (Cons x xs)
  obtain a n where x: "x = (a, n)" by (cases x)
  let ?nx = "chain_head xs 2048"
  have h: "0 < n" "a + n \<le> ?nx" "?nx \<le> 2048" "has_header (slob_mem s) base a n ?nx" "slob_chain (slob_mem s) base xs 2048"
    using Cons.prems(1) chain_head_le [of "slob_mem s" base xs 2048] by (simp_all add: chain_append x)
  have d: "4 dvd a" using Cons.prems(2) x by auto
  note step = slob_scan_step [OF base h(1-3) d h(4), of pg u "prev_ptr base pre"]
  show ?case
  proof (cases "u \<le> n")
    case True
    obtain s' where t: "slob_take pg (int u) 8 (prev_ptr base pre) (unit_at base a) (unit_at base a) 0 s = (unit_at base a + 8, s')"
      "slob_mem s' = take_mem base pre a n u ?nx (slob_mem s)"
      "page_units s' = (page_units s)(pg := page_units s pg - int u)"
      "page_index s' = (if pre = [] then (page_index s)(pg := unit_at base (if n = u then ?nx else a + u)) else page_index s)"
      using slob_take_result [OF base, of s pre a n xs u pg 8 "unit_at base a"] Cons.prems(1) u True x by blast
    have "slob_chain (slob_mem s') base (pre @ (if n = u then xs else (a + u, n - u) # xs)) 2048"
      unfolding t(2) using Cons.prems(1) u True x by (intro chain_take_mem) simp_all
    then show ?thesis using t True step by (auto simp: x)
  next
    case False
    show ?thesis
    proof (cases xs)
      case Nil
      then show ?thesis using step False by (simp add: x)
    next
      case (Cons y ys)
      then obtain b k where y: "y = (b, k)" by (cases y)
      have nx: "?nx = b" "b \<noteq> 2048" using h(5) Cons y chain_head_le [of "slob_mem s" base ys 2048] by auto
      have pp: "prev_ptr base (pre @ [(a, n)]) = unit_at base a" by (simp add: prev_ptr_def)
      have ab: "a < b" using h(1,2) nx by simp
      have fst_ne: "first_fit u xs = Some (c, bs') \<Longrightarrow> c \<noteq> a" for c bs'
      proof -
        assume "first_fit u xs = Some (c, bs')"
        then have "c \<in> fst ` set xs" by (induction xs arbitrary: bs') (auto split: if_splits)
        then show "c \<noteq> a" using chain_lower [OF h(5)] nx ab by fastforce
      qed
      have al': "\<forall>x \<in> set xs. 4 dvd fst x" using Cons.prems(2) by auto
      have c': "slob_chain (slob_mem s) base ((pre @ [(a, n)]) @ xs) 2048" using Cons.prems(1) x by simp
      have IH: "case first_fit u xs of
          None \<Rightarrow> slob_scan pg (int u) 8 (unit_at base a) (unit_at base ?nx) s = Some (NULL, s)
        | Some (c, bs') \<Rightarrow> \<exists>s'. slob_scan pg (int u) 8 (unit_at base a) (unit_at base ?nx) s = Some (unit_at base c + 8, s') \<and>
            slob_chain (slob_mem s') base (pre @ (a, n) # bs') 2048 \<and>
            page_units s' = (page_units s)(pg := page_units s pg - int u) \<and> page_index s' = page_index s"
        using Cons.IH [OF c' al'] Cons unfolding pp by (auto split: option.splits)
      then show ?thesis
        using step False nx fst_ne by (auto simp: x split: option.splits)
    qed
  qed
qed


lemma first_fit_head: "first_fit u bs = Some (a, bs') \<Longrightarrow> fst (hd bs) \<noteq> a \<Longrightarrow> chain_head bs' e = chain_head bs e"
  by (cases bs) (auto split: if_splits)

lemma unat_SLOB_UNITS: "unat bytes \<le> 4096 \<Longrightarrow> unat (SLOB_UNITS bytes) = (unat bytes + 1) div 2"
proof -
  assume "unat bytes \<le> 4096"
  then have "unat (bytes + 1) = unat bytes + 1" by (intro unat_Suc_no_wrap [unfolded Suc_eq_plus1]) simp
  then show ?thesis by (simp add: SLOB_UNITS_def unat_div add.commute [of bytes])
qed

subsection \<open>Properties\<close>

text \<open>
  C25. Allocation from a slob page is first fit. Take a page whose free list is a chain of blocks
  inside the page, aligned to eight bytes. \<open>slob_page_alloc\<close> always returns. If no block has enough
  units it returns \<open>NULL\<close> and changes nothing; otherwise it takes its object from the first block
  that has, unlinks the block or shortens it, returns the address eight bytes into the object, and
  leaves the other blocks as they are, the free list correctly linked and the unit count reduced.
\<close>

theorem slob_page_alloc_first_fit:
  assumes "page_base base" and "base \<noteq> NULL" and "slob_chain (slob_mem s) base bs 2048" and "bs \<noteq> []"
    and "\<forall>x \<in> set bs. 4 dvd fst x" and "page_index s pg = unit_at base (chain_head bs 2048)"
    and "0 < unat bytes" and "unat bytes \<le> 4096"
  shows "case first_fit ((unat bytes + 1) div 2) bs of
      None \<Rightarrow> slob_page_alloc pg bytes 8 s = Some (NULL, s)
    | Some (a, bs') \<Rightarrow> \<exists>s'. slob_page_alloc pg bytes 8 s = Some (unit_at base a + 8, s') \<and>
        slob_chain (slob_mem s') base bs' 2048 \<and> page_index s' pg = unit_at base (chain_head bs' 2048) \<and>
        page_units s' pg = page_units s pg - int ((unat bytes + 1) div 2)"
proof -
  let ?u = "(unat bytes + 1) div 2"
  have "SLOB_UNITS bytes = of_nat ?u"
    unfolding unat_SLOB_UNITS [OF assms(8), symmetric] by simp
  then have u: "sint (SLOB_UNITS bytes) = int ?u"
    using assms(8) sint_of_nat_below [of ?u, where 'a = 32] by simp
  have "0 < ?u" using assms(7) by simp
  note ff = slob_scan_first_fit [OF assms(1,2) this, of s "[]" bs pg, simplified append_Nil prev_ptr_def, OF assms(3,5,4)]
  show ?thesis
  proof (cases "first_fit ?u bs")
    case None
    then show ?thesis using ff by (simp add: slob_page_alloc_def u assms(6))
  next
    case (Some r)
    obtain a bs' where r: "r = (a, bs')" by (cases r)
    obtain s' where s': "slob_scan pg (int ?u) 8 NULL (unit_at base (chain_head bs 2048)) s = Some (unit_at base a + 8, s')"
      "slob_chain (slob_mem s') base bs' 2048" "page_units s' = (page_units s)(pg := page_units s pg - int ?u)"
      "page_index s' = (if fst (hd bs) = a then (page_index s)(pg := unit_at base (chain_head bs' 2048)) else page_index s)"
      using ff Some r by auto
    have "page_index s' pg = unit_at base (chain_head bs' 2048)"
      using s'(4) assms(6) first_fit_head [of ?u bs a bs' 2048] Some r by (cases "fst (hd bs) = a") simp_all
    then show ?thesis using s' Some r by (simp add: slob_page_alloc_def u assms(6))
  qed
qed

text \<open>A slob page at \<open>0x10000\<close> that is one free block.\<close>

definition example_slobs :: slobs where
  "example_slobs = pages.extend (example_zone\<lparr>page_index := \<lambda>_. 65536, page_units := \<lambda>_. 2048\<rparr>)
     (slobs.fields (put_header 65536 0 2048 2048 (\<lambda>_. 0)) 700 708 716 724)"

lemma example_slobs_page:
  "slob_chain (slob_mem example_slobs) 65536 [(0, 2048)] 2048" "page_index example_slobs pg = 65536"
  "page_units example_slobs pg = 2048"
  by (simp_all add: example_slobs_def slobs.defs pages.defs put_header_has)

theorem slob_page_alloc_first_fit_witness:
  "\<exists>s'. slob_page_alloc 65560 24 8 example_slobs = Some (65544, s') \<and>
     slob_chain (slob_mem s') 65536 [(12, 2036)] 2048 \<and> page_index s' 65560 = 65560 \<and> page_units s' 65560 = 2036"
  using slob_page_alloc_first_fit [of 65536 example_slobs "[(0, 2048)]" 65560 24]
  by (simp add: example_slobs_page unit_at_def del: slob_chain.simps)

text \<open>
  An object of \<open>kmalloc\<close> can overlap the next block. \<open>kmalloc\<close> adds one unit to the size and
  rounds up to eight, but the pointer it returns is eight bytes into the object. For a size that
  leaves a remainder of one to six modulo eight, allocated from a page that is one free block, the
  header of the block that stays free lies inside the memory the caller was given.
\<close>

theorem kmalloc_object_overlaps_free_block:
  assumes "page_base base" and "base \<noteq> NULL" and "slob_chain (slob_mem s) base [(0, 2048)] 2048"
    and "page_index s pg = base" and "unat bytes < 4000" and "1 \<le> unat bytes mod 8" and "unat bytes mod 8 \<le> 6"
  shows "\<exists>p s'. slob_page_alloc pg (kmalloc_size bytes) 8 s = Some (p, s') \<and> p \<noteq> NULL \<and>
    p \<le> page_index s' pg \<and> page_index s' pg < p + bytes"
proof -
  let ?n = "unat bytes" and ?r = "unat bytes mod 8"
  have un: "unat (bytes + 9) = ?n + 9" using assms(5) by (subst unat_add_no_wrap) simp_all
  have "NOT (7 :: u32) = NOT (mask 3)" by (simp add: mask_eq_exp_minus_1)
  then have "unat (kmalloc_size bytes) = ?n + 9 - (?n + 9) mod 8"
    using un unat_align_down [of "bytes + 9" 3] by (simp add: kmalloc_size_def ALIGN_def add.commute [of bytes])
  also have "(?n + 9) mod 8 = ?r + 1" using assms(6,7) by presburger
  finally have k: "unat (kmalloc_size bytes) = ?n - ?r + 8" by simp
  have "8 dvd ?n - ?r" by (rule dvd_minus_mod)
  then obtain j where j: "?n - ?r = 8 * j" by (elim dvdE)
  have u: "(8 * j + 8 + 1) div 2 = 4 * j + 4" by presburger
  have jn: "j < 500" using j assms(5) by linarith
  obtain s' where s': "slob_page_alloc pg (kmalloc_size bytes) 8 s = Some (unit_at base 0 + 8, s')"
      "page_index s' pg = unit_at base (4 * j + 4)"
    using slob_page_alloc_first_fit [of base s "[(0, 2048)]" pg "kmalloc_size bytes"] assms(1-5) jn
    unfolding k j u by (auto simp: unit_at_def)
  have p: "unit_at base 0 + 8 = unit_at base 4" by (simp add: unit_at_def)
  have un4: "unat (unit_at base 4) = unat base + 8" "unat (unit_at base (4 * j + 4)) = unat base + 8 * j + 8"
    using unat_unit_at [OF assms(1)] jn by simp_all
  have "unat (unit_at base 4 + bytes) = unat base + 8 + ?n"
    using un4 page_base_room [OF assms(1)] assms(5) by (subst unat_add_no_wrap) simp_all
  moreover have "8 * j < ?n" using j assms(6) by linarith
  ultimately have "unit_at base 4 \<le> unit_at base (4 * j + 4)" "unit_at base (4 * j + 4) < unit_at base 4 + bytes"
    using un4 by (simp_all add: word_le_nat_alt word_less_nat_alt)
  moreover have "unit_at base 4 \<noteq> NULL" using un4(1) by (metis unsigned_0 add_is_0 zero_neq_numeral)
  ultimately show ?thesis using s' unfolding p by auto
qed

theorem kmalloc_object_overlaps_free_block_witness:
  "\<exists>p s'. slob_page_alloc 65560 (kmalloc_size 6) 8 example_slobs = Some (p, s') \<and> p \<noteq> NULL \<and>
     p \<le> page_index s' 65560 \<and> page_index s' 65560 < p + 6"
  by (rule kmalloc_object_overlaps_free_block [of 65536])
    (simp_all add: example_slobs_page del: slob_chain.simps)

end
