(* ===== verification/Heap.thy ===== *)
theory Heap
  imports Slob
begin

section \<open>The heap from its initialisation on: \<open>mm/malloc.c\<close> over \<open>mm/page_alloc.c\<close>\<close>

text \<open>
  The calls the rest of the kernel makes, with the lock of the zone: what \<open>kmalloc_init\<close> establishes, what \<open>kmalloc\<close> gives
  out when it allocates whole pages, and what \<open>kfree\<close> takes back.
\<close>

subsection \<open>The unlocked zone\<close>


lemma zone_down_free:
  assumes "0 < sem_count s sem"
  shows "\<exists>s'. down others w sem s = Some s' \<and> links s' = links s \<and>
    sem_count s' = (sem_count s)(sem := sem_count s sem - 1) \<and> sync.more s' = sync.more s"
  using assms by (simp add: down_def enter_critical_section_def exit_critical_section_def Let_def)

lemma zone_up_free:
  assumes "dlist (links s) (wait_list sem) []"
  shows "links (up sem s) = links s" "sem_count (up sem s) = (sem_count s)(sem := sem_count s sem + 1)"
    "sync.more (up sem s) = sync.more s"
  using list_empty_dlist [OF assms]
  by (simp_all add: up_def enter_critical_section_def exit_critical_section_def Let_def)

lemma pages_sel_more:
  fixes s s' :: "'a pages_scheme"
  assumes "sync.more s' = sync.more s"
  shows "page_flags s' = page_flags s" "page_index s' = page_index s" "page_units s' = page_units s"
    "page_private s' = page_private s" "zone_start_pfn s' = zone_start_pfn s" "spanned_pages s' = spanned_pages s"
    "managed_pages s' = managed_pages s" "nr_free s' = nr_free s" "zone_addr s' = zone_addr s"
    "memmap_pages s' = memmap_pages s" "pages.more s' = pages.more s"
    "page_of s' = page_of s" "free_list s' = free_list s" "zone_lock s' = zone_lock s"
  using assms by (cases s; cases s'; simp add: page_of_def free_list_def zone_lock_def fun_eq_iff)+

lemma buddy_inv_more:
  assumes "sync.more s' = sync.more s" "links s' = links s"
  shows "buddy_inv s' N B = buddy_inv s N B"
  unfolding buddy_inv_def zone_ok_def PageBuddy_def page_order_def pages_sel_more [OF assms(1)] assms(2) ..

text \<open>
  The zone between two calls of the allocator: consistent, unlocked, the page map at the start of the first page, and
  nothing of the lock inside the lists.
\<close>

definition heap_ok :: "'a pages_scheme \<Rightarrow> nat \<Rightarrow> (nat \<Rightarrow> nat list) \<Rightarrow> bool" where
  "heap_ok s N B \<longleftrightarrow> buddy_inv s N B \<and> sem_count s (zone_lock s) = 1 \<and> dlist (links s) (wait_list (zone_lock s)) [] \<and>
     outside_zone s N (wait_list (zone_lock s)) \<and> unat (spanned_pages s) = N \<and> zone_start_pfn s \<noteq> 0 \<and>
     memmap_pages s = push_bit PAGE_SHIFT (zone_start_pfn s) \<and> unat (zone_start_pfn s) + N < 2 ^ 20"

lemma heap_okD:
  assumes "heap_ok s N B"
  shows "buddy_inv s N B" "sem_count s (zone_lock s) = 1" "dlist (links s) (wait_list (zone_lock s)) []"
    "outside_zone s N (wait_list (zone_lock s))" "unat (spanned_pages s) = N" "zone_start_pfn s \<noteq> 0"
    "memmap_pages s = push_bit PAGE_SHIFT (zone_start_pfn s)" "unat (zone_start_pfn s) + N < 2 ^ 20"
  using assms unfolding heap_ok_def by blast+

text \<open>An operation on the free blocks between \<open>down\<close> and \<open>up\<close> of the zone's lock.\<close>

lemma heap_locked:
  assumes ok: "heap_ok s N B"
  obtains s1 where "down others w (zone_lock s) s = Some s1" "buddy_inv s1 N B" "page_of s1 = page_of s"
    "sync.more s1 = sync.more s"
    "\<And>s2 B2. zone_frame N s1 s2 \<Longrightarrow> buddy_inv s2 N B2 \<Longrightarrow>
      heap_ok (up (zone_lock s2) s2) N B2 \<and> sync.more (up (zone_lock s2) s2) = sync.more s2"
proof -
  obtain s1 where s1: "down others w (zone_lock s) s = Some s1" "links s1 = links s"
      "sem_count s1 = (sem_count s)(zone_lock s := 0)" "sync.more s1 = sync.more s"
    using zone_down_free [of s "zone_lock s" others w] heap_okD(2) [OF ok] by auto
  note m = pages_sel_more [OF s1(4)]
  have "heap_ok (up (zone_lock s2) s2) N B2 \<and> sync.more (up (zone_lock s2) s2) = sync.more s2"
    if fr: "zone_frame N s1 s2" and inv: "buddy_inv s2 N B2" for s2 B2
  proof -
    note f = zone_frameD [OF fr]
    have z: "zone_lock s2 = zone_lock s" using f(2) m by (simp add: zone_lock_def)
    have o: "outside_zone t N q \<longleftrightarrow> outside_zone s N q" if "page_of t = page_of s" "free_list t = free_list s" for t q
      using that by (simp add: outside_zone_def)
    have d: "dlist (links s2) (wait_list (zone_lock s2)) []"
      unfolding z using heap_okD(3,4) [OF ok] o [of s1] m s1(2) by (intro f(11)) simp_all
    define s3 where "s3 = up (zone_lock s2) s2"
    note u = zone_up_free [OF d, folded s3_def] and um = pages_sel_more [OF zone_up_free(3) [OF d, folded s3_def]]
    have "sem_count s3 (zone_lock s) = 1" using u(2) z f(7) s1(3) by simp
    then have "heap_ok s3 N B2"
      using inv d heap_okD [OF ok] o [of s3] unfolding heap_ok_def buddy_inv_more [OF u(3,1)] um u(1) f m z by simp
    then show ?thesis using u(3) unfolding s3_def by simp
  qed
  then show thesis using that s1(1,4) m(12) heap_okD(1) [OF ok] buddy_inv_more [OF s1(4,2)] by blast
qed

lemma alloc_pages_heap:
  assumes ok: "heap_ok s N B" and k: "get_order bytes \<le> k" "k < MAX_ORDER" "B k \<noteq> []"
  shows "\<exists>i s' B'. alloc_pages others w bytes s = Some (page_of s i, s') \<and> heap_ok s' N B' \<and>
    free_set B' = free_set B - block_pages (get_order bytes, i) \<and> block_pages (get_order bytes, i) \<subseteq> free_set B \<and>
    page_private s' (page_of s i) = of_nat (get_order bytes) \<and> page_index s' = page_index s \<and>
    page_flags s' = page_flags s \<and> pages.more s' = pages.more s \<and> memmap_pages s' = memmap_pages s \<and>
    (B (get_order bytes) \<noteq> [] \<longrightarrow> i = hd (B (get_order bytes)) \<and> B' = B(get_order bytes := tl (B (get_order bytes))))"
proof -
  let ?o = "get_order bytes"
  obtain s1 where s1: "down others w (zone_lock s) s = Some s1" "buddy_inv s1 N B" "page_of s1 = page_of s"
    "sync.more s1 = sync.more s" and up: "\<And>s2 B2. zone_frame N s1 s2 \<Longrightarrow> buddy_inv s2 N B2 \<Longrightarrow>
      heap_ok (up (zone_lock s2) s2) N B2 \<and> sync.more (up (zone_lock s2) s2) = sync.more s2"
    using heap_locked [OF ok] by blast
  obtain c i s2 B2 where r: "?o \<le> c" "\<forall>j. ?o \<le> j \<and> j < c \<longrightarrow> B j = []" "i = hd (B c)"
    "rmqueue ?o s1 = (page_of s1 i, s2)" "buddy_inv s2 N B2" "free_set B2 = free_set B - block_pages (?o, i)"
    "block_pages (?o, i) \<subseteq> free_set B" "page_private s2 (page_of s1 i) = of_nat ?o" "zone_frame N s1 s2"
    "c = ?o \<longrightarrow> B2 = B(c := tl (B c))"
    using rmqueue_result [OF s1(2) k] by blast
  let ?s3 = "up (zone_lock s2) s2"
  have u: "heap_ok ?s3 N B2" "sync.more ?s3 = sync.more s2" using up [OF r(9,5)] by blast+
  note um = pages_sel_more [OF u(2)] and m = pages_sel_more [OF s1(4)] and f = zone_frameD [OF r(9)]
  have "alloc_pages others w bytes s = Some (page_of s i, ?s3)"
    using k s1(1,3) r(4) by (simp add: alloc_pages_def)
  moreover have "B ?o \<noteq> [] \<longrightarrow> i = hd (B ?o) \<and> B2 = B(?o := tl (B ?o))"
    using r(1-3,10) by (cases "c = ?o") auto
  ultimately show ?thesis using u(1) r(6-8) um m f s1(3) by (intro exI [of _ i] exI [of _ ?s3] exI [of _ B2]) simp
qed

lemma heap_page_address:
  assumes ok: "heap_ok s N B" and i: "i < N"
  shows "virt_to_page (page_address (page_of s i) s) s = page_of s i" "page_of s i \<noteq> NULL"
    "page_address (page_of s i) s \<noteq> 0" "page_address (page_of s i) s AND mask 12 = 0"
proof -
  note h = heap_okD [OF ok]
  show "virt_to_page (page_address (page_of s i) s) s = page_of s i"
    using h(5-8) i by (intro virt_to_page_page_address) simp_all
  let ?z = "zone_start_pfn s"
  have z: "0 < unat ?z" "unat ?z + i < 2 ^ 20" using h(6,8) i unat_gt_0 [of ?z] by auto
  have "page_of s i = of_nat (4096 * unat ?z + 24 * i)"
    by (simp add: page_of_def page_plus_def h(7) push_bit_eq_mult)
  moreover have "4096 * unat ?z + 24 * i < 2 ^ 32" using z by simp
  ultimately have "unat (page_of s i) = 4096 * unat ?z + 24 * i"
    using unat_of_nat_below [of "4096 * unat ?z + 24 * i", where 'a = 32] by simp
  then show "page_of s i \<noteq> NULL" using z(1) by auto
  have a: "page_address (page_of s i) s = push_bit 12 (?z + of_nat i)"
    using z(2) by (subst page_address_eq) (simp_all add: h(7) push_bit_eq_mult algebra_simps)
  then have "page_address (page_of s i) s = of_nat (4096 * (unat ?z + i))"
    by (simp add: push_bit_eq_mult algebra_simps)
  moreover have "4096 * (unat ?z + i) < 2 ^ 32" using z(2) by simp
  ultimately have "unat (page_address (page_of s i) s) = 4096 * (unat ?z + i)"
    using unat_of_nat_below [of "4096 * (unat ?z + i)", where 'a = 32] by simp
  then show "page_address (page_of s i) s \<noteq> 0" using z(1) by auto
  show "page_address (page_of s i) s AND mask 12 = 0"
    unfolding a by (rule bit_word_eqI) (simp add: bit_simps)
qed

lemma free_pages_heap:
  assumes ok: "heap_ok s N B" and k: "k < MAX_ORDER" "i + 2 ^ k \<le> N" "block_pages (k, i) \<inter> free_set B = {}"
    and idx: "page_index s (page_of s i) = of_nat i" "page_private s (page_of s i) = of_nat k"
  shows "\<exists>s' B'. free_pages others w (page_address (page_of s i) s) s = Some (Inr s') \<and> heap_ok s' N B' \<and>
    free_set B' = free_set B \<union> block_pages (k, i)"
proof -
  obtain s1 where s1: "down others w (zone_lock s) s = Some s1" "buddy_inv s1 N B" "page_of s1 = page_of s"
    "sync.more s1 = sync.more s" and up: "\<And>s2 B2. zone_frame N s1 s2 \<Longrightarrow> buddy_inv s2 N B2 \<Longrightarrow>
      heap_ok (up (zone_lock s2) s2) N B2 \<and> sync.more (up (zone_lock s2) s2) = sync.more s2"
    using heap_locked [OF ok] by blast
  note m = pages_sel_more [OF s1(4)]
  obtain s2 B2 where r: "free_one_page (page_of s1 i) k s1 = Inr s2" "buddy_inv s2 N B2"
      "free_set B2 = free_set B \<union> block_pages (k, i)" "zone_frame N s1 s2"
    using free_one_page_inv [OF s1(2) k] idx(1) m by auto
  have "i < N" using k(2) by (rule less_le_trans [rotated]) simp
  from heap_page_address [OF ok this] have "free_pages others w (page_address (page_of s i) s) s = Some (Inr (up (zone_lock s2) s2))"
    using s1(1,3) r(1) k(1) idx(2) unat_of_nat_below [of k, where 'a = 32]
    by (simp add: free_pages_def free_pages_order_def)
  then show ?thesis using up [OF r(4,2)] r(3) by blast
qed


subsection \<open>Initialisation\<close>

text \<open>Which orders get a block when pages are distributed: those of the binary digits of their number.\<close>

lemma spread_keeps: "B k \<noteq> [] \<Longrightarrow> spread order i n B k \<noteq> []"
  by (induction order i n B rule: spread.induct) (subst spread.simps, simp)

lemma spread_block:
  assumes "k \<le> order" and "2 ^ k \<le> n mod 2 ^ Suc k"
  shows "spread order i n B k \<noteq> []"
  using assms
proof (induction order i n B rule: spread.induct)
  case (1 order i n B)
  have n: "2 ^ k \<le> n" using "1.prems"(2) mod_less_eq_dividend [of n "2 ^ Suc k"] by linarith
  consider "order = k" | "k < order" using "1.prems"(1) by linarith
  then show ?case
  proof cases
    case 1
    then show ?thesis using n spread_keeps by (subst spread.simps) simp
  next
    case 2
    have "(n - 2 ^ order) mod 2 ^ Suc k = n mod 2 ^ Suc k" if "2 ^ order \<le> n"
      using le_imp_power_dvd [of "Suc k" order "2 :: nat"] 2 that by (metis Suc_leI mod_eq_dvd_iff_nat diff_diff_cancel diff_le_self)
    then show ?thesis using 2 "1.prems" "1.IH" by (subst spread.simps) (auto simp: fun_upd_def)
  qed
qed

lemma aligned_address: "push_bit PAGE_SHIFT (drop_bit PAGE_SHIFT (x AND PAGE_MASK)) = x AND PAGE_MASK" for x :: u32
  by (rule bit_word_eqI) (auto simp: bit_simps)

lemma kmalloc_init_heap:
  assumes ok: "region_ok addr bytes N used s" and a: "a = (addr + PAGE_SIZE - 1) AND PAGE_MASK"
    and z: "a \<noteq> 0" "unat (drop_bit PAGE_SHIFT a) + N < 2 ^ 20"
    and lock: "\<And>i. i < N \<Longrightarrow> wait_list (zone_lock s) \<noteq> page_node (page_plus a (of_nat i))"
  shows "heap_ok (kmalloc_init addr bytes s) N (initial_blocks used N)"
    "free_set (initial_blocks used N) = {used..<N}" "memmap_pages (kmalloc_init addr bytes s) = a"
    "pages.more (kmalloc_init addr bytes s) = pages.more s"
    "zone_frame N (fold init_page [0..<N - used] (empty_zone a (of_nat N) (of_nat used) s)) (kmalloc_init addr bytes s)"
proof -
  have "addr \<noteq> NULL" using ok by (simp add: region_ok_def Let_def)
  then have k: "kmalloc_init addr bytes s = page_alloc_init addr bytes s" by (simp add: kmalloc_init_def)
  define t where "t = fold init_page [0..<N - used] (empty_zone a (of_nat N) (of_nat used) s)"
  note i = page_alloc_init_zone [OF ok a refl]
  have fr: "zone_frame N t (kmalloc_init addr bytes s)" using i(4) unfolding k t_def .
  then show "zone_frame N (fold init_page [0..<N - used] (empty_zone a (of_nat N) (of_nat used) s)) (kmalloc_init addr bytes s)"
    unfolding t_def .
  note f = zone_frameD [OF fr]
  have "zone_lock t = zone_lock s" by (simp add: t_def zone_lock_def)
  then have zl: "zone_lock (kmalloc_init addr bytes s) = zone_lock s" using f(2) by (simp add: zone_lock_def)
  have o: "outside_zone t N (wait_list (zone_lock s))"
    using lock zone_lock_outside [of _ s] zone_sel_cong(2) [of t "empty_zone a (of_nat N) (of_nat used) s"]
    by (simp add: outside_zone_def t_def)
  moreover have "outside_zone (kmalloc_init addr bytes s) N (wait_list (zone_lock s))"
    using o f by (simp add: outside_zone_def)
  moreover have "dlist (links (kmalloc_init addr bytes s)) (wait_list (zone_lock s)) []"
    using o by (rule f(11)) (simp add: t_def)
  moreover have "drop_bit PAGE_SHIFT a \<noteq> 0" using z(1) aligned_address [of "addr + PAGE_SIZE - 1", folded a] by auto
  ultimately show "heap_ok (kmalloc_init addr bytes s) N (initial_blocks used N)"
    using i z f aligned_address [of "addr + PAGE_SIZE - 1", folded a] unfolding heap_ok_def zl k [symmetric]
    by (simp add: t_def)
  show "free_set (initial_blocks used N) = {used..<N}" "memmap_pages (kmalloc_init addr bytes s) = a"
    "pages.more (kmalloc_init addr bytes s) = pages.more s"
    using i f unfolding t_def by simp_all
qed

text \<open>The region of the example of \<open>Page_Alloc\<close>: four pages at \<open>0x2000\<close>, the first of them for the page structures.\<close>

definition example_heap_region :: slobs where
  "example_heap_region = pages.extend (example_region\<lparr>page_flags := \<lambda>_. 255, page_index := \<lambda>_. 77\<rparr>)
     (slobs.fields (\<lambda>_. 0) 700 708 716 724)"

lemma example_heap_ok:
  "heap_ok (kmalloc_init 8000 20000 example_heap_region) 4 ((\<lambda>_. [])(1 := [1], 0 := [3]))"
  "free_set ((\<lambda>_. [])(1 := [1], 0 := [3])) = {1, 2, 3}"
  "memmap_pages (kmalloc_init 8000 20000 example_heap_region) = 8192"
  "zone_frame 4 (fold init_page [0..<3] (empty_zone 8192 4 1 example_heap_region)) (kmalloc_init 8000 20000 example_heap_region)"
proof -
  have r: "region_ok 8000 20000 4 1 example_heap_region"
    by (rule example_region_ok) (simp_all add: example_heap_region_def example_region_def pages.defs slobs.defs)
  have a: "(8192 :: u32) = (8000 + PAGE_SIZE - 1) AND PAGE_MASK" "unat (drop_bit PAGE_SHIFT 8192 :: u32) = 2"
    by code_simp+
  have l: "wait_list (zone_lock example_heap_region) \<noteq> page_node (page_plus 8192 (of_nat i))" if "i < 4" for i
  proof -
    have "24 * i < 96" using that by simp
    then have "(of_nat 1172 :: u32) \<noteq> of_nat (8196 + 24 * i)" by (subst of_nat_inj_below) simp_all
    then show ?thesis
      by (simp add: wait_list_def zone_lock_def example_heap_region_def example_region_def pages.defs slobs.defs page_node_def page_plus_def add.assoc)
  qed
  note k = kmalloc_init_heap [OF r a(1) _ _ l, unfolded example_initial_blocks]
  show "heap_ok (kmalloc_init 8000 20000 example_heap_region) 4 ((\<lambda>_. [])(1 := [1], 0 := [3]))"
    "memmap_pages (kmalloc_init 8000 20000 example_heap_region) = 8192"
    "zone_frame 4 (fold init_page [0..<3] (empty_zone 8192 4 1 example_heap_region)) (kmalloc_init 8000 20000 example_heap_region)"
    using k by (simp_all add: a(2) del: upt_rec_numeral)
  have "{1..<4} = {1, 2, 3 :: nat}" by auto
  then show "free_set ((\<lambda>_. [])(1 := [1], 0 := [3])) = {1, 2, 3}" using k(2) by (simp add: a(2))
qed

subsection \<open>Allocating and freeing whole pages\<close>

lemma kmalloc_size_fits:
  assumes "unat bytes + 9 < 2 ^ 32"
  shows "unat bytes + 2 \<le> unat (kmalloc_size bytes)" "unat (kmalloc_size bytes) \<le> unat bytes + 9"
proof -
  have u: "unat (bytes + 9) = unat bytes + 9" using assms by (subst unat_add_no_wrap) simp_all
  have "NOT (7 :: u32) = NOT (mask 3)" by (simp add: mask_eq_exp_minus_1)
  then have "unat (kmalloc_size bytes) = unat (bytes + 9) - unat (bytes + 9) mod 8"
    using unat_align_down [of "bytes + 9" 3] by (simp add: kmalloc_size_def ALIGN_def add.commute [of bytes])
  then show "unat bytes + 2 \<le> unat (kmalloc_size bytes)" "unat (kmalloc_size bytes) \<le> unat bytes + 9"
    unfolding u using mod_less_divisor [of 8 "unat bytes + 9"] by (linarith, linarith)
qed

lemma kmalloc_heap:
  assumes ok: "heap_ok s N B" and n: "n = kmalloc_size bytes" "unat bytes + 9 < 2 ^ 32" "4096 \<le> unat n"
    and k: "get_order n \<le> k" "k < MAX_ORDER" "B k \<noteq> []"
  shows "\<exists>i s1 B1. kmalloc others w bytes s = Some (Inr (page_address (page_of s i) s, s1)) \<and> heap_ok s1 N B1 \<and>
    free_set B1 = free_set B - block_pages (get_order n, i) \<and> block_pages (get_order n, i) \<subseteq> free_set B \<and> i + 2 ^ get_order n \<le> N \<and>
    page_private s1 (page_of s i) = of_nat (get_order n) \<and> page_index s1 = page_index s \<and> page_flags s1 = page_flags s \<and>
    memmap_pages s1 = memmap_pages s \<and> pages.more s1 = pages.more s \<and>
    (B (get_order n) \<noteq> [] \<longrightarrow> i = hd (B (get_order n)) \<and> B1 = B(get_order n := tl (B (get_order n))))"
proof -
  let ?o = "get_order n"
  obtain i s1 B1 where r: "alloc_pages others w n s = Some (page_of s i, s1)" "heap_ok s1 N B1"
      "free_set B1 = free_set B - block_pages (?o, i)" "block_pages (?o, i) \<subseteq> free_set B"
      "page_private s1 (page_of s i) = of_nat ?o" "page_index s1 = page_index s" "page_flags s1 = page_flags s"
      "memmap_pages s1 = memmap_pages s" "pages.more s1 = pages.more s"
      "B ?o \<noteq> [] \<longrightarrow> i = hd (B ?o) \<and> B1 = B(?o := tl (B ?o))"
    using alloc_pages_heap [OF ok k] by blast
  have "block_pages (?o, i) \<subseteq> {..<N}" using r(4) buddy_invD(4) [OF heap_okD(1) [OF ok]] by blast
  then have iN: "i + 2 ^ ?o \<le> N" by (rule block_end_in_zone)
  then have "i < N" by (rule less_le_trans [rotated]) simp
  note a = heap_page_address [OF ok this]
  have "\<not> n < PAGE_SIZE" using n(3) by (simp add: word_less_nat_alt)
  moreover have "bytes \<noteq> 0" using n kmalloc_size_fits(2) [OF n(2)] by auto
  moreover have "page_address (page_of s i) s1 = page_address (page_of s i) s" by (simp add: page_address_def r(8))
  ultimately have "kmalloc others w bytes s = Some (Inr (page_address (page_of s i) s, s1))"
    using r(1) a(2) by (simp add: kmalloc_def slob_new_pages_def n(1) [symmetric])
  then show ?thesis using r(2-10) iN by blast
qed

text \<open>
  C4. A large allocation is exclusive and can be given back. In a consistent, unlocked zone with a free block that is large
  enough, \<open>kmalloc\<close> of at least a page returns the page-aligned address of a block of pages that were all free and hold the
  size asked for, and exactly these pages are no longer free. If the structure of the first of these pages holds its page
  number and is not marked as a page of small objects, then \<open>kfree\<close> of the address leaves a consistent, unlocked zone with the
  same free pages as before. The condition holds for the structures that \<open>page_alloc_init\<close> initialises; these are all but the
  last \<open>used_pages\<close> of the zone.
\<close>

theorem kmalloc_pages_exclusive:
  assumes ok: "heap_ok s N B" and n: "n = kmalloc_size bytes" "unat bytes + 9 < 2 ^ 32" "4096 \<le> unat n"
    and k: "get_order n \<le> k" "k < MAX_ORDER" "B k \<noteq> []"
  shows "\<exists>i s1 B1. kmalloc others w bytes s = Some (Inr (page_address (page_of s i) s, s1)) \<and>
    page_address (page_of s i) s AND mask 12 = 0 \<and> page_address (page_of s i) s \<noteq> NULL \<and>
    block_pages (get_order n, i) \<subseteq> free_set B \<and> unat bytes \<le> 4096 * 2 ^ get_order n \<and>
    heap_ok s1 N B1 \<and> free_set B1 = free_set B - block_pages (get_order n, i) \<and>
    (page_index s (page_of s i) = of_nat i \<and> \<not> PageSlob (page_of s i) s \<longrightarrow>
      (\<exists>s2 B2. kfree others w (page_address (page_of s i) s) s1 = Some (Inr s2) \<and> heap_ok s2 N B2 \<and> free_set B2 = free_set B))"
proof -
  let ?o = "get_order n"
  obtain i s1 B1 where r: "kmalloc others w bytes s = Some (Inr (page_address (page_of s i) s, s1))" "heap_ok s1 N B1"
      "free_set B1 = free_set B - block_pages (?o, i)" "block_pages (?o, i) \<subseteq> free_set B" "i + 2 ^ ?o \<le> N"
      "page_private s1 (page_of s i) = of_nat ?o" "page_index s1 = page_index s" "page_flags s1 = page_flags s"
      "memmap_pages s1 = memmap_pages s"
    using kmalloc_heap [OF ok n k] by blast
  have o: "?o < MAX_ORDER" using k by simp
  have "i < N" using r(5) by (rule less_le_trans [rotated]) simp
  note a = heap_page_address [OF ok this] and a1 = heap_page_address [OF r(2) this]
  have p: "page_of s1 i = page_of s i" "page_address (page_of s i) s1 = page_address (page_of s i) s"
    by (simp_all add: page_of_def page_address_def r(9))
  have "n \<noteq> 0" using n(3) by auto
  then have fits: "unat bytes \<le> 4096 * 2 ^ ?o" using get_order_bounds(1) [of n] kmalloc_size_fits(1) [OF n(2)] n(1) by simp
  have "\<exists>s2 B2. kfree others w (page_address (page_of s i) s) s1 = Some (Inr s2) \<and> heap_ok s2 N B2 \<and> free_set B2 = free_set B"
    if page: "page_index s (page_of s i) = of_nat i" "\<not> PageSlob (page_of s i) s"
  proof -
    have "page_index s1 (page_of s1 i) = of_nat i" "page_private s1 (page_of s1 i) = of_nat ?o"
      using r(6,7) page(1) by (simp_all add: p)
    moreover have "block_pages (?o, i) \<inter> free_set B1 = {}" using r(3) by blast
    ultimately obtain s2 B2 where f: "free_pages others w (page_address (page_of s1 i) s1) s1 = Some (Inr s2)" "heap_ok s2 N B2"
        "free_set B2 = free_set B1 \<union> block_pages (?o, i)"
      using free_pages_heap [OF r(2) o r(5)] by blast
    have "\<not> PageSlob (page_of s i) s1" using page(2) r(8) by (simp add: PageSlob_def)
    then have "kfree others w (page_address (page_of s i) s) s1 = Some (Inr s2)"
      using f(1) a(3) a1(1,2) by (simp add: kfree_def p)
    moreover have "free_set B2 = free_set B" using f(3) r(3,4) by blast
    ultimately show ?thesis using f(2) by blast
  qed
  then show ?thesis using r(1-4) a(3,4) fits by blast
qed

lemma example_heap_pages:
  assumes "i \<in> {1, 2}"
  shows "page_index (kmalloc_init 8000 20000 example_heap_region) (page_of (kmalloc_init 8000 20000 example_heap_region) i) = of_nat i \<and>
    \<not> PageSlob (page_of (kmalloc_init 8000 20000 example_heap_region) i) (kmalloc_init 8000 20000 example_heap_region)"
proof -
  let ?z = "empty_zone 8192 4 1 example_heap_region"
  note f = zone_frameD [OF example_heap_ok(4)] and p = fold_init_page [of 3 _ ?z]
  have "page_of (kmalloc_init 8000 20000 example_heap_region) i = page_of ?z i" using f(9) by simp
  moreover have "i < 3" using assms by auto
  ultimately show ?thesis unfolding PageSlob_def f(3,4) using p(2,3) by (simp add: test_bit_ul_def)
qed

text \<open>Four pages whose structures held other values before; one page and a half is two pages.\<close>

theorem kmalloc_pages_exclusive_witness:
  "\<exists>a s1 s2 B2. kmalloc (\<lambda>_ _ s. s) 0x7000 4096 (kmalloc_init 8000 20000 example_heap_region) = Some (Inr (a, s1)) \<and>
     a AND mask 12 = 0 \<and> kfree (\<lambda>_ _ s. s) 0x7000 a s1 = Some (Inr s2) \<and> heap_ok s2 4 B2 \<and> free_set B2 = {1, 2, 3}"
proof -
  have o: "4104 = kmalloc_size 4096" "get_order 4104 = 1" by code_simp+
  let ?s = "kmalloc_init 8000 20000 example_heap_region"
  obtain i s1 where r: "kmalloc (\<lambda>_ _ s. s) 0x7000 4096 ?s = Some (Inr (page_address (page_of ?s i) ?s, s1))"
      "page_address (page_of ?s i) ?s AND mask 12 = 0" "block_pages (1, i) \<subseteq> {1, 2, 3}"
      "page_index ?s (page_of ?s i) = of_nat i \<and> \<not> PageSlob (page_of ?s i) ?s \<longrightarrow>
        (\<exists>s2 B2. kfree (\<lambda>_ _ s. s) 0x7000 (page_address (page_of ?s i) ?s) s1 = Some (Inr s2) \<and> heap_ok s2 4 B2 \<and> free_set B2 = {1, 2, 3})"
    using kmalloc_pages_exclusive [OF example_heap_ok(1) o(1), where k = 1 and others = "\<lambda>_ _ s. s" and w = "0x7000"]
    unfolding o(2) example_heap_ok(2) by auto
  have "i \<in> {1, 2, 3} \<and> Suc i \<in> {1, 2, 3}" by (intro conjI subsetD [OF r(3)]) simp_all
  then have "i \<in> {1, 2}" by auto
  from r(4) [THEN mp, OF example_heap_pages [OF this]] r(1,2) show ?thesis by blast
qed

end
