(* ===== verification/Printk.thy ===== *)
theory Printk
  imports Timer Strings
begin

section \<open>Formatted output and the kernel log: \<open>kernel/printk.c\<close>, \<open>kernel/debug.c\<close>\<close>

text \<open>
  A C string is the list of its bytes before the terminator. The variable arguments are a list of
  machine words, 64-bit words and string pointers (\<open>None\<close> is the null pointer); reading an argument
  of another kind than the caller passed, or one too many, is the error \<open>Bad_Vararg\<close>. The log is a
  ring buffer of bytes; a record starts with its length, the length of its text and its level,
  little-endian. A read or write outside of the buffer is the error \<open>Out_Of_Bounds\<close>.
\<close>

abbreviation LONGFLAG :: u32 where "LONGFLAG \<equiv> 1"
abbreviation LONGLONGFLAG :: u32 where "LONGLONGFLAG \<equiv> 2"
abbreviation HALFFLAG :: u32 where "HALFFLAG \<equiv> 4"
abbreviation HALFHALFFLAG :: u32 where "HALFHALFFLAG \<equiv> 8"
abbreviation SIZETFLAG :: u32 where "SIZETFLAG \<equiv> 16"
abbreviation ALTFLAG :: u32 where "ALTFLAG \<equiv> 32"
abbreviation CAPSFLAG :: u32 where "CAPSFLAG \<equiv> 64"
abbreviation SHOWSIGNFLAG :: u32 where "SHOWSIGNFLAG \<equiv> 128"
abbreviation SIGNEDFLAG :: u32 where "SIGNEDFLAG \<equiv> 256"
abbreviation LEFTFORMATFLAG :: u32 where "LEFTFORMATFLAG \<equiv> 512"
abbreviation LEADZEROFLAG :: u32 where "LEADZEROFLAG \<equiv> 1024"

definition chr :: "char \<Rightarrow> u8" where
  "chr c = of_char c"

definition txt_of :: "string \<Rightarrow> u8 list" where
  "txt_of = List.map chr"

definition flagged :: "u32 \<Rightarrow> u32 \<Rightarrow> bool" where
  "flagged flags f \<longleftrightarrow> flags AND f \<noteq> 0"

subsection \<open>Numbers\<close>

text \<open>\<open>dec_loop\<close> is the division loop: the digits go into the buffer from its end.\<close>

lemma dec_step_smaller: "10 \<le> n \<Longrightarrow> unat (ucast ((ucast n :: u32) div 10) :: u64) < unat (n :: u64)"
proof -
  assume "10 \<le> n"
  then have n: "10 \<le> unat n" by (simp add: word_le_nat_alt)
  have "unat (ucast ((ucast n :: u32) div 10) :: u64) = unat (ucast n :: u32) div 10"
    by (simp add: unat_ucast_up unat_div)
  also have "\<dots> \<le> unat n div 10"
    by (intro div_le_mono) (simp add: unat_ucast_mod)
  also have "\<dots> < unat n" using n by simp
  finally show ?thesis .
qed

function dec_loop :: "u64 \<Rightarrow> u8 list \<Rightarrow> u8 list" where
  "dec_loop n buf =
     (if 10 \<le> n then
        let digit = (ucast n :: u32) mod 10; n1 = ucast ((ucast n :: u32) div 10) :: u64
        in dec_loop n1 ((ucast digit + 48) # buf)
      else (ucast n + 48) # buf)"
  by pat_completeness auto
termination
  by (relation "measure (\<lambda>(n, buf). unat n)") (auto simp: dec_step_smaller)

declare dec_loop.simps [simp del]

definition longlong_to_string :: "u64 \<Rightarrow> u32 \<Rightarrow> u8 list" where
  "longlong_to_string n flag =
     (let negative = flagged flag SIGNEDFLAG \<and> sint n < 0;
          n1 = (if negative then - n else n);
          buf = dec_loop n1 []
      in if negative then chr CHR ''-'' # buf
         else if flagged flag SHOWSIGNFLAG then chr CHR ''+'' # buf else buf)"

definition hextable :: "string" where "hextable = ''0123456789abcdef''"
definition hextable_caps :: "string" where "hextable_caps = ''0123456789ABCDEF''"

function hex_loop :: "string \<Rightarrow> u64 \<Rightarrow> u8 list \<Rightarrow> u8 list" where
  "hex_loop table u buf =
     (let digit = u mod 16; u1 = u div 16; buf1 = chr (table ! unat digit) # buf
      in if u1 \<noteq> 0 then hex_loop table u1 buf1 else buf1)"
  by pat_completeness auto
termination
proof (relation "measure (\<lambda>(t, u, buf). unat u)")
  fix u u1 :: u64
  assume "u1 = u div 16" and "u1 \<noteq> 0"
  then have "unat u div 16 \<noteq> 0" using unat_div [of u 16] unat_pos [of "u div 16"] by simp
  then show "((table, u1, buf1), (table, u, buf)) \<in> measure (\<lambda>(t, u, buf). unat u)" for table :: string and buf1 buf :: "u8 list"
    using \<open>u1 = u div 16\<close> by (simp add: unat_div)
qed simp

declare hex_loop.simps [simp del]

definition longlong_to_hexstring :: "u64 \<Rightarrow> u32 \<Rightarrow> u8 list" where
  "longlong_to_hexstring u flag = hex_loop (if flagged flag CAPSFLAG then hextable_caps else hextable) u []"

subsection \<open>\<open>vsnprintf\<close>\<close>

datatype vararg = Arg_Word u32 | Arg_Long u64 | Arg_String "u8 list option"

text \<open>\<open>next_format\<close>: the flags and the width up to the conversion character; \<open>None\<close> at the end of the string.\<close>

fun next_format :: "u8 list \<Rightarrow> u32 \<Rightarrow> u32 \<Rightarrow> (u8 \<times> u8 list \<times> u32 \<times> u32) option" where
  "next_format [] flags format_num = None"
| "next_format (c # fmt) flags format_num =
     (if chr CHR ''0'' \<le> c \<and> c \<le> chr CHR ''9'' then
        next_format fmt (if c = chr CHR ''0'' \<and> format_num = 0 then flags OR LEADZEROFLAG else flags)
          (format_num * 10 + ucast (c - chr CHR ''0''))
      else if c = chr CHR ''.'' then next_format fmt flags format_num
      else if c = chr CHR ''-'' then next_format fmt (flags OR LEFTFORMATFLAG) format_num
      else if c = chr CHR ''+'' then next_format fmt (flags OR SHOWSIGNFLAG) format_num
      else if c = chr CHR ''#'' then next_format fmt (flags OR ALTFLAG) format_num
      else if c = chr CHR ''l'' then
        next_format fmt ((if flagged flags LONGFLAG then flags OR LONGLONGFLAG else flags) OR LONGFLAG) format_num
      else if c = chr CHR ''h'' then
        next_format fmt ((if flagged flags HALFFLAG then flags OR HALFHALFFLAG else flags) OR HALFFLAG) format_num
      else if c = chr CHR ''z'' then next_format fmt (flags OR SIZETFLAG) format_num
      else Some (c, fmt, flags, format_num))"

fun arg_word :: "vararg list \<Rightarrow> (u32 \<times> vararg list) res" where
  "arg_word (Arg_Word w # ap) = Inr (w, ap)"
| "arg_word _ = Inl Bad_Vararg"

fun arg_long :: "vararg list \<Rightarrow> (u64 \<times> vararg list) res" where
  "arg_long (Arg_Long w # ap) = Inr (w, ap)"
| "arg_long _ = Inl Bad_Vararg"

fun arg_string :: "vararg list \<Rightarrow> (u8 list option \<times> vararg list) res" where
  "arg_string (Arg_String t # ap) = Inr (t, ap)"
| "arg_string _ = Inl Bad_Vararg"

definition signed_arg :: "u32 \<Rightarrow> vararg list \<Rightarrow> (u64 \<times> vararg list) res" where
  "signed_arg flags ap =
     (if flagged flags LONGLONGFLAG then arg_long ap
      else bind_res (arg_word ap) (\<lambda>(w, ap1). Inr
        (if flagged flags LONGFLAG then scast w
         else if flagged flags HALFHALFFLAG then scast (ucast w :: u8)
         else if flagged flags HALFFLAG then scast (ucast w :: u16)
         else scast w, ap1)))"

definition unsigned_arg :: "u32 \<Rightarrow> vararg list \<Rightarrow> (u64 \<times> vararg list) res" where
  "unsigned_arg flags ap =
     (if flagged flags LONGLONGFLAG then arg_long ap
      else bind_res (arg_word ap) (\<lambda>(w, ap1). Inr
        (if flagged flags LONGFLAG then ucast w
         else if flagged flags HALFHALFFLAG then ucast (ucast w :: u8)
         else if flagged flags HALFFLAG then ucast (ucast w :: u16)
         else ucast w, ap1)))"

text \<open>The characters of \<open>_output_string\<close>: the text, padded on the right or on the left.\<close>

definition output_string :: "u32 \<Rightarrow> u32 \<Rightarrow> u8 list \<Rightarrow> u8 list" where
  "output_string flags format_num t =
     (if flagged flags LEFTFORMATFLAG then t @ replicate (unat format_num - length t) (chr CHR '' '')
      else replicate (unat format_num - length t) (if flagged flags LEADZEROFLAG then chr CHR ''0'' else chr CHR '' '') @ t)"

text \<open>
  \<open>conversion\<close>: what one format writes and which arguments it takes. A store of \<open>%n\<close> is the
  address, the number of bytes and the value.
\<close>

definition hex_conversion :: "u32 \<Rightarrow> u32 \<Rightarrow> vararg list \<Rightarrow> (u8 list \<times> vararg list) res" where
  "hex_conversion flags format_num ap =
     bind_res (unsigned_arg flags ap) (\<lambda>(n, ap1). Inr
       ((if flagged flags ALTFLAG then [chr CHR ''0'', if flagged flags CAPSFLAG then chr CHR ''X'' else chr CHR ''x''] else []) @
        output_string flags format_num (longlong_to_hexstring n flags), ap1))"

definition dec_conversion :: "bool \<Rightarrow> u32 \<Rightarrow> u32 \<Rightarrow> vararg list \<Rightarrow> (u8 list \<times> vararg list) res" where
  "dec_conversion sgnd flags format_num ap =
     bind_res (if sgnd then signed_arg flags ap else unsigned_arg flags ap) (\<lambda>(n, ap1). Inr
       (output_string (if sgnd then flags OR SIGNEDFLAG else flags) format_num
          (longlong_to_string n (if sgnd then flags OR SIGNEDFLAG else flags)), ap1))"

definition store_width :: "u32 \<Rightarrow> nat" where
  "store_width flags =
     (if flagged flags LONGLONGFLAG then 8 else if flagged flags LONGFLAG then 4
      else if flagged flags HALFHALFFLAG then 1 else if flagged flags HALFFLAG then 2 else 4)"

type_synonym store = "ptr \<times> nat \<times> u32"

definition conversion :: "u8 \<Rightarrow> u32 \<Rightarrow> u32 \<Rightarrow> u32 \<Rightarrow> vararg list \<Rightarrow> (u8 list \<times> store list \<times> vararg list) res" where
  "conversion c flags format_num chars_written ap =
     (let plain = (\<lambda>r. bind_res r (\<lambda>(t, ap1). Inr (t, [], ap1))) in
      if c = chr CHR ''%'' then Inr ([chr CHR ''%''], [], ap)
      else if c = chr CHR ''c'' then bind_res (arg_word ap) (\<lambda>(w, ap1). Inr ([ucast w], [], ap1))
      else if c = chr CHR ''s'' then
        bind_res (arg_string ap) (\<lambda>(t, ap1).
          Inr (output_string flags format_num (case t of None \<Rightarrow> txt_of ''<null>'' | Some x \<Rightarrow> x), [], ap1))
      else if c = chr CHR ''D'' then plain (dec_conversion True (flags OR LONGFLAG) format_num ap)
      else if c = chr CHR ''i'' \<or> c = chr CHR ''d'' then plain (dec_conversion True flags format_num ap)
      else if c = chr CHR ''U'' then plain (dec_conversion False (flags OR LONGFLAG) format_num ap)
      else if c = chr CHR ''u'' then plain (dec_conversion False flags format_num ap)
      else if c = chr CHR ''p'' then plain (hex_conversion (flags OR LONGFLAG OR ALTFLAG) format_num ap)
      else if c = chr CHR ''X'' then plain (hex_conversion (flags OR CAPSFLAG) format_num ap)
      else if c = chr CHR ''x'' then plain (hex_conversion flags format_num ap)
      else if c = chr CHR ''n'' then
        bind_res (arg_word ap) (\<lambda>(w, ap1). Inr ([], [(w, store_width flags, chars_written)], ap1))
      else Inr ([chr CHR ''%'', c], [], ap))"

text \<open>\<open>OUTPUT_CHAR\<close>: \<open>Done\<close> is the jump to \<open>done\<close>.\<close>

datatype 'a flow = Go 'a | Done 'a

definition OUTPUT_CHAR :: "u32 \<Rightarrow> u8 \<Rightarrow> u8 list \<Rightarrow> u8 list flow" where
  "OUTPUT_CHAR len c out =
     (let out1 = out @ [c] in if of_nat (length out1) + 1 = len then Done out1 else Go out1)"

fun output_chars :: "u32 \<Rightarrow> u8 list \<Rightarrow> u8 list \<Rightarrow> u8 list flow" where
  "output_chars len [] out = Go out"
| "output_chars len (c # cs) out =
     (case OUTPUT_CHAR len c out of Done out1 \<Rightarrow> Done out1 | Go out1 \<Rightarrow> output_chars len cs out1)"

lemma next_format_shorter: "next_format fmt flags num = Some (c, rest, flags1, num1) \<Longrightarrow> length rest < length fmt"
  by (induction fmt flags num rule: next_format.induct) (auto split: if_splits)

function vsn_loop :: "u32 \<Rightarrow> u8 list \<Rightarrow> vararg list \<Rightarrow> u8 list \<Rightarrow> store list \<Rightarrow> (u8 list \<times> store list) res" where
  "vsn_loop len [] ap out stores = Inr (out, stores)"
| "vsn_loop len (c # fmt) ap out stores =
     (if c \<noteq> chr CHR ''%'' then
        case OUTPUT_CHAR len c out of Done out1 \<Rightarrow> Inr (out1, stores) | Go out1 \<Rightarrow> vsn_loop len fmt ap out1 stores
      else case next_format fmt 0 0 of
          None \<Rightarrow> Inr (out, stores)
        | Some (f, fmt1, flags, format_num) \<Rightarrow>
            case conversion f flags format_num (of_nat (length out)) ap of
              Inl e \<Rightarrow> Inl e
            | Inr (cs, st, ap1) \<Rightarrow>
                case output_chars len cs out of
                  Done out1 \<Rightarrow> Inr (out1, stores @ st)
                | Go out1 \<Rightarrow> vsn_loop len fmt1 ap1 out1 (stores @ st))"
  by pat_completeness auto
termination
  by (relation "measure (\<lambda>(len, fmt, ap, out, stores). length fmt)") (auto dest: next_format_shorter)

text \<open>The bytes written to the buffer, terminator included, the stores of \<open>%n\<close> and the result.\<close>

definition vsnprintf :: "u32 \<Rightarrow> u8 list \<Rightarrow> vararg list \<Rightarrow> (u8 list \<times> store list \<times> u32) res" where
  "vsnprintf len fmt ap =
     bind_res (vsn_loop len fmt ap [] []) (\<lambda>(out, stores). Inr (out @ [0], stores, of_nat (length out)))"


subsection \<open>The log buffer\<close>

abbreviation LOG_BUF_LEN :: nat where "LOG_BUF_LEN \<equiv> 1024"

record plog = kernel +
  log_buf :: "nat \<Rightarrow> u8"
  log_first_seq :: u64
  log_first_idx :: u32
  log_next_seq :: u64
  log_next_idx :: u32
  console :: "u8 list"

definition le16 :: "u16 \<Rightarrow> u8 list" where
  "le16 w = [ucast w, ucast (drop_bit 8 w)]"

definition le32 :: "u32 \<Rightarrow> u8 list" where
  "le32 w = [ucast w, ucast (drop_bit 8 w), ucast (drop_bit 16 w), ucast (drop_bit 24 w)]"

definition get32 :: "u8 \<Rightarrow> u8 \<Rightarrow> u8 \<Rightarrow> u8 \<Rightarrow> u32" where
  "get32 a b c d = ucast a OR push_bit 8 (ucast b) OR push_bit 16 (ucast c) OR push_bit 24 (ucast d)"

definition put_at :: "nat \<Rightarrow> u8 list \<Rightarrow> (nat \<Rightarrow> u8) \<Rightarrow> (nat \<Rightarrow> u8)" where
  "put_at i bs f = (\<lambda>k. if i \<le> k \<and> k < i + length bs then bs ! (k - i) else f k)"

definition put_bytes :: "u32 \<Rightarrow> u8 list \<Rightarrow> 'a plog_scheme \<Rightarrow> 'a plog_scheme res" where
  "put_bytes i bs s =
     (if unat i + length bs \<le> LOG_BUF_LEN
      then Inr (s\<lparr>log_buf := put_at (unat i) bs (log_buf s)\<rparr>)
      else Inl Out_Of_Bounds)"

definition msg_len :: "u32 \<Rightarrow> 'a plog_scheme \<Rightarrow> u32 res" where
  "msg_len i s =
     (if unat i + 4 \<le> LOG_BUF_LEN
      then Inr (get32 (log_buf s (unat i)) (log_buf s (unat i + 1)) (log_buf s (unat i + 2)) (log_buf s (unat i + 3)))
      else Inl Out_Of_Bounds)"

definition log_text :: "u32 \<Rightarrow> u32" where
  "log_text msg = msg + 8"

definition log_from_idx :: "u32 \<Rightarrow> 'a plog_scheme \<Rightarrow> u32 res" where
  "log_from_idx idx s = bind_res (msg_len idx s) (\<lambda>n. Inr (if n = 0 then 0 else idx))"

definition log_next :: "u32 \<Rightarrow> 'a plog_scheme \<Rightarrow> u32 res" where
  "log_next idx s = bind_res (msg_len idx s) (\<lambda>n. if n = 0 then msg_len 0 s else Inr (idx + n))"

definition log_free :: "'a plog_scheme \<Rightarrow> u32" where
  "log_free s =
     (if log_next_idx s > log_first_idx s then max (of_nat LOG_BUF_LEN - log_next_idx s) (log_first_idx s)
      else log_first_idx s - log_next_idx s)"

text \<open>\<open>log_drop\<close> is the loop that drops old messages until there is room for \<open>bytes\<close>.\<close>

function log_drop :: "u32 \<Rightarrow> 'a plog_scheme \<Rightarrow> 'a plog_scheme res" where
  "log_drop bytes s =
     (if log_first_seq s < log_next_seq s then
        if log_free s > bytes + 8 then Inr s
        else case log_next (log_first_idx s) s of
            Inl e \<Rightarrow> Inl e
          | Inr i \<Rightarrow> log_drop bytes (s\<lparr>log_first_idx := i, log_first_seq := log_first_seq s + 1\<rparr>)
      else Inr s)"
  by pat_completeness auto
termination
proof (relation "measure (\<lambda>(bytes, s). unat (log_next_seq s) - unat (log_first_seq s))")
  fix s :: "'a plog_scheme" and i bytes
  assume lt: "log_first_seq s < log_next_seq s"
  then have lt': "unat (log_first_seq s) < unat (log_next_seq s)" by (simp add: word_less_nat_alt)
  then have "unat (log_first_seq s + 1) = Suc (unat (log_first_seq s))"
    using unsigned_less [of "log_next_seq s", where 'a = nat] by (intro unat_Suc_no_wrap) simp
  then show "((bytes, s\<lparr>log_first_idx := i, log_first_seq := log_first_seq s + 1\<rparr>), (bytes, s))
      \<in> measure (\<lambda>(bytes, s). unat (log_next_seq s) - unat (log_first_seq s))"
    using lt' by simp
qed simp

declare log_drop.simps [simp del]

definition log_wrap :: "u32 \<Rightarrow> 'a plog_scheme \<Rightarrow> 'a plog_scheme res" where
  "log_wrap bytes s =
     (if log_next_idx s + bytes + 8 \<ge> of_nat LOG_BUF_LEN
      then bind_res (put_bytes (log_next_idx s) (replicate 8 0) s) (\<lambda>s1. Inr (s1\<lparr>log_next_idx := 0\<rparr>))
      else Inr s)"

definition log_size :: "u16 \<Rightarrow> u32" where
  "log_size text_len = (let n = 8 + ucast text_len in n + ((- n) AND 3))"

definition log_store :: "u16 \<Rightarrow> u8 list \<Rightarrow> u16 \<Rightarrow> 'a plog_scheme \<Rightarrow> 'a plog_scheme res" where
  "log_store level msg_text text_len s =
     (if length msg_text < unat text_len then Inl Out_Of_Bounds
      else bind_res (log_drop (log_size text_len) s) (\<lambda>s1.
        bind_res (log_wrap (log_size text_len) s1) (\<lambda>s2.
        let msg = log_next_idx s2 in
        bind_res (put_bytes (log_text msg) (take (unat text_len) msg_text) s2) (\<lambda>s3.
        bind_res (put_bytes (msg + 4) (le16 text_len) s3) (\<lambda>s4.
        bind_res (put_bytes (msg + 6) (le16 level) s4) (\<lambda>s5.
        bind_res (put_bytes msg (le32 (log_size text_len)) s5) (\<lambda>s6.
        Inr (s6\<lparr>log_next_idx := log_next_idx s6 + log_size text_len, log_next_seq := log_next_seq s6 + 1\<rparr>))))))))"

definition puts :: "u8 list \<Rightarrow> 'a plog_scheme \<Rightarrow> 'a plog_scheme" where
  "puts t s = s\<lparr>console := console s @ takeWhile (\<lambda>c. c \<noteq> 0) t\<rparr>"

definition dvprintf :: "u8 list \<Rightarrow> vararg list \<Rightarrow> 'a plog_scheme \<Rightarrow> (u32 \<times> store list \<times> 'a plog_scheme) res" where
  "dvprintf fmt ap s =
     (let s1 = enter_critical_section s in
      bind_res (vsnprintf 256 fmt ap) (\<lambda>(buf, stores, n).
        bind_res (if 0 < sint n then bind_res (log_store 0 buf (ucast (n + 1)) s1) (\<lambda>s2. Inr (puts buf s2)) else Inr s1) (\<lambda>s3.
        Inr (n, stores, exit_critical_section s3))))"

definition printk :: "u8 list \<Rightarrow> vararg list \<Rightarrow> 'a plog_scheme \<Rightarrow> (u32 \<times> store list \<times> 'a plog_scheme) res" where
  "printk fmt ap s = dvprintf fmt ap s"

definition text_at :: "u32 \<Rightarrow> 'a plog_scheme \<Rightarrow> u8 list res" where
  "text_at i s =
     (let bs = map (log_buf s) [unat i..<LOG_BUF_LEN]
      in if 0 \<in> set bs then Inr (takeWhile (\<lambda>c. c \<noteq> 0) bs) else Inl Out_Of_Bounds)"

partial_function (option) dump_loop :: "u32 \<Rightarrow> 'a plog_scheme \<Rightarrow> 'a plog_scheme res option" where
  "dump_loop current_idx s =
     (case log_next current_idx s of
        Inl e \<Rightarrow> Some (Inl e)
      | Inr i \<Rightarrow>
          if i \<noteq> log_next_idx s then
            case bind_res (log_from_idx i s) (\<lambda>msg. text_at (log_text msg) s) of
              Inl e \<Rightarrow> Some (Inl e)
            | Inr t \<Rightarrow> dump_loop i (puts t s)
          else Some (Inr s))"

definition kmsg_dump :: "'a plog_scheme \<Rightarrow> 'a plog_scheme res option" where
  "kmsg_dump s = (if log_first_idx s = log_next_idx s then Some (Inr s) else dump_loop (log_first_idx s) s)"

subsection \<open>Dumps of memory: \<open>kernel/debug.c\<close>\<close>

definition print :: "string \<Rightarrow> vararg list \<Rightarrow> 'a plog_scheme \<Rightarrow> 'a plog_scheme res" where
  "print fmt ap s = bind_res (printk (txt_of fmt) ap s) (\<lambda>(n, stores, s1). Inr s1)"

fun print_all :: "(string \<times> vararg list) list \<Rightarrow> 'a plog_scheme \<Rightarrow> 'a plog_scheme res" where
  "print_all [] s = Inr s"
| "print_all ((fmt, ap) # ps) s = bind_res (print fmt ap s) (print_all ps)"

definition word_at :: "memory \<Rightarrow> ptr \<Rightarrow> u32" where
  "word_at m a = get32 (m a) (m (a + 1)) (m (a + 2)) (m (a + 3))"

definition hexdump_line :: "memory \<Rightarrow> ptr \<Rightarrow> (string \<times> vararg list) list" where
  "hexdump_line m address =
     [(''0x%08lx: '', [Arg_Word address]),
      (''%08x %08x %08x %08x |'', map (\<lambda>i. Arg_Word (word_at m (address + i))) [0, 4, 8, 12])] @
     map (\<lambda>i. let c = m (address + of_nat i) in
            if isalpha (uint c) \<noteq> 0 then (''%c'', [Arg_Word (ucast c)]) else (''.'', [])) [0..<16] @
     [(''|'' @ [CHR 0x0A], [])]"

definition hexdump8_line :: "memory \<Rightarrow> ptr \<Rightarrow> (string \<times> vararg list) list" where
  "hexdump8_line m address =
     [(''0x%08lx: '', [Arg_Word address])] @
     map (\<lambda>i. (''0x%02hhx '', [Arg_Word (ucast (m (address + of_nat i)))])) [0..<16] @ [([CHR 0x0A], [])]"

partial_function (option) dump_lines ::
  "(ptr \<Rightarrow> (string \<times> vararg list) list) \<Rightarrow> u32 \<Rightarrow> u32 \<Rightarrow> ptr \<Rightarrow> 'a plog_scheme \<Rightarrow> 'a plog_scheme res option" where
  "dump_lines line count len address s =
     (if count < len then
        case print_all (line address) s of
          Inl e \<Rightarrow> Some (Inl e)
        | Inr s1 \<Rightarrow> dump_lines line (count + 16) len (address + 16) s1
      else Some (Inr s))"

definition hexdump :: "memory \<Rightarrow> ptr \<Rightarrow> u32 \<Rightarrow> 'a plog_scheme \<Rightarrow> 'a plog_scheme res option" where
  "hexdump m p len s = dump_lines (hexdump_line m) 0 len p s"

definition hexdump8 :: "memory \<Rightarrow> ptr \<Rightarrow> u32 \<Rightarrow> 'a plog_scheme \<Rightarrow> 'a plog_scheme res option" where
  "hexdump8 m p len s = dump_lines (hexdump8_line m) 0 len p s"


subsection \<open>Bounded output\<close>

lemma OUTPUT_CHAR_bounded:
  assumes "length out + 1 < unat len"
  shows "OUTPUT_CHAR len c out = (if length out + 2 = unat len then Done (out @ [c]) else Go (out @ [c]))"
proof -
  have "length out + 2 < 2 ^ 32" using assms unat_u32_less [of len] by simp
  then have "unat (of_nat (length out + 2) :: u32) = length out + 2" by (intro unat_of_nat_below) simp
  then have "of_nat (length out + 2) = len \<longleftrightarrow> length out + 2 = unat len" by (metis unsigned_word_eqI)
  moreover have "(of_nat (length out + 2) :: u32) = of_nat (length (out @ [c])) + 1" by simp
  ultimately show ?thesis unfolding OUTPUT_CHAR_def Let_def by metis
qed

lemma OUTPUT_CHAR_free:
  assumes "length out + 2 < 2 ^ 32"
  shows "OUTPUT_CHAR 0 c out = Go (out @ [c])"
proof -
  have "unat (of_nat (length out + 2) :: u32) = length out + 2" using assms by (intro unat_of_nat_below) simp
  then have "(of_nat (length out + 2) :: u32) \<noteq> 0" by (metis unsigned_0 add_is_0 zero_neq_numeral)
  moreover have "(of_nat (length out + 2) :: u32) = of_nat (length (out @ [c])) + 1" by simp
  ultimately show ?thesis unfolding OUTPUT_CHAR_def Let_def by metis
qed

lemma output_chars_bounded:
  "length out + 1 < unat len \<Longrightarrow>
   output_chars len cs out =
     (if length out + length cs + 1 < unat len then Go (out @ cs) else Done (take (unat len - 1) (out @ cs)))"
proof (induction cs arbitrary: out)
  case (Cons c cs)
  show ?case
  proof (cases "length out + 2 = unat len")
    case True
    then have "unat len - 1 = length out + 1" by simp
    then have "take (unat len - 1) (out @ c # cs) = out @ [c]" by simp
    then show ?thesis using True Cons.prems by (simp add: OUTPUT_CHAR_bounded)
  next
    case False
    then have "length (out @ [c]) + 1 < unat len" using Cons.prems by simp
    from Cons.IH [OF this] show ?thesis using False Cons.prems by (simp add: OUTPUT_CHAR_bounded)
  qed
qed simp

lemma output_chars_extends:
  "output_chars len cs out = Go x \<or> output_chars len cs out = Done x \<Longrightarrow> \<exists>y. x = out @ y"
proof (induction cs arbitrary: out)
  case (Cons c cs)
  then show ?case
    using Cons.IH [of "out @ [c]"] by (auto simp: OUTPUT_CHAR_def Let_def split: if_splits)
qed simp

lemma output_chars_Go: "output_chars len cs out = Go x \<Longrightarrow> x = out @ cs"
proof (induction cs arbitrary: out)
  case (Cons c cs)
  then show ?case
    using Cons.IH [of "out @ [c]"] by (simp add: OUTPUT_CHAR_def Let_def split: if_splits)
qed simp

lemma output_chars_Done: "output_chars len cs out = Done x \<Longrightarrow> of_nat (length x) + 1 = len"
  by (induction cs arbitrary: out) (auto simp: OUTPUT_CHAR_def Let_def split: if_splits)

lemma output_chars_single: "output_chars len [c] out = OUTPUT_CHAR len c out"
  by (simp split: flow.splits)

text \<open>One step of the unbounded run, cut at the bound.\<close>

lemma emit_prefix:
  assumes run: "(case output_chars 0 cs out of Done x \<Rightarrow> Inr (x, w) | Go x \<Rightarrow> K 0 x) = Inr (full, st)"
    and bound: "length full + 1 < 2 ^ 32" "length out + 1 < unat len"
    and ext: "\<And>x. K 0 x = Inr (full, st) \<Longrightarrow> \<exists>y. full = x @ y"
    and cont: "\<And>x. K 0 x = Inr (full, st) \<Longrightarrow> length x + 1 < unat len \<Longrightarrow> \<exists>st'. K len x = Inr (take (unat len - 1) full, st')"
  shows "\<exists>st'. (case output_chars len cs out of Done x \<Rightarrow> Inr (x, w) | Go x \<Rightarrow> K len x) = Inr (take (unat len - 1) full, st')"
proof (cases "output_chars 0 cs out")
  case (Done x)
  then have "x = full" using run by simp
  then have "(of_nat (length full + 1) :: u32) = 0" using output_chars_Done [OF Done] by (simp add: add.commute)
  moreover have "unat (of_nat (length full + 1) :: u32) = length full + 1" using bound(1) by (intro unat_of_nat_below) simp
  ultimately show ?thesis by simp
next
  case (Go x)
  then have x: "x = out @ cs" and k: "K 0 x = Inr (full, st)" using run output_chars_Go [OF Go] by simp_all
  obtain y where y: "full = x @ y" using ext [OF k] by blast
  show ?thesis
  proof (cases "length out + length cs + 1 < unat len")
    case True
    then show ?thesis using cont [OF k] x bound(2) by (simp add: output_chars_bounded)
  next
    case False
    then have "take (unat len - 1) full = take (unat len - 1) x" using y x by simp
    then show ?thesis using False x bound(2) by (simp add: output_chars_bounded)
  qed
qed

lemma vsn_loop_extends: "vsn_loop len fmt ap out stores = Inr (full, st) \<Longrightarrow> \<exists>y. full = out @ y"
proof (induction "length fmt" arbitrary: fmt ap out stores rule: less_induct)
  case less
  show ?case
  proof (cases fmt)
    case Nil
    then show ?thesis using less.prems by simp
  next
    case (Cons c fs)
    have IH: "\<exists>y. full = out' @ y" if "vsn_loop len fs' ap' out' stores' = Inr (full, st)" "length fs' \<le> length fs" for fs' ap' out' stores'
      using less.hyps [of fs' ap' out' stores'] that Cons by simp
    show ?thesis
    proof (cases "c = chr CHR ''%''")
      case False
      then show ?thesis
        using less.prems Cons IH [of fs ap "out @ [c]" stores] by (auto simp: OUTPUT_CHAR_def Let_def split: if_splits)
    next
      case True
      show ?thesis
      proof (cases "next_format fs 0 0")
        case None
        then show ?thesis using less.prems True Cons by simp
      next
        case (Some r)
        obtain f fmt1 flags num where r: "r = (f, fmt1, flags, num)" by (cases r) auto
        obtain cs st1 ap1 where cv: "conversion f flags num (of_nat (length out)) ap = Inr (cs, st1, ap1)"
          using less.prems True Some r Cons by (auto split: sum.splits)
        have sh: "length fmt1 \<le> length fs" using next_format_shorter [of fs 0 0 f fmt1 flags num] Some r by simp
        show ?thesis
        proof (cases "output_chars len cs out")
          case (Done x)
          then show ?thesis using less.prems True Some r cv Cons output_chars_extends [of len cs out x] by simp
        next
          case (Go x)
          then have "vsn_loop len fmt1 ap1 x (stores @ st1) = Inr (full, st)" using less.prems True Some r cv Cons by simp
          from IH [OF this sh] show ?thesis using Go output_chars_extends [of len cs out x] by auto
        qed
      qed
    qed
  qed
qed

lemma vsn_loop_prefix:
  assumes "vsn_loop 0 fmt ap out stores = Inr (full, st)" and "length full + 1 < 2 ^ 32" and "length out + 1 < unat len"
  shows "\<exists>st'. vsn_loop len fmt ap out stores = Inr (take (unat len - 1) full, st')"
  using assms
proof (induction "length fmt" arbitrary: fmt ap out stores rule: less_induct)
  case less
  show ?case
  proof (cases fmt)
    case Nil
    then show ?thesis using less.prems by simp
  next
    case (Cons c fs)
    have IH: "\<exists>st'. vsn_loop len fs' ap' out' stores' = Inr (take (unat len - 1) full, st')"
      if "vsn_loop 0 fs' ap' out' stores' = Inr (full, st)" "length out' + 1 < unat len" "length fs' \<le> length fs"
      for fs' ap' out' stores'
      using less.hyps [of fs' ap' out' stores'] that Cons less.prems(2) by simp
    note emit = emit_prefix [OF _ less.prems(2,3)]
    show ?thesis
    proof (cases "c = chr CHR ''%''")
      case False
      then show ?thesis
        using emit [where cs = "[c]" and w = stores and K = "\<lambda>l x. vsn_loop l fs ap x stores"] less.prems(1) Cons IH vsn_loop_extends
        by (simp add: output_chars_single del: output_chars.simps)
    next
      case True
      show ?thesis
      proof (cases "next_format fs 0 0")
        case None
        then show ?thesis using less.prems True Cons by simp
      next
        case (Some r)
        obtain f fmt1 flags num where r: "r = (f, fmt1, flags, num)" by (cases r) auto
        obtain cs st1 ap1 where cv: "conversion f flags num (of_nat (length out)) ap = Inr (cs, st1, ap1)"
          using less.prems(1) True Some r Cons by (auto split: sum.splits)
        have sh: "length fmt1 \<le> length fs" using next_format_shorter [of fs 0 0 f fmt1 flags num] Some r by simp
        show ?thesis
          using emit [where cs = cs and w = "stores @ st1" and K = "\<lambda>l x. vsn_loop l fmt1 ap1 x (stores @ st1)"]
            less.prems(1) Cons True Some r cv IH [OF _ _ sh] vsn_loop_extends by simp
      qed
    qed
  qed
qed


lemma emit_length:
  assumes run: "(case output_chars len cs out of Done x \<Rightarrow> Inr (x, w) | Go x \<Rightarrow> K x) = Inr (full, st)"
    and bound: "length out + 1 < unat len"
    and cont: "\<And>x. K x = Inr (full, st) \<Longrightarrow> length x + 1 < unat len \<Longrightarrow> length full + 1 \<le> unat len"
  shows "length full + 1 \<le> unat len"
  using run bound cont by (cases "length out + length cs + 1 < unat len") (auto simp: output_chars_bounded)

lemma vsn_loop_length:
  assumes "vsn_loop len fmt ap out stores = Inr (full, st)" and "length out + 1 < unat len"
  shows "length full + 1 \<le> unat len"
  using assms
proof (induction "length fmt" arbitrary: fmt ap out stores rule: less_induct)
  case less
  show ?case
  proof (cases fmt)
    case Nil
    then show ?thesis using less.prems by simp
  next
    case (Cons c fs)
    have IH: "length full + 1 \<le> unat len"
      if "vsn_loop len fs' ap' out' stores' = Inr (full, st)" "length out' + 1 < unat len" "length fs' \<le> length fs"
      for fs' ap' out' stores'
      using less.hyps [of fs' ap' out' stores'] that Cons by simp
    note emit = emit_length [OF _ less.prems(2)]
    show ?thesis
    proof (cases "c = chr CHR ''%''")
      case False
      then show ?thesis
        using emit [where cs = "[c]" and w = stores and K = "\<lambda>x. vsn_loop len fs ap x stores"] less.prems(1) Cons IH
        by (simp add: output_chars_single del: output_chars.simps)
    next
      case True
      show ?thesis
      proof (cases "next_format fs 0 0")
        case None
        then show ?thesis using less.prems True Cons by simp
      next
        case (Some r)
        obtain f fmt1 flags num where r: "r = (f, fmt1, flags, num)" by (cases r) auto
        obtain cs st1 ap1 where cv: "conversion f flags num (of_nat (length out)) ap = Inr (cs, st1, ap1)"
          using less.prems(1) True Some r Cons by (auto split: sum.splits)
        have sh: "length fmt1 \<le> length fs" using next_format_shorter [of fs 0 0 f fmt1 flags num] Some r by simp
        show ?thesis
          using emit [where cs = cs and w = "stores @ st1" and K = "\<lambda>x. vsn_loop len fmt1 ap1 x (stores @ st1)"]
            less.prems(1) Cons True Some r cv IH [OF _ _ sh] by simp
      qed
    qed
  qed
qed

subsection \<open>Values of printed numbers\<close>

definition dec_value :: "u8 list \<Rightarrow> nat" where
  "dec_value cs = foldl (\<lambda>v c. 10 * v + (unat c - 48)) 0 cs"

definition hex_digit :: "u8 \<Rightarrow> nat" where
  "hex_digit c = (if unat c \<le> 57 then unat c - 48 else unat c - 87)"

definition hex_value :: "u8 list \<Rightarrow> nat" where
  "hex_value cs = foldl (\<lambda>v c. 16 * v + hex_digit c) 0 cs"

lemma dec_value_snoc [simp]: "dec_value (cs @ [c]) = 10 * dec_value cs + (unat c - 48)"
  by (simp add: dec_value_def)

lemma hex_value_snoc [simp]: "hex_value (cs @ [c]) = 16 * hex_value cs + hex_digit c"
  by (simp add: hex_value_def)

lemma unat_digit:
  assumes "unat (d :: 'a::len word) < 10" and "8 \<le> LENGTH('a)"
  shows "unat (ucast d + 48 :: u8) - 48 = unat d"
proof -
  have "unat (ucast d :: u8) = unat d" using assms(1) by (simp add: unat_ucast_mod)
  then have "unat (ucast d + 48 :: u8) = unat d + 48" using assms(1) by (subst unat_add_no_wrap) simp_all
  then show ?thesis by simp
qed

lemma dec_loop_digits:
  "\<exists>ds. (\<forall>buf. dec_loop n buf = ds @ buf) \<and>
     (unat n < 2 ^ 32 \<longrightarrow> dec_value ds = unat n \<and> (\<forall>k. 0 < k \<and> unat n < 10 ^ k \<longrightarrow> length ds \<le> k))"
proof (induction "unat n" arbitrary: n rule: less_induct)
  case less
  show ?case
  proof (cases "10 \<le> n")
    case False
    then have n: "unat n < 10" by (simp add: word_le_nat_alt)
    then have "unat (ucast n + 48 :: u8) - 48 = unat n" by (intro unat_digit) simp_all
    then show ?thesis
      using False by (intro exI [of _ "[ucast n + 48]"]) (simp add: dec_loop.simps dec_value_def)
  next
    case True
    let ?d = "(ucast n :: u32) mod 10" and ?q = "ucast ((ucast n :: u32) div 10) :: u64"
    from less.hyps [OF dec_step_smaller [OF True]] obtain ds where ds: "\<forall>buf. dec_loop ?q buf = ds @ buf"
      "unat ?q < 2 ^ 32 \<longrightarrow> dec_value ds = unat ?q \<and> (\<forall>k. 0 < k \<and> unat ?q < 10 ^ k \<longrightarrow> length ds \<le> k)" by blast
    have step: "\<forall>buf. dec_loop n buf = (ds @ [ucast ?d + 48]) @ buf"
      using True ds(1) by (subst dec_loop.simps) (simp add: Let_def)
    have "dec_value (ds @ [ucast ?d + 48]) = unat n \<and> (\<forall>k. 0 < k \<and> unat n < 10 ^ k \<longrightarrow> length (ds @ [ucast ?d + 48]) \<le> k)"
      if n: "unat n < 2 ^ 32"
    proof -
      have q: "unat ?q = unat n div 10" "unat ?d = unat n mod 10"
        using n by (simp_all add: unat_ucast_up unat_div unat_mod unat_ucast_mod)
      have "unat (ucast ?d + 48 :: u8) - 48 = unat ?d" using q(2) by (intro unat_digit) simp_all
      then have v: "dec_value (ds @ [ucast ?d + 48]) = unat n" using ds(2) q n by simp
      have "length ds + 1 \<le> k" if k: "unat n < 10 ^ k" for k
      proof -
        have "10 \<le> unat n" using True by (simp add: word_le_nat_alt)
        then obtain j where j: "k = Suc j" "0 < j" using k by (cases k; cases "k - 1") auto
        have "unat n div 10 < 10 ^ j" using k unfolding j(1) by (simp add: div_less_iff_less_mult mult.commute)
        then show ?thesis using ds(2) q(1) n j by auto
      qed
      with v show ?thesis by simp
    qed
    with step show ?thesis by blast
  qed
qed

lemma hextable_digits: "d < 16 \<Longrightarrow> hex_digit (chr (hextable ! d)) = d"
proof -
  have "\<forall>d \<in> set [0..<16]. hex_digit (chr (hextable ! d)) = d" by code_simp
  then show "d < 16 \<Longrightarrow> hex_digit (chr (hextable ! d)) = d" by simp
qed

lemma hex_loop_digits: "\<exists>ds. (\<forall>buf. hex_loop hextable u buf = ds @ buf) \<and> hex_value ds = unat u"
proof (induction "unat u" arbitrary: u rule: less_induct)
  case less
  let ?c = "chr (hextable ! unat (u mod 16))"
  have um: "unat (u mod 16) = unat u mod 16" "unat (u div 16) = unat u div 16" by (simp_all add: unat_mod unat_div)
  have c: "hex_digit ?c = unat u mod 16" unfolding um by (rule hextable_digits) simp
  show ?case
  proof (cases "u div 16 = 0")
    case True
    then have "unat u div 16 = 0" using um(2) by simp
    then have "unat u mod 16 = unat u" by simp
    then show ?thesis
      using True c by (intro exI [of _ "[?c]"]) (simp add: hex_loop.simps hex_value_def Let_def)
  next
    case False
    then have "0 < unat u div 16" using unat_pos [of "u div 16"] um(2) by simp
    then have "unat (u div 16) < unat u" using um(2) by simp
    from less.hyps [OF this] obtain ds where ds: "\<forall>buf. hex_loop hextable (u div 16) buf = ds @ buf" "hex_value ds = unat (u div 16)"
      by blast
    have "\<forall>buf. hex_loop hextable u buf = (ds @ [?c]) @ buf"
      using False ds(1) by (subst hex_loop.simps) (simp add: Let_def)
    moreover have "hex_value (ds @ [?c]) = unat u" using ds(2) c um(2) by simp
    ultimately show ?thesis by blast
  qed
qed


subsection \<open>Records in the log\<close>

lemma get32_le32: "get32 (le32 w ! 0) (le32 w ! 1) (le32 w ! 2) (le32 w ! 3) = w"
proof (rule bit_word_eqI)
  fix n assume n: "n < LENGTH(32)"
  then consider "n < 8" | "8 \<le> n" "n < 16" | "16 \<le> n" "n < 24" | "24 \<le> n" "n < 32" by fastforce
  then show "bit (get32 (le32 w ! 0) (le32 w ! 1) (le32 w ! 2) (le32 w ! 3)) n = bit w n"
    by cases (auto simp: get32_def le32_def bit_simps)
qed

lemma log_drop_keeps:
  "log_drop bytes s = Inr s1 \<Longrightarrow> log_next_idx s1 = log_next_idx s \<and> log_next_seq s1 = log_next_seq s \<and> log_buf s1 = log_buf s"
proof (induction bytes s rule: log_drop.induct)
  case (1 bytes s)
  then show ?case by (simp add: log_drop.simps [of bytes s] split: if_splits sum.splits)
qed

definition log_wraps :: "u32 \<Rightarrow> 'a plog_scheme \<Rightarrow> bool" where
  "log_wraps bytes s \<longleftrightarrow> unat (log_next_idx s) + unat bytes + 8 \<ge> LOG_BUF_LEN"

definition log_pos :: "u32 \<Rightarrow> 'a plog_scheme \<Rightarrow> nat" where
  "log_pos bytes s = (if log_wraps bytes s then 0 else unat (log_next_idx s))"

lemma log_wrap_result:
  assumes "unat (log_next_idx s) + 8 < LOG_BUF_LEN" and "unat bytes + 8 < LOG_BUF_LEN"
  shows "\<exists>s'. log_wrap bytes s = Inr s' \<and> unat (log_next_idx s') = log_pos bytes s \<and> log_next_seq s' = log_next_seq s \<and>
    log_first_idx s' = log_first_idx s \<and> log_first_seq s' = log_first_seq s \<and>
    log_buf s' = (if log_wraps bytes s then put_at (unat (log_next_idx s)) (replicate 8 0) (log_buf s) else log_buf s)"
proof -
  have "unat (log_next_idx s + bytes) = unat (log_next_idx s) + unat bytes"
    using assms by (intro unat_add_no_wrap) simp
  then have "unat (log_next_idx s + bytes + 8) = unat (log_next_idx s) + unat bytes + 8"
    using assms by (subst unat_add_no_wrap) simp_all
  then show ?thesis
    using assms(1) by (auto simp: log_wrap_def put_bytes_def log_pos_def log_wraps_def word_le_nat_alt)
qed

lemma log_size_bounds: "unat text_len \<le> 1000 \<Longrightarrow> 8 + unat text_len \<le> unat (log_size text_len) \<and> unat (log_size text_len) \<le> 11 + unat text_len"
proof -
  assume le: "unat text_len \<le> 1000"
  have n: "unat (8 + ucast text_len :: u32) = 8 + unat text_len"
    using le by (subst unat_add_no_wrap) (simp_all add: unat_ucast_up)
  have "unat ((- (8 + ucast text_len) :: u32) AND 3) \<le> 3"
    using word_and_le1 [of "- (8 + ucast text_len :: u32)" 3] by (simp add: word_le_nat_alt and.commute)
  then have "unat (log_size text_len) = 8 + unat text_len + unat ((- (8 + ucast text_len) :: u32) AND 3)"
    using n le unat_add_no_wrap [of "8 + ucast text_len :: u32" "(- (8 + ucast text_len)) AND 3"] by (simp add: log_size_def Let_def)
  then show ?thesis using \<open>_ \<le> 3\<close> by simp
qed


lemma put_bytes_ok:
  "unat i + length bs \<le> LOG_BUF_LEN \<Longrightarrow> put_bytes i bs s =
     Inr (s\<lparr>log_buf := put_at (unat i) bs (log_buf s)\<rparr>)"
  by (simp add: put_bytes_def)

lemma log_store_result:
  assumes "log_drop (log_size text_len) s = Inr s1" and "unat (log_next_idx s) + 8 < LOG_BUF_LEN"
    and "unat text_len \<le> 1000" and "unat text_len \<le> length t"
  shows "\<exists>s'. log_store level t text_len s = Inr s' \<and>
    unat (log_next_idx s') = log_pos (log_size text_len) s + unat (log_size text_len) \<and>
    log_next_seq s' = log_next_seq s + 1 \<and>
    msg_len (of_nat (log_pos (log_size text_len) s)) s' = Inr (log_size text_len) \<and>
    (\<forall>j < unat text_len. log_buf s' (log_pos (log_size text_len) s + 8 + j) = t ! j) \<and>
    log_first_idx s' = log_first_idx s1 \<and> log_first_seq s' = log_first_seq s1 \<and>
    (\<forall>k. k \<notin> {log_pos (log_size text_len) s..<log_pos (log_size text_len) s + unat (log_size text_len)} \<longrightarrow>
       log_buf s' k = (if log_wraps (log_size text_len) s then put_at (unat (log_next_idx s)) (replicate 8 0) (log_buf s) k
                       else log_buf s k))"
proof -
  let ?n = "log_size text_len" and ?p = "log_pos (log_size text_len) s"
  note d = log_drop_keeps [OF assms(1)]
  have n: "8 + unat text_len \<le> unat ?n" "unat ?n \<le> 11 + unat text_len" using log_size_bounds [OF assms(3)] by blast+
  have nb: "unat (log_next_idx s1) + 8 < LOG_BUF_LEN" "unat ?n + 8 < LOG_BUF_LEN" using assms(2,3) d n by simp_all
  have pos: "log_pos ?n s1 = ?p" "log_wraps ?n s1 = log_wraps ?n s" using d by (simp_all add: log_pos_def log_wraps_def)
  obtain s2 where s2: "log_wrap ?n s1 = Inr s2" "unat (log_next_idx s2) = ?p" "log_next_seq s2 = log_next_seq s"
      "log_first_idx s2 = log_first_idx s1" "log_first_seq s2 = log_first_seq s1"
      "log_buf s2 = (if log_wraps ?n s then put_at (unat (log_next_idx s)) (replicate 8 0) (log_buf s) else log_buf s)"
    using log_wrap_result [OF nb] d pos by auto
  let ?i = "log_next_idx s2"
  have room: "?p + unat ?n + 8 < LOG_BUF_LEN" using nb(2) by (auto simp: log_pos_def log_wraps_def)
  have add: "unat (?i + of_nat k) = ?p + k" if "k \<le> 1000" for k
    using room that s2(2) unat_of_nat_below [of k, where 'a = 32] unat_add_no_wrap [of ?i "of_nat k"] by simp
  have i: "unat (?i + 4) = ?p + 4" "unat (?i + 6) = ?p + 6" "unat (log_text ?i) = ?p + 8"
    using add [of 4] add [of 6] add [of 8] by (simp_all add: log_text_def)
  have end_idx: "unat (?i + ?n) = ?p + unat ?n"
    using room s2(2) by (subst unat_add_no_wrap) simp_all
  have len: "length (le16 w) = 2" "length (le32 v) = 4" for w v by (simp_all add: le16_def le32_def)
  have ib: "?i = of_nat ?p" unfolding s2(2) [symmetric] by simp
  have ip: "unat (of_nat ?p :: u32) = ?p" using s2(2) ib by simp
  have st: "log_store level t text_len s = Inr
      (s2\<lparr>log_buf := put_at ?p (le32 ?n) (put_at (?p + 6) (le16 level) (put_at (?p + 4) (le16 text_len)
             (put_at (?p + 8) (take (unat text_len) t) (log_buf s2)))),
          log_next_idx := ?i + ?n, log_next_seq := log_next_seq s2 + 1\<rparr>)"
    using assms(1,4) s2(1,2) room n i len by (simp add: log_store_def put_bytes_ok Let_def)
  have "put_at ?p (le32 ?n) f ?p = le32 ?n ! 0" "put_at ?p (le32 ?n) f (?p + 1) = le32 ?n ! 1"
    "put_at ?p (le32 ?n) f (?p + 2) = le32 ?n ! 2" "put_at ?p (le32 ?n) f (?p + 3) = le32 ?n ! 3" for f
    by (simp_all add: put_at_def len)
  then have hd: "get32 (put_at ?p (le32 ?n) f ?p) (put_at ?p (le32 ?n) f (?p + 1)) (put_at ?p (le32 ?n) f (?p + 2))
      (put_at ?p (le32 ?n) f (?p + 3)) = ?n" for f
    using get32_le32 [of ?n] by simp
  have bytes: "put_at ?p (le32 ?n) (put_at (?p + 6) (le16 level) (put_at (?p + 4) (le16 text_len)
      (put_at (?p + 8) (take (unat text_len) t) f))) (?p + 8 + j) = t ! j" if "j < unat text_len" for j f
    using that assms(4) by (simp add: put_at_def len)
  have other: "put_at ?p (le32 ?n) (put_at (?p + 6) (le16 level) (put_at (?p + 4) (le16 text_len)
      (put_at (?p + 8) (take (unat text_len) t) f))) k = f k" if "k \<notin> {?p..<?p + unat ?n}" for k f
    using that n(1) by (auto simp: put_at_def len)
  show ?thesis
    unfolding st using end_idx s2(3-6) room hd bytes other by (simp add: msg_len_def ip)
qed


subsection \<open>Properties\<close>

text \<open>
  C26. Formatted output never leaves its buffer and is the text cut to fit. For a buffer of at least
  two bytes, whatever the format and the arguments, \<open>vsnprintf\<close> writes at most as many bytes as the
  buffer has, the terminator included; and if the text without a bound is \<open>full\<close>, it writes the
  first \<open>len - 1\<close> characters of it and the terminator, and returns their number.
\<close>

theorem vsnprintf_bounded_prefix:
  assumes "2 \<le> unat len"
  shows "(\<forall>bytes st n. vsnprintf len fmt ap = Inr (bytes, st, n) \<longrightarrow> length bytes \<le> unat len) \<and>
    (\<forall>full st n. vsnprintf 0 fmt ap = Inr (full @ [0], st, n) \<and> length full + 1 < 2 ^ 32 \<longrightarrow>
      (\<exists>st'. vsnprintf len fmt ap = Inr (take (unat len - 1) full @ [0], st', of_nat (min (length full) (unat len - 1)))))"
proof (intro conjI allI impI)
  fix bytes st n
  assume "vsnprintf len fmt ap = Inr (bytes, st, n)"
  then obtain out where "vsn_loop len fmt ap [] [] = Inr (out, st)" "bytes = out @ [0]"
    by (auto simp: vsnprintf_def bind_res_Inr_iff)
  then show "length bytes \<le> unat len" using vsn_loop_length [of len fmt ap "[]" "[]" out st] assms by simp
next
  fix full st n
  assume a: "vsnprintf 0 fmt ap = Inr (full @ [0], st, n) \<and> length full + 1 < 2 ^ 32"
  then have "vsn_loop 0 fmt ap [] [] = Inr (full, st)" by (auto simp: vsnprintf_def bind_res_Inr_iff)
  then obtain st' where "vsn_loop len fmt ap [] [] = Inr (take (unat len - 1) full, st')"
    using vsn_loop_prefix [of fmt ap "[]" "[]" full st len] a assms by auto
  then show "\<exists>st'. vsnprintf len fmt ap = Inr (take (unat len - 1) full @ [0], st', of_nat (min (length full) (unat len - 1)))"
    by (simp add: vsnprintf_def)
qed

theorem vsnprintf_bounded_prefix_witness:
  "\<exists>st. vsnprintf 4 (txt_of ''n=%u'') [Arg_Word 42] = Inr (txt_of ''n=4'' @ [0], st, 3)"
proof -
  have "vsnprintf 0 (txt_of ''n=%u'') [Arg_Word 42] = Inr (txt_of ''n=42'' @ [0], [], 4)" by code_simp
  then show ?thesis
    using vsnprintf_bounded_prefix [of 4 "txt_of ''n=%u''" "[Arg_Word 42]"] by (simp add: txt_of_def)
qed

text \<open>
  Numbers are printed with their value: the hexadecimal digits of every 64-bit number and the
  decimal digits of every number below 2^32 denote the number, and the decimal text of such a
  number, with its sign, fits the buffer of 32 bytes. A decimal number above that range is cut to 32 bits after
  its last digit: 2^32 is printed as \<open>00\<close>.
\<close>

theorem printed_numbers_denote_value:
  "hex_value (longlong_to_hexstring u 0) = unat u \<and>
   (unat n < 2 ^ 32 \<longrightarrow> dec_value (longlong_to_string n 0) = unat n \<and> length (longlong_to_string n flags) + 1 \<le> 32) \<and>
   longlong_to_string (2 ^ 32) 0 = txt_of ''00''"
proof -
  have fl: "flagged 0 f = False" for f by (simp add: flagged_def)
  obtain hs where hs: "\<forall>buf. hex_loop hextable u buf = hs @ buf" "hex_value hs = unat u"
    using hex_loop_digits [of u] by blast
  then have hex: "hex_value (longlong_to_hexstring u 0) = unat u" by (simp add: longlong_to_hexstring_def fl)
  have len: "length (dec_loop m []) \<le> 20" for m
  proof -
    obtain ds where ds: "\<forall>buf. dec_loop m buf = ds @ buf"
      "unat m < 2 ^ 32 \<longrightarrow> (\<forall>k. 0 < k \<and> unat m < 10 ^ k \<longrightarrow> length ds \<le> k)" using dec_loop_digits [of m] by blast
    show ?thesis
    proof (cases "unat m < 2 ^ 32")
      case True
      then have "unat m < 10 ^ 10" by simp
      then show ?thesis using ds True by fastforce
    next
      case False
      let ?q = "ucast ((ucast m :: u32) div 10) :: u64"
      obtain es where es: "\<forall>buf. dec_loop ?q buf = es @ buf"
        "unat ?q < 2 ^ 32 \<longrightarrow> (\<forall>k. 0 < k \<and> unat ?q < 10 ^ k \<longrightarrow> length es \<le> k)" using dec_loop_digits [of ?q] by blast
      have "10 \<le> m" using False by (simp add: word_le_nat_alt)
      then have e: "dec_loop m [] = es @ [ucast ((ucast m :: u32) mod 10) + 48]"
        using es(1) by (subst dec_loop.simps) (simp add: Let_def)
      have "unat ?q < 2 ^ 32" using unat_u32_less [of "(ucast m :: u32) div 10"] by (simp add: unat_ucast_up)
      moreover from this have "unat ?q < 10 ^ 10" by simp
      ultimately have "length es \<le> 10" using es(2) by fastforce
      then show ?thesis unfolding e by simp
    qed
  qed
  have "length (longlong_to_string n flags) + 1 \<le> 32"
    using len [of n] len [of "- n"] by (simp add: longlong_to_string_def Let_def)
  moreover have "dec_value (longlong_to_string n 0) = unat n" if "unat n < 2 ^ 32"
    using dec_loop_digits [of n] that by (auto simp: longlong_to_string_def fl Let_def)
  moreover have "longlong_to_string (2 ^ 32) 0 = txt_of ''00''" by code_simp
  ultimately show ?thesis using hex by blast
qed

theorem printed_numbers_denote_value_witness:
  "dec_value (longlong_to_string 1234567 0) = 1234567 \<and> hex_value (longlong_to_hexstring 48879 0) = 48879"
  using printed_numbers_denote_value [of 48879 1234567 0] by simp

text \<open>
  A message stored in the log can be read back and the buffer is never left. If the next record
  may start at \<open>log_next_idx\<close> with room for a header behind it, and the loop that drops old messages
  ends, then \<open>log_store\<close> of a text of at most 1000 bytes succeeds: the record starts where the
  previous one ended, or at the start of the buffer if it would not fit; its length field and its
  text read back; the record after it starts at the new \<open>log_next_idx\<close>, which again leaves room for a
  header; and the sequence number grows by one.
\<close>

theorem log_store_reads_back:
  assumes "unat (log_next_idx s) + 8 < LOG_BUF_LEN" and "log_drop (log_size text_len) s = Inr s1"
    and "unat text_len \<le> 1000" and "unat text_len \<le> length t"
  shows "\<exists>s' i. log_store level t text_len s = Inr s' \<and> (i = log_next_idx s \<or> i = 0) \<and>
    log_next i s' = Inr (log_next_idx s') \<and> unat (log_next_idx s') + 8 < LOG_BUF_LEN \<and>
    (\<forall>j < unat text_len. log_buf s' (unat i + 8 + j) = t ! j) \<and> log_next_seq s' = log_next_seq s + 1"
proof -
  let ?n = "log_size text_len" and ?p = "log_pos (log_size text_len) s"
  obtain s' where s': "log_store level t text_len s = Inr s'" "unat (log_next_idx s') = ?p + unat ?n"
    "log_next_seq s' = log_next_seq s + 1" "msg_len (of_nat ?p) s' = Inr ?n"
    "\<forall>j < unat text_len. log_buf s' (?p + 8 + j) = t ! j"
    using log_store_result [OF assms(2,1,3,4)] by blast
  have n: "8 + unat text_len \<le> unat ?n" "unat ?n \<le> 11 + unat text_len" using log_size_bounds [OF assms(3)] by blast+
  then have room: "?p + unat ?n + 8 < LOG_BUF_LEN" using assms(3) by (simp add: log_pos_def log_wraps_def)
  have "?n \<noteq> 0" using n(1) by auto
  have i: "(of_nat ?p :: u32) = log_next_idx s \<or> (of_nat ?p :: u32) = 0" by (simp add: log_pos_def)
  have ip: "unat (of_nat ?p :: u32) = ?p" using room by (intro unat_of_nat_below) simp
  have "unat (of_nat ?p + ?n) = ?p + unat ?n" using room ip by (subst unat_add_no_wrap) simp_all
  then have "of_nat ?p + ?n = log_next_idx s'" using s'(2) by (metis unsigned_word_eqI)
  then have "log_next (of_nat ?p) s' = Inr (log_next_idx s')"
    using s'(4) \<open>?n \<noteq> 0\<close> by (simp add: log_next_def)
  then show ?thesis using s' room i ip by (intro exI [of _ s'] exI [of _ "of_nat ?p"]) simp
qed

text \<open>An empty log whose next record would not fit before the end of the buffer.\<close>

definition example_log :: plog where
  "example_log = kernel.extend example_timers (plog.fields (\<lambda>_. 0) 0 1000 0 1000 [])"

theorem log_store_reads_back_witness:
  "\<exists>s' i. log_store 0 (txt_of ''boot'' @ [0]) 5 example_log = Inr s' \<and> (i = 1000 \<or> i = 0) \<and>
    log_next i s' = Inr (log_next_idx s') \<and> (\<forall>j < 5. log_buf s' (unat i + 8 + j) = (txt_of ''boot'' @ [0]) ! j)"
proof -
  have e: "log_next_idx example_log = 1000" "log_first_seq example_log = log_next_seq example_log"
    by (simp_all add: example_log_def plog.defs kernel.defs)
  then have "log_drop (log_size 5) example_log = Inr example_log" by (subst log_drop.simps) simp
  from log_store_reads_back [OF _ this, of "txt_of ''boot'' @ [0]" 0] e(1) show ?thesis
    by (auto simp: txt_of_def)
qed

end
