(* ===== verification/Log_Ring.thy ===== *)
theory Log_Ring
  imports Printk
begin

section \<open>The log as a queue of messages: the invariant of \<open>kernel/printk.c\<close>\<close>

text \<open>
  The specification of the log is the list of its messages, oldest first. In the buffer the records of the messages lie one
  behind the other, from \<open>log_first_idx\<close> to \<open>log_next_idx\<close>, or to a header of length zero near the end and then
  from the start of the buffer to \<open>log_next_idx\<close>. Storing a message drops as many old ones as it needs room and adds
  the new one; \<open>kmsg_dump\<close> prints them, except for the first.
\<close>

definition record_size :: "u8 list \<Rightarrow> nat" where
  "record_size t = unat (log_size (of_nat (length t)))"

definition header_at :: "(nat \<Rightarrow> u8) \<Rightarrow> nat \<Rightarrow> u32" where
  "header_at buf p = get32 (buf p) (buf (p + 1)) (buf (p + 2)) (buf (p + 3))"

fun records :: "(nat \<Rightarrow> u8) \<Rightarrow> nat \<Rightarrow> u8 list list \<Rightarrow> nat \<Rightarrow> bool" where
  "records buf p [] e \<longleftrightarrow> p = e"
| "records buf p (t # ts) e \<longleftrightarrow>
     header_at buf p = of_nat (record_size t) \<and> (\<forall>j < length t. buf (p + 8 + j) = t ! j) \<and> records buf (p + record_size t) ts e"

text \<open>\<open>f\<close> and \<open>n\<close> are the indices of the first and the next record, \<open>hi\<close> the messages up to the end marker.\<close>

definition log_ring :: "(nat \<Rightarrow> u8) \<Rightarrow> nat \<Rightarrow> nat \<Rightarrow> u8 list list \<Rightarrow> bool" where
  "log_ring buf f n ms \<longleftrightarrow>
     (\<forall>t \<in> set ms. 0 \<in> set t \<and> length t \<le> 256) \<and>
     (records buf f ms n \<and> n + 8 < LOG_BUF_LEN \<or>
      (\<exists>hi lo m. ms = hi @ lo \<and> lo \<noteq> [] \<and> records buf f hi m \<and> m + 8 \<le> LOG_BUF_LEN \<and> header_at buf m = 0 \<and>
         records buf 0 lo n \<and> n < f))"

definition log_rep :: "'a plog_scheme \<Rightarrow> u8 list list \<Rightarrow> bool" where
  "log_rep s ms \<longleftrightarrow> log_ring (log_buf s) (unat (log_first_idx s)) (unat (log_next_idx s)) ms \<and>
     unat (log_next_seq s) = unat (log_first_seq s) + length ms"

subsection \<open>Records\<close>

lemma text_len_word:
  assumes "length t \<le> 256"
  shows "unat (of_nat (length t) :: u16) = length t"
  using assms unat_of_nat_below [of "length t", where 'a = 16] by simp

lemma record_size_bounds:
  assumes "length t \<le> 256"
  shows "8 + length t \<le> record_size t" "record_size t \<le> 267" "unat (of_nat (record_size t) :: u32) = record_size t"
    "(of_nat (record_size t) :: u32) \<noteq> 0"
proof -
  show b: "8 + length t \<le> record_size t" "record_size t \<le> 267"
    using log_size_bounds [of "of_nat (length t)"] text_len_word [OF assms] assms by (simp_all add: record_size_def)
  then show u: "unat (of_nat (record_size t) :: u32) = record_size t" by (intro unat_of_nat_below) simp
  then show "(of_nat (record_size t) :: u32) \<noteq> 0" using b(1) by (metis add_is_0 le_zero_eq unsigned_0 zero_neq_numeral)
qed

lemma records_end:
  assumes "records buf p ts e"
  shows "p \<le> e" "ts \<noteq> [] \<Longrightarrow> \<forall>t \<in> set ts. length t \<le> 256 \<Longrightarrow> p < e"
  using assms
proof (induction buf p ts e rule: records.induct)
  case (2 buf p t ts e)
  {
    case 1
    then show ?case using 2 by simp
  next
    case 2
    then show ?case using "2.IH"(1) record_size_bounds(1) [of t] by fastforce
  }
qed simp_all

lemma records_cong:
  assumes "records buf p ts e" and "\<forall>t \<in> set ts. length t \<le> 256" and "\<And>k. p \<le> k \<Longrightarrow> k < e \<Longrightarrow> buf' k = buf k"
  shows "records buf' p ts e"
  using assms
proof (induction buf p ts e rule: records.induct)
  case (2 buf p t ts e)
  have b: "8 + length t \<le> record_size t" using 2 by (intro record_size_bounds) simp
  have e: "p + record_size t \<le> e" using "2.prems"(1) records_end(1) by auto
  have "records buf' (p + record_size t) ts e" using 2 by (intro "2.IH") auto
  moreover have "header_at buf' p = header_at buf p" using "2.prems"(3) b e by (simp add: header_at_def)
  ultimately show ?case using 2 b e by auto
qed simp

lemma records_append:
  "records buf p (ts @ us) e \<longleftrightarrow> (\<exists>m. records buf p ts m \<and> records buf m us e)"
  by (induction buf p ts e rule: records.induct) auto

lemma msg_len_header:
  assumes "unat i + 4 \<le> LOG_BUF_LEN"
  shows "msg_len i s = Inr (header_at (log_buf s) (unat i))"
  using assms by (simp add: msg_len_def header_at_def)

subsection \<open>Dropping\<close>

lemma ring_bounds:
  assumes "log_ring buf f n ms"
  shows "n + 8 < LOG_BUF_LEN" "f + 8 \<le> LOG_BUF_LEN" "ms \<noteq> [] \<Longrightarrow> f \<noteq> n" "ms = [] \<Longrightarrow> f = n"
  using assms records_end [of buf f] unfolding log_ring_def by fastforce+

lemma ring_drop:
  assumes "log_ring (log_buf s) (unat f) n (t # ms)"
  shows "\<exists>f'. log_next f s = Inr f' \<and> log_ring (log_buf s) (unat f') n ms"
proof -
  have wf: "\<forall>t \<in> set (t # ms). 0 \<in> set t \<and> length t \<le> 256" and t: "length t \<le> 256" using assms by (auto simp: log_ring_def)
  note z = record_size_bounds [OF t]
  have fb: "unat f + 8 \<le> LOG_BUF_LEN" using ring_bounds(2) [OF assms] .
  have step: "log_next f s = Inr (f + of_nat (record_size t))" "unat (f + of_nat (record_size t)) = unat f + record_size t"
    if "header_at (log_buf s) (unat f) = of_nat (record_size t)"
  proof -
    show "log_next f s = Inr (f + of_nat (record_size t))"
      using msg_len_header [of f s] fb that z(4) by (simp add: log_next_def)
    show "unat (f + of_nat (record_size t)) = unat f + record_size t" using fb z by (subst unat_add_no_wrap) simp_all
  qed
  consider (linear) "records (log_buf s) (unat f) (t # ms) n" "n + 8 < LOG_BUF_LEN"
    | (high) hi lo m where "ms = hi @ lo" "lo \<noteq> []" "records (log_buf s) (unat f) (t # hi) m" "m + 8 \<le> LOG_BUF_LEN"
        "header_at (log_buf s) m = 0" "records (log_buf s) 0 lo n" "n < unat f"
    | (low) "header_at (log_buf s) (unat f) = 0" "records (log_buf s) 0 (t # ms) n" "n < unat f"
    using assms unfolding log_ring_def by (auto simp: Cons_eq_append_conv)
  then show ?thesis
  proof cases
    case linear
    then show ?thesis using step wf by (auto simp: log_ring_def)
  next
    case high
    then have "log_ring (log_buf s) (unat f + record_size t) n ms" using wf unfolding log_ring_def by fastforce
    then show ?thesis using step high(3) by auto
  next
    case low
    then have "log_next f s = Inr (of_nat (record_size t))"
      using msg_len_header [of f s] msg_len_header [of 0 s] fb by (simp add: log_next_def)
    moreover have "log_ring (log_buf s) (record_size t) n ms" using low fb wf by (auto simp: log_ring_def)
    ultimately show ?thesis using z(3) by auto
  qed
qed

lemma log_free_nat:
  "unat (log_free s) = (let f = unat (log_first_idx s); n = unat (log_next_idx s)
     in if f < n then max (LOG_BUF_LEN - n) f else f - n)"
  if "unat (log_next_idx s) \<le> LOG_BUF_LEN"
proof -
  have "unat (1024 - log_next_idx s) = 1024 - unat (log_next_idx s)"
    using that by (subst unat_sub_no_wrap) (simp_all add: word_le_nat_alt)
  moreover have "unat (log_first_idx s - log_next_idx s) = unat (log_first_idx s) - unat (log_next_idx s)"
    if "\<not> log_first_idx s < log_next_idx s"
    using that by (subst unat_sub_no_wrap) (simp_all add: word_less_nat_alt)
  ultimately show ?thesis
    by (auto simp: log_free_def Let_def word_less_nat_alt max_def word_le_nat_alt)
qed

lemma log_drop_rep:
  assumes "log_rep s ms"
  shows "\<exists>s1 k. log_drop bytes s = Inr s1 \<and> log_rep s1 (drop k ms) \<and> (drop k ms = [] \<or> bytes + 8 < log_free s1) \<and>
    (ms = [] \<or> bytes + 8 < log_free s \<longrightarrow> k = 0)"
  using assms
proof (induction ms arbitrary: s)
  case Nil
  then have "\<not> log_first_seq s < log_next_seq s" by (simp add: log_rep_def word_less_nat_alt)
  then show ?case using Nil by (intro exI [of _ s] exI [of _ 0]) (subst log_drop.simps, simp)
next
  case (Cons t ms)
  have lt: "unat (log_first_seq s) < unat (log_next_seq s)" using Cons.prems by (simp add: log_rep_def)
  show ?case
  proof (cases "bytes + 8 < log_free s")
    case True
    then have "log_drop bytes s = Inr s" by (subst log_drop.simps) simp
    then show ?thesis using Cons.prems True by (intro exI [of _ s] exI [of _ 0]) simp
  next
    case False
    obtain f' where f: "log_next (log_first_idx s) s = Inr f'" "log_ring (log_buf s) (unat f') (unat (log_next_idx s)) ms"
      using ring_drop [of s "log_first_idx s" _ t ms] Cons.prems by (auto simp: log_rep_def)
    let ?s = "s\<lparr>log_first_idx := f', log_first_seq := log_first_seq s + 1\<rparr>"
    have "unat (log_first_seq s + 1) = Suc (unat (log_first_seq s))"
      using lt unsigned_less [of "log_next_seq s", where 'a = nat] by (intro unat_Suc_no_wrap) simp
    then have "log_rep ?s ms" using f(2) Cons.prems by (simp add: log_rep_def)
    from Cons.IH [OF this] obtain s1 k where "log_drop bytes ?s = Inr s1" "log_rep s1 (drop k ms)"
        "drop k ms = [] \<or> bytes + 8 < log_free s1" by blast
    moreover have "log_drop bytes s = log_drop bytes ?s"
      using lt False f(1) by (subst log_drop.simps) (simp add: word_less_nat_alt)
    ultimately show ?thesis using False by (intro exI [of _ s1] exI [of _ "Suc k"]) simp
  qed
qed

subsection \<open>Storing\<close>

text \<open>What a record written behind the last one does to the ring, with and without a wrap.\<close>

lemma ring_store:
  assumes r: "log_ring buf f n ms" and t: "0 \<in> set t" "length t \<le> 256" and z: "z = record_size t"
    and room: "ms = [] \<or> z + 8 < (if f < n then max (LOG_BUF_LEN - n) f else f - n)"
    and w: "w \<longleftrightarrow> n + z + 8 \<ge> LOG_BUF_LEN" and p: "p = (if w then 0 else n)"
    and new: "header_at buf' p = of_nat z" "\<forall>j < length t. buf' (p + 8 + j) = t ! j"
    and old: "\<And>k. k \<notin> {p..<p + z} \<Longrightarrow> buf' k = (if w then put_at n (replicate 8 0) buf k else buf k)"
  shows "log_ring buf' f (p + z) (ms @ [t])"
proof -
  have wf: "\<forall>t \<in> set ms. 0 \<in> set t \<and> length t \<le> 256" "\<forall>t \<in> set ms. length t \<le> 256" using r by (auto simp: log_ring_def)
  have zb: "z \<le> 267" "8 \<le> z" using record_size_bounds [OF t(2)] z by simp_all
  have one: "records buf' p [t] (p + z)" using new z by simp
  note b = ring_bounds [OF r]
  consider (linear) "records buf f ms n"
    | (wrapped) hi lo m where "ms = hi @ lo" "lo \<noteq> []" "records buf f hi m" "m + 8 \<le> LOG_BUF_LEN" "header_at buf m = 0"
        "records buf 0 lo n" "n < f"
    using r unfolding log_ring_def by auto
  then show ?thesis
  proof cases
    case linear
    note fn = records_end(1) [OF linear]
    show ?thesis
    proof (cases w)
      case False
      then have "buf' k = buf k" if "k < n" for k using old [of k] that p by simp
      then have "records buf' f ms n" by (intro records_cong [OF linear wf(2)])
      then have "records buf' f (ms @ [t]) (p + z)" using one False p by (auto simp: records_append)
      then show ?thesis using wf t False w p by (auto simp: log_ring_def)
    next
      case True
      have zf: "z < f"
      proof (cases "ms = []")
        case True
        then show ?thesis using b(4) \<open>w\<close> w zb by simp
      next
        case False
        then show ?thesis using room fn b(3) True w by (auto split: if_splits)
      qed
      have k: "buf' k = (if n \<le> k \<and> k < n + 8 then 0 else buf k)" if "f \<le> k" for k
        using old [of k] True p zf that nth_replicate [of "k - n" 8 "0 :: u8"] by (auto simp: put_at_def)
      then have "records buf' f ms n" by (intro records_cong [OF linear wf(2)]) simp
      moreover have "header_at buf' n = 0"
        using k [of n] k [of "n + 1"] k [of "n + 2"] k [of "n + 3"] fn by (simp add: header_at_def) (simp add: get32_def)
      moreover have "records buf' 0 [t] (p + z)" "p + z < f" using one True p zf by simp_all
      ultimately show ?thesis using wf t b(1) unfolding log_ring_def
        by (intro conjI disjI2 exI [of _ ms] exI [of _ "[t]"] exI [of _ n]) auto
    qed
  next
    case wrapped
    then have zr: "n + z + 8 < f" using room by auto
    then have nw: "\<not> w" "p = n" using w p b(2) by auto
    note fm = records_end(1) [OF wrapped(3)]
    have k: "buf' k = buf k" if "k < n \<or> f \<le> k" for k using old [of k] nw zr that by auto
    then have "records buf' f hi m" "records buf' 0 lo n"
      using wf(2) wrapped(1) by (auto intro!: records_cong [OF wrapped(3)] records_cong [OF wrapped(6)])
    moreover have "header_at buf' m = 0"
      using wrapped(5) k [of m] k [of "m + 1"] k [of "m + 2"] k [of "m + 3"] fm by (simp add: header_at_def)
    moreover have "records buf' 0 (lo @ [t]) (p + z)" using calculation(2) one nw by (auto simp: records_append)
    ultimately show ?thesis using wf t wrapped(1,4) zr nw unfolding log_ring_def
      by (intro conjI disjI2 exI [of _ hi] exI [of _ "lo @ [t]"] exI [of _ m]) auto
  qed
qed

lemma log_store_rep:
  assumes rep: "log_rep s ms" and t: "0 \<in> set t" "length t \<le> 256" and seq: "unat (log_next_seq s) + 1 < 2 ^ 64"
  shows "\<exists>s' k. log_store level t (of_nat (length t)) s = Inr s' \<and> log_rep s' (drop k ms @ [t]) \<and>
    (ms = [] \<or> log_size (of_nat (length t)) + 8 < log_free s \<longrightarrow> k = 0) \<and> log_next_seq s' = log_next_seq s + 1"
proof -
  let ?n = "log_size (of_nat (length t))" and ?l = "of_nat (length t) :: u16"
  note tl = text_len_word [OF t(2)] and zb = record_size_bounds [OF t(2)]
  have z: "unat ?n = record_size t" by (simp add: record_size_def)
  obtain s1 k where d: "log_drop ?n s = Inr s1" "log_rep s1 (drop k ms)" "drop k ms = [] \<or> ?n + 8 < log_free s1"
      "ms = [] \<or> ?n + 8 < log_free s \<longrightarrow> k = 0"
    using log_drop_rep [OF rep] by blast
  note keep = log_drop_keeps [OF d(1)]
  let ?f = "unat (log_first_idx s1)" and ?i = "unat (log_next_idx s)" and ?p = "log_pos ?n s"
  have r: "log_ring (log_buf s) ?f ?i (drop k ms)" using d(2) keep by (simp add: log_rep_def)
  note b = ring_bounds [OF r]
  have w: "log_wraps ?n s \<longleftrightarrow> ?i + record_size t + 8 \<ge> LOG_BUF_LEN" by (simp add: log_wraps_def z)
  have room: "drop k ms = [] \<or> record_size t + 8 < (if ?f < ?i then max (LOG_BUF_LEN - ?i) ?f else ?f - ?i)"
  proof -
    have "unat (?n + 8) = record_size t + 8" using z zb by (subst unat_add_no_wrap) simp_all
    moreover have "unat (log_next_idx s1) = ?i" using keep by simp
    moreover have "unat (log_free s1) = (if ?f < ?i then max (LOG_BUF_LEN - ?i) ?f else ?f - ?i)"
      using log_free_nat [of s1] b(1) keep by (simp add: Let_def)
    ultimately show ?thesis using d(3) by (auto simp: word_less_nat_alt)
  qed
  obtain s' where s': "log_store level t ?l s = Inr s'" "unat (log_next_idx s') = ?p + record_size t"
      "log_next_seq s' = log_next_seq s + 1" "msg_len (of_nat ?p) s' = Inr ?n" "\<forall>j < length t. log_buf s' (?p + 8 + j) = t ! j"
      "log_first_idx s' = log_first_idx s1" "log_first_seq s' = log_first_seq s1"
      "\<And>k. k \<notin> {?p..<?p + record_size t} \<Longrightarrow>
        log_buf s' k = (if log_wraps ?n s then put_at ?i (replicate 8 0) (log_buf s) k else log_buf s k)"
    using log_store_result [OF d(1) b(1), of t level] t(2) tl z by auto
  have pb: "?p + 8 < LOG_BUF_LEN" using b(1) by (simp add: log_pos_def)
  then have "unat (of_nat ?p :: u32) = ?p" by (intro unat_of_nat_below) simp
  then have "header_at (log_buf s') ?p = of_nat (record_size t)"
    using s'(4) msg_len_header [of "of_nat ?p" s'] pb by (simp add: record_size_def)
  from ring_store [OF r t refl room w _ this s'(5,8)]
  have "log_ring (log_buf s') ?f (?p + record_size t) (drop k ms @ [t])" by (simp add: log_pos_def)
  moreover have "unat (log_next_seq s + 1) = Suc (unat (log_next_seq s))" using seq by (intro unat_Suc_no_wrap) simp
  ultimately have "log_rep s' (drop k ms @ [t])" using s' d(2) keep by (simp add: log_rep_def)
  then show ?thesis using s'(1,3) d(4) by blast
qed

subsection \<open>Printing the log\<close>

abbreviation message_text :: "u8 list \<Rightarrow> u8 list" where
  "message_text \<equiv> takeWhile (\<lambda>c. c \<noteq> 0)"

lemma record_text:
  assumes "records (log_buf s) (unat q) (t # ts) e" "0 \<in> set t" "unat q + 8 < LOG_BUF_LEN" "e \<le> LOG_BUF_LEN" "length t \<le> 256"
  shows "text_at (log_text q) s = Inr (message_text t)"
proof -
  have u: "unat (log_text q) = unat q + 8" unfolding log_text_def using assms(3) by (subst unat_add_no_wrap) simp_all
  have e: "unat q + 8 + length t \<le> LOG_BUF_LEN"
    using assms(1,4) records_end(1) [of "log_buf s" "unat q + record_size t" ts e] record_size_bounds(1) [OF assms(5)] by simp
  then have "[unat q + 8..<LOG_BUF_LEN] = [unat q + 8..<unat q + 8 + length t] @ [unat q + 8 + length t..<LOG_BUF_LEN]"
    by (metis le_add1 le_add_diff_inverse upt_add_eq_append)
  moreover have "map (log_buf s) [unat q + 8..<unat q + 8 + length t] = t"
    using assms(1) by (intro nth_equalityI) simp_all
  ultimately obtain us where "map (log_buf s) [unat q + 8..<LOG_BUF_LEN] = t @ us" by (metis map_append)
  then show ?thesis using assms(2) by (simp add: text_at_def u)
qed

lemma ring_first_text:
  assumes "log_ring (log_buf s) (unat i) n (t # ms)"
  shows "bind_res (log_from_idx i s) (\<lambda>msg. text_at (log_text msg) s) = Inr (message_text t)"
proof -
  have wf: "0 \<in> set t" "length t \<le> 256" "\<forall>t \<in> set ms. length t \<le> 256" using assms by (auto simp: log_ring_def)
  note z = record_size_bounds [OF wf(2)] and b = ring_bounds [OF assms]
  have from_idx: "log_from_idx q s = Inr (if header_at (log_buf s) (unat q) = 0 then 0 else q)" if "unat q + 8 \<le> LOG_BUF_LEN" for q
    using msg_len_header [of q s] that by (simp add: log_from_idx_def)
  have first: "bind_res (log_from_idx i s) (\<lambda>msg. text_at (log_text msg) s) = Inr (message_text t)"
    if r: "records (log_buf s) (unat i) (t # us) e" and e: "e + 8 \<le> LOG_BUF_LEN" for us e
  proof -
    have "unat i + 8 < LOG_BUF_LEN" using r e z(1) records_end(1) [of "log_buf s" "unat i + record_size t" us e] by simp
    then show ?thesis using from_idx [of i] r z(4) record_text [OF r wf(1) _ _ wf(2)] e by simp
  qed
  consider (linear) "records (log_buf s) (unat i) (t # ms) n" "n + 8 < LOG_BUF_LEN"
    | (high) hi m where "records (log_buf s) (unat i) (t # hi) m" "m + 8 \<le> LOG_BUF_LEN"
    | (low) "header_at (log_buf s) (unat i) = 0" "records (log_buf s) 0 (t # ms) n"
    using assms unfolding log_ring_def by (auto simp: Cons_eq_append_conv)
  then show ?thesis
  proof cases
    case linear
    then show ?thesis by (intro first [of ms n]) simp_all
  next
    case high
    then show ?thesis by (rule first)
  next
    case low
    then show ?thesis using from_idx [of i] b(1,2) record_text [of s 0 t ms n] wf by simp
  qed
qed

text \<open>The loop of \<open>kmsg_dump\<close> prints every message behind the one it starts at.\<close>

lemma dump_loop_prints:
  assumes "log_ring (log_buf s) (unat i) (unat (log_next_idx s)) (t # ms)"
  shows "dump_loop i s = Some (Inr (s\<lparr>console := console s @ concat (map message_text ms)\<rparr>))"
  using assms
proof (induction ms arbitrary: i t s)
  case Nil
  then obtain i' where i': "log_next i s = Inr i'" "log_ring (log_buf s) (unat i') (unat (log_next_idx s)) []"
    using ring_drop by blast
  then have "i' = log_next_idx s" using ring_bounds(4) by (simp add: word_unat_eq_iff)
  then show ?case using i'(1) by (subst dump_loop.simps) simp
next
  case (Cons u ms)
  then obtain i' where i': "log_next i s = Inr i'" "log_ring (log_buf s) (unat i') (unat (log_next_idx s)) (u # ms)"
    using ring_drop by blast
  then have ne: "i' \<noteq> log_next_idx s" using ring_bounds(3) by auto
  have "puts (message_text u) s = s\<lparr>console := console s @ message_text u\<rparr>" by (simp add: puts_def)
  then show ?case
    using i'(1) ne ring_first_text [OF i'(2)] Cons.IH [of "s\<lparr>console := console s @ message_text u\<rparr>" i' u] i'(2)
    by (subst dump_loop.simps) simp
qed

text \<open>Neither the console nor the rest of the kernel's state takes part in the log.\<close>

lemma log_drop_console: "log_drop bytes s = Inr s1 \<Longrightarrow> console s1 = console s"
proof (induction bytes s rule: log_drop.induct)
  case (1 bytes s)
  then show ?case by (simp add: log_drop.simps [of bytes s] split: if_splits sum.splits)
qed

lemma put_bytes_console: "put_bytes i bs s = Inr s' \<Longrightarrow> console s' = console s"
  by (auto simp: put_bytes_def split: if_splits)

lemma log_wrap_console: "log_wrap bytes s = Inr s' \<Longrightarrow> console s' = console s"
  by (auto simp: log_wrap_def bind_res_Inr_iff dest: put_bytes_console split: if_splits)

lemma log_store_console: "log_store level t n s = Inr s' \<Longrightarrow> console s' = console s"
  by (auto simp: log_store_def bind_res_Inr_iff Let_def dest!: put_bytes_console log_wrap_console log_drop_console split: if_splits)

lemma log_critical_sel [simp]:
  "log_buf (enter_critical_section s) = log_buf s" "log_first_idx (enter_critical_section s) = log_first_idx s"
  "log_next_idx (enter_critical_section s) = log_next_idx s" "log_first_seq (enter_critical_section s) = log_first_seq s"
  "log_next_seq (enter_critical_section s) = log_next_seq s" "console (enter_critical_section s) = console s"
  "log_buf (exit_critical_section s) = log_buf s" "log_first_idx (exit_critical_section s) = log_first_idx s"
  "log_next_idx (exit_critical_section s) = log_next_idx s" "log_first_seq (exit_critical_section s) = log_first_seq s"
  "log_next_seq (exit_critical_section s) = log_next_seq s" "console (exit_critical_section s) = console s"
  by (simp_all add: enter_critical_section_def exit_critical_section_def Let_def)

lemma printk_rep:
  assumes "log_rep s ms" and "unat (log_next_seq s) + 1 < 2 ^ 64"
    and "vsnprintf 256 fmt ap = Inr (out @ [0], st, n)" and "out \<noteq> []"
  shows "\<exists>s' k. printk fmt ap s = Inr (n, st, s') \<and> log_rep s' (drop k ms @ [out @ [0]]) \<and>
    console s' = console s @ message_text out \<and>
    (log_size (of_nat (Suc (length out))) + 8 < log_free s \<longrightarrow> k = 0) \<and> log_next_seq s' = log_next_seq s + 1"
proof -
  have v: "vsn_loop 256 fmt ap [] [] = Inr (out, st)" "n = of_nat (length out)"
    using assms(3) by (auto simp: vsnprintf_def bind_res_Inr_iff)
  have len: "length (out @ [0]) \<le> 256" using vsn_loop_length [OF v(1)] by simp
  have "sint n = int (length out)" unfolding v(2) using len by (intro sint_of_nat_below) simp
  then have pos: "0 < sint n" using assms(4) by simp
  have tl: "(ucast (n + 1) :: u16) = of_nat (length (out @ [0]))"
  proof -
    have "take_bit 32 (Suc (length out)) = Suc (length out)" using len by (simp add: take_bit_nat_eq_self)
    moreover have "n + 1 = of_nat (Suc (length out))" by (simp add: v(2))
    ultimately show ?thesis by (simp only: unsigned_of_nat) simp
  qed
  have r: "log_rep (enter_critical_section s) ms"
    using assms(1) by (simp add: log_rep_def)
  obtain s1 k where s1: "log_store 0 (out @ [0]) (of_nat (length (out @ [0]))) (enter_critical_section s) = Inr s1"
      "log_rep s1 (drop k ms @ [out @ [0]])" "ms = [] \<or> log_size (of_nat (length (out @ [0]))) + 8 < log_free (enter_critical_section s) \<longrightarrow> k = 0"
      "log_next_seq s1 = log_next_seq (enter_critical_section s) + 1"
    using log_store_rep [OF r, of "out @ [0]" 0] len assms(2) by auto
  have "printk fmt ap s = Inr (n, st, exit_critical_section (puts (out @ [0]) s1))"
    using assms(3) pos s1(1) tl by (simp add: printk_def dvprintf_def)
  moreover have "message_text (out @ [0]) = message_text out" by (induction out) simp_all
  ultimately show ?thesis
    using s1 log_store_console [OF s1(1)]
    by (intro exI [of _ "exit_critical_section (puts (out @ [0]) s1)"] exI [of _ k])
      (simp add: log_rep_def puts_def log_free_def)
qed

text \<open>Texts without conversions.\<close>

definition plain_text :: "string \<Rightarrow> bool" where
  "plain_text fmt \<longleftrightarrow> fmt \<noteq> [] \<and> length fmt < 254 \<and> list_all (\<lambda>c. c \<noteq> chr CHR ''%'' \<and> c \<noteq> 0) (txt_of fmt)"

lemma vsn_loop_plain:
  assumes "list_all (\<lambda>c. c \<noteq> chr CHR ''%'') cs" and "length out + length cs < 254"
  shows "vsn_loop 256 cs ap out st = Inr (out @ cs, st)"
  using assms
proof (induction cs arbitrary: out)
  case (Cons c cs)
  have "(of_nat (Suc (Suc (length out))) :: u32) \<noteq> of_nat 256" using Cons.prems(2) by (subst of_nat_inj_below) simp_all
  then have "OUTPUT_CHAR 256 c out = Go (out @ [c])" by (simp add: OUTPUT_CHAR_def Let_def)
  then show ?case using Cons by simp
qed simp

lemma print_plain:
  assumes "log_rep s ms" and "unat (log_next_seq s) + 1 < 2 ^ 64" and "plain_text fmt"
  shows "\<exists>s' ms'. print fmt ap s = Inr s' \<and> log_rep s' ms' \<and> console s' = console s @ txt_of fmt \<and>
    log_next_seq s' = log_next_seq s + 1"
proof -
  have p: "txt_of fmt \<noteq> []" "length (txt_of fmt) < 254" "list_all (\<lambda>c. c \<noteq> chr CHR ''%'') (txt_of fmt)" "message_text (txt_of fmt) = txt_of fmt"
    using assms(3) by (auto simp: plain_text_def txt_of_def list_all_iff takeWhile_eq_all_conv)
  then have "vsnprintf 256 (txt_of fmt) ap = Inr (txt_of fmt @ [0], [], of_nat (length (txt_of fmt)))"
    using vsn_loop_plain [of "txt_of fmt" "[]" ap "[]"] by (simp add: vsnprintf_def)
  from printk_rep [OF assms(1,2) this p(1)] show ?thesis using p(4) by (auto simp: print_def)
qed

lemma print_all_plain:
  assumes "log_rep s ms" and "unat (log_next_seq s) + length ls < 2 ^ 64" and "list_all (\<lambda>l. plain_text (fst l)) ls"
  shows "\<exists>s' ms'. print_all ls s = Inr s' \<and> log_rep s' ms' \<and> console s' = console s @ concat (map (\<lambda>l. txt_of (fst l)) ls)"
  using assms
proof (induction ls arbitrary: s ms)
  case (Cons l ls)
  obtain fmt ap where l: "l = (fmt, ap)" by force
  obtain s1 ms1 where s1: "print fmt ap s = Inr s1" "log_rep s1 ms1" "console s1 = console s @ txt_of fmt"
      "log_next_seq s1 = log_next_seq s + 1"
    using print_plain [OF Cons.prems(1), of fmt ap] Cons.prems(2,3) by (auto simp: l)
  have "unat (log_next_seq s + 1) = Suc (unat (log_next_seq s))" using Cons.prems(2) by (intro unat_Suc_no_wrap) simp
  then show ?case using Cons.IH [OF s1(2)] Cons.prems(2,3) s1 by (auto simp: l)
qed auto

subsection \<open>Properties\<close>

text \<open>
  C13. The log is a queue of messages, and \<open>printk\<close> adds to it. If the log holds the messages \<open>ms\<close>, its sequence numbers have not
  reached 2^64 and the format can be converted to a text that is not empty, then \<open>printk\<close> succeeds without leaving the
  buffer, prints the text on the console, and the log holds the messages less some of the oldest, none of them if there
  was room, and the new one at the end.
\<close>

theorem printk_extends_log:
  assumes "log_rep s ms" and "unat (log_next_seq s) + 1 < 2 ^ 64"
    and "vsnprintf 256 fmt ap = Inr (out @ [0], st, n)" and "out \<noteq> []"
  shows "\<exists>s' k. printk fmt ap s = Inr (n, st, s') \<and> log_rep s' (drop k ms @ [out @ [0]]) \<and>
    console s' = console s @ message_text out \<and>
    (log_size (of_nat (Suc (length out))) + 8 < log_free s \<longrightarrow> k = 0) \<and> log_next_seq s' = log_next_seq s + 1"
  using printk_rep [OF assms] .

definition empty_log :: plog where
  "empty_log = kernel.extend example_timers (plog.fields (\<lambda>_. 0) 0 0 0 0 [])"

lemma empty_log_rep: "log_rep empty_log []" "log_next_seq empty_log = 0"
  by (simp_all add: log_rep_def log_ring_def empty_log_def plog.defs kernel.defs)

lemma printed_boot: "vsnprintf 256 (txt_of ''boot'') [] = Inr (txt_of ''boot'' @ [0], [], 4)"
  by code_simp

theorem printk_extends_log_witness:
  "\<exists>s'. printk (txt_of ''boot'') [] empty_log = Inr (4, [], s') \<and> log_rep s' [txt_of ''boot'' @ [0]]"
  using printk_extends_log [OF empty_log_rep(1) _ printed_boot] by (auto simp: empty_log_rep txt_of_def)

text \<open>
  C40. \<open>kmsg_dump\<close> returns, and prints the messages of the log in order except for the oldest, which is never printed.
\<close>

theorem kmsg_dump_prints_tail:
  assumes "log_rep s ms"
  shows "kmsg_dump s = Some (Inr (s\<lparr>console := console s @ concat (map message_text (tl ms))\<rparr>))"
proof (cases ms)
  case Nil
  then have "log_ring (log_buf s) (unat (log_first_idx s)) (unat (log_next_idx s)) []" using assms by (simp add: log_rep_def)
  from ring_bounds(4) [OF this refl] have "unat (log_first_idx s) = unat (log_next_idx s)" .
  then show ?thesis using Nil by (simp add: kmsg_dump_def word_unat_eq_iff)
next
  case (Cons t us)
  then have r: "log_ring (log_buf s) (unat (log_first_idx s)) (unat (log_next_idx s)) (t # us)" using assms by (simp add: log_rep_def)
  from ring_bounds(3) [OF this] have "log_first_idx s \<noteq> log_next_idx s" by auto
  then show ?thesis using dump_loop_prints [OF r] Cons by (simp add: kmsg_dump_def)
qed

text \<open>A log of two messages, \<open>a\<close> and \<open>b\<close>.\<close>

definition example_messages :: plog where
  "example_messages = empty_log\<lparr>log_buf := put_at 0 (le32 12) (put_at 8 [97, 0] (put_at 12 (le32 12) (put_at 20 [98, 0] (\<lambda>_. 0)))),
     log_next_idx := 24, log_next_seq := 2\<rparr>"

lemma example_messages_rep: "log_rep example_messages [[97, 0], [98, 0]]"
proof -
  have "record_size [97, 0] = 12" "record_size [98, 0] = 12" by code_simp+
  moreover have "header_at (log_buf example_messages) 0 = 12" "header_at (log_buf example_messages) 12 = 12" by code_simp+
  moreover have "log_buf example_messages 8 = 97" "log_buf example_messages 9 = 0" "log_buf example_messages 20 = 98"
      "log_buf example_messages 21 = 0"
    by (simp_all add: example_messages_def put_at_def le32_def)
  moreover have "log_first_idx example_messages = 0" "log_next_idx example_messages = 24" "log_first_seq example_messages = 0"
      "log_next_seq example_messages = 2"
    by (simp_all add: example_messages_def empty_log_def plog.defs kernel.defs)
  ultimately show ?thesis by (simp add: log_rep_def log_ring_def less_Suc_eq)
qed

theorem kmsg_dump_prints_tail_witness: "\<exists>s. kmsg_dump example_messages = Some (Inr s) \<and> console s = [98]"
  using kmsg_dump_prints_tail [OF example_messages_rep]
  by (simp add: example_messages_def empty_log_def plog.defs kernel.defs)

end
