(* ===== verification/Vfs.thy ===== *)
theory Vfs
  imports Printk
begin

section \<open>The file-system switch: \<open>fs/vfsfs.c\<close>\<close>

text \<open>
  A node is a pair of an operation vector and private data. The vectors are named by values of a
  type \<open>'v\<close>, the private data has a type \<open>'p\<close> and the file system works on a state of type \<open>'w\<close>:
  \<open>ops\<close> gives the functions of a vector. A descriptor holds the address of a node, \<open>NULL\<close> if it is
  free and \<open>FD_ALLOCATED\<close> while it is being opened. Results of C functions are integers, \<open>-1\<close> for
  a failure; a function that leaves the descriptor table or the path buffer, or follows a null
  pointer, returns the error. A lookup may not return: \<open>None\<close>. The registered file systems are
  kept as the sequence the list \<open>fs_root\<close> represents. A read takes and returns the contents of the
  caller's buffer.
\<close>

abbreviation FD_MAX_NUM :: int where "FD_MAX_NUM \<equiv> 256"
abbreviation FD_ALLOCATED :: ptr where "FD_ALLOCATED \<equiv> 1"
abbreviation PATH_LEN :: nat where "PATH_LEN \<equiv> 128"
abbreviation slash :: u8 where "slash \<equiv> 47"
abbreviation dot :: u8 where "dot \<equiv> 46"

text \<open>\<open>fp_ucount_dec\<close> passes the node itself to \<open>close\<close>, \<open>vfs_close\<close> passes the private data.\<close>

datatype 'p closing = Close_Node ptr | Close_Priv 'p

record ('v, 'p, 'w) vfs_opvector =
  op_lookup :: "'p \<Rightarrow> u8 list \<Rightarrow> 'w \<Rightarrow> (('v \<times> 'p) option \<times> 'w) res option"
  op_read :: "'p \<Rightarrow> u8 list \<Rightarrow> u32 \<Rightarrow> 'w \<Rightarrow> (int \<times> u8 list \<times> u32 \<times> 'w) res option"
  op_close :: "'p closing \<Rightarrow> 'w \<Rightarrow> int \<times> 'w"
  op_open :: "'p \<Rightarrow> 'w \<Rightarrow> int \<times> 'w"

record ('v, 'p, 'w) vfs_fs =
  fs_name :: "u8 list"
  fs_mount :: "ptr \<Rightarrow> 'w \<Rightarrow> (int \<times> ('v \<times> 'p) option \<times> 'w) res"

record ('v, 'p, 'w) vfs =
  fs_root :: "('v, 'p, 'w) vfs_fs list"
  vfsroot :: "'v \<times> 'p"
  desc :: "nat \<Rightarrow> ptr"
  node_at :: "ptr \<Rightarrow> 'v \<times> 'p"
  cur_path :: "u8 list"
  fs_world :: 'w

subsection \<open>Registration and mounting\<close>

definition strncmp_zero :: "u8 list \<Rightarrow> u8 list \<Rightarrow> nat \<Rightarrow> bool" where
  "strncmp_zero a b n \<longleftrightarrow> take n (a @ [0]) = take n (b @ [0])"

definition find_filesystem :: "u8 list \<Rightarrow> ('v, 'p, 'w) vfs \<Rightarrow> ('v, 'p, 'w) vfs_fs option" where
  "find_filesystem nm s = find (\<lambda>p. strncmp_zero (fs_name p) nm (length nm)) (fs_root s)"

definition register_filesystem :: "('v, 'p, 'w) vfs_fs \<Rightarrow> ('v, 'p, 'w) vfs \<Rightarrow> int \<times> ('v, 'p, 'w) vfs" where
  "register_filesystem fs s =
     (if find_filesystem (fs_name fs) s \<noteq> None then (- 1, s)
      else (0, s\<lparr>fs_root := fs_root s @ [fs]\<rparr>))"

definition vfs_mount :: "ptr \<Rightarrow> u8 list \<Rightarrow> ('v, 'p, 'w) vfs \<Rightarrow> (int \<times> ('v, 'p, 'w) vfs) res" where
  "vfs_mount img nm s =
     (case find_filesystem nm s of
        None \<Rightarrow> Inl Null_Deref
      | Some fs \<Rightarrow> bind_res (fs_mount fs img (fs_world s)) (\<lambda>(r, root, w).
          Inr (r, s\<lparr>fs_world := w, vfsroot := (case root of None \<Rightarrow> vfsroot s | Some n \<Rightarrow> n)\<rparr>)))"

subsection \<open>Lookup of one path component\<close>

definition vfs_lookup ::
  "('v \<Rightarrow> ('v, 'p, 'w) vfs_opvector) \<Rightarrow> 'v \<times> 'p \<Rightarrow> u8 list \<Rightarrow> 'w \<Rightarrow> (('v \<times> 'p) option \<times> 'w) res option" where
  "vfs_lookup ops dir nm w = op_lookup (ops (fst dir)) (snd dir) nm w"

definition vfs_lookup_part ::
  "('v \<Rightarrow> ('v, 'p, 'w) vfs_opvector) \<Rightarrow> 'v \<times> 'p \<Rightarrow> u8 list \<Rightarrow> 'w \<Rightarrow> (int \<times> ('v \<times> 'p) \<times> 'w) res option" where
  "vfs_lookup_part ops dir nm w =
     (if length nm > 0 then
        if length nm \<ge> 512 then Some (Inl Out_Of_Bounds)
        else and_then (vfs_lookup ops dir nm w) (\<lambda>(n, w1).
          Some (Inr (case n of None \<Rightarrow> (- 1, dir, w1) | Some namei \<Rightarrow> (0, namei, w1))))
      else Some (Inr (0, dir, w)))"

subsection \<open>Descriptors\<close>

definition fp_ucount_dec :: "('v \<Rightarrow> ('v, 'p, 'w) vfs_opvector) \<Rightarrow> ptr \<Rightarrow> ('v, 'p, 'w) vfs \<Rightarrow> int \<times> ('v, 'p, 'w) vfs" where
  "fp_ucount_dec ops fp s =
     (case op_close (ops (fst (node_at s fp))) (Close_Node fp) (fs_world s) of (r, w) \<Rightarrow> (r, s\<lparr>fs_world := w\<rparr>))"

definition fd_close :: "('v \<Rightarrow> ('v, 'p, 'w) vfs_opvector) \<Rightarrow> int \<Rightarrow> ('v, 'p, 'w) vfs \<Rightarrow> (int \<times> ('v, 'p, 'w) vfs) res" where
  "fd_close ops fd s =
     (if fd < 0 \<or> fd > FD_MAX_NUM then Inr (- 1, s)
      else if fd = FD_MAX_NUM then Inl Out_Of_Bounds
      else let fp = desc s (nat fd); s1 = s\<lparr>desc := (desc s)(nat fd := FD_ALLOCATED)\<rparr>
        in if fp \<noteq> FD_ALLOCATED \<and> fp \<noteq> NULL then Inr (fp_ucount_dec ops fp s1) else Inr (0, s1))"

definition fd_alloc :: "int \<Rightarrow> ('v, 'p, 'w) vfs \<Rightarrow> int \<times> ('v, 'p, 'w) vfs" where
  "fd_alloc low s =
     (if low < 0 \<or> low > FD_MAX_NUM then (- 1, s)
      else case find (\<lambda>fd. desc s fd = NULL) [nat low..<nat FD_MAX_NUM] of
          Some fd \<Rightarrow> (int fd, s\<lparr>desc := (desc s)(fd := FD_ALLOCATED)\<rparr>)
        | None \<Rightarrow> (- 1, s))"

definition fd_free :: "('v \<Rightarrow> ('v, 'p, 'w) vfs_opvector) \<Rightarrow> int \<Rightarrow> ('v, 'p, 'w) vfs \<Rightarrow> (int \<times> ('v, 'p, 'w) vfs) res" where
  "fd_free ops fd s =
     (if fd < 0 \<or> fd > FD_MAX_NUM then Inr (- 1, s)
      else bind_res (fd_close ops fd s) (\<lambda>(r, s1). Inr (r, s1\<lparr>desc := (desc s1)(nat fd := NULL)\<rparr>)))"

definition fd_assign :: "('v \<Rightarrow> ('v, 'p, 'w) vfs_opvector) \<Rightarrow> int \<Rightarrow> ptr \<Rightarrow> ('v, 'p, 'w) vfs \<Rightarrow> ('v, 'p, 'w) vfs res" where
  "fd_assign ops fd fp s =
     (if fd < 0 \<or> fd > FD_MAX_NUM then Inr s
      else bind_res (fd_close ops fd s) (\<lambda>(r, s1). Inr (s1\<lparr>desc := (desc s1)(nat fd := fp)\<rparr>)))"

definition fp_get :: "int \<Rightarrow> ('v, 'p, 'w) vfs \<Rightarrow> ptr res" where
  "fp_get fd s =
     (if fd < 0 \<or> fd > FD_MAX_NUM then Inr NULL
      else if fd = FD_MAX_NUM then Inl Out_Of_Bounds
      else let fp = desc s (nat fd) in Inr (if fp \<noteq> FD_ALLOCATED \<and> fp \<noteq> NULL then fp else NULL))"

definition fp_free :: "('v \<Rightarrow> ('v, 'p, 'w) vfs_opvector) \<Rightarrow> ptr \<Rightarrow> ('v, 'p, 'w) vfs \<Rightarrow> ('v, 'p, 'w) vfs" where
  "fp_free ops fp s = snd (fp_ucount_dec ops fp s)"

subsection \<open>Files\<close>

text \<open>\<open>open_walk\<close> is the loop over the path: \<open>part\<close> holds the characters between \<open>stp\<close> and \<open>p\<close>.\<close>

fun open_walk ::
  "('v \<Rightarrow> ('v, 'p, 'w) vfs_opvector) \<Rightarrow> u8 list \<Rightarrow> u8 list \<Rightarrow> 'v \<times> 'p \<Rightarrow> 'w \<Rightarrow> (int \<times> ('v \<times> 'p) \<times> 'w) res option" where
  "open_walk ops [] part dir w = vfs_lookup_part ops dir part w"
| "open_walk ops (c # p) part dir w =
     (if c = slash then
        and_then (vfs_lookup_part ops dir part w) (\<lambda>(r, dir1, w1).
          if r \<noteq> 0 then Some (Inr (- 1, dir1, w1)) else open_walk ops p [] dir1 w1)
      else open_walk ops p (part @ [c]) dir w)"

definition open_dir ::
  "('v \<Rightarrow> ('v, 'p, 'w) vfs_opvector) \<Rightarrow> u8 list \<Rightarrow> ('v, 'p, 'w) vfs \<Rightarrow> (int \<times> ('v \<times> 'p) \<times> 'w) res option" where
  "open_dir ops path s =
     (if path = [] then Some (Inl Out_Of_Bounds)
      else if length path > 1 then open_walk ops path [] (vfsroot s) (fs_world s)
      else Some (Inr (0, vfsroot s, fs_world s)))"

definition open_node ::
  "('v \<Rightarrow> ('v, 'p, 'w) vfs_opvector) \<Rightarrow> int \<Rightarrow> ptr \<Rightarrow> 'v \<times> 'p \<Rightarrow> ('v, 'p, 'w) vfs \<Rightarrow> (int \<times> ('v, 'p, 'w) vfs) res" where
  "open_node ops fd file dir s =
     (let s1 = s\<lparr>node_at := (node_at s)(file := dir)\<rparr> in
      case op_open (ops (fst dir)) (snd dir) (fs_world s1) of (r, w) \<Rightarrow>
        let s2 = s1\<lparr>fs_world := w\<rparr> in
        if r = 0 then bind_res (fd_assign ops fd file s2) (\<lambda>s3. Inr (fd, s3))
        else bind_res (fd_free ops fd s2) (\<lambda>(r1, s3). Inr (- 1, s3)))"

definition vfs_open ::
  "('v \<Rightarrow> ('v, 'p, 'w) vfs_opvector) \<Rightarrow> u8 list \<Rightarrow> ptr \<Rightarrow> ('v, 'p, 'w) vfs \<Rightarrow> (int \<times> ('v, 'p, 'w) vfs) res option" where
  "vfs_open ops path file s =
     (if file = NULL then Some (Inr (- 1, s))
      else case fd_alloc 0 s of (fd, s1) \<Rightarrow>
        if fd < 0 then Some (Inr (- 1, s1))
        else and_then (open_dir ops path s1) (\<lambda>(r, dir, w).
          let s2 = s1\<lparr>fs_world := w\<rparr> in
          if r \<noteq> 0 then Some (Inr (- 1, s2)) else Some (open_node ops fd file dir s2)))"

definition vfs_read ::
  "('v \<Rightarrow> ('v, 'p, 'w) vfs_opvector) \<Rightarrow> int \<Rightarrow> u8 list \<Rightarrow> u32 \<Rightarrow> ('v, 'p, 'w) vfs \<Rightarrow> (int \<times> u8 list \<times> u32 \<times> ('v, 'p, 'w) vfs) res option" where
  "vfs_read ops fd buf count s =
     (case fp_get fd s of
        Inl e \<Rightarrow> Some (Inl e)
      | Inr file \<Rightarrow>
          if file = NULL then Some (Inl Null_Deref)
          else and_then (op_read (ops (fst (node_at s file))) (snd (node_at s file)) buf count (fs_world s))
            (\<lambda>(r, bs, ready, w). Some (Inr (r, bs, ready, s\<lparr>fs_world := w\<rparr>))))"

definition vfs_close :: "('v \<Rightarrow> ('v, 'p, 'w) vfs_opvector) \<Rightarrow> int \<Rightarrow> ('v, 'p, 'w) vfs \<Rightarrow> (int \<times> ('v, 'p, 'w) vfs) res" where
  "vfs_close ops fd s =
     bind_res (fp_get fd s) (\<lambda>file.
       if file = NULL then Inl Null_Deref
       else bind_res (fd_free ops fd s) (\<lambda>(r, s1).
         case op_close (ops (fst (node_at s file))) (Close_Priv (snd (node_at s1 file))) (fs_world s1) of
           (r1, w) \<Rightarrow> Inr (r1, s1\<lparr>fs_world := w\<rparr>)))"

subsection \<open>The current path\<close>

definition vfs_get_cur_path :: "('v, 'p, 'w) vfs \<Rightarrow> u8 list" where
  "vfs_get_cur_path s = cur_path s"

text \<open>A path that does not fit the buffer of 128 bytes with its terminator is the error.\<close>

definition put_path :: "u8 list \<Rightarrow> u8 list res" where
  "put_path p = (if length p < PATH_LEN then Inr p else Inl Out_Of_Bounds)"

text \<open>The position of the last \<open>/\<close> after the first character, 0 if there is none.\<close>

definition last_slash :: "u8 list \<Rightarrow> nat" where
  "last_slash p = (case filter (\<lambda>i. p ! i = slash) [1..<length p] of [] \<Rightarrow> 0 | is \<Rightarrow> last is)"

function vfs_change_path :: "u8 list \<Rightarrow> u8 list \<Rightarrow> u8 list res" where
  "vfs_change_path cur input =
     (if input \<noteq> [] \<and> hd input = slash then put_path input
      else if input = [dot] then Inr cur
      else if input \<noteq> [] \<and> hd input = dot \<and> input ! 1 \<noteq> dot then
        if cur = [] then Inl Out_Of_Bounds
        else if last cur = slash then put_path (cur @ drop 2 input)
        else put_path (cur @ drop 1 input)
      else if input \<noteq> [] \<and> hd input = dot \<and> input ! 1 = dot then
        if 1 < length cur then
          let cur1 = (if last_slash cur = 0 then take 1 cur else take (last_slash cur) cur)
          in if 3 < length input then vfs_change_path cur1 (drop 3 input) else Inr cur1
        else Inr cur
      else
        if cur = [] then Inl Out_Of_Bounds
        else put_path ((if last cur \<noteq> slash then cur @ [slash] else cur) @ input))"
  by pat_completeness auto
termination
  by (relation "measure (\<lambda>(cur, input). length input)") auto

declare vfs_change_path.simps [simp del]


subsection \<open>What the switch relies on\<close>

text \<open>
  A file system whose \<open>close\<close> succeeds and does nothing, whatever it is passed. Under this contract
  opening and closing keep the descriptor table.
\<close>

lemma fd_alloc_lowest:
  assumes "fd_alloc 0 s = (fd, s1)" and "0 \<le> fd"
  shows "fd < FD_MAX_NUM" and "desc s (nat fd) = NULL" and "\<forall>k < nat fd. desc s k \<noteq> NULL"
    and "s1 = s\<lparr>desc := (desc s)(nat fd := FD_ALLOCATED)\<rparr>"
proof -
  obtain k where k: "find (\<lambda>fd. desc s fd = NULL) [0..<256] = Some k" "fd = int k" "s1 = s\<lparr>desc := (desc s)(k := FD_ALLOCATED)\<rparr>"
    using assms by (auto simp: fd_alloc_def split: option.splits)
  obtain i where i: "i < 256" "desc s i = NULL" "k = i" "\<forall>j < i. desc s j \<noteq> NULL"
    using k(1) by (auto simp: find_Some_iff)
  show "fd < FD_MAX_NUM" "desc s (nat fd) = NULL" "\<forall>k < nat fd. desc s k \<noteq> NULL"
    "s1 = s\<lparr>desc := (desc s)(nat fd := FD_ALLOCATED)\<rparr>"
    using i k by simp_all
qed

locale vfs_backend =
  fixes ops :: "'v \<Rightarrow> ('v, 'p, 'w) vfs_opvector"
  assumes close_nop: "op_close (ops v) a w = (0, w)"
begin

lemma fd_close_desc:
  assumes "0 \<le> fd" and "fd < FD_MAX_NUM"
  shows "fd_close ops fd s = Inr (0, s\<lparr>desc := (desc s)(nat fd := FD_ALLOCATED)\<rparr>)"
proof -
  have "s1\<lparr>fs_world := fs_world s1\<rparr> = s1" for s1 :: "('v, 'p, 'w) vfs" by simp
  then show ?thesis using assms by (simp add: fd_close_def fp_ucount_dec_def close_nop Let_def)
qed

lemma fd_assign_desc:
  assumes "0 \<le> fd" and "fd < FD_MAX_NUM"
  shows "fd_assign ops fd fp s = Inr (s\<lparr>desc := (desc s)(nat fd := fp)\<rparr>)"
  using assms by (simp add: fd_assign_def fd_close_desc)

lemma fd_free_desc:
  assumes "0 \<le> fd" and "fd < FD_MAX_NUM"
  shows "fd_free ops fd s = Inr (0, s\<lparr>desc := (desc s)(nat fd := NULL)\<rparr>)"
  using assms by (simp add: fd_free_def fd_close_desc)

lemma open_result:
  assumes "vfs_open ops path file s = Some (Inr (fd, s1))" and "0 \<le> fd"
  shows "file \<noteq> NULL \<and> fd < FD_MAX_NUM \<and> desc s (nat fd) = NULL \<and> (\<forall>k < nat fd. desc s k \<noteq> NULL) \<and>
    desc s1 = (desc s)(nat fd := file)"
proof -
  have fl: "file \<noteq> NULL" using assms by (auto simp: vfs_open_def)
  obtain d s0 where a: "fd_alloc 0 s = (d, s0)" by (cases "fd_alloc 0 s")
  have d: "0 \<le> d" using assms fl a by (auto simp: vfs_open_def split: if_splits)
  note l = fd_alloc_lowest [OF a d]
  obtain r dir w where walk: "open_dir ops path s0 = Some (Inr (r, dir, w))" "r = 0"
    "open_node ops d file dir (s0\<lparr>fs_world := w\<rparr>) = Inr (fd, s1)"
    using assms fl a d by (auto simp: vfs_open_def and_then_Inr_iff Let_def split: if_splits)
  then have "d = fd \<and> desc s1 = (desc s)(nat d := file)"
    using assms(2) d l(1) by (auto simp: open_node_def fd_assign_desc fd_free_desc l(4) Let_def split: prod.splits if_splits)
  then show ?thesis using l fl by blast
qed

lemma close_opened:
  assumes "0 \<le> fd" and "fd < FD_MAX_NUM" and "desc s (nat fd) = file" and "file \<noteq> NULL" and "file \<noteq> FD_ALLOCATED"
  shows "fp_get fd s = Inr file \<and> (\<exists>s1. vfs_close ops fd s = Inr (0, s1) \<and> desc s1 = (desc s)(nat fd := NULL))"
  using assms by (simp add: vfs_close_def fp_get_def fd_free_desc close_nop)

lemma open_failed_lookup:
  assumes "file \<noteq> NULL" and "fd_alloc 0 s = (fd, s0)" and "0 \<le> fd"
    and "open_dir ops path s0 = Some (Inr (r, dir, w))" and "r \<noteq> 0"
  shows "\<exists>s1. vfs_open ops path file s = Some (Inr (- 1, s1)) \<and> desc s1 = (desc s)(nat fd := FD_ALLOCATED)"
  using assms fd_alloc_lowest(4) [OF assms(2,3)] by (auto simp: vfs_open_def)

end

subsection \<open>Changing the path\<close>

lemma last_slash_append:
  assumes "cur \<noteq> []" and "slash \<notin> set nm"
  shows "last_slash (cur @ slash # nm) = length cur"
proof -
  have split: "[1..<length (cur @ slash # nm)] = [1..<length cur] @ [length cur] @ [Suc (length cur)..<length cur + Suc (length nm)]"
    using assms(1) upt_add_eq_append [of 1 "length cur" "Suc (length nm)"]
    by (simp add: upt_conv_Cons Suc_le_eq)
  have "(cur @ slash # nm) ! i \<noteq> slash" if "Suc (length cur) \<le> i" "i < length cur + Suc (length nm)" for i
  proof -
    have "(cur @ slash # nm) ! i = nm ! (i - Suc (length cur))" using that by (simp add: nth_append nth_Cons' Suc_le_eq)
    moreover have "nm ! (i - Suc (length cur)) \<in> set nm" using that by (intro nth_mem) simp
    ultimately show ?thesis using assms(2) by metis
  qed
  then have "filter (\<lambda>i. (cur @ slash # nm) ! i = slash) [Suc (length cur)..<length cur + Suc (length nm)] = []"
    unfolding filter_empty_conv set_upt by auto
  then have "filter (\<lambda>i. (cur @ slash # nm) ! i = slash) [1..<length (cur @ slash # nm)] =
      filter (\<lambda>i. (cur @ slash # nm) ! i = slash) [1..<length cur] @ [length cur]"
    unfolding split by simp
  moreover have "(case ks @ [k] of [] \<Rightarrow> 0 | is \<Rightarrow> last is) = k" for ks and k :: nat by (cases ks) simp_all
  ultimately show ?thesis unfolding last_slash_def by metis
qed

lemma last_slash_root: "slash \<notin> set nm \<Longrightarrow> last_slash (slash # nm) = 0"
proof -
  assume n: "slash \<notin> set nm"
  have "(slash # nm) ! i \<noteq> slash" if "1 \<le> i" "i < length (slash # nm)" for i
  proof -
    have "nm ! (i - 1) \<in> set nm" using that by (intro nth_mem) auto
    moreover have "(slash # nm) ! i = nm ! (i - 1)" using that by (simp add: nth_Cons')
    ultimately show ?thesis using n by metis
  qed
  then have "filter (\<lambda>i. (slash # nm) ! i = slash) [1..<length (slash # nm)] = []"
    unfolding filter_empty_conv set_upt by auto
  then show ?thesis unfolding last_slash_def by simp
qed

text \<open>
  Entering a directory and leaving it with \<open>..\<close> is a round trip: from the root, or from a path that
  does not end in a slash, a relative name that has no slash and does not start with a dot is
  appended as the last component, and \<open>..\<close> then gives the old path back, as long as the longer
  path fits the buffer.
\<close>

theorem change_path_round_trip:
  assumes "cur = [slash] \<or> (cur \<noteq> [] \<and> last cur \<noteq> slash)" and "nm \<noteq> []" and "slash \<notin> set nm" and "hd nm \<noteq> dot"
    and "length cur + length nm + 1 < PATH_LEN"
  shows "\<exists>sub. vfs_change_path cur nm = Inr sub \<and> drop (length sub - length nm) sub = nm \<and>
    vfs_change_path sub [dot, dot] = Inr cur"
proof -
  have h: "hd nm \<noteq> slash" "nm \<noteq> [dot]" using assms(2-4) hd_in_set [of nm] by (metis, auto)
  show ?thesis
  proof (cases "cur = [slash]")
    case True
    have 1: "vfs_change_path cur nm = Inr (slash # nm)"
      using assms h True by (subst vfs_change_path.simps) (simp add: put_path_def)
    have "vfs_change_path (slash # nm) [dot, dot] = Inr [slash]"
      using assms(2) last_slash_root [OF assms(3)] by (subst vfs_change_path.simps) (simp add: Let_def Suc_lessI)
    with 1 show ?thesis using True by simp
  next
    case False
    then have c: "cur \<noteq> []" "last cur \<noteq> slash" using assms(1) by auto
    have 1: "vfs_change_path cur nm = Inr (cur @ slash # nm)"
      using assms h c by (subst vfs_change_path.simps) (simp add: put_path_def)
    have "vfs_change_path (cur @ slash # nm) [dot, dot] = Inr cur"
      using c last_slash_append [OF c(1) assms(3)] by (subst vfs_change_path.simps) (simp add: Let_def)
    with 1 show ?thesis by simp
  qed
qed

theorem change_path_round_trip_witness:
  "\<exists>sub. vfs_change_path (txt_of ''/mnt'') (txt_of ''bin'') = Inr sub \<and> vfs_change_path sub [dot, dot] = Inr (txt_of ''/mnt'')"
  using change_path_round_trip [of "txt_of ''/mnt''" "txt_of ''bin''"] by (auto simp: txt_of_def chr_def)

end
