(* ===== verification/Fat.thy ===== *)
theory Fat
  imports Vfs
begin

section \<open>The FAT file system: \<open>fs/vfsfat.c\<close>\<close>

text \<open>
  The volume is a part of memory. The structures are records; a directory entry is parsed from its
  32 bytes, multi-byte fields are little-endian. \<open>dirent_at\<close> is the memory of the open-file structures
  that nodes point to, \<open>spare\<close> the addresses the coming \<open>kmalloc\<close> calls for such structures return
  (\<open>NULL\<close> for a failure), and \<open>buffer_ok\<close> tells for a size whether a temporary buffer can be allocated.
  Buffers are lists of bytes; reading past the end of one is \<open>Out_Of_Bounds\<close>.
\<close>

datatype fat_opvector = fat12fs_opvector | fat16fs_opvector | fat32fs_opvector

datatype fat_vops = fatfs_vops | fatfs_dir_vops

record fatfs_priv =
  fimage :: ptr
  bytes_per_sector :: u32
  sectors_per_cluster :: u32
  first_cluster_sector :: u32
  reserved_sector :: u32
  sectors_per_fat :: u32
  number_of_FAT :: u32
  root_entries :: u32
  opvector :: fat_opvector

record fatfs_dirent =
  de_fs :: fatfs_priv
  lseek :: u32
  de_cluster :: u32
  de_offset :: u32
  de_length :: u32
  de_entry :: u32
  de_flag :: u32

record fat_world =
  volume :: memory
  dirent_at :: "ptr \<Rightarrow> fatfs_dirent"
  spare :: "ptr list"
  buffer_ok :: "u32 \<Rightarrow> bool"

definition get16 :: "u8 list \<Rightarrow> nat \<Rightarrow> u16" where
  "get16 bs i = ucast (bs ! i) OR push_bit 8 (ucast (bs ! (i + 1)))"

definition get32_at :: "u8 list \<Rightarrow> nat \<Rightarrow> u32" where
  "get32_at bs i = get32 (bs ! i) (bs ! (i + 1)) (bs ! (i + 2)) (bs ! (i + 3))"

subsection \<open>Sectors and clusters\<close>

text \<open>
  \<open>None\<close> stands for the result \<open>-1\<close>. The other result, \<open>bytes_per_sector\<close>, is a positive \<open>int\<close>: \<open>fatfs_mount\<close> reads it from a field
  of 16 bits.
\<close>

definition fat_read_sector :: "fatfs_priv \<Rightarrow> u32 \<Rightarrow> fat_world \<Rightarrow> u8 list option" where
  "fat_read_sector fsop sector w =
     (if bytes_per_sector fsop \<ge> 512
      then Some (block (volume w) (fimage fsop + sector * bytes_per_sector fsop) (unat (bytes_per_sector fsop)))
      else None)"

fun read_sectors :: "fatfs_priv \<Rightarrow> nat \<Rightarrow> u32 \<Rightarrow> fat_world \<Rightarrow> u8 list option" where
  "read_sectors fsop 0 sector w = Some []"
| "read_sectors fsop (Suc n) sector w =
     Option.bind (fat_read_sector fsop sector w) (\<lambda>bs. map_option (\<lambda>cs. bs @ cs) (read_sectors fsop n (sector + 1) w))"

definition fat_read_cluster :: "fatfs_priv \<Rightarrow> u32 \<Rightarrow> fat_world \<Rightarrow> u8 list option" where
  "fat_read_cluster fsop cluster w =
     (let sector = first_cluster_sector fsop + (cluster - 2) * sectors_per_cluster fsop
      in if sectors_per_cluster fsop > 0
         then read_sectors fsop (nat (sint (sectors_per_cluster fsop))) sector w
         else None)"

subsection \<open>The allocation table\<close>

definition fat_next_cluster32 :: "fatfs_priv \<Rightarrow> u32 \<Rightarrow> fat_world \<Rightarrow> u32 option res" where
  "fat_next_cluster32 fsop cluster w =
     (if bytes_per_sector fsop = 0 then Inl Div_By_Zero
      else let sectorcnt = (cluster * 4) div bytes_per_sector fsop in
        if \<not> buffer_ok w (bytes_per_sector fsop) then Inr None
        else case fat_read_sector fsop (reserved_sector fsop + sectorcnt) w of
            None \<Rightarrow> Inr None
          | Some buf \<Rightarrow>
              let bytecnt = cluster * 4 - bytes_per_sector fsop * sectorcnt; i = 4 * unat (drop_bit 2 bytecnt)
              in if i + 4 \<le> length buf then Inr (Some (get32_at buf i)) else Inl Out_Of_Bounds)"

definition fat_next_cluster16 :: "fatfs_priv \<Rightarrow> u32 \<Rightarrow> fat_world \<Rightarrow> u32 option res" where
  "fat_next_cluster16 fsop cluster w =
     (if bytes_per_sector fsop = 0 then Inl Div_By_Zero
      else let sectorcnt = (cluster * 2) div bytes_per_sector fsop in
        if \<not> buffer_ok w (bytes_per_sector fsop) then Inr None
        else case fat_read_sector fsop (reserved_sector fsop + sectorcnt) w of
            None \<Rightarrow> Inr None
          | Some buf \<Rightarrow>
              let bytecnt = cluster * 2 - bytes_per_sector fsop * sectorcnt; i = 2 * unat (drop_bit 1 bytecnt)
              in if i + 2 \<le> length buf then Inr (Some (ucast (get16 buf i))) else Inl Out_Of_Bounds)"

definition fat_next_cluster12 :: "fatfs_priv \<Rightarrow> u32 \<Rightarrow> fat_world \<Rightarrow> u32 option res" where
  "fat_next_cluster12 fsop cluster w =
     (let bitcnt = cluster * 12; bits = bytes_per_sector fsop * 8 in
      if bits = 0 then Inl Div_By_Zero
      else let sectorcnt = bitcnt div bits in
        if \<not> buffer_ok w (bytes_per_sector fsop * 2) then Inr None
        else case fat_read_sector fsop (reserved_sector fsop + sectorcnt) w of
            None \<Rightarrow> Inr None
          | Some buf \<Rightarrow>
              let bitcnt_in_sector = bitcnt - bits * sectorcnt; bytecnt = bitcnt_in_sector div 8 in
              case (if bytecnt + 1 = bytes_per_sector fsop
                    then map_option (\<lambda>b. buf @ b) (fat_read_sector fsop (reserved_sector fsop + sectorcnt + 1) w)
                    else Some buf) of
                None \<Rightarrow> Inr None
              | Some buf2 \<Rightarrow>
                  if unat bytecnt + 2 \<le> length buf2 then
                    let retval = ucast (get16 buf2 (unat bytecnt)) :: u32
                    in Inr (Some (if bitcnt_in_sector AND 7 \<noteq> 0 then drop_bit 4 retval else retval AND 0xFFF))
                  else Inl Out_Of_Bounds)"

fun fat_max_cluster :: "fat_opvector \<Rightarrow> u32" where
  "fat_max_cluster fat12fs_opvector = 0xFF0"
| "fat_max_cluster fat16fs_opvector = 0xFFF0"
| "fat_max_cluster fat32fs_opvector = 0xFFFFFFF0"

fun fat_cluster_mask :: "fat_opvector \<Rightarrow> u32" where
  "fat_cluster_mask fat12fs_opvector = 0xFFF"
| "fat_cluster_mask fat16fs_opvector = 0xFFFF"
| "fat_cluster_mask fat32fs_opvector = 0xFFFFFFFF"

fun fat_next_cluster :: "fat_opvector \<Rightarrow> fatfs_priv \<Rightarrow> u32 \<Rightarrow> fat_world \<Rightarrow> u32 option res" where
  "fat_next_cluster fat12fs_opvector = fat_next_cluster12"
| "fat_next_cluster fat16fs_opvector = fat_next_cluster16"
| "fat_next_cluster fat32fs_opvector = fat_next_cluster32"

subsection \<open>Reading a file\<close>

definition IS_DIR :: "u32 \<Rightarrow> bool" where
  "IS_DIR f \<longleftrightarrow> f AND 0x10 \<noteq> 0"

definition bytes_per_cluster :: "fatfs_priv \<Rightarrow> u32" where
  "bytes_per_cluster fs = bytes_per_sector fs * sectors_per_cluster fs"

text \<open>
  \<open>skip_clusters\<close> is the loop that follows the chain; \<open>pread_first\<close> is the body of \<open>fatfs_pread\<close> up
  to the copy out of the first cluster. \<open>Pread_Ret\<close> is an early return of a value.
\<close>

datatype pread_step = Pread_Ret u32 fatfs_dirent | Pread_Part "u8 list" fatfs_dirent u32 u32

fun skip_clusters :: "nat \<Rightarrow> fatfs_dirent \<Rightarrow> fat_world \<Rightarrow> (u32 option \<times> fatfs_dirent) res" where
  "skip_clusters 0 f w = Inr (None, f)"
| "skip_clusters (Suc n) f w =
     bind_res (fat_next_cluster (opvector (de_fs f)) (de_fs f) (de_cluster f) w) (\<lambda>c.
       case c of
         None \<Rightarrow> Inr (Some (- 1), f)
       | Some cl \<Rightarrow>
           if cl \<ge> fat_max_cluster (opvector (de_fs f)) then Inr (Some 0, f)
           else skip_clusters n (f\<lparr>de_offset := de_offset f + bytes_per_cluster (de_fs f), de_cluster := cl\<rparr>) w)"

definition pread_first :: "fatfs_dirent \<Rightarrow> u32 \<Rightarrow> u32 \<Rightarrow> fat_world \<Rightarrow> pread_step res" where
  "pread_first f0 count0 off w =
     (if \<not> IS_DIR (de_flag f0) \<and> off > de_length f0 then Inr (Pread_Ret (- 1) f0)
      else
        let count = (if \<not> IS_DIR (de_flag f0) \<and> off + count0 > de_length f0 then de_length f0 - off else count0) in
        if count = 0 then Inr (Pread_Ret 0 f0)
        else
          let f = (if off < de_offset f0 then f0\<lparr>de_cluster := de_entry f0, de_offset := 0\<rparr> else f0);
              bpc = bytes_per_cluster (de_fs f)
          in if bpc = 0 then Inl Div_By_Zero
             else bind_res (skip_clusters (unat ((off - de_offset f) div bpc)) f w) (\<lambda>(r, f1).
               case r of
                 Some v \<Rightarrow> Inr (Pread_Ret v f1)
               | None \<Rightarrow>
                   if \<not> buffer_ok w bpc then Inr (Pread_Ret (- 1) f1)
                   else case fat_read_cluster (de_fs f1) (de_cluster f1) w of
                       None \<Rightarrow> Inr (Pread_Ret (- 1) f1)
                     | Some buf \<Rightarrow>
                         let cluster_offset = off - de_offset f1;
                             cpcnt = (if bpc > cluster_offset + count then count else bpc - cluster_offset)
                         in if unat cluster_offset + unat cpcnt \<le> length buf
                            then Inr (Pread_Part (take (unat cpcnt) (drop (unat cluster_offset) buf)) f1 (off + cpcnt) (count - cpcnt))
                            else Inl Out_Of_Bounds))"

text \<open>
  \<open>pread_run None\<close> is \<open>fatfs_pread\<close>, \<open>pread_run (Some bytes)\<close> its last loop with what has been read so
  far, which calls \<open>fatfs_pread\<close> again.
\<close>

partial_function (option) pread_run ::
  "u8 list option \<Rightarrow> fatfs_dirent \<Rightarrow> u32 \<Rightarrow> u32 \<Rightarrow> fat_world \<Rightarrow> (u32 \<times> u8 list \<times> fatfs_dirent) res option" where
  "pread_run got f count off w =
     (case got of
        None \<Rightarrow>
          (case pread_first f count off w of
             Inl e \<Rightarrow> Some (Inl e)
           | Inr (Pread_Ret v f1) \<Rightarrow> Some (Inr (v, [], f1))
           | Inr (Pread_Part bs f1 off1 count1) \<Rightarrow> pread_run (Some bs) f1 count1 off1 w)
      | Some bs \<Rightarrow>
          if off < de_length f \<and> count > 0 then
            Option.bind (pread_run None f count off w) (\<lambda>r. case r of
              Inl e \<Rightarrow> Some (Inl e)
            | Inr (hr, cs, f1) \<Rightarrow>
                if hr = - 1 then Some (Inr (- 1, bs @ cs, f1))
                else if hr = 0 then Some (Inr (of_nat (length bs), bs, f1))
                else pread_run (Some (bs @ cs)) f1 (count - hr) (off + hr) w)
          else Some (Inr (of_nat (length bs), bs, f)))"

definition fatfs_pread :: "fatfs_dirent \<Rightarrow> u32 \<Rightarrow> u32 \<Rightarrow> fat_world \<Rightarrow> (u32 \<times> u8 list \<times> fatfs_dirent) res option" where
  "fatfs_pread f count off w = pread_run None f count off w"


subsection \<open>Directory entries\<close>

record fat_entry =
  ent_name :: "u8 list"
  ent_fext :: "u8 list"
  ent_attribute :: u8
  ent_cluster_high :: u16
  ent_cluster_entry :: u16
  ent_length :: u32

definition fat_entry_at :: "u8 list \<Rightarrow> nat \<Rightarrow> fat_entry" where
  "fat_entry_at buf j =
     (let e = drop (32 * j) buf
      in \<lparr>ent_name = take 8 e, ent_fext = take 3 (drop 8 e), ent_attribute = e ! 11,
          ent_cluster_high = get16 e 20, ent_cluster_entry = get16 e 26, ent_length = get32_at e 28\<rparr>)"

definition dirent_trim :: "u8 list \<Rightarrow> nat" where
  "dirent_trim buf = length (takeWhile (\<lambda>c. c \<noteq> 0 \<and> c \<noteq> chr CHR '' '') buf)"

text \<open>The name the code builds in its buffer: the base name, and a dot and the extension if there is one.\<close>

definition dirent_name :: "fat_entry \<Rightarrow> u8 list" where
  "dirent_name e =
     (let cpcnt = dirent_trim (ent_name e); cpcntext = dirent_trim (ent_fext e)
      in take cpcnt (ent_name e) @ (if cpcntext > 0 then [dot] else []) @ take cpcntext (ent_fext e))"

definition fat_dirent_lookup :: "u8 list \<Rightarrow> nat \<Rightarrow> u8 list \<Rightarrow> fat_entry option" where
  "fat_dirent_lookup buf dpcnt path =
     find (\<lambda>e. dirent_trim (ent_name e) > 0 \<and> path = dirent_name e) (map (fat_entry_at buf) [0..<dpcnt])"

definition DENTRY_IS_LONG_NAME :: "fat_entry \<Rightarrow> bool" where
  "DENTRY_IS_LONG_NAME e \<longleftrightarrow> ent_attribute e = 0x0F"

definition DENTRY_IS_DELETED :: "fat_entry \<Rightarrow> bool" where
  "DENTRY_IS_DELETED e \<longleftrightarrow> hd (ent_name e) = 0xE5"

definition DENTRY_IS_ZERO :: "fat_entry \<Rightarrow> bool" where
  "DENTRY_IS_ZERO e \<longleftrightarrow> hd (ent_name e) = 0"

subsection \<open>Lookup\<close>

definition new_dirent :: "fat_world \<Rightarrow> ptr \<times> fat_world" where
  "new_dirent w = (case spare w of [] \<Rightarrow> (NULL, w) | p # ps \<Rightarrow> (p, w\<lparr>spare := ps\<rparr>))"

definition dir_vops :: "u32 \<Rightarrow> fat_vops" where
  "dir_vops f = (if IS_DIR f then fatfs_dir_vops else fatfs_vops)"

text \<open>The fields the code sets; the others keep what is in the memory.\<close>

definition fill_dirent :: "ptr \<Rightarrow> fatfs_priv \<Rightarrow> fat_entry \<Rightarrow> u32 \<Rightarrow> fat_world \<Rightarrow> fat_world" where
  "fill_dirent p fsop e start w =
     w\<lparr>dirent_at := (dirent_at w)(p := (dirent_at w p)\<lparr>de_length := ent_length e, de_entry := start,
          de_flag := ucast (ent_attribute e), de_fs := fsop\<rparr>)\<rparr>"

function root_loop :: "fatfs_priv \<Rightarrow> u8 list \<Rightarrow> ptr \<Rightarrow> nat \<Rightarrow> u32 \<Rightarrow> fat_world \<Rightarrow> (fat_vops \<times> ptr) option \<times> fat_world" where
  "root_loop fsop nm p count idx w =
     (if count < unat (root_entries fsop) then
        if bytes_per_sector fsop < 512 then (None, w)
        else case fat_read_sector fsop idx w of
            None \<Rightarrow> (None, w)
          | Some buf \<Rightarrow>
              let dpcnt = min (unat (bytes_per_sector fsop div 32)) (unat (root_entries fsop) - count) in
              case fat_dirent_lookup buf dpcnt nm of
                Some e \<Rightarrow>
                  (Some (dir_vops (ucast (ent_attribute e)), p), fill_dirent p fsop e (ucast (ent_cluster_entry e)) w)
              | None \<Rightarrow> root_loop fsop nm p (count + dpcnt) (idx + 1) w
      else (None, w))"
  by pat_completeness auto
termination
proof (relation "measure (\<lambda>(fsop, nm, p, count, idx, w). unat (root_entries fsop) - count)")
  fix fsop :: fatfs_priv and nm p count idx w buf x
  assume "count < unat (root_entries fsop)" "\<not> bytes_per_sector fsop < 512"
    "x = min (unat (bytes_per_sector fsop div 32)) (unat (root_entries fsop) - count)"
  moreover from this have "512 \<le> unat (bytes_per_sector fsop)" by (simp add: word_less_nat_alt)
  then have "0 < unat (bytes_per_sector fsop div 32)" by (simp add: unat_div div_greater_zero_iff)
  ultimately show "((fsop, nm, p, count + x, idx + 1, w), (fsop, nm, p, count, idx, w))
      \<in> measure (\<lambda>(fsop, nm, p, count, idx, w). unat (root_entries fsop) - count)" by simp
qed simp

declare root_loop.simps [simp del]

definition root_sector :: "fatfs_priv \<Rightarrow> u32" where
  "root_sector fsop = reserved_sector fsop + sectors_per_fat fsop * number_of_FAT fsop"

definition fatfs_root :: "fatfs_priv \<Rightarrow> u8 list \<Rightarrow> fat_world \<Rightarrow> (fat_vops \<times> ptr) option \<times> fat_world" where
  "fatfs_root fsop nm w =
     (case new_dirent w of (p, w1) \<Rightarrow>
        if p = NULL then (None, w1)
        else if \<not> buffer_ok w1 (bytes_per_sector fsop) then (None, w1)
        else root_loop fsop nm p 0 (root_sector fsop) w1)"

partial_function (option) lookup_loop ::
  "fatfs_priv \<Rightarrow> u8 list \<Rightarrow> u32 \<Rightarrow> fat_world \<Rightarrow> ((fat_vops \<times> ptr) option \<times> fat_world) res option" where
  "lookup_loop fsop nm valid_cluster w =
     (if valid_cluster < fat_max_cluster (opvector fsop) then
        case fat_read_cluster fsop valid_cluster w of
          None \<Rightarrow> Some (Inr (None, w))
        | Some buf \<Rightarrow>
            (case fat_dirent_lookup buf (unat (bytes_per_cluster fsop div 32)) nm of
               Some e \<Rightarrow>
                 (case new_dirent w of (p, w1) \<Rightarrow>
                    if p = NULL then Some (Inr (None, w1))
                    else
                      let start = (ucast (ent_cluster_entry e) OR push_bit 16 (ucast (ent_cluster_high e)))
                                    AND fat_cluster_mask (opvector fsop)
                      in Some (Inr (Some (dir_vops (ucast (ent_attribute e)), p), fill_dirent p fsop e start w1)))
             | None \<Rightarrow>
                 (case fat_next_cluster (opvector fsop) fsop valid_cluster w of
                    Inl err \<Rightarrow> Some (Inl err)
                  | Inr None \<Rightarrow> Some (Inr (None, w))
                  | Inr (Some c) \<Rightarrow> lookup_loop fsop nm c w))
      else Some (Inr (None, w)))"

definition fatfs_lookup :: "ptr \<Rightarrow> u8 list \<Rightarrow> fat_world \<Rightarrow> ((fat_vops \<times> ptr) option \<times> fat_world) res option" where
  "fatfs_lookup priv nm w =
     (if priv = NULL then Some (Inl Null_Deref)
      else let d = dirent_at w priv; fsop = de_fs d in
        if \<not> buffer_ok w (bytes_per_cluster fsop) then Some (Inr (None, w))
        else if de_flag d AND 0xFF00 \<noteq> 0 then Some (Inr (fatfs_root fsop nm w))
        else if \<not> IS_DIR (de_flag d) then Some (Inr (None, w))
        else lookup_loop fsop nm (de_entry d) w)"

subsection \<open>Open, read and close\<close>

definition fatfs_open :: "ptr \<Rightarrow> fat_world \<Rightarrow> int \<times> fat_world" where
  "fatfs_open priv w =
     (if priv = NULL then (- 1, w)
      else let d = dirent_at w priv
        in (0, w\<lparr>dirent_at := (dirent_at w)(priv := d\<lparr>de_cluster := de_entry d, de_offset := 0, lseek := 0\<rparr>)\<rparr>))"

definition overlay :: "u8 list \<Rightarrow> u8 list \<Rightarrow> u8 list" where
  "overlay bs buf = bs @ drop (length bs) buf"

definition fatfs_read :: "ptr \<Rightarrow> u8 list \<Rightarrow> u32 \<Rightarrow> fat_world \<Rightarrow> (int \<times> u8 list \<times> u32 \<times> fat_world) res option" where
  "fatfs_read priv buf count w =
     (if priv = NULL then Some (Inr (- 1, buf, 0, w))
      else and_then (fatfs_pread (dirent_at w priv) count (lseek (dirent_at w priv)) w) (\<lambda>(n, bs, d).
        if n = - 1 then Some (Inr (- 1, overlay bs buf, 0, w\<lparr>dirent_at := (dirent_at w)(priv := d)\<rparr>))
        else Some (Inr (0, overlay bs buf, n, w\<lparr>dirent_at := (dirent_at w)(priv := d\<lparr>lseek := lseek d + n\<rparr>)\<rparr>))))"

definition fatfs_close :: "ptr closing \<Rightarrow> fat_world \<Rightarrow> int \<times> fat_world" where
  "fatfs_close priv w = (0, w)"

definition fatfs_root_dir_read :: "fatfs_dirent \<Rightarrow> u8 list \<Rightarrow> fat_world \<Rightarrow> (int \<times> u8 list \<times> u32 \<times> fatfs_dirent) res" where
  "fatfs_root_dir_read d0 buf w =
     (let fsop = de_fs d0; entry_cnt = lseek d0 div 32 in
      if entry_cnt \<ge> root_entries fsop then Inr (- 1, buf, 0, d0)
      else
        let d = (if lseek d0 > (de_offset d0 + 1) * bytes_per_sector fsop then d0\<lparr>de_offset := de_offset d0 + 1\<rparr> else d0);
            idx = root_sector fsop + de_offset d
        in if \<not> buffer_ok w (bytes_per_sector fsop) then Inr (- 1, buf, 0, d)
           else case fat_read_sector fsop idx w of
               None \<Rightarrow> Inr (- 1, buf, 0, d)
             | Some sec \<Rightarrow>
                 let dpcnt = entry_cnt mod (bytes_per_sector fsop div 32); dent = fat_entry_at sec (unat dpcnt) in
                 if DENTRY_IS_ZERO dent then Inr (- 1, buf, 0, d)
                 else if DENTRY_IS_DELETED dent \<or> DENTRY_IS_LONG_NAME dent
                 then Inr (0, buf, - 1, d\<lparr>lseek := lseek d + 32\<rparr>)
                 else if dirent_trim (ent_name dent) > 0
                 then Inr (0, overlay (dirent_name dent @ [0]) buf, of_nat (length (dirent_name dent) + 1), d\<lparr>lseek := lseek d + 32\<rparr>)
                 else Inr (- 1, buf, 0, d))"

definition fatfs_dir_read :: "ptr \<Rightarrow> u8 list \<Rightarrow> u32 \<Rightarrow> fat_world \<Rightarrow> (int \<times> u8 list \<times> u32 \<times> fat_world) res option" where
  "fatfs_dir_read priv buf count w =
     (if count = 0 then Some (Inr (- 1, buf, 0, w))
      else if priv = NULL then Some (Inr (- 1, buf, 0, w))
      else let d0 = dirent_at w priv in
        if de_flag d0 AND 0xFF00 \<noteq> 0 then
          Some (bind_res (fatfs_root_dir_read d0 buf w) (\<lambda>(r, buf1, n, d).
            Inr (r, buf1, n, w\<lparr>dirent_at := (dirent_at w)(priv := d)\<rparr>)))
        else if \<not> IS_DIR (de_flag d0) then Some (Inr (- 1, buf, 0, w))
        else and_then (fatfs_pread d0 32 (lseek d0) w) (\<lambda>(n, bs, d).
          if n = - 1 then Some (Inr (- 1, overlay bs buf, 0, w\<lparr>dirent_at := (dirent_at w)(priv := d)\<rparr>))
          else
            let buf1 = overlay bs buf; ent = fat_entry_at buf1 0;
                w1 = w\<lparr>dirent_at := (dirent_at w)(priv := d\<lparr>lseek := lseek d + n\<rparr>)\<rparr>
            in if length buf1 < 32 then Some (Inl Out_Of_Bounds)
               else if dirent_trim (ent_name ent) > 0
               then Some (Inr (0, overlay (dirent_name ent @ [0]) buf1, of_nat (length (dirent_name ent) + 1), w1))
               else Some (Inr (- 1, buf1, n, w1))))"

subsection \<open>Mounting\<close>

definition fat_type_at :: "u8 list \<Rightarrow> nat \<Rightarrow> string \<Rightarrow> bool" where
  "fat_type_at vol i ty \<longleftrightarrow> take 8 (drop i vol) = txt_of ty"

text \<open>The boot sector's parameter block: offset 11, the 32-bit table size of FAT32 at offset 36.\<close>

definition boot_priv :: "u8 list \<Rightarrow> ptr \<Rightarrow> fat_opvector \<Rightarrow> u32 \<Rightarrow> fatfs_priv res" where
  "boot_priv vol fp opv spf =
     (let bps = ucast (get16 vol 11) :: u32; reserved = ucast (get16 vol 14); fats = ucast (vol ! 16);
          roots = ucast (get16 vol 17)
      in if bps = 0 then Inl Div_By_Zero
         else Inr \<lparr>fimage = fp, bytes_per_sector = bps, sectors_per_cluster = ucast (vol ! 13),
                first_cluster_sector = reserved + fats * spf + (roots * 32) div bps, reserved_sector = reserved,
                sectors_per_fat = spf, number_of_FAT = fats, root_entries = roots, opvector = opv\<rparr>)"

definition fatfs_mount :: "ptr \<Rightarrow> fat_world \<Rightarrow> (int \<times> (fat_vops \<times> ptr) option \<times> fat_world) res" where
  "fatfs_mount img w =
     (let vol = block (volume w) img 512; is32 = fat_type_at vol 82 ''FAT32   '' in
      if \<not> buffer_ok w 40 \<and> (is32 \<or> fat_type_at vol 54 ''FAT16   '' \<or> fat_type_at vol 54 ''FAT12   '') then Inl Null_Deref
      else case (if is32 then Some (boot_priv vol img fat32fs_opvector (get32_at vol 36))
                 else if fat_type_at vol 54 ''FAT16   '' then Some (boot_priv vol img fat16fs_opvector (ucast (get16 vol 22)))
                 else if fat_type_at vol 54 ''FAT12   '' then Some (boot_priv vol img fat12fs_opvector (ucast (get16 vol 22)))
                 else None) of
          None \<Rightarrow> Inr (- 1, None, w)
        | Some r \<Rightarrow> bind_res r (\<lambda>fs.
            if root_entries fs AND 0xF \<noteq> 0 then Inr (- 1, None, w)
            else case new_dirent w of (p, w1) \<Rightarrow>
              if p = NULL then Inl Null_Deref
              else
                let d = \<lparr>de_fs = fs, lseek = 0, de_cluster = 0, de_offset = 0, de_length = 0,
                         de_entry = (if is32 then get32_at vol 44 else 0), de_flag = (if is32 then 0x10 else 0xFF00)\<rparr>
                in Inr (0, Some (fatfs_dir_vops, p), w1\<lparr>dirent_at := (dirent_at w1)(p := d)\<rparr>)))"

subsection \<open>The operation vectors\<close>

fun fat_ops :: "fat_vops \<Rightarrow> (fat_vops, ptr, fat_world) vfs_opvector" where
  "fat_ops fatfs_vops = \<lparr>op_lookup = fatfs_lookup, op_read = fatfs_read, op_close = fatfs_close, op_open = fatfs_open\<rparr>"
| "fat_ops fatfs_dir_vops = \<lparr>op_lookup = fatfs_lookup, op_read = fatfs_dir_read, op_close = fatfs_close, op_open = fatfs_open\<rparr>"

definition fat_fs :: "(fat_vops, ptr, fat_world) vfs_fs" where
  "fat_fs = \<lparr>fs_name = txt_of ''FAT'', fs_mount = fatfs_mount\<rparr>"


interpretation fat_files: vfs_backend fat_ops
proof
  show "op_close (fat_ops v) a w = (0, w)" for v a w by (cases v) (simp_all add: fatfs_close_def)
qed

subsection \<open>The table as one array\<close>

definition mem16 :: "memory \<Rightarrow> ptr \<Rightarrow> u16" where
  "mem16 m a = ucast (m a) OR push_bit 8 (ucast (m (a + 1)))"

definition fat_base :: "fatfs_priv \<Rightarrow> ptr" where
  "fat_base fs = fimage fs + reserved_sector fs * bytes_per_sector fs"

lemma read_sector_some:
  "512 \<le> unat (bytes_per_sector fs) \<Longrightarrow>
   fat_read_sector fs sector w = Some (block (volume w) (fimage fs + sector * bytes_per_sector fs) (unat (bytes_per_sector fs)))"
  by (simp add: fat_read_sector_def word_le_nat_alt)

lemma get16_block: "i + 1 < n \<Longrightarrow> get16 (block m p n) i = mem16 m (p + of_nat i)"
  by (simp add: get16_def mem16_def ac_simps)

lemma get32_block: "i + 3 < n \<Longrightarrow> get32_at (block m p n) i = word_at m (p + of_nat i)"
  by (simp add: get32_at_def word_at_def ac_simps)

text \<open>Offset and remainder of a position in the table.\<close>

lemma table_position:
  fixes x b :: u32
  assumes "b \<noteq> 0"
  shows "unat (x - b * (x div b)) = unat x mod unat b" and "(r + x div b) * b + (x - b * (x div b)) = r * b + x"
proof -
  have "x - b * (x div b) = x mod b" by (simp add: minus_mult_div_eq_mod mult.commute)
  then show "unat (x - b * (x div b)) = unat x mod unat b" by (simp add: unat_mod)
  show "(r + x div b) * b + (x - b * (x div b)) = r * b + x" by (simp add: algebra_simps)
qed

lemma even_index: "2 ^ k dvd unat (x :: u32) \<Longrightarrow> 2 ^ k * unat (drop_bit k x) = unat x"
  by (simp add: unat_drop_bit_eq drop_bit_eq_div [where 'a = nat])

lemma fat_next_cluster16_table:
  assumes "512 \<le> unat (bytes_per_sector fs)" and "2 dvd unat (bytes_per_sector fs)"
    and "buffer_ok w (bytes_per_sector fs)" and "unat cluster < 2 ^ 28"
  shows "fat_next_cluster16 fs cluster w = Inr (Some (ucast (mem16 (volume w) (fat_base fs + 2 * cluster))))"
proof -
  let ?b = "bytes_per_sector fs" and ?x = "cluster * 2"
  let ?r = "?x - ?b * (?x div ?b)"
  have b: "?b \<noteq> 0" using assms(1) by auto
  have x: "unat ?x = 2 * unat cluster" using assms(4) by (simp add: unat_word_ariths)
  have r: "unat ?r = (2 * unat cluster) mod unat ?b" using table_position(1) [OF b] x by simp
  then have d: "2 dvd unat ?r" using assms(2) by (simp add: dvd_mod)
  have lt: "unat ?r < unat ?b" using r assms(1) by simp
  then have "unat ?r + 1 < unat ?b" using d assms(2) by presburger
  then have "get16 (block (volume w) (fimage fs + (reserved_sector fs + ?x div ?b) * ?b) (unat ?b)) (unat ?r) =
      mem16 (volume w) (fimage fs + (reserved_sector fs + ?x div ?b) * ?b + ?r)"
    by (simp add: get16_block)
  also have "fimage fs + (reserved_sector fs + ?x div ?b) * ?b + ?r = fat_base fs + 2 * cluster"
    using table_position(2) [OF b, of "reserved_sector fs" ?x] by (simp add: fat_base_def add.assoc mult.commute)
  finally show ?thesis
    using b d assms(1,3) even_index [of 1 ?r] \<open>unat ?r + 1 < unat ?b\<close>
    by (simp add: fat_next_cluster16_def read_sector_some Let_def)
qed


lemma fat_next_cluster32_table:
  assumes "512 \<le> unat (bytes_per_sector fs)" and "4 dvd unat (bytes_per_sector fs)"
    and "buffer_ok w (bytes_per_sector fs)" and "unat cluster < 2 ^ 28"
  shows "fat_next_cluster32 fs cluster w = Inr (Some (word_at (volume w) (fat_base fs + 4 * cluster)))"
proof -
  let ?b = "bytes_per_sector fs" and ?x = "cluster * 4"
  let ?r = "?x - ?b * (?x div ?b)"
  have b: "?b \<noteq> 0" using assms(1) by auto
  have x: "unat ?x = 4 * unat cluster" using assms(4) by (simp add: unat_word_ariths)
  have r: "unat ?r = (4 * unat cluster) mod unat ?b" using table_position(1) [OF b] x by simp
  then have d: "4 dvd unat ?r" using assms(2) by (simp add: dvd_mod)
  have lt: "unat ?r < unat ?b" using r assms(1) by simp
  then have room: "unat ?r + 3 < unat ?b" using d assms(2) by presburger
  then have "get32_at (block (volume w) (fimage fs + (reserved_sector fs + ?x div ?b) * ?b) (unat ?b)) (unat ?r) =
      word_at (volume w) (fimage fs + (reserved_sector fs + ?x div ?b) * ?b + ?r)"
    by (simp add: get32_block)
  also have "fimage fs + (reserved_sector fs + ?x div ?b) * ?b + ?r = fat_base fs + 4 * cluster"
    using table_position(2) [OF b, of "reserved_sector fs" ?x] by (simp add: fat_base_def add.assoc mult.commute)
  finally show ?thesis
    using b d assms(1,3) even_index [of 2 ?r] room
    by (simp add: fat_next_cluster32_def read_sector_some Let_def)
qed

text \<open>Twelve-bit entries: an entry may lie in two sectors.\<close>

lemma table_position12:
  fixes c b :: nat
  assumes "0 < b"
  shows "(12 * c) div (8 * b) * b + ((12 * c) mod (8 * b)) div 8 = 3 * c div 2"
    and "((12 * c) mod (8 * b)) div 8 < b" and "((12 * c) mod (8 * b)) mod 8 \<noteq> 0 \<longleftrightarrow> odd c"
proof -
  let ?q = "(12 * c) div (8 * b)" and ?r = "(12 * c) mod (8 * b)"
  have e: "12 * c = 8 * (?q * b) + ?r" using div_mult_mod_eq [of "12 * c" "8 * b"] by (simp add: ac_simps)
  have "3 * c div 2 = (12 * c) div 8" by (simp add: div_mult2_eq [of _ 4 2, simplified, symmetric])
  also have "\<dots> = ?q * b + ?r div 8" by (subst e) simp
  finally show "?q * b + ?r div 8 = 3 * c div 2" by simp
  show "?r div 8 < b" using assms by (simp add: div_less_iff_less_mult mult.commute)
  have "?r mod 8 = (12 * c) mod 8" by (subst (2) e) simp
  moreover have "(4 * (3 * c)) mod (4 * 2) = 4 * ((3 * c) mod 2)" by (rule mult_mod_right [symmetric])
  ultimately have "?r mod 8 = 4 * ((3 * c) mod 2)" by simp
  moreover have "(3 * c) mod 2 = c mod 2" by presburger
  ultimately show "?r mod 8 \<noteq> 0 \<longleftrightarrow> odd c" by (simp add: odd_iff_mod_2_eq_one)
qed


lemma get16_two_blocks:
  assumes "i + 1 = n" and "q = p + of_nat n" and "0 < k"
  shows "get16 (block m p n @ block m q k) i = mem16 m (p + of_nat i)"
proof -
  have "(block m p n @ block m q k) ! (i + 1) = m q" using assms(1,3) by (simp add: nth_append)
  moreover have "(block m p n @ block m q k) ! i = m (p + of_nat i)" using assms(1) by (simp add: nth_append)
  moreover have "q = p + of_nat i + 1" using assms(1,2) by (simp add: add.commute flip: assms(1))
  ultimately show ?thesis by (simp add: get16_def mem16_def)
qed

lemma fat_next_cluster12_table:
  assumes b: "512 \<le> unat (bytes_per_sector fs)" "unat (bytes_per_sector fs) < 2 ^ 16"
    and ok: "buffer_ok w (bytes_per_sector fs * 2)" and c: "unat cluster < 2 ^ 28"
  shows "fat_next_cluster12 fs cluster w = Inr (Some
    (let v = ucast (mem16 (volume w) (fat_base fs + of_nat (3 * unat cluster div 2)))
     in if odd (unat cluster) then drop_bit 4 v else v AND 0xFFF))"
proof -
  let ?b = "bytes_per_sector fs" and ?B = "unat (bytes_per_sector fs)" and ?C = "unat cluster"
  let ?q = "(cluster * 12) div (?b * 8)"
  let ?r = "cluster * 12 - ?b * 8 * ?q"
  let ?p = "fimage fs + (reserved_sector fs + ?q) * ?b"
  have x: "unat (cluster * 12) = 12 * ?C" "unat (?b * 8) = 8 * ?B" using b c by (simp_all add: unat_word_ariths)
  have nz: "?b * 8 \<noteq> 0" using x(2) b(1) by auto
  note pos = table_position12 [of ?B ?C]
  have q: "unat ?q = (12 * ?C) div (8 * ?B)" by (simp add: unat_div x)
  have r: "unat ?r = (12 * ?C) mod (8 * ?B)" using table_position(1) [OF nz, of "cluster * 12"] x by simp
  let ?i = "unat (?r div 8)"
  have i: "?i = ((12 * ?C) mod (8 * ?B)) div 8" using r by (simp add: unat_div)
  have lt: "?i < ?B" using pos(2) b(1) i by simp
  have "(of_nat (unat ?q * ?B + ?i) :: u32) = of_nat (3 * ?C div 2)" using pos(1) b(1) i q by simp
  then have "?q * ?b + ?r div 8 = of_nat (3 * ?C div 2)" by simp
  then have addr: "?p + of_nat ?i = fat_base fs + of_nat (3 * ?C div 2)" by (simp add: fat_base_def algebra_simps)
  have "unat (?r AND 7) = unat ?r mod 8"
  proof -
    have "?r AND 7 = take_bit 3 ?r" by (simp add: take_bit_eq_mask mask_eq_exp_minus_1)
    then show ?thesis by (simp add: unsigned_take_bit_eq take_bit_eq_mod [where 'a = nat])
  qed
  then have od: "?r AND 7 \<noteq> 0 \<longleftrightarrow> odd ?C" using pos(3) b(1) r by (metis unsigned_eq_0_iff le_zero_eq not_numeral_le_zero zero_less_iff_neq_zero)
  have straddle: "?r div 8 + 1 = ?b \<longleftrightarrow> ?i + 1 = ?B"
  proof -
    have "unat (?r div 8 + 1) = ?i + 1" using lt b(2) by (intro unat_Suc_no_wrap [unfolded Suc_eq_plus1]) simp
    then show ?thesis by (metis unsigned_word_eqI)
  qed
  have nxt: "fimage fs + (reserved_sector fs + ?q + 1) * ?b = ?p + of_nat ?B" by (simp add: algebra_simps)
  define bs where "bs = (if ?i + 1 = ?B then block (volume w) ?p ?B @ block (volume w) (?p + of_nat ?B) ?B else block (volume w) ?p ?B)"
  have g: "get16 bs ?i = mem16 (volume w) (fat_base fs + of_nat (3 * ?C div 2))"
    using get16_two_blocks [of ?i ?B "?p + of_nat ?B" ?p ?B "volume w"] get16_block [of ?i ?B "volume w" ?p] lt
    unfolding addr bs_def by (cases "?i + 1 = ?B") simp_all
  have len: "?i + 2 \<le> length bs" using lt b(1) by (auto simp: bs_def)
  have rd: "fat_read_sector fs (reserved_sector fs + ?q) w = Some (block (volume w) ?p ?B)"
    "fat_read_sector fs (reserved_sector fs + ?q + 1) w = Some (block (volume w) (?p + of_nat ?B) ?B)"
    using read_sector_some [OF b(1)] unfolding nxt [symmetric] by simp_all
  have "(if ?r div 8 + 1 = ?b then map_option (\<lambda>b. block (volume w) ?p ?B @ b) (fat_read_sector fs (reserved_sector fs + ?q + 1) w)
      else Some (block (volume w) ?p ?B)) = Some bs"
    unfolding straddle rd bs_def by simp
  then show ?thesis
    unfolding fat_next_cluster12_def Let_def if_not_P [OF nz] rd(1) option.case g
    using ok len od by (simp add: g)
qed


subsection \<open>Reading always returns\<close>

lemma skip_clusters_offset:
  "skip_clusters n f w = Inr (r, f1) \<Longrightarrow>
   de_fs f1 = de_fs f \<and> (r = None \<longrightarrow> de_offset f1 = de_offset f + of_nat n * bytes_per_cluster (de_fs f)) \<and>
   de_length f1 = de_length f \<and> de_flag f1 = de_flag f \<and> de_entry f1 = de_entry f \<and> (r = None \<or> r = Some 0 \<or> r = Some (- 1))"
proof (induction n arbitrary: f)
  case (Suc n)
  then show ?case
    by (fastforce simp: bind_res_Inr_iff algebra_simps split: option.splits if_splits)
qed simp

definition read_count :: "fatfs_dirent \<Rightarrow> u32 \<Rightarrow> u32 \<Rightarrow> u32" where
  "read_count f count off =
     (if \<not> IS_DIR (de_flag f) \<and> off + count > de_length f then de_length f - off else count)"

lemma read_count_le:
  assumes "\<not> (\<not> IS_DIR (de_flag f) \<and> off > de_length f)"
  shows "unat (read_count f count off) \<le> unat count"
proof (cases "\<not> IS_DIR (de_flag f) \<and> off + count > de_length f")
  case True
  then have le: "unat off \<le> unat (de_length f)" and gt: "unat (de_length f) < unat (off + count)"
    using assms by (auto simp: word_less_nat_alt not_less)
  have "unat (off + count) \<le> unat off + unat count" by (simp add: unat_word_ariths)
  then show ?thesis using True le gt by (simp add: read_count_def unat_sub_no_wrap)
next
  case False
  then show ?thesis by (auto simp: read_count_def)
qed

definition rewound :: "fatfs_dirent \<Rightarrow> u32 \<Rightarrow> fatfs_dirent" where
  "rewound f off = (if off < de_offset f then f\<lparr>de_cluster := de_entry f, de_offset := 0\<rparr> else f)"

lemma rewound_sel [simp]:
  "de_fs (rewound f off) = de_fs f" "de_length (rewound f off) = de_length f" "de_flag (rewound f off) = de_flag f"
  "de_entry (rewound f off) = de_entry f"
  by (simp_all add: rewound_def)

text \<open>What a first read copies: never past the cluster, never past the count.\<close>

definition copy_count :: "u32 \<Rightarrow> u32 \<Rightarrow> u32 \<Rightarrow> u32" where
  "copy_count bpc cluster_offset count = (if bpc > cluster_offset + count then count else bpc - cluster_offset)"

lemma copy_count_eq:
  assumes "unat co \<le> unat bpc" "unat (of_nat n :: u32) = n" "unat co + n < 2 ^ 32"
  shows "copy_count bpc co (of_nat n) = of_nat (min n (unat bpc - unat co))"
proof -
  have "unat (co + of_nat n) = unat co + n" using assms(2,3) by (subst unat_add_no_wrap) simp_all
  then have "bpc > co + of_nat n \<longleftrightarrow> unat co + n < unat bpc" by (simp add: word_less_nat_alt)
  moreover have "bpc - co = of_nat (unat bpc - unat co)" using assms(1) by (simp add: of_nat_diff)
  moreover have "min n (unat bpc - unat co) = (if unat co + n < unat bpc then n else unat bpc - unat co)" using assms(1) by auto
  ultimately show ?thesis by (simp add: copy_count_def)
qed

lemma copy_count_bounds:
  assumes "unat co < unat bpc" and "count \<noteq> 0"
  shows "0 < unat (copy_count bpc co count)" and "unat (copy_count bpc co count) \<le> unat count"
proof -
  have c: "0 < unat count" using assms(2) by (rule unat_pos)
  have sub: "unat (bpc - co) = unat bpc - unat co" using assms(1) by (intro unat_sub_no_wrap) simp
  have sum: "unat (co + count) \<le> unat co + unat count" by (simp add: unat_word_ariths)
  show "0 < unat (copy_count bpc co count)" using c sub assms(1) by (simp add: copy_count_def)
  show "unat (copy_count bpc co count) \<le> unat count"
    using sub sum by (auto simp: copy_count_def word_less_nat_alt not_less)
qed

lemma pread_first_cases:
  "pread_first f count off w =
     (if \<not> IS_DIR (de_flag f) \<and> off > de_length f then Inr (Pread_Ret (- 1) f)
      else if read_count f count off = 0 then Inr (Pread_Ret 0 f)
      else if bytes_per_cluster (de_fs f) = 0 then Inl Div_By_Zero
      else bind_res (skip_clusters (unat ((off - de_offset (rewound f off)) div bytes_per_cluster (de_fs f))) (rewound f off) w)
        (\<lambda>(r, f1). case r of
            Some v \<Rightarrow> Inr (Pread_Ret v f1)
          | None \<Rightarrow>
              if \<not> buffer_ok w (bytes_per_cluster (de_fs f)) then Inr (Pread_Ret (- 1) f1)
              else case fat_read_cluster (de_fs f1) (de_cluster f1) w of
                  None \<Rightarrow> Inr (Pread_Ret (- 1) f1)
                | Some buf \<Rightarrow>
                    let co = off - de_offset f1; n = copy_count (bytes_per_cluster (de_fs f)) co (read_count f count off)
                    in if unat co + unat n \<le> length buf
                       then Inr (Pread_Part (take (unat n) (drop (unat co) buf)) f1 (off + n) (read_count f count off - n))
                       else Inl Out_Of_Bounds))"
  unfolding pread_first_def read_count_def [symmetric] rewound_def [symmetric] copy_count_def Let_def rewound_sel
  by (rule refl)

lemma cluster_offset_below:
  assumes "skip_clusters (unat ((off - de_offset f) div bytes_per_cluster (de_fs f))) f w = Inr (None, f1)"
    and "bytes_per_cluster (de_fs f) \<noteq> 0"
  shows "unat (off - de_offset f1) = unat (off - de_offset f) mod unat (bytes_per_cluster (de_fs f))"
    and "unat (off - de_offset f1) < unat (bytes_per_cluster (de_fs f))"
proof -
  let ?b = "bytes_per_cluster (de_fs f)" and ?x = "off - de_offset f"
  have "de_offset f1 = de_offset f + of_nat (unat (?x div ?b)) * ?b" using skip_clusters_offset [OF assms(1)] by simp
  then have "off - de_offset f1 = ?x - ?b * (?x div ?b)" by (simp add: algebra_simps)
  then show 1: "unat (off - de_offset f1) = unat ?x mod unat ?b" using table_position(1) [OF assms(2), of ?x] by (simp only:)
  show "unat (off - de_offset f1) < unat ?b" using 1 unat_pos [OF assms(2)] by simp
qed

lemma pread_first_part:
  assumes "pread_first f count off w = Inr (Pread_Part bs f1 off1 count1)"
  shows "0 < length bs" and "length bs + unat count1 \<le> unat count"
proof -
  let ?b = "bytes_per_cluster (de_fs f)" and ?n = "read_count f count off"
  have g: "\<not> (\<not> IS_DIR (de_flag f) \<and> off > de_length f)" and nz: "?n \<noteq> 0" "?b \<noteq> 0"
    using assms by (auto simp: pread_first_cases split: if_splits)
  then obtain f2 where sk: "skip_clusters (unat ((off - de_offset (rewound f off)) div ?b)) (rewound f off) w = Inr (None, f2)"
    using assms by (auto simp: pread_first_cases bind_res_Inr_iff split: option.splits)
  let ?co = "off - de_offset f2"
  let ?k = "copy_count ?b ?co ?n"
  have co: "unat ?co < unat ?b" using cluster_offset_below(2) [of off "rewound f off" w f2] sk nz(2) by simp
  have res: "length bs = unat ?k" "count1 = ?n - ?k"
    using assms g nz sk by (auto simp: pread_first_cases Let_def split: option.splits if_splits)
  note cc = copy_count_bounds [OF co nz(1)]
  show "0 < length bs" using res(1) cc(1) by simp
  show "length bs + unat count1 \<le> unat count" using res cc(2) read_count_le [OF g, of count] by (simp add: unat_sub_no_wrap)
qed

lemma pread_first_ret:
  assumes "pread_first f count off w = Inr (Pread_Ret v f1)"
  shows "v = 0 \<or> v = - 1"
  using assms skip_clusters_offset [of _ "rewound f off" w]
  by (fastforce simp: pread_first_cases Let_def bind_res_Inr_iff split: option.splits if_splits)


text \<open>The count of a result: \<open>-1\<close>, or the number of bytes read, at most \<open>limit\<close>.\<close>

definition read_within :: "nat \<Rightarrow> (u32 \<times> u8 list \<times> fatfs_dirent) res \<Rightarrow> bool" where
  "read_within limit r \<longleftrightarrow>
     (case r of Inl e \<Rightarrow> True | Inr (n, cs, f) \<Rightarrow> n = - 1 \<or> (n = of_nat (length cs) \<and> length cs \<le> limit))"

text \<open>Both entries of the run, as long as every smaller count is known to return.\<close>

lemma pread_run_first_returns:
  assumes IH: "\<And>f n off bs. unat n < unat count \<Longrightarrow>
      \<exists>r. pread_run (Some bs) f n off w = Some r \<and> read_within (length bs + unat n) r"
  shows "\<exists>r. pread_run None f count off w = Some r \<and> read_within (unat count) r"
proof (cases "pread_first f count off w")
  case (Inl e)
  then show ?thesis by (subst pread_run.simps) (simp add: read_within_def)
next
  case (Inr p)
  show ?thesis
  proof (cases p)
    case (Pread_Ret v f1)
    then show ?thesis using Inr pread_first_ret [of f count off w v f1] by (subst pread_run.simps) (auto simp: read_within_def)
  next
    case (Pread_Part bs f1 off1 count1)
    have p: "0 < length bs" "length bs + unat count1 \<le> unat count"
      using pread_first_part [of f count off w bs f1 off1 count1] Inr Pread_Part by simp_all
    then have "unat count1 < unat count" by linarith
    from IH [OF this, of bs f1 off1] obtain r where
      "pread_run (Some bs) f1 count1 off1 w = Some r" "read_within (length bs + unat count1) r" by blast
    moreover have "pread_run None f count off w = pread_run (Some bs) f1 count1 off1 w"
      using Inr Pread_Part by (subst pread_run.simps) simp
    ultimately show ?thesis using p(2) by (auto simp: read_within_def split: sum.splits)
  qed
qed

lemma pread_run_loop_returns:
  assumes IH: "\<And>f n off bs. unat n < unat count \<Longrightarrow>
      \<exists>r. pread_run (Some bs) f n off w = Some r \<and> read_within (length bs + unat n) r"
  shows "\<exists>r. pread_run (Some bs) f count off w = Some r \<and> read_within (length bs + unat count) r"
proof (cases "off < de_length f \<and> count > 0")
  case False
  then show ?thesis by (subst pread_run.simps) (auto simp: read_within_def)
next
  case going: True
  obtain r where r: "pread_run None f count off w = Some r" "read_within (unat count) r"
    using pread_run_first_returns [OF IH] by blast
  note step = pread_run.simps [of "Some bs" f count off w]
  consider (err) e where "r = Inl e" | (stop) hr cs f1 where "r = Inr (hr, cs, f1)" "hr = - 1 \<or> hr = 0"
    | (part) hr cs f1 where "r = Inr (hr, cs, f1)" "hr \<noteq> - 1" "hr \<noteq> 0"
    by (cases r) (metis prod_cases3)+
  then show ?thesis
  proof cases
    case err
    then show ?thesis using r going step by (simp add: read_within_def)
  next
    case stop
    then show ?thesis using r going step by (auto simp: read_within_def)
  next
    case part
    then have hr: "hr = of_nat (length cs)" "length cs \<le> unat count" using r(2) by (auto simp: read_within_def)
    then have uh: "unat hr = length cs" using unat_u32_less [of count] by (simp add: unat_of_nat_below)
    have "0 < length cs" using part(3) hr(1) by (cases cs) auto
    moreover have eq: "unat (count - hr) = unat count - length cs" using uh hr(2) by (simp add: unat_sub_no_wrap)
    ultimately have lt: "unat (count - hr) < unat count" using hr(2) by linarith
    from IH [OF lt, of "bs @ cs" f1 "off + hr"] obtain r' where
      "pread_run (Some (bs @ cs)) f1 (count - hr) (off + hr) w = Some r'" "read_within (length (bs @ cs) + unat (count - hr)) r'" by blast
    then show ?thesis using r(1) part going step hr(2) eq by simp
  qed
qed

lemma pread_run_returns:
  "(\<exists>r. pread_run None f count off w = Some r \<and> read_within (unat count) r) \<and>
   (\<exists>r. pread_run (Some bs) f count off w = Some r \<and> read_within (length bs + unat count) r)"
proof (induction "unat count" arbitrary: f count off bs rule: less_induct)
  case less
  then show ?case by (meson pread_run_first_returns pread_run_loop_returns)
qed


text \<open>A read moves only the cluster and the offset that the entry of the file keeps.\<close>

definition same_file :: "fatfs_dirent \<Rightarrow> fatfs_dirent \<Rightarrow> bool" where
  "same_file f f' \<longleftrightarrow> f' = f\<lparr>de_cluster := de_cluster f', de_offset := de_offset f'\<rparr>"

lemma same_file_sel:
  assumes "same_file f f'"
  shows "de_fs f' = de_fs f" "lseek f' = lseek f" "de_length f' = de_length f" "de_entry f' = de_entry f" "de_flag f' = de_flag f"
  using assms by (cases f; cases f'; simp add: same_file_def)+

lemma same_file_refl [simp]: "same_file f f" "same_file f (f\<lparr>de_cluster := c, de_offset := k\<rparr>)" "same_file f (rewound f off)"
  by (simp_all add: same_file_def rewound_def)

lemma same_file_trans: "same_file f g \<Longrightarrow> same_file g h \<Longrightarrow> same_file f h"
  by (cases f; cases g; cases h) (simp add: same_file_def)

lemma skip_clusters_same_file: "skip_clusters n f w = Inr (r, f') \<Longrightarrow> same_file f f'"
proof (induction n arbitrary: f)
  case (Suc n)
  let ?g = "\<lambda>cl. f\<lparr>de_offset := de_offset f + bytes_per_cluster (de_fs f), de_cluster := cl\<rparr>"
  have g: "same_file f (?g cl)" for cl by (simp add: same_file_def)
  from Suc.prems show ?case
    by (auto simp: bind_res_Inr_iff split: option.splits if_splits intro: same_file_trans [OF g Suc.IH])
qed simp

lemma pread_first_same_file:
  assumes "pread_first f count off w = Inr st"
  shows "case st of Pread_Ret v f' \<Rightarrow> same_file f f' | Pread_Part bs f' off1 count1 \<Rightarrow> same_file f f'"
  using assms same_file_trans [OF same_file_refl(3) skip_clusters_same_file]
  by (fastforce simp: pread_first_cases Let_def bind_res_Inr_iff split: option.splits if_splits)

lemma pread_run_same_file:
  assumes "pread_run got f count off w = Some (Inr (n, bs, f'))"
  shows "same_file f f'"
proof -
  define P where "P got f count off w r \<longleftrightarrow> (case r of Inl e \<Rightarrow> True | Inr (n, bs, f') \<Rightarrow> same_file f f')"
    for got :: "u8 list option" and f :: fatfs_dirent and count off :: u32 and w :: fat_world and r :: "(u32 \<times> u8 list \<times> fatfs_dirent) res"
  have "P got f count off w (Inr (n, bs, f'))"
  proof (rule pread_run.raw_induct [OF _ assms], goal_cases)
    case (1 run got f count off w r)
    have IH: "same_file g f'" if "run got g count off w = Some (Inr (n, bs, f'))" for got g count off w n bs f'
      using 1(1) [OF that] by (simp add: P_def)
    show ?case
    proof (cases got)
      case None
      show ?thesis unfolding P_def using 1(2) None pread_first_same_file [of f count off w]
        by (auto split: sum.splits pread_step.splits dest!: IH intro: same_file_trans)
    next
      case (Some bs)
      show ?thesis
      proof (cases "off < de_length f \<and> count > 0")
        case True
        then obtain q where q: "run None f count off w = Some q" using 1(2) Some by (auto simp: bind_eq_Some_conv)
        show ?thesis
        proof (cases q)
          case (Inl e)
          then show ?thesis unfolding P_def using 1(2) Some True q by auto
        next
          case (Inr x)
          obtain hr cs f1 where x: "x = (hr, cs, f1)" by (cases x)
          have "same_file f f1" using IH q Inr x by simp
          then show ?thesis unfolding P_def using 1(2) Some True q Inr x
            by (auto split: if_splits sum.splits dest!: IH intro: same_file_trans)
        qed
      next
        case False
        then show ?thesis unfolding P_def using 1(2) Some by auto
      qed
    qed
  qed
  then show ?thesis by (simp add: P_def)
qed

subsection \<open>The contents of a file\<close>

text \<open>
  \<open>file_at w f cs\<close>: the chain of the file \<open>f\<close> is \<open>cs\<close>, the volume has a usable geometry, the file is not
  longer than its clusters, and the position kept in \<open>f\<close> is on the chain.
\<close>

definition cluster_bytes :: "fatfs_priv \<Rightarrow> fat_world \<Rightarrow> u32 \<Rightarrow> u8 list" where
  "cluster_bytes fs w c = (case fat_read_cluster fs c w of Some b \<Rightarrow> b | None \<Rightarrow> [])"

definition chain_bytes :: "fatfs_priv \<Rightarrow> fat_world \<Rightarrow> u32 list \<Rightarrow> u8 list" where
  "chain_bytes fs w cs = concat (map (cluster_bytes fs w) cs)"

definition geometry_ok :: "fatfs_priv \<Rightarrow> bool" where
  "geometry_ok fs \<longleftrightarrow> 512 \<le> unat (bytes_per_sector fs) \<and> unat (bytes_per_sector fs) < 2 ^ 16 \<and>
     0 < unat (sectors_per_cluster fs) \<and> unat (sectors_per_cluster fs) < 2 ^ 8"

definition chain_ok :: "fatfs_priv \<Rightarrow> fat_world \<Rightarrow> u32 list \<Rightarrow> bool" where
  "chain_ok fs w cs \<longleftrightarrow> (\<forall>i. Suc i < length cs \<longrightarrow>
     fat_next_cluster (opvector fs) fs (cs ! i) w = Inr (Some (cs ! Suc i)) \<and> cs ! Suc i < fat_max_cluster (opvector fs))"

definition on_chain :: "fatfs_dirent \<Rightarrow> u32 list \<Rightarrow> nat \<Rightarrow> bool" where
  "on_chain f cs k \<longleftrightarrow> k < length cs \<and> de_cluster f = cs ! k \<and> unat (de_offset f) = k * unat (bytes_per_cluster (de_fs f))"

definition file_at :: "fat_world \<Rightarrow> fatfs_dirent \<Rightarrow> u32 list \<Rightarrow> bool" where
  "file_at w f cs \<longleftrightarrow> geometry_ok (de_fs f) \<and> chain_ok (de_fs f) w cs \<and> buffer_ok w (bytes_per_cluster (de_fs f)) \<and>
     \<not> IS_DIR (de_flag f) \<and> de_entry f = cs ! 0 \<and>
     unat (de_length f) \<le> length cs * unat (bytes_per_cluster (de_fs f)) \<and>
     length cs * unat (bytes_per_cluster (de_fs f)) < 2 ^ 32 \<and> (\<exists>k. on_chain f cs k)"

lemma unat_bytes_per_cluster:
  assumes "geometry_ok fs"
  shows "unat (bytes_per_cluster fs) = unat (bytes_per_sector fs) * unat (sectors_per_cluster fs)"
    and "0 < unat (bytes_per_cluster fs)"
proof -
  have "unat (bytes_per_sector fs) * unat (sectors_per_cluster fs) < 2 ^ 16 * 2 ^ 8"
    using assms by (intro mult_strict_mono) (simp_all add: geometry_ok_def)
  then show "unat (bytes_per_cluster fs) = unat (bytes_per_sector fs) * unat (sectors_per_cluster fs)"
    by (simp add: bytes_per_cluster_def unat_word_ariths)
  then show "0 < unat (bytes_per_cluster fs)" using assms by (simp add: geometry_ok_def)
qed

lemma read_sectors_length:
  "512 \<le> unat (bytes_per_sector fs) \<Longrightarrow> \<exists>b. read_sectors fs n sector w = Some b \<and> length b = n * unat (bytes_per_sector fs)"
proof (induction n arbitrary: sector)
  case (Suc n)
  obtain b where "read_sectors fs n (sector + 1) w = Some b" "length b = n * unat (bytes_per_sector fs)"
    using Suc.IH [OF Suc.prems] by blast
  then show ?case using Suc.prems by (simp add: read_sector_some)
qed simp

lemma cluster_bytes_length:
  assumes "geometry_ok fs"
  shows "fat_read_cluster fs c w = Some (cluster_bytes fs w c)" and "length (cluster_bytes fs w c) = unat (bytes_per_cluster fs)"
proof -
  have s: "sint (sectors_per_cluster fs) = int (unat (sectors_per_cluster fs))"
    using sint_of_nat_below [of "unat (sectors_per_cluster fs)", where 'a = 32] assms by (simp add: geometry_ok_def)
  have "sectors_per_cluster fs > 0" using assms by (simp add: geometry_ok_def word_less_nat_alt)
  then obtain b where b: "fat_read_cluster fs c w = Some b" "length b = unat (sectors_per_cluster fs) * unat (bytes_per_sector fs)"
    using read_sectors_length [of fs "unat (sectors_per_cluster fs)" _ w] assms s
    by (auto simp: fat_read_cluster_def geometry_ok_def Let_def)
  then show "fat_read_cluster fs c w = Some (cluster_bytes fs w c)" by (simp add: cluster_bytes_def)
  show "length (cluster_bytes fs w c) = unat (bytes_per_cluster fs)"
    using b unat_bytes_per_cluster(1) [OF assms] by (simp add: cluster_bytes_def)
qed

lemma take_drop_concat:
  assumes "\<forall>x \<in> set xs. length x = B" and "j div B < length xs" and "0 < B" and "m \<le> B - j mod B"
  shows "take m (drop j (concat xs)) = take m (drop (j mod B) (xs ! (j div B)))"
  using assms(1,2,4)
proof (induction xs arbitrary: j)
  case (Cons x xs)
  have len: "length x = B" using Cons.prems(1) by simp
  show ?case
  proof (cases "j < B")
    case True
    then show ?thesis using Cons.prems(3) len by simp
  next
    case False
    then have d: "j div B = Suc ((j - B) div B)" "j mod B = (j - B) mod B"
      using assms(3) by (simp_all add: le_div_geq le_mod_geq)
    have "take m (drop (j - B) (concat xs)) = take m (drop ((j - B) mod B) (xs ! ((j - B) div B)))"
      using Cons.prems d by (intro Cons.IH) simp_all
    then show ?thesis using False len d by simp
  qed
qed simp

lemma skip_clusters_chain:
  assumes "chain_ok (de_fs f) w cs" and "on_chain f cs k" and "k + n < length cs"
    and "length cs * unat (bytes_per_cluster (de_fs f)) < 2 ^ 32"
  shows "\<exists>f1. skip_clusters n f w = Inr (None, f1) \<and> on_chain f1 cs (k + n)"
  using assms
proof (induction n arbitrary: f k)
  case (Suc n)
  let ?b = "bytes_per_cluster (de_fs f)"
  let ?f = "f\<lparr>de_offset := de_offset f + ?b, de_cluster := cs ! Suc k\<rparr>"
  have nx: "fat_next_cluster (opvector (de_fs f)) (de_fs f) (de_cluster f) w = Inr (Some (cs ! Suc k))"
    "cs ! Suc k < fat_max_cluster (opvector (de_fs f))"
    using Suc.prems(1-3) by (auto simp: chain_ok_def on_chain_def)
  have "(k + 1) * unat ?b \<le> length cs * unat ?b" using Suc.prems(3) by (intro mult_right_mono) simp_all
  then have "unat (de_offset f + ?b) = (k + 1) * unat ?b"
    using Suc.prems(2,4) by (subst unat_add_no_wrap) (simp_all add: on_chain_def)
  then have on: "on_chain ?f cs (Suc k)" using Suc.prems(3) by (simp add: on_chain_def)
  have "\<not> fat_max_cluster (opvector (de_fs f)) \<le> cs ! Suc k" using nx(2) by (simp add: not_le)
  then have "skip_clusters (Suc n) f w = skip_clusters n ?f w" using nx(1) by simp
  moreover obtain f1 where "skip_clusters n ?f w = Inr (None, f1) \<and> on_chain f1 cs (Suc k + n)"
    using Suc.IH [of ?f "Suc k"] on Suc.prems by auto
  ultimately show ?case by auto
qed auto


lemma rewound_on_chain:
  assumes "on_chain f cs k" and "de_entry f = cs ! 0"
  shows "\<exists>j. on_chain (rewound f off) cs j \<and> j * unat (bytes_per_cluster (de_fs f)) \<le> unat off"
proof (cases "off < de_offset f")
  case True
  have "0 < length cs" using assms(1) by (auto simp: on_chain_def)
  then show ?thesis using True assms(2) by (intro exI [of _ 0]) (simp add: on_chain_def rewound_def)
next
  case False
  then have "rewound f off = f" by (simp add: rewound_def)
  moreover have "unat (de_offset f) \<le> unat off" using False by (simp add: word_le_nat_alt not_less)
  ultimately show ?thesis using assms(1) by (intro exI [of _ k]) (simp add: on_chain_def)
qed

lemma read_count_eq:
  assumes "\<not> IS_DIR (de_flag f)" and "unat off \<le> unat (de_length f)" and "unat off + unat count < 2 ^ 32"
  shows "read_count f count off = of_nat (min (unat count) (unat (de_length f) - unat off))"
proof -
  have "unat (off + count) = unat off + unat count" using assms(3) by (intro unat_add_no_wrap) simp
  then have "off + count > de_length f \<longleftrightarrow> unat (de_length f) - unat off < unat count"
    using assms(2) by (auto simp: word_less_nat_alt)
  moreover have "de_length f - off = of_nat (unat (de_length f) - unat off)" using assms(2) by (simp add: of_nat_diff)
  ultimately show ?thesis using assms(1) by (auto simp: read_count_def min_def)
qed

lemma chain_bytes_length: "geometry_ok fs \<Longrightarrow> length (chain_bytes fs w cs) = length cs * unat (bytes_per_cluster fs)"
  by (induction cs) (simp_all add: chain_bytes_def cluster_bytes_length)

text \<open>The cluster of an offset inside the file is reached by following the chain.\<close>

lemma skip_to_offset:
  assumes f: "file_at w f cs" and off: "unat off < unat (de_length f)"
  defines "B \<equiv> unat (bytes_per_cluster (de_fs f))"
  shows "\<exists>f1. skip_clusters (unat ((off - de_offset (rewound f off)) div bytes_per_cluster (de_fs f))) (rewound f off) w = Inr (None, f1) \<and>
    on_chain f1 cs (unat off div B) \<and> unat (off - de_offset f1) = unat off mod B \<and> unat off div B < length cs"
proof -
  let ?b = "bytes_per_cluster (de_fs f)" and ?j = "unat off"
  have ch: "chain_ok (de_fs f) w cs" and ent: "de_entry f = cs ! 0"
    and len: "unat (de_length f) \<le> length cs * B" "length cs * B < 2 ^ 32"
    using f by (simp_all add: file_at_def B_def)
  have B0: "0 < B" using f unat_bytes_per_cluster(2) by (simp add: B_def file_at_def)
  obtain k where "on_chain f cs k" using f by (auto simp: file_at_def)
  then obtain i where i: "on_chain (rewound f off) cs i" "i * B \<le> ?j"
    using rewound_on_chain [of f cs k off] ent by (auto simp: B_def)
  have sub: "unat (off - de_offset (rewound f off)) = ?j - i * B"
    using i by (subst unat_sub_no_wrap) (simp_all add: on_chain_def B_def)
  have q: "unat ((off - de_offset (rewound f off)) div ?b) = ?j div B - i"
    using sub B0 i(2) by (simp add: unat_div B_def [symmetric]) (metis div_mult_self3 add.commute diff_add_inverse le_add_diff_inverse2 nat_neq_iff)
  have ij: "i \<le> ?j div B" using i(2) B0 by (simp add: less_eq_div_iff_mult_less_eq)
  have jl: "?j div B < length cs" using off len(1) B0 by (simp add: div_less_iff_less_mult)
  obtain f1 where f1: "skip_clusters (?j div B - i) (rewound f off) w = Inr (None, f1)" "on_chain f1 cs (?j div B)"
    using skip_clusters_chain [of "rewound f off" w cs i "?j div B - i"] ch i(1) ij jl len(2) by (auto simp: B_def)
  note keep = skip_clusters_offset [OF f1(1)]
  have co: "unat (off - de_offset f1) = ?j mod B"
    using f1(2) keep by (subst unat_sub_no_wrap) (auto simp: on_chain_def B_def minus_div_mult_eq_mod)
  with f1 q jl show ?thesis by (intro exI [of _ f1]) simp
qed

lemma pread_first_contents:
  assumes f: "file_at w f cs" and off: "unat off < unat (de_length f)" "unat off + unat count < 2 ^ 32" and c: "count \<noteq> 0"
  defines "n \<equiv> min (unat count) (unat (de_length f) - unat off)" and "B \<equiv> unat (bytes_per_cluster (de_fs f))"
  shows "\<exists>f1. pread_first f count off w =
      Inr (Pread_Part (take (min n (B - unat off mod B)) (drop (unat off) (chain_bytes (de_fs f) w cs))) f1
             (off + of_nat (min n (B - unat off mod B))) (of_nat (n - min n (B - unat off mod B)))) \<and>
      file_at w f1 cs \<and> de_length f1 = de_length f \<and> de_fs f1 = de_fs f"
proof -
  let ?b = "bytes_per_cluster (de_fs f)" and ?j = "unat off"
  have g: "geometry_ok (de_fs f)" and ok: "buffer_ok w ?b" and dir: "\<not> IS_DIR (de_flag f)"
    using f by (simp_all add: file_at_def)
  have B0: "0 < B" using unat_bytes_per_cluster(2) [OF g] by (simp add: B_def)
  then have b0: "?b \<noteq> 0" by (auto simp: B_def)
  obtain f1 where f1: "skip_clusters (unat ((off - de_offset (rewound f off)) div ?b)) (rewound f off) w = Inr (None, f1)"
      "on_chain f1 cs (?j div B)" and co: "unat (off - de_offset f1) = ?j mod B" and jl: "?j div B < length cs"
    using skip_to_offset [OF f off(1)] unfolding B_def by blast
  note keep = skip_clusters_offset [OF f1(1)]
  have rc: "read_count f count off = of_nat n"
    unfolding n_def using dir off by (intro read_count_eq) simp_all
  have n: "0 < n" "n < 2 ^ 32" using off(1) unat_pos [OF c] unat_u32_less [of count] by (auto simp: n_def)
  then have un: "unat (of_nat n :: u32) = n" by (intro unat_of_nat_below) simp
  let ?m = "min n (B - ?j mod B)"
  have "?j mod B + n < 2 ^ 32" using off(2) mod_less_eq_dividend [of ?j B] unfolding n_def by linarith
  then have cc: "copy_count ?b (off - de_offset f1) (of_nat n) = of_nat ?m"
    using copy_count_eq [of "off - de_offset f1" ?b n] co un B0 by (simp add: B_def less_imp_le)
  have um: "unat (of_nat ?m :: u32) = ?m" using n(2) by (intro unat_of_nat_below) simp
  have rem: "(of_nat n :: u32) - of_nat ?m = of_nat (n - ?m)" by (simp add: of_nat_diff)
  have cl: "fat_read_cluster (de_fs f1) (de_cluster f1) w = Some (cluster_bytes (de_fs f) w (cs ! (?j div B)))"
    "length (cluster_bytes (de_fs f) w (cs ! (?j div B))) = B"
    using cluster_bytes_length [OF g] keep f1(2) by (simp_all add: on_chain_def B_def)
  have bytes: "take ?m (drop (?j mod B) (cluster_bytes (de_fs f) w (cs ! (?j div B)))) = take ?m (drop ?j (chain_bytes (de_fs f) w cs))"
    using take_drop_concat [of "map (cluster_bytes (de_fs f) w) cs" B ?j ?m] cluster_bytes_length(2) [OF g] jl B0
    by (simp add: chain_bytes_def B_def)
  have "?j mod B < B" using B0 by simp
  then have fit: "?j mod B + ?m \<le> B" by simp
  have nz: "(of_nat n :: u32) \<noteq> 0" using un n(1) by auto
  have same: "de_length f1 = de_length f" "de_fs f1 = de_fs f" using keep by simp_all
  have at: "file_at w f1 cs" using f f1(2) keep by (auto simp: file_at_def)
  have g1: "\<not> (\<not> IS_DIR (de_flag f) \<and> off > de_length f)" using off(1) by (simp add: word_less_nat_alt)
  have ok1: "\<not> \<not> buffer_ok w ?b" using ok by simp
  have "pread_first f count off w =
      Inr (Pread_Part (take ?m (drop ?j (chain_bytes (de_fs f) w cs))) f1 (off + of_nat ?m) (of_nat (n - ?m)))"
    unfolding pread_first_cases rc if_not_P [OF g1] if_not_P [OF nz] if_not_P [OF b0] f1(1) bind_res_simps prod.case
      option.case if_not_P [OF ok1] cl(1) Let_def cc co um rem bytes cl(2) if_P [OF fit]
    by (rule refl)
  with at same show ?thesis by blast
qed


lemma pread_run_at_end:
  assumes f: "file_at w f cs" and off: "unat off \<le> unat (de_length f)" "unat off + unat count < 2 ^ 32"
    and e: "count = 0 \<or> unat off = unat (de_length f)"
  shows "pread_run None f count off w = Some (Inr (0, [], f))"
proof -
  have dir: "\<not> IS_DIR (de_flag f)" using f by (simp add: file_at_def)
  have "\<not> off > de_length f" using off(1) by (simp add: word_less_nat_alt)
  moreover have "read_count f count off = 0" using read_count_eq [OF dir off] e by auto
  ultimately show ?thesis using dir by (subst pread_run.simps) (simp add: pread_first_cases)
qed

text \<open>One round of the loop that reads all that is left.\<close>

lemma pread_run_rest:
  assumes rest: "pread_run None f (of_nat n) off w = Some (Inr (of_nat n, ds, f'))"
    and n: "0 < n" "n < 2 ^ 32 - 1" "length ds = n" and off: "off < de_length f"
  shows "pread_run (Some bs) f (of_nat n) off w = Some (Inr (of_nat (length bs + n), bs @ ds, f'))"
proof -
  have un: "unat (of_nat n :: u32) = n" using n(2) by (intro unat_of_nat_below) simp
  have "unat (- 1 :: u32) = 2 ^ 32 - 1" by (simp add: unsigned_minus_1_eq_mask mask_eq_exp_minus_1)
  then have nz: "(of_nat n :: u32) \<noteq> - 1" "(of_nat n :: u32) \<noteq> 0" using un n(1,2) by (metis nat_neq_iff) (use un n(1) in auto)
  then have "pread_run (Some bs) f (of_nat n) off w = pread_run (Some (bs @ ds)) f' 0 (off + of_nat n) w"
    using rest off by (subst pread_run.simps) (simp add: word_gt_0)
  also have "\<dots> = Some (Inr (of_nat (length bs + n), bs @ ds, f'))" using n(3) by (subst pread_run.simps) simp
  finally show ?thesis .
qed

lemma pread_run_contents:
  assumes "file_at w f cs" and "unat off \<le> unat (de_length f)" and "unat off + unat count < 2 ^ 32"
  shows "\<exists>f'. pread_run None f count off w =
      Some (Inr (of_nat (min (unat count) (unat (de_length f) - unat off)),
        take (min (unat count) (unat (de_length f) - unat off)) (drop (unat off) (chain_bytes (de_fs f) w cs)), f')) \<and>
      file_at w f' cs"
  using assms
proof (induction "unat count" arbitrary: f count off rule: less_induct)
  case less
  let ?L = "unat (de_length f)" and ?j = "unat off" and ?X = "chain_bytes (de_fs f) w cs"
    and ?B = "unat (bytes_per_cluster (de_fs f))"
  define n where "n = min (unat count) (?L - ?j)"
  have "?L \<le> length ?X" using less.prems(1) chain_bytes_length [of "de_fs f" w cs] by (simp add: file_at_def)
  then have lX: "n \<le> length (drop ?j ?X)" by (simp add: n_def)
  show ?case
  proof (cases "count = 0 \<or> ?j = ?L")
    case True
    then show ?thesis using pread_run_at_end [OF less.prems True] less.prems(1) by auto
  next
    case False
    define m where "m = min n (?B - ?j mod ?B)"
    have lt: "?j < ?L" and c: "count \<noteq> 0" using False less.prems(2) by auto
    obtain f1 where f1: "pread_first f count off w = Inr (Pread_Part (take m (drop ?j ?X)) f1 (off + of_nat m) (of_nat (n - m)))"
      "file_at w f1 cs" "de_length f1 = de_length f" "de_fs f1 = de_fs f"
      using pread_first_contents [OF less.prems(1) lt less.prems(3) c] unfolding m_def n_def by blast
    have "0 < ?B" using less.prems(1) unat_bytes_per_cluster(2) by (auto simp: file_at_def)
    then have m: "0 < m" "m \<le> n" using lt unat_pos [OF c] by (auto simp: m_def n_def)
    have n32: "n \<le> unat count" "n < 2 ^ 32" using unat_u32_less [of count] by (auto simp: n_def)
    have un: "unat (of_nat (n - m) :: u32) = n - m" using n32 by (intro unat_of_nat_below) auto
    have um: "unat (of_nat m :: u32) = m" using m n32 by (intro unat_of_nat_below) auto
    have uo: "unat (off + of_nat m) = ?j + m" using um m n32 less.prems(3) by (subst unat_add_no_wrap) auto
    have run: "pread_run None f count off w = pread_run (Some (take m (drop ?j ?X))) f1 (of_nat (n - m)) (off + of_nat m) w"
      using f1(1) by (subst pread_run.simps) simp
    have "\<exists>f'. pread_run None f count off w = Some (Inr (of_nat n, take n (drop ?j ?X), f')) \<and> file_at w f' cs"
    proof (cases "n = m")
      case True
      have "pread_run None f count off w = Some (Inr (of_nat (length (take m (drop ?j ?X))), take m (drop ?j ?X), f1))"
        unfolding run True by (subst pread_run.simps) simp
      then show ?thesis using lX f1(2) True by (simp add: min_absorb2)
    next
      case False
      have k: "min (n - m) (unat (de_length f1) - (?j + m)) = n - m" unfolding f1(3) by (auto simp: n_def)
      have "unat (of_nat (n - m) :: u32) < unat count" "unat (off + of_nat m) \<le> unat (de_length f1)"
          "unat (off + of_nat m) + unat (of_nat (n - m) :: u32) < 2 ^ 32"
        unfolding uo un f1(3) using m n32 less.prems(3) lt by (auto simp: n_def)
      then obtain f2 where f2: "pread_run None f1 (of_nat (n - m)) (off + of_nat m) w =
          Some (Inr (of_nat (n - m), take (n - m) (drop (?j + m) ?X), f2))" "file_at w f2 cs"
        using less.hyps [of "of_nat (n - m)" f1 "off + of_nat m"] f1(2) unfolding uo un k f1(4) by blast
      have "0 < n - m" "n - m < 2 ^ 32 - 1" "length (take (n - m) (drop (?j + m) ?X)) = n - m" "off + of_nat m < de_length f1"
      proof -
        show "0 < n - m" "n - m < 2 ^ 32 - 1" using False m n32 by simp_all
        show "length (take (n - m) (drop (?j + m) ?X)) = n - m" using lX m(2) by simp
        show "off + of_nat m < de_length f1" unfolding word_less_nat_alt uo f1(3)
          using False m min.cobounded2 [of "unat count" "?L - ?j", folded n_def] by linarith
      qed
      note rest = pread_run_rest [OF f2(1) this, of "take m (drop ?j ?X)"]
      have "length (take m (drop ?j ?X)) + (n - m) = n" using m(2) lX by auto
      then show ?thesis
        unfolding run rest using f2(2) m(2) take_add [of m "n - m" "drop ?j ?X"] by (simp add: add.commute)
    qed
    then show ?thesis unfolding n_def .
  qed
qed


subsection \<open>Properties\<close>

text \<open>
  A volume at address 0x10000 in which each byte is the low byte of its address: 512 bytes per
  sector, one sector per cluster, one reserved sector, the first cluster at sector 4; and a file of
  300 bytes in cluster 2.
\<close>

definition example_fs :: fatfs_priv where
  "example_fs = \<lparr>fimage = 0x10000, bytes_per_sector = 512, sectors_per_cluster = 1, first_cluster_sector = 4,
     reserved_sector = 1, sectors_per_fat = 1, number_of_FAT = 2, root_entries = 16, opvector = fat16fs_opvector\<rparr>"

definition example_file :: fatfs_dirent where
  "example_file = \<lparr>de_fs = example_fs, lseek = 0, de_cluster = 2, de_offset = 0, de_length = 300, de_entry = 2, de_flag = 0x20\<rparr>"

definition example_fat :: fat_world where
  "example_fat = \<lparr>volume = (\<lambda>a. ucast a), dirent_at = (\<lambda>_. example_file), spare = [], buffer_ok = (\<lambda>_. True)\<rparr>"

lemma example_file_at: "file_at example_fat example_file [2]"
  by (simp add: file_at_def geometry_ok_def chain_ok_def on_chain_def example_fat_def example_file_def example_fs_def
      bytes_per_cluster_def IS_DIR_def)

text \<open>
  C9. Reading a file gives its contents. Let the clusters of a file be a chain of the allocation
  table, and let its length fit them. From any offset in the file and for any count that does not
  run over the address space, \<open>fatfs_pread\<close> returns, reports the number of bytes up to the count or
  the end of the file, whichever comes first, and copies exactly the bytes of the concatenated
  clusters at that offset; the position it keeps is again on the chain, so the next read works too.
\<close>

theorem fatfs_pread_reads_contents:
  assumes "file_at w f cs" and "unat off \<le> unat (de_length f)" and "unat off + unat count < 2 ^ 32"
  shows "\<exists>f'. fatfs_pread f count off w =
      Some (Inr (of_nat (min (unat count) (unat (de_length f) - unat off)),
        take (min (unat count) (unat (de_length f) - unat off)) (drop (unat off) (chain_bytes (de_fs f) w cs)), f')) \<and>
      file_at w f' cs"
  unfolding fatfs_pread_def using assms by (rule pread_run_contents)

theorem fatfs_pread_reads_contents_witness:
  "\<exists>f'. fatfs_pread example_file 3 5 example_fat = Some (Inr (3, [5, 6, 7], f'))"
proof -
  have "de_length example_file = 300" "de_fs example_file = example_fs" by (simp_all add: example_file_def)
  moreover have "take 3 (drop 5 (chain_bytes example_fs example_fat [2])) = [5, 6, 7]" by code_simp
  ultimately show ?thesis using fatfs_pread_reads_contents [OF example_file_at, of 5 3] by auto
qed

text \<open>
  C27. Reading always returns: for every open file, offset, count and volume, however broken its
  allocation table, \<open>fatfs_pread\<close> ends, and unless it fails it reports the number of bytes it copied,
  which is never more than the count asked for.
\<close>

theorem fatfs_pread_returns:
  "\<exists>r. fatfs_pread f count off w = Some r \<and>
     (case r of Inl e \<Rightarrow> True | Inr (n, bytes, f') \<Rightarrow> n = - 1 \<or> (n = of_nat (length bytes) \<and> length bytes \<le> unat count))"
  using pread_run_returns [of f count off w "[]"] unfolding fatfs_pread_def read_within_def by blast

text \<open>
  C28. The three table readers are equivalent to indexing one array. The code reads one sector, or
  two for an entry of FAT12 that crosses a sector boundary, and picks the entry out of it; the
  result is the entry at its byte offset in the table taken as one array: 32-bit and 16-bit entries
  at four and two bytes times the cluster, and a 12-bit entry at one and a half, the high twelve
  bits for an odd cluster and the low ones for an even cluster.
\<close>

theorem fat_next_cluster_reads_table:
  assumes "512 \<le> unat (bytes_per_sector fs)" and "unat (bytes_per_sector fs) < 2 ^ 16" and "4 dvd unat (bytes_per_sector fs)"
    and "buffer_ok w (bytes_per_sector fs)" and "buffer_ok w (bytes_per_sector fs * 2)" and "unat cluster < 2 ^ 28"
  shows "fat_next_cluster fat16fs_opvector fs cluster w = Inr (Some (ucast (mem16 (volume w) (fat_base fs + 2 * cluster)))) \<and>
    fat_next_cluster fat32fs_opvector fs cluster w = Inr (Some (word_at (volume w) (fat_base fs + 4 * cluster))) \<and>
    fat_next_cluster fat12fs_opvector fs cluster w = Inr (Some
      (let v = ucast (mem16 (volume w) (fat_base fs + of_nat (3 * unat cluster div 2)))
       in if odd (unat cluster) then drop_bit 4 v else v AND 0xFFF))"
  using assms fat_next_cluster16_table [of fs w cluster] fat_next_cluster32_table [of fs w cluster]
    fat_next_cluster12_table [of fs w cluster] by (simp add: dvd_trans [of 2 4])

theorem fat_next_cluster_reads_table_witness:
  "fat_next_cluster fat12fs_opvector example_fs 341 example_fat = Inr (Some 0x00F) \<and>
   fat_next_cluster fat16fs_opvector example_fs 3 example_fat = Inr (Some 0x0706)"
proof -
  have "(let v = ucast (mem16 (volume example_fat) (fat_base example_fs + of_nat (3 * unat (341 :: u32) div 2))) :: u32
       in if odd (unat (341 :: u32)) then drop_bit 4 v else v AND 0xFFF) = 0x00F" by code_simp
  moreover have "(ucast (mem16 (volume example_fat) (fat_base example_fs + 2 * 3)) :: u32) = 0x0706" by code_simp
  moreover have "bytes_per_sector example_fs = 512" "buffer_ok example_fat n" for n by (simp_all add: example_fs_def example_fat_def)
  ultimately show ?thesis
    using fat_next_cluster_reads_table [of example_fs example_fat 341] fat_next_cluster_reads_table [of example_fs example_fat 3] by simp
qed

text \<open>
  Opening and closing a file keeps the descriptor table. If \<open>vfs_open\<close> on the FAT file system
  returns a descriptor, it is the lowest free one and is bound to the caller's node; \<open>vfs_close\<close> then
  succeeds and leaves the table as it was. If a component of the path is not found, however,
  \<open>vfs_open\<close> fails and the descriptor it had reserved stays reserved.
\<close>

theorem fat_open_close_descriptors:
  assumes "file \<noteq> FD_ALLOCATED"
  shows "(vfs_open fat_ops path file s = Some (Inr (fd, s1)) \<and> 0 \<le> fd \<longrightarrow>
      desc s (nat fd) = NULL \<and> (\<forall>k < nat fd. desc s k \<noteq> NULL) \<and> fp_get fd s1 = Inr file \<and>
      (\<exists>s2. vfs_close fat_ops fd s1 = Inr (0, s2) \<and> desc s2 = desc s)) \<and>
    (file \<noteq> NULL \<and> fd_alloc 0 s = (fd, s0) \<and> 0 \<le> fd \<and> open_dir fat_ops path s0 = Some (Inr (- 1, dir, w)) \<longrightarrow>
      (\<exists>s2. vfs_open fat_ops path file s = Some (Inr (- 1, s2)) \<and> desc s2 = (desc s)(nat fd := FD_ALLOCATED)))"
proof (intro conjI impI)
  assume a: "vfs_open fat_ops path file s = Some (Inr (fd, s1)) \<and> 0 \<le> fd"
  then have r: "file \<noteq> NULL" "fd < FD_MAX_NUM" "desc s (nat fd) = NULL" "\<forall>k < nat fd. desc s k \<noteq> NULL" "desc s1 = (desc s)(nat fd := file)"
    using fat_files.open_result [of path "file" s fd s1] by blast+
  then obtain s2 where "fp_get fd s1 = Inr file" "vfs_close fat_ops fd s1 = Inr (0, s2)" "desc s2 = (desc s1)(nat fd := NULL)"
    using fat_files.close_opened [of fd s1 "file"] a assms by auto
  moreover have "(desc s1)(nat fd := NULL) = desc s" unfolding r(5) using r(3) by (auto simp: fun_eq_iff)
  ultimately show "desc s (nat fd) = NULL" "\<forall>k < nat fd. desc s k \<noteq> NULL" "fp_get fd s1 = Inr file"
    "\<exists>s2. vfs_close fat_ops fd s1 = Inr (0, s2) \<and> desc s2 = desc s" using r by auto
next
  assume "file \<noteq> NULL \<and> fd_alloc 0 s = (fd, s0) \<and> 0 \<le> fd \<and> open_dir fat_ops path s0 = Some (Inr (- 1, dir, w))"
  then show "\<exists>s2. vfs_open fat_ops path file s = Some (Inr (- 1, s2)) \<and> desc s2 = (desc s)(nat fd := FD_ALLOCATED)"
    using fat_files.open_failed_lookup [of "file" s fd s0 path "- 1" dir w] by simp
qed

definition example_vfs :: "(fat_vops, ptr, fat_world) vfs" where
  "example_vfs = \<lparr>fs_root = [fat_fs], vfsroot = (fatfs_dir_vops, 0x8000), desc = (\<lambda>_. NULL), node_at = (\<lambda>_. (fatfs_vops, NULL)),
     cur_path = [slash], fs_world = example_fat\<rparr>"

theorem fat_open_close_descriptors_witness:
  "\<exists>s1 s2. vfs_open fat_ops [slash] 0x9000 example_vfs = Some (Inr (0, s1)) \<and> fp_get 0 s1 = Inr 0x9000 \<and>
     vfs_close fat_ops 0 s1 = Inr (0, s2) \<and> desc s2 = (\<lambda>_. NULL)"
proof -
  have e: "desc example_vfs = (\<lambda>_. NULL)" "vfsroot example_vfs = (fatfs_dir_vops, 0x8000)" by (simp_all add: example_vfs_def)
  have a: "fd_alloc 0 example_vfs = (0, example_vfs\<lparr>desc := (desc example_vfs)(0 := FD_ALLOCATED)\<rparr>)"
    by (simp add: fd_alloc_def e upt_conv_Cons del: upt_Suc)
  then obtain s1 where o: "vfs_open fat_ops [slash] 0x9000 example_vfs = Some (Inr (0, s1))"
    by (auto simp: vfs_open_def open_dir_def open_node_def e fatfs_open_def fat_files.fd_assign_desc Let_def)
  then show ?thesis
    using fat_open_close_descriptors [of "0x9000" "[slash]" example_vfs 0 s1] by (auto simp: e)
qed

text \<open>
  A root directory of more than one sector is listed wrongly: when the first sector is used up
  (the position is one sector and the sector counter still zero), the next read does not advance
  to the second sector. It gives the same result as a read at the start of the directory: the first
  entry is listed twice, and the first entry of the second sector is never listed.
\<close>

theorem root_dir_read_repeats_first_entry:
  assumes "de_offset d = 0" and "lseek d = bytes_per_sector (de_fs d)" and "lseek d div 32 < root_entries (de_fs d)"
  shows "fatfs_root_dir_read d buf w =
    bind_res (fatfs_root_dir_read (d\<lparr>lseek := 0\<rparr>) buf w) (\<lambda>(r, b, n, d1). Inr (r, b, n, d1\<lparr>lseek := lseek d1 + lseek d\<rparr>))"
proof -
  have d: "d\<lparr>lseek := lseek d\<rparr> = d" by simp
  have "0 < root_entries (de_fs d)" using assms(3) by (metis word_gt_0 not_less_zero word_less_nat_alt unsigned_0)
  then show ?thesis
    using assms by (auto simp: fatfs_root_dir_read_def Let_def not_le leD add.commute d split: option.splits)
qed


definition example_root :: fatfs_dirent where
  "example_root = example_file\<lparr>de_fs := example_fs\<lparr>root_entries := 32\<rparr>, lseek := 512, de_flag := 0xFF00\<rparr>"

theorem root_dir_read_repeats_first_entry_witness:
  "fatfs_root_dir_read example_root [] example_fat = bind_res (fatfs_root_dir_read (example_root\<lparr>lseek := 0\<rparr>) [] example_fat)
     (\<lambda>(r, b, n, d1). Inr (r, b, n, d1\<lparr>lseek := lseek d1 + lseek example_root\<rparr>))"
  by (rule root_dir_read_repeats_first_entry) (simp_all add: example_root_def example_file_def example_fs_def)

end
