(* ===== verification/Kobject.thy ===== *)
theory Kobject
  imports Workqueue Printk
begin

section \<open>Kernel objects and buses: \<open>drivers/base/kobject.c\<close>, \<open>drivers/base/bus.c\<close>\<close>

text \<open>
  An object is its address, 20 bytes long with its list node at offset 4. A set holds the head of
  its list at offset 0, its lock at 8 and its own object at 20; a device holds its object at offset
  4 and the node for its driver's list at 28, a driver its object at 8 and the list of its devices
  at 28, a bus its object at 4 and its lock at 32. \<open>free_mem\<close> is what the coming calls of \<open>kmalloc\<close>
  return, \<open>NULL\<close> for a failure. The drivers' functions are an argument: \<open>probe\<close> and \<open>remove\<close> by
  driver and device, \<open>None\<close> if the driver has none. As in \<open>down\<close>, \<open>others\<close> is the code of the other
  tasks, and \<open>None\<close> stands for a call that never returns.
\<close>

record kobjs = works +
  kobj_name :: "ptr \<Rightarrow> u8 list option"
  kobj_parent :: "ptr \<Rightarrow> ptr"
  kobj_kset :: "ptr \<Rightarrow> ptr"
  free_mem :: "ptr list"
  dev_bus :: "ptr \<Rightarrow> ptr"
  drv_bus :: "ptr \<Rightarrow> ptr"
  bus_devices_kset :: "ptr \<Rightarrow> ptr"
  bus_drivers_kset :: "ptr \<Rightarrow> ptr"
  bus_kset :: ptr

definition kobj_entry :: "ptr \<Rightarrow> ptr" where "kobj_entry kobj = kobj + 4"
definition kset_list :: "ptr \<Rightarrow> ptr" where "kset_list k = k"
definition kset_lock :: "ptr \<Rightarrow> ptr" where "kset_lock k = k + 8"
definition kset_kobj :: "ptr \<Rightarrow> ptr" where "kset_kobj k = k + 20"
definition dev_kobj :: "ptr \<Rightarrow> ptr" where "dev_kobj dev = dev + 4"
definition driver_entry :: "ptr \<Rightarrow> ptr" where "driver_entry dev = dev + 28"
definition drv_kobj :: "ptr \<Rightarrow> ptr" where "drv_kobj drv = drv + 8"
definition list_devices :: "ptr \<Rightarrow> ptr" where "list_devices drv = drv + 28"
definition bus_kobj :: "ptr \<Rightarrow> ptr" where "bus_kobj bus = bus + 4"
definition bus_lock :: "ptr \<Rightarrow> ptr" where "bus_lock bus = bus + 32"

definition kobj_to_dev :: "ptr \<Rightarrow> ptr" where "kobj_to_dev kobj = kobj - 4"
definition kobj_to_drv :: "ptr \<Rightarrow> ptr" where "kobj_to_drv kobj = kobj - 8"

definition alloc_mem :: "'a kobjs_scheme \<Rightarrow> ptr \<times> 'a kobjs_scheme" where
  "alloc_mem s = (case free_mem s of [] \<Rightarrow> (NULL, s) | p # ps \<Rightarrow> (p, s\<lparr>free_mem := ps\<rparr>))"

subsection \<open>Objects\<close>

definition kobject_init :: "ptr \<Rightarrow> 'a kobjs_scheme \<Rightarrow> 'a kobjs_scheme" where
  "kobject_init kobj s = (if kobj = NULL then s else s\<lparr>links := INIT_LIST_HEAD (kobj_entry kobj) (links s)\<rparr>)"

definition kobj_kset_join :: "'a kobjs_scheme switch \<Rightarrow> ptr \<Rightarrow> ptr \<Rightarrow> 'a kobjs_scheme \<Rightarrow> 'a kobjs_scheme option" where
  "kobj_kset_join others w kobj s =
     (let k = kobj_kset s kobj in
      if k = NULL then Some s
      else map_option (\<lambda>s1. up (kset_lock k) (s1\<lparr>links := list_add_tail (kobj_entry kobj) (kset_list k) (links s1)\<rparr>))
             (down others w (kset_lock k) s))"

definition kobj_kset_leave :: "'a kobjs_scheme switch \<Rightarrow> ptr \<Rightarrow> ptr \<Rightarrow> 'a kobjs_scheme \<Rightarrow> 'a kobjs_scheme option" where
  "kobj_kset_leave others w kobj s =
     (let k = kobj_kset s kobj in
      if k = NULL then Some s
      else map_option (\<lambda>s1. up (kset_lock k) (s1\<lparr>links := list_del_init (kobj_entry kobj) (links s1)\<rparr>))
             (down others w (kset_lock k) s))"

definition kobject_add :: "'a kobjs_scheme switch \<Rightarrow> ptr \<Rightarrow> ptr \<Rightarrow> 'a kobjs_scheme \<Rightarrow> (int \<times> 'a kobjs_scheme) option" where
  "kobject_add others w kobj s =
     (if kobj = NULL then Some (- 1, s)
      else let parent = kobj_parent s kobj in
        if kobj_kset s kobj \<noteq> NULL then
          let parent1 = (if parent = NULL then kset_kobj (kobj_kset s kobj) else parent)
          in map_option (\<lambda>s1. (0, s1\<lparr>kobj_parent := (kobj_parent s1)(kobj := parent1)\<rparr>)) (kobj_kset_join others w kobj s)
        else Some (0, s))"

definition kobject_del :: "'a kobjs_scheme switch \<Rightarrow> ptr \<Rightarrow> ptr \<Rightarrow> 'a kobjs_scheme \<Rightarrow> 'a kobjs_scheme option" where
  "kobject_del others w kobj s =
     (if kobj = NULL then Some s
      else map_option (\<lambda>s1. s1\<lparr>kobj_parent := (kobj_parent s1)(kobj := NULL)\<rparr>) (kobj_kset_leave others w kobj s))"

definition kobject_create :: "'a kobjs_scheme \<Rightarrow> ptr \<times> 'a kobjs_scheme" where
  "kobject_create s =
     (case alloc_mem s of (kobj, s1) \<Rightarrow>
        if kobj = NULL then (NULL, s1)
        else (kobj, kobject_init kobj (s1\<lparr>kobj_name := (kobj_name s1)(kobj := None),
                     kobj_parent := (kobj_parent s1)(kobj := NULL), kobj_kset := (kobj_kset s1)(kobj := NULL)\<rparr>)))"

definition kobject_create_and_add ::
  "'a kobjs_scheme switch \<Rightarrow> ptr \<Rightarrow> u8 list \<Rightarrow> ptr \<Rightarrow> 'a kobjs_scheme \<Rightarrow> (ptr \<times> 'a kobjs_scheme) option" where
  "kobject_create_and_add others w nm parent s =
     (case kobject_create s of (kobj, s1) \<Rightarrow>
        if kobj = NULL then Some (NULL, s1)
        else map_option (\<lambda>(r, s2). (if r \<noteq> 0 then NULL else kobj, s2))
          (kobject_add others w kobj (s1\<lparr>kobj_name := (kobj_name s1)(kobj := Some nm),
             kobj_parent := (kobj_parent s1)(kobj := parent)\<rparr>)))"

subsection \<open>Sets\<close>

definition kset_init :: "ptr \<Rightarrow> 'a kobjs_scheme \<Rightarrow> 'a kobjs_scheme" where
  "kset_init k s =
     (let s1 = kobject_init (kset_kobj k) s;
          s2 = s1\<lparr>links := INIT_LIST_HEAD (kset_list k) (links s1)\<rparr>
      in sema_init (kset_lock k) 1 s2)"

definition kset_register :: "'a kobjs_scheme switch \<Rightarrow> ptr \<Rightarrow> ptr \<Rightarrow> 'a kobjs_scheme \<Rightarrow> (int \<times> 'a kobjs_scheme) option" where
  "kset_register others w k s =
     (if k = NULL then Some (- 1, s) else kobject_add others w (kset_kobj k) (kset_init k s))"

definition kset_unregister :: "'a kobjs_scheme switch \<Rightarrow> ptr \<Rightarrow> ptr \<Rightarrow> 'a kobjs_scheme \<Rightarrow> 'a kobjs_scheme option" where
  "kset_unregister others w k s = (if k = NULL then Some s else kobject_del others w (kset_kobj k) s)"

partial_function (option) find_obj_loop :: "ptr \<Rightarrow> u8 list \<Rightarrow> ptr \<Rightarrow> 'a kobjs_scheme \<Rightarrow> ptr option" where
  "find_obj_loop head nm node s =
     (if node = head then Some NULL
      else if kobj_name s (node - 4) = Some nm then Some (node - 4)
      else find_obj_loop head nm (nxt (links s) node) s)"

definition kset_find_obj ::
  "'a kobjs_scheme switch \<Rightarrow> ptr \<Rightarrow> ptr \<Rightarrow> u8 list \<Rightarrow> 'a kobjs_scheme \<Rightarrow> (ptr \<times> 'a kobjs_scheme) option" where
  "kset_find_obj others w k nm s =
     Option.bind (down others w (kset_lock k) s) (\<lambda>s1.
       map_option (\<lambda>p. (p, up (kset_lock k) s1)) (find_obj_loop (kset_list k) nm (nxt (links s1) (kset_list k)) s1))"

definition kset_release :: "ptr \<Rightarrow> 'a kobjs_scheme \<Rightarrow> 'a kobjs_scheme" where
  "kset_release kobj s = kfree_block (kobj - 20) s"

definition kset_create :: "u8 list \<Rightarrow> ptr \<Rightarrow> 'a kobjs_scheme \<Rightarrow> ptr \<times> 'a kobjs_scheme" where
  "kset_create nm parent_kobj s =
     (case alloc_mem s of (k, s1) \<Rightarrow>
        if k = NULL then (NULL, s1)
        else (k, s1\<lparr>kobj_name := (kobj_name s1)(kset_kobj k := Some nm),
                    kobj_parent := (kobj_parent s1)(kset_kobj k := parent_kobj),
                    kobj_kset := (kobj_kset s1)(kset_kobj k := NULL)\<rparr>))"

definition kset_create_and_add ::
  "'a kobjs_scheme switch \<Rightarrow> ptr \<Rightarrow> u8 list \<Rightarrow> ptr \<Rightarrow> 'a kobjs_scheme \<Rightarrow> (ptr \<times> 'a kobjs_scheme) option" where
  "kset_create_and_add others w nm parent_kobj s =
     (case kset_create nm parent_kobj s of (k, s1) \<Rightarrow>
        if k = NULL then Some (NULL, s1)
        else map_option (\<lambda>(r, s2). if r \<noteq> 0 then (NULL, kfree_block k s2) else (k, s2)) (kset_register others w k s1))"

subsection \<open>Buses\<close>

definition buses_init :: "'a kobjs_scheme switch \<Rightarrow> ptr \<Rightarrow> 'a kobjs_scheme \<Rightarrow> (int \<times> 'a kobjs_scheme) option" where
  "buses_init others w s =
     map_option (\<lambda>(k, s1). (if k = NULL then - 1 else 0, s1\<lparr>bus_kset := k\<rparr>)) (kset_create_and_add others w (txt_of ''bus'') NULL s)"

text \<open>The statements after the labels \<open>bus_drivers_fail\<close> and \<open>bus_devices_fail\<close>.\<close>

definition bus_devices_fail :: "'a kobjs_scheme switch \<Rightarrow> ptr \<Rightarrow> ptr \<Rightarrow> int \<Rightarrow> 'a kobjs_scheme \<Rightarrow> (int \<times> 'a kobjs_scheme) option" where
  "bus_devices_fail others w bus retval s = map_option (\<lambda>s1. (retval, s1)) (kobject_del others w (bus_kobj bus) s)"

definition bus_drivers_fail :: "'a kobjs_scheme switch \<Rightarrow> ptr \<Rightarrow> ptr \<Rightarrow> int \<Rightarrow> 'a kobjs_scheme \<Rightarrow> (int \<times> 'a kobjs_scheme) option" where
  "bus_drivers_fail others w bus retval s =
     Option.bind (kset_unregister others w (bus_devices_kset s bus) s) (\<lambda>s1.
       bus_devices_fail others w bus retval (kset_release (kset_kobj (bus_devices_kset s1 bus)) s1))"

definition bus_register :: "'a kobjs_scheme switch \<Rightarrow> ptr \<Rightarrow> ptr \<Rightarrow> 'a kobjs_scheme \<Rightarrow> (int \<times> 'a kobjs_scheme) option" where
  "bus_register others w bus s =
     (let s0 = s\<lparr>kobj_kset := (kobj_kset s)(bus_kobj bus := bus_kset s)\<rparr> in
      Option.bind (kobject_add others w (bus_kobj bus) s0) (\<lambda>(retval, s1).
      if retval \<noteq> 0 then Some (retval, s1)
      else Option.bind (kset_create_and_add others w (txt_of ''devices'') (bus_kobj bus) s1) (\<lambda>(k, s2).
        let s3 = s2\<lparr>bus_devices_kset := (bus_devices_kset s2)(bus := k)\<rparr> in
        if k = NULL then bus_devices_fail others w bus (- 1) s3
        else Option.bind (kset_create_and_add others w (txt_of ''drivers'') (bus_kobj bus) s3) (\<lambda>(k1, s4).
          let s5 = s4\<lparr>bus_drivers_kset := (bus_drivers_kset s4)(bus := k1)\<rparr> in
          if k1 = NULL then bus_drivers_fail others w bus (- 1) s5
          else bus_drivers_fail others w bus retval (sema_init (bus_lock bus) 1 s5)))))"

definition bus_unregister :: "'a kobjs_scheme switch \<Rightarrow> ptr \<Rightarrow> ptr \<Rightarrow> 'a kobjs_scheme \<Rightarrow> 'a kobjs_scheme option" where
  "bus_unregister others w bus s =
     Option.bind (kset_unregister others w (bus_drivers_kset s bus) s) (\<lambda>s1.
     let s2 = kset_release (kset_kobj (bus_drivers_kset s1 bus)) s1 in
     Option.bind (kset_unregister others w (bus_devices_kset s2 bus) s2) (\<lambda>s3.
     kobject_del others w (bus_kobj bus) (kset_release (kset_kobj (bus_drivers_kset s3 bus)) s3)))"

text \<open>The loop over the objects of a set; \<open>fn\<close> may change the state, also the list.\<close>

partial_function (option) for_each_kobj ::
  "(ptr \<Rightarrow> 'a kobjs_scheme \<Rightarrow> int \<times> 'a kobjs_scheme) \<Rightarrow> ptr \<Rightarrow> ptr \<Rightarrow> 'a kobjs_scheme \<Rightarrow> 'a kobjs_scheme option" where
  "for_each_kobj fn head node s =
     (if node = head then Some s
      else let s1 = snd (fn (node - 4) s) in for_each_kobj fn head (nxt (links s1) node) s1)"

definition bus_for_each_dev ::
  "'a kobjs_scheme switch \<Rightarrow> ptr \<Rightarrow> (ptr \<Rightarrow> 'a kobjs_scheme \<Rightarrow> int \<times> 'a kobjs_scheme) \<Rightarrow> ptr \<Rightarrow> 'a kobjs_scheme \<Rightarrow> (int \<times> 'a kobjs_scheme) option" where
  "bus_for_each_dev others w fn bus s =
     (let dev_kset = bus_devices_kset s bus in
      if bus = NULL then Some (- 1, s)
      else Option.bind (down others w (bus_lock bus) s) (\<lambda>s1.
        map_option (\<lambda>s2. (0, up (bus_lock bus) s2))
          (for_each_kobj (\<lambda>kobj. fn (kobj_to_dev kobj)) (kset_list dev_kset) (nxt (links s1) (kset_list dev_kset)) s1)))"

definition bus_for_each_drv ::
  "'a kobjs_scheme switch \<Rightarrow> ptr \<Rightarrow> (ptr \<Rightarrow> 'a kobjs_scheme \<Rightarrow> int \<times> 'a kobjs_scheme) \<Rightarrow> ptr \<Rightarrow> 'a kobjs_scheme \<Rightarrow> (int \<times> 'a kobjs_scheme) option" where
  "bus_for_each_drv others w fn bus s =
     (let drv_kset = bus_drivers_kset s bus in
      if bus = NULL then Some (- 1, s)
      else Option.bind (down others w (bus_lock bus) s) (\<lambda>s1.
        map_option (\<lambda>s2. (0, up (bus_lock bus) s2))
          (for_each_kobj (\<lambda>kobj. fn (kobj_to_drv kobj)) (kset_list drv_kset) (nxt (links s1) (kset_list drv_kset)) s1)))"

text \<open>\<open>bus_find_device\<close> of a set without devices returns a variable that was never set: \<open>None\<close> inside.\<close>

partial_function (option) find_device_loop ::
  "(ptr \<Rightarrow> 'a kobjs_scheme \<Rightarrow> bool res) \<Rightarrow> ptr \<Rightarrow> ptr option \<Rightarrow> ptr \<Rightarrow> 'a kobjs_scheme \<Rightarrow> ptr option res option" where
  "find_device_loop match_fn head dev node s =
     (if node = head then Some (Inr dev)
      else case match_fn (kobj_to_dev (node - 4)) s of
          Inl e \<Rightarrow> Some (Inl e)
        | Inr found \<Rightarrow> if found then Some (Inr (Some (kobj_to_dev (node - 4))))
            else find_device_loop match_fn head (Some NULL) (nxt (links s) node) s)"

definition bus_find_device ::
  "'a kobjs_scheme switch \<Rightarrow> ptr \<Rightarrow> (ptr \<Rightarrow> 'a kobjs_scheme \<Rightarrow> bool res) \<Rightarrow> ptr \<Rightarrow> 'a kobjs_scheme \<Rightarrow>
    (ptr option \<times> 'a kobjs_scheme) res option" where
  "bus_find_device others w match_fn bus s =
     (let dev_kset = bus_devices_kset s bus in
      if bus = NULL then Some (Inr (Some NULL, s))
      else Option.bind (down others w (bus_lock bus) s) (\<lambda>s1.
        map_option (\<lambda>r. bind_res r (\<lambda>dev. Inr (dev, up (bus_lock bus) s1)))
          (find_device_loop match_fn (kset_list dev_kset) None (nxt (links s1) (kset_list dev_kset)) s1)))"

text \<open>Two strings are equal up to a newline at the end of one of them.\<close>

fun streq :: "u8 list \<Rightarrow> u8 list \<Rightarrow> bool" where
  "streq (a # s1) (b # s2) =
     (if a = b then streq s1 s2 else False)"
| "streq [] [] = True"
| "streq [] (b # s2) = (b = 10 \<and> s2 = [])"
| "streq (a # s1) [] = (a = 10 \<and> s1 = [])"

text \<open>\<open>streq\<close> reads the name of a device in any case: a device without a name is a fault.\<close>

definition match_name :: "u8 list \<Rightarrow> ptr \<Rightarrow> 'a kobjs_scheme \<Rightarrow> bool res" where
  "match_name nm dev s = (case kobj_name s (dev_kobj dev) of None \<Rightarrow> Inl Null_Deref | Some n \<Rightarrow> Inr (streq nm n))"

definition bus_find_device_by_name ::
  "'a kobjs_scheme switch \<Rightarrow> ptr \<Rightarrow> u8 list \<Rightarrow> ptr \<Rightarrow> 'a kobjs_scheme \<Rightarrow> (ptr option \<times> 'a kobjs_scheme) res option" where
  "bus_find_device_by_name others w nm bus s = bus_find_device others w (match_name nm) bus s"

subsection \<open>Devices and drivers\<close>

type_synonym 's driver_fn = "ptr \<Rightarrow> (ptr \<Rightarrow> 's \<Rightarrow> int \<times> 's) option"

definition bus_add_device :: "'a kobjs_scheme switch \<Rightarrow> ptr \<Rightarrow> ptr \<Rightarrow> 'a kobjs_scheme \<Rightarrow> (int \<times> 'a kobjs_scheme) option" where
  "bus_add_device others w dev s =
     (let bus = dev_bus s dev in
      if bus \<noteq> NULL then
        map_option (\<lambda>(r, s1). (0, s1))
          (kobject_add others w (dev_kobj dev) (s\<lparr>kobj_kset := (kobj_kset s)(dev_kobj dev := bus_devices_kset s bus)\<rparr>))
      else Some (- 1, s))"

definition bind_device :: "'a kobjs_scheme driver_fn \<Rightarrow> ptr \<Rightarrow> ptr \<Rightarrow> 'a kobjs_scheme \<Rightarrow> int \<times> 'a kobjs_scheme" where
  "bind_device probe drv dev s =
     (case probe drv of
        None \<Rightarrow> (0, s)
      | Some f \<Rightarrow> case f dev s of (r, s1) \<Rightarrow>
          (r, if r = 0 then s1\<lparr>links := list_add_tail (driver_entry dev) (list_devices drv) (links s1)\<rparr> else s1))"

definition add_dev :: "'a kobjs_scheme driver_fn \<Rightarrow> ptr \<Rightarrow> ptr \<Rightarrow> 'a kobjs_scheme \<Rightarrow> int \<times> 'a kobjs_scheme" where
  "add_dev probe dev drv s = bind_device probe drv dev s"

definition add_drv :: "'a kobjs_scheme driver_fn \<Rightarrow> ptr \<Rightarrow> ptr \<Rightarrow> 'a kobjs_scheme \<Rightarrow> int \<times> 'a kobjs_scheme" where
  "add_drv probe drv dev s = bind_device probe drv dev s"

definition remove_dev :: "'a kobjs_scheme driver_fn \<Rightarrow> ptr \<Rightarrow> ptr \<Rightarrow> 'a kobjs_scheme \<Rightarrow> int \<times> 'a kobjs_scheme" where
  "remove_dev remove dev drv s =
     (case remove drv of
        None \<Rightarrow> (0, s)
      | Some f \<Rightarrow> case f dev s of (r, s1) \<Rightarrow>
          (r, if r = 0 then s1\<lparr>links := list_del (driver_entry dev) (links s1)\<rparr> else s1))"

definition bus_probe_device ::
  "'a kobjs_scheme switch \<Rightarrow> ptr \<Rightarrow> 'a kobjs_scheme driver_fn \<Rightarrow> ptr \<Rightarrow> 'a kobjs_scheme \<Rightarrow> 'a kobjs_scheme option" where
  "bus_probe_device others w probe dev s =
     (let bus = dev_bus s dev in
      if bus = NULL then Some s
      else Option.bind (down others w (bus_lock bus) s) (\<lambda>s1.
        map_option (\<lambda>(r, s2). up (bus_lock bus) s2) (bus_for_each_drv others w (add_dev probe dev) bus s1)))"

definition bus_remove_device ::
  "'a kobjs_scheme switch \<Rightarrow> ptr \<Rightarrow> 'a kobjs_scheme driver_fn \<Rightarrow> ptr \<Rightarrow> 'a kobjs_scheme \<Rightarrow> 'a kobjs_scheme option" where
  "bus_remove_device others w remove dev s =
     (let bus = dev_bus s dev in
      if bus = NULL then Some s
      else Option.bind (down others w (bus_lock bus) s) (\<lambda>s1.
        Option.bind (bus_for_each_drv others w (remove_dev remove dev) bus s1) (\<lambda>(r, s2).
          map_option (up (bus_lock bus)) (kobject_del others w (dev_kobj dev) s2))))"

definition bus_add_driver ::
  "'a kobjs_scheme switch \<Rightarrow> ptr \<Rightarrow> 'a kobjs_scheme driver_fn \<Rightarrow> ptr \<Rightarrow> 'a kobjs_scheme \<Rightarrow> (int \<times> 'a kobjs_scheme) option" where
  "bus_add_driver others w probe drv s =
     (let bus = drv_bus s drv in
      if bus = NULL then Some (- 1, s)
      else Option.bind (down others w (bus_lock bus) s) (\<lambda>s1.
        let s2 = s1\<lparr>kobj_kset := (kobj_kset s1)(drv_kobj drv := bus_drivers_kset s1 bus)\<rparr> in
        Option.bind (kobject_add others w (drv_kobj drv) s2) (\<lambda>(r, s3).
          map_option (\<lambda>(r1, s4). (r1, up (bus_lock bus) s4)) (bus_for_each_dev others w (add_drv probe drv) bus s3))))"

text \<open>The loop reads the next entry of a device after it has been unlinked and poisoned.\<close>

partial_function (option) remove_driver_loop ::
  "(ptr \<Rightarrow> 'a kobjs_scheme \<Rightarrow> int \<times> 'a kobjs_scheme) option \<Rightarrow> ptr \<Rightarrow> ptr \<Rightarrow> 'a kobjs_scheme \<Rightarrow> 'a kobjs_scheme option" where
  "remove_driver_loop remove_fn head node s =
     (if node = head then Some s
      else
        let s1 = (case remove_fn of
                    None \<Rightarrow> s
                  | Some f \<Rightarrow> (case f (node - 28) s of (r, t) \<Rightarrow>
                      if r = 0 then t\<lparr>links := list_del node (links t)\<rparr> else t))
        in remove_driver_loop remove_fn head (nxt (links s1) node) s1)"

definition bus_remove_driver ::
  "'a kobjs_scheme switch \<Rightarrow> ptr \<Rightarrow> 'a kobjs_scheme driver_fn \<Rightarrow> ptr \<Rightarrow> 'a kobjs_scheme \<Rightarrow> 'a kobjs_scheme option" where
  "bus_remove_driver others w remove drv s =
     (let bus = drv_bus s drv in
      Option.bind (down others w (bus_lock bus) s) (\<lambda>s1.
      Option.bind (kobject_del others w (drv_kobj drv) s1) (\<lambda>s2.
        map_option (up (bus_lock bus))
          (remove_driver_loop (remove drv) (list_devices drv) (nxt (links s2) (list_devices drv)) s2))))"

subsection \<open>Sets as sequences of objects\<close>

text \<open>
  The abstract set: its objects in the order in which they joined. Its lock is free, and the node
  of the lock's waiters is not one of the list.
\<close>

definition kset_rep :: "'a kobjs_scheme \<Rightarrow> ptr \<Rightarrow> ptr list \<Rightarrow> bool" where
  "kset_rep s k objs \<longleftrightarrow> ints_balanced s \<and> 0 < sem_count s (kset_lock k) \<and>
     list_empty (wait_list (kset_lock k)) (links s) \<and>
     dlist (links s) (kset_list k) (map kobj_entry objs) \<and>
     wait_list (kset_lock k) \<notin> set (kset_list k # map kobj_entry objs)"

lemma kobjs_balanced_upd [simp]:
  "ints_balanced (s\<lparr>kobj_parent := f\<rparr>) = ints_balanced s" "ints_balanced (s\<lparr>kobj_kset := f\<rparr>) = ints_balanced s"
  "ints_balanced (s\<lparr>kobj_name := g\<rparr>) = ints_balanced s" "ints_balanced (s\<lparr>free_mem := ps\<rparr>) = ints_balanced s"
  "ints_balanced (s\<lparr>bus_devices_kset := f\<rparr>) = ints_balanced s"
  "ints_balanced (s\<lparr>bus_drivers_kset := f\<rparr>) = ints_balanced s"
  by (simp_all add: ints_balanced_def)

lemma kset_rep_cong:
  "links t = links s \<Longrightarrow> sem_count t = sem_count s \<Longrightarrow> ints_balanced t = ints_balanced s \<Longrightarrow>
   kset_rep t k objs = kset_rep s k objs"
  by (simp add: kset_rep_def)

lemma kset_locked:
  assumes "kset_rep s k objs" and "list_empty (wait_list (kset_lock k)) (f (links s))"
  shows "map_option (\<lambda>s1. up (kset_lock k) (s1\<lparr>links := f (links s1)\<rparr>)) (down others w (kset_lock k) s) =
    Some (s\<lparr>links := f (links s)\<rparr>)"
  using assms by (intro locked_links) (simp_all add: kset_rep_def)

lemma kset_rep_links:
  assumes "kset_rep s k objs" and "unchanged_outside S (links s) h" and "wait_list (kset_lock k) \<notin> S"
    and "dlist h (kset_list k) (map kobj_entry objs')"
    and "wait_list (kset_lock k) \<notin> set (kset_list k # map kobj_entry objs')"
  shows "kset_rep (s\<lparr>links := h\<rparr>) k objs'" and "list_empty (wait_list (kset_lock k)) h"
  using assms by (auto simp: kset_rep_def unchanged_outside_def list_empty_def)

text \<open>An object that may join the set \<open>k\<close>.\<close>

definition joinable :: "'a kobjs_scheme \<Rightarrow> ptr \<Rightarrow> ptr list \<Rightarrow> ptr \<Rightarrow> bool" where
  "joinable s k objs kobj \<longleftrightarrow> kobj \<noteq> NULL \<and> k \<noteq> NULL \<and> kobj_kset s kobj = k \<and>
     kobj_entry kobj \<notin> set (kset_list k # wait_list (kset_lock k) # map kobj_entry objs)"

lemma kobj_kset_join_rep:
  assumes "kset_rep s k objs" and "joinable s k objs kobj"
  defines "h \<equiv> list_add_tail (kobj_entry kobj) (kset_list k) (links s)"
  shows "kobj_kset_join others w kobj s = Some (s\<lparr>links := h\<rparr>)" and "kset_rep (s\<lparr>links := h\<rparr>) k (objs @ [kobj])"
proof -
  have d: "dlist (links s) (kset_list k) (map kobj_entry objs)"
    and wl: "wait_list (kset_lock k) \<notin> set (kset_list k # map kobj_entry objs)"
    using assms(1) by (simp_all add: kset_rep_def)
  have new: "kobj_entry kobj \<notin> set (kset_list k # map kobj_entry objs)" "wait_list (kset_lock k) \<noteq> kobj_entry kobj"
    using assms(2) by (auto simp: joinable_def)
  have "dlist h (kset_list k) (map kobj_entry (objs @ [kobj]))"
    using list_add_tail_dlist [OF d new(1)] by (simp add: h_def)
  note r = kset_rep_links [OF assms(1) list_add_tail_unchanged [OF d, of "kobj_entry kobj"], folded h_def, OF _ this]
  have r2: "kset_rep (s\<lparr>links := h\<rparr>) k (objs @ [kobj])" and e: "list_empty (wait_list (kset_lock k)) h"
    using r wl new by auto
  show "kset_rep (s\<lparr>links := h\<rparr>) k (objs @ [kobj])" by (rule r2)
  show "kobj_kset_join others w kobj s = Some (s\<lparr>links := h\<rparr>)"
    using assms(2) kset_locked [OF assms(1), of "list_add_tail (kobj_entry kobj) (kset_list k)" others w] e
    unfolding kobj_kset_join_def Let_def by (simp add: joinable_def h_def)
qed

lemma kobj_kset_leave_rep:
  assumes "kset_rep s k (xs @ kobj # ys)" and "kobj_kset s kobj = k" and "k \<noteq> NULL"
  defines "h \<equiv> list_del_init (kobj_entry kobj) (links s)"
  shows "kobj_kset_leave others w kobj s = Some (s\<lparr>links := h\<rparr>)" and "kset_rep (s\<lparr>links := h\<rparr>) k (xs @ ys)"
proof -
  have d: "dlist (links s) (kset_list k) (map kobj_entry (xs @ kobj # ys))"
    and wl: "wait_list (kset_lock k) \<notin> set (kset_list k # map kobj_entry (xs @ kobj # ys))"
    using assms(1) by (simp_all add: kset_rep_def)
  have "dlist h (kset_list k) (map kobj_entry (xs @ ys))"
    using list_del_init_dlist(1) [of "links s" "kset_list k" "map kobj_entry xs" "kobj_entry kobj" "map kobj_entry ys"] d
    by (simp add: h_def)
  note r = kset_rep_links [OF assms(1) list_del_init_unchanged [OF d, of "kobj_entry kobj"], folded h_def, OF _ _ this]
  have r2: "kset_rep (s\<lparr>links := h\<rparr>) k (xs @ ys)" and e: "list_empty (wait_list (kset_lock k)) h"
    using r wl by auto
  show "kset_rep (s\<lparr>links := h\<rparr>) k (xs @ ys)" by (rule r2)
  show "kobj_kset_leave others w kobj s = Some (s\<lparr>links := h\<rparr>)"
    using assms(2,3) kset_locked [OF assms(1), of "list_del_init (kobj_entry kobj)" others w] e
    unfolding kobj_kset_leave_def Let_def by (simp add: h_def)
qed

text \<open>The abstract search.\<close>

definition first_named :: "(ptr \<Rightarrow> u8 list option) \<Rightarrow> u8 list \<Rightarrow> ptr list \<Rightarrow> ptr" where
  "first_named names nm objs = (case List.find (\<lambda>p. names p = Some nm) objs of None \<Rightarrow> NULL | Some p \<Rightarrow> p)"

lemma kobj_entry_back: "kobj_entry a - 4 = a"
  by (simp add: kobj_entry_def)

lemma find_obj_loop_linked:
  "linked (links s) (map kobj_entry objs @ [head]) \<Longrightarrow> head \<notin> set (map kobj_entry objs) \<Longrightarrow>
   find_obj_loop head nm (hd (map kobj_entry objs @ [head])) s = Some (first_named (kobj_name s) nm objs)"
proof (induction objs)
  case Nil
  then show ?case by (simp add: find_obj_loop.simps first_named_def)
next
  case (Cons a objs)
  have "nxt (links s) (kobj_entry a) = hd (map kobj_entry objs @ [head])"
    using Cons.prems(1) by (cases objs) simp_all
  moreover have "linked (links s) (map kobj_entry objs @ [head])"
    using Cons.prems(1) by (cases objs) simp_all
  ultimately show ?case
    using Cons kobj_entry_back [of a] by (subst find_obj_loop.simps) (auto simp: first_named_def)
qed

lemma kset_find_obj_rep:
  assumes "kset_rep s k objs"
  shows "kset_find_obj others w k nm s = Some (first_named (kobj_name s) nm objs, s)"
proof -
  let ?s1 = "s\<lparr>sem_count := (sem_count s)(kset_lock k := sem_count s (kset_lock k) - 1)\<rparr>"
  have d: "dlist (links s) (kset_list k) (map kobj_entry objs)"
    and e: "list_empty (wait_list (kset_lock k)) (links s)" and b: "ints_balanced s"
    and c: "0 < sem_count s (kset_lock k)"
    using assms by (simp_all add: kset_rep_def)
  have "linked (links ?s1) (map kobj_entry objs @ [kset_list k])" using dlist_from_first(1) [OF d] by simp
  from find_obj_loop_linked [OF this dlist_from_first(2) [OF d]]
  have "find_obj_loop (kset_list k) nm (nxt (links s) (kset_list k)) ?s1 = Some (first_named (kobj_name s) nm objs)"
    using dlist_next [OF d] by simp
  then show ?thesis
    using down_free [OF b c] up_free [of ?s1 "kset_lock k"] e b by (simp add: kset_find_obj_def)
qed

subsection \<open>A new set\<close>

text \<open>The state after \<open>kset_create_and_add\<close> has made a set at \<open>p\<close>.\<close>

definition kset_made :: "ptr \<Rightarrow> u8 list \<Rightarrow> ptr \<Rightarrow> ptr list \<Rightarrow> 'a kobjs_scheme \<Rightarrow> 'a kobjs_scheme" where
  "kset_made p nm parent ps s =
     s\<lparr>free_mem := ps, kobj_name := (kobj_name s)(kset_kobj p := Some nm),
       kobj_parent := (kobj_parent s)(kset_kobj p := parent), kobj_kset := (kobj_kset s)(kset_kobj p := NULL),
       sem_count := (sem_count s)(kset_lock p := 1),
       links := INIT_LIST_HEAD (wait_list (kset_lock p))
         (INIT_LIST_HEAD (kset_list p) (INIT_LIST_HEAD (kobj_entry (kset_kobj p)) (links s)))\<rparr>"

lemma kset_create_and_add_made:
  assumes "free_mem s = p # ps" and "p \<noteq> NULL" and "kset_kobj p \<noteq> NULL"
  shows "kset_create_and_add others w nm parent s = Some (p, kset_made p nm parent ps s)"
  using assms
  by (simp add: kset_create_and_add_def kset_create_def alloc_mem_def kset_register_def kset_init_def
      kobject_init_def sema_init_def kobject_add_def kset_made_def Let_def)

definition kset_nodes :: "ptr \<Rightarrow> ptr set" where
  "kset_nodes p = {wait_list (kset_lock p), kset_list p, kobj_entry (kset_kobj p)}"

lemma kset_made_rep:
  assumes "kset_rep s k objs" and "kset_lock p \<noteq> kset_lock k"
    and "kset_nodes p \<inter> set (wait_list (kset_lock k) # kset_list k # map kobj_entry objs) = {}"
  shows "kset_rep (kset_made p nm parent ps s) k objs"
proof -
  let ?h = "INIT_LIST_HEAD (wait_list (kset_lock p))
         (INIT_LIST_HEAD (kset_list p) (INIT_LIST_HEAD (kobj_entry (kset_kobj p)) (links s)))"
  have u: "unchanged_outside (kset_nodes p) (links s) ?h"
    by (auto simp: unchanged_outside_def kset_nodes_def INIT_LIST_HEAD_def)
  have "kset_rep (s\<lparr>links := ?h\<rparr>) k objs"
    by (rule kset_rep_links(1) [OF assms(1) u])
      (use assms unchanged_outside_dlist [OF u] in \<open>auto simp: kset_rep_def\<close>)
  then show ?thesis using assms(2) by (simp add: kset_rep_def kset_made_def)
qed

lemma sema_init_kset_rep:
  assumes "kset_rep s k objs" and "sem \<noteq> kset_lock k"
    and "wait_list sem \<notin> set (wait_list (kset_lock k) # kset_list k # map kobj_entry objs)"
  shows "kset_rep (sema_init sem n s) k objs"
proof -
  have u: "unchanged_outside {wait_list sem} (links s) (INIT_LIST_HEAD (wait_list sem) (links s))"
    by (auto simp: unchanged_outside_def INIT_LIST_HEAD_def)
  have "kset_rep (s\<lparr>links := INIT_LIST_HEAD (wait_list sem) (links s)\<rparr>) k objs"
    by (rule kset_rep_links(1) [OF assms(1) u])
      (use assms unchanged_outside_dlist [OF u] in \<open>auto simp: kset_rep_def\<close>)
  then show ?thesis using assms(2) by (simp add: kset_rep_def sema_init_def)
qed

text \<open>What the code after the label \<open>bus_drivers_fail\<close> does to a bus that is the last object of its set.\<close>

lemma bus_drivers_fail_undoes:
  assumes "kset_rep s k (objs @ [bus_kobj bus])" and "kobj_kset s (bus_kobj bus) = k" and "k \<noteq> NULL"
    and "bus_kobj bus \<noteq> NULL" and "bus_devices_kset s bus = p" and "p \<noteq> NULL"
    and "kset_kobj p \<noteq> NULL" and "kobj_kset s (kset_kobj p) = NULL"
  shows "\<exists>s'. bus_drivers_fail others w bus r s = Some (r, s') \<and> kset_rep s' k objs \<and>
    kobj_parent s' (bus_kobj bus) = NULL \<and> bus_devices_kset s' = bus_devices_kset s \<and>
    bus_drivers_kset s' = bus_drivers_kset s \<and> freed s' = freed s @ [p]"
proof -
  let ?s1 = "s\<lparr>kobj_parent := (kobj_parent s)(kset_kobj p := NULL)\<rparr>"
  let ?s2 = "kset_release (kset_kobj p) ?s1"
  have u: "kset_unregister others w p s = Some ?s1"
    using assms(6-8) by (simp add: kset_unregister_def kobject_del_def kobj_kset_leave_def Let_def)
  have sel: "links ?s2 = links s" "sem_count ?s2 = sem_count s" "ints_balanced ?s2 = ints_balanced s"
      "kobj_kset ?s2 = kobj_kset s" "freed ?s2 = freed s @ [p]" "bus_devices_kset ?s2 = bus_devices_kset s"
      "bus_drivers_kset ?s2 = bus_drivers_kset s"
    by (simp_all add: kset_release_def kfree_block_def kset_kobj_def ints_balanced_def)
  have r: "kset_rep ?s2 k (objs @ [bus_kobj bus])"
    using assms(1) by (subst kset_rep_cong [of _ s]) (simp_all add: sel)
  let ?h = "list_del_init (kobj_entry (bus_kobj bus)) (links ?s2)"
  have l: "kobj_kset_leave others w (bus_kobj bus) ?s2 = Some (?s2\<lparr>links := ?h\<rparr>)"
      "kset_rep (?s2\<lparr>links := ?h\<rparr>) k objs"
    using kobj_kset_leave_rep [of ?s2 k objs "bus_kobj bus" "[]"] r assms(2,3) by (simp_all add: sel)
  let ?s3 = "?s2\<lparr>links := ?h, kobj_parent := (kobj_parent ?s2)(bus_kobj bus := NULL)\<rparr>"
  have "bus_drivers_fail others w bus r s = Some (r, ?s3)"
    using u l(1) assms(4,5) by (simp add: bus_drivers_fail_def bus_devices_fail_def kobject_del_def)
  moreover have "kset_rep ?s3 k objs"
    using l(2) by (subst kset_rep_cong [of _ "?s2\<lparr>links := ?h\<rparr>"]) simp_all
  ultimately show ?thesis by (auto simp: sel)
qed

subsection \<open>Taking a lock twice\<close>

lemma waiter_up_more: "kernel.more (s' :: 'a sync_scheme) = kernel.more s \<Longrightarrow> waiter_up s' = waiter_up s"
  by (cases s; cases s') simp

lemma task_schedule_waiter_up:
  assumes "\<And>a b s. waiter_up s w = 0 \<Longrightarrow> waiter_up (others a b s) w = 0"
    and "waiter_up s w = 0" and "task_schedule others s = Some s'"
  shows "waiter_up s' w = 0"
  using task_schedule_keeps [of "\<lambda>s. waiter_up s w = 0" others s s'] assms waiter_up_more by metis

lemma down_loop_never_returns:
  assumes others: "\<And>a b s. waiter_up s w = 0 \<Longrightarrow> waiter_up (others a b s) w = 0" and "waiter_up s w = 0"
  shows "down_loop others w t s = None"
proof (rule ccontr)
  assume "down_loop others w t s \<noteq> None"
  then obtain s' where "down_loop others w t s = Some s'" by blast
  then have "others = others \<longrightarrow> w = w \<longrightarrow> waiter_up s w = 0 \<longrightarrow> False"
  proof (rule down_loop.raw_induct
      [where P = "\<lambda>others' w' t s s'. others' = others \<longrightarrow> w' = w \<longrightarrow> waiter_up s w = 0 \<longrightarrow> False", rotated])
    fix f others' w' t s s'
    assume IH: "\<And>others' w' t s s'. f others' w' t s = Some s' \<Longrightarrow>
        others' = others \<longrightarrow> w' = w \<longrightarrow> waiter_up s w = 0 \<longrightarrow> False"
      and eq: "Option.bind (task_schedule others' (enter_critical_section (set_task_state t BLOCKED s))) (\<lambda>s1.
        let s2 = exit_critical_section s1 in
        if waiter_up s2 w' \<noteq> 0 then Some s2 else f others' w' t s2) = Some s'"
    show "others' = others \<longrightarrow> w' = w \<longrightarrow> waiter_up s w = 0 \<longrightarrow> False"
      using eq IH task_schedule_waiter_up [of w others "enter_critical_section (set_task_state t BLOCKED s)", OF others]
      by (auto simp: Let_def bind_eq_Some_conv split: if_splits dest!: IH)
  qed
  then show False using assms(2) by simp
qed

lemma down_taken_never_returns:
  assumes "\<And>a b s. waiter_up s w = 0 \<Longrightarrow> waiter_up (others a b s) w = 0" and "sem_count s sem = 0"
  shows "down others w sem s = None"
  using assms by (simp add: down_def down_wait_def down_loop_never_returns down_enqueue_def Let_def)

subsection \<open>Properties\<close>

text \<open>
  C32. A set is a sequence of objects in the order in which they joined. \<open>kobject_add\<close> of an object
  that names the set returns 0, appends it and makes the set its parent if it has none;
  \<open>kset_find_obj\<close> then returns the first object of the sequence with that name, or \<open>NULL\<close>; and
  \<open>kobject_del\<close> takes the object out again and clears its parent. All three return and leave the lock
  of the set free.
\<close>

theorem kset_refines_object_list:
  assumes "kset_rep s k objs" and "joinable s k objs kobj"
  shows "\<exists>s1. kobject_add others w kobj s = Some (0, s1) \<and> kset_rep s1 k (objs @ [kobj]) \<and>
    kobj_parent s1 kobj = (if kobj_parent s kobj = NULL then kset_kobj k else kobj_parent s kobj) \<and>
    (\<forall>nm. kset_find_obj others w k nm s1 = Some (first_named (kobj_name s) nm (objs @ [kobj]), s1)) \<and>
    (\<exists>s2. kobject_del others w kobj s1 = Some s2 \<and> kset_rep s2 k objs \<and> kobj_parent s2 kobj = NULL)"
proof -
  let ?p = "if kobj_parent s kobj = NULL then kset_kobj k else kobj_parent s kobj"
  let ?s0 = "s\<lparr>links := list_add_tail (kobj_entry kobj) (kset_list k) (links s)\<rparr>"
  let ?s1 = "?s0\<lparr>kobj_parent := (kobj_parent s)(kobj := ?p)\<rparr>"
  let ?s2 = "?s1\<lparr>links := list_del_init (kobj_entry kobj) (links ?s1)\<rparr>"
  have j: "kobj \<noteq> NULL" "k \<noteq> NULL" "kobj_kset s kobj = k" using assms(2) by (auto simp: joinable_def)
  note join = kobj_kset_join_rep [OF assms]
  have add: "kobject_add others w kobj s = Some (0, ?s1)"
    using j join(1) [of others w] by (simp add: kobject_add_def Let_def)
  have r1: "kset_rep ?s1 k (objs @ [kobj])"
    using join(2) by (subst kset_rep_cong [of _ ?s0]) simp_all
  have leave: "kobj_kset_leave others w kobj ?s1 = Some ?s2" and r2: "kset_rep ?s2 k objs"
    using kobj_kset_leave_rep [of ?s1 k objs kobj "[]"] r1 j by simp_all
  have del: "kobject_del others w kobj ?s1 = Some (?s2\<lparr>kobj_parent := (kobj_parent ?s2)(kobj := NULL)\<rparr>)"
    using j leave unfolding kobject_del_def by simp
  have r3: "kset_rep (?s2\<lparr>kobj_parent := (kobj_parent ?s2)(kobj := NULL)\<rparr>) k objs"
    using r2 by (subst kset_rep_cong [of _ ?s2]) simp_all
  have "kset_find_obj others w k nm ?s1 = Some (first_named (kobj_name s) nm (objs @ [kobj]), ?s1)" for nm
    using kset_find_obj_rep [OF r1] by simp
  then show ?thesis using add r1 del r3 by (intro exI [of _ ?s1]) auto
qed

text \<open>A set at 4096 and an object at 8192 named \<open>a\<close> that names the set.\<close>

definition example_kobjs :: kobjs where
  "example_kobjs = kset_init 4096 (works.extend (example_works\<lparr>sem_count := \<lambda>_. 0\<rparr>)
     (kobjs.fields ((\<lambda>_. None)(8192 := Some [97])) (\<lambda>_. 0) ((\<lambda>_. 0)(8192 := 4096)) [16384, 20480] (\<lambda>_. 24576) (\<lambda>_. 24576)
        (\<lambda>_. 0) (\<lambda>_. 0) 4096))"

lemma example_kobjs_rep:
  "kset_rep example_kobjs 4096 []" "kobj_kset example_kobjs = (\<lambda>_. 0)(8192 := 4096)"
  "kobj_name example_kobjs = (\<lambda>_. None)(8192 := Some [97])" "free_mem example_kobjs = [16384, 20480]"
  "bus_kset example_kobjs = 4096" "dev_bus example_kobjs = (\<lambda>_. 24576)" "sem_count example_kobjs 24608 = 0"
  by (simp_all add: example_kobjs_def kset_rep_def kset_init_def kobject_init_def sema_init_def INIT_LIST_HEAD_def
      dlist_def list_empty_def kset_list_def kset_lock_def kset_kobj_def kobj_entry_def wait_list_def
      example_works_def works.defs example_waits_def waits.defs example_sync_def example_timers_def kernel.defs sync.defs
      kobjs.defs example_boot_def ints_balanced_def)

theorem kset_refines_object_list_witness:
  "\<exists>s1 s2 :: kobjs. kobject_add (\<lambda>_ _ s. s) 2048 8192 example_kobjs = Some (0, s1) \<and> kset_rep s1 4096 [8192] \<and>
     kset_find_obj (\<lambda>_ _ s. s) 2048 4096 [97] s1 = Some (8192, s1) \<and>
     kobject_del (\<lambda>_ _ s. s) 2048 8192 s1 = Some s2 \<and> kset_rep s2 4096 []"
proof -
  have "joinable example_kobjs 4096 [] 8192"
    by (simp add: joinable_def example_kobjs_rep kset_list_def kset_lock_def kobj_entry_def wait_list_def)
  from kset_refines_object_list [OF example_kobjs_rep(1) this, of "\<lambda>_ _ s. s" 2048]
  show ?thesis by (fastforce simp: first_named_def example_kobjs_rep(3))
qed

text \<open>
  A successful \<open>bus_register\<close> undoes its own work: the success path runs on into the labels of the
  failure path. It returns 0, but the set of devices the bus still points to has been given to
  \<open>kfree\<close>, and the object of the bus is in no set and has no parent, as if the registration had failed.
\<close>

theorem bus_register_success_undone:
  assumes "kset_rep s k objs" and "bus_kset s = k" and "free_mem s = [p, q]" and "p \<noteq> NULL" and "q \<noteq> NULL"
    and "kset_kobj p \<noteq> NULL" and "kset_kobj q \<noteq> NULL"
    and "joinable (s\<lparr>kobj_kset := (kobj_kset s)(bus_kobj bus := k)\<rparr>) k objs (bus_kobj bus)"
    and "distinct [kset_lock k, kset_lock p, kset_lock q, bus_lock bus]"
    and "distinct [bus_kobj bus, kset_kobj p, kset_kobj q]"
    and "insert (wait_list (bus_lock bus)) (kset_nodes p \<union> kset_nodes q) \<inter>
      set (wait_list (kset_lock k) # kset_list k # map kobj_entry (objs @ [bus_kobj bus])) = {}"
  shows "\<exists>s'. bus_register others w bus s = Some (0, s') \<and> kset_rep s' k objs \<and> kobj_parent s' (bus_kobj bus) = NULL \<and>
    bus_devices_kset s' bus = p \<and> bus_drivers_kset s' bus = q \<and> freed s' = freed s @ [p]"
proof -
  let ?b = "bus_kobj bus"
  let ?s0 = "s\<lparr>kobj_kset := (kobj_kset s)(?b := k)\<rparr>"
  have r0: "kset_rep ?s0 k objs" using assms(1) by (subst kset_rep_cong [of _ s]) simp_all
  have k: "k \<noteq> NULL" "?b \<noteq> NULL" using assms(8) by (simp_all add: joinable_def)
  obtain par s1 where s1: "s1 = ?s0\<lparr>links := list_add_tail (kobj_entry ?b) (kset_list k) (links s),
      kobj_parent := (kobj_parent s)(?b := par)\<rparr>"
    and add: "kobject_add others w ?b ?s0 = Some (0, s1)"
    using kobj_kset_join_rep(1) [OF r0 assms(8), of others w] k by (simp add: kobject_add_def Let_def)
  have r1: "kset_rep s1 k (objs @ [?b])"
    unfolding s1 using kobj_kset_join_rep(2) [OF r0 assms(8)]
    by (subst kset_rep_cong [of _ "?s0\<lparr>links := list_add_tail (kobj_entry ?b) (kset_list k) (links ?s0)\<rparr>"]) simp_all
  define s2 where "s2 = kset_made p (txt_of ''devices'') ?b [q] s1"
  define s3 where "s3 = s2\<lparr>bus_devices_kset := (bus_devices_kset s2)(bus := p)\<rparr>"
  define s4 where "s4 = kset_made q (txt_of ''drivers'') ?b [] s3"
  define s5 where "s5 = sema_init (bus_lock bus) 1 (s4\<lparr>bus_drivers_kset := (bus_drivers_kset s4)(bus := q)\<rparr>)"
  have c1: "kset_create_and_add others w (txt_of ''devices'') ?b s1 = Some (p, s2)"
    unfolding s2_def using assms(3,4,6) by (intro kset_create_and_add_made) (simp_all add: s1)
  have c2: "kset_create_and_add others w (txt_of ''drivers'') ?b s3 = Some (q, s4)"
    unfolding s4_def using assms(5,7) by (intro kset_create_and_add_made) (simp_all add: s3_def s2_def kset_made_def)
  define N where "N = set (wait_list (kset_lock k) # kset_list k # map kobj_entry (objs @ [?b]))"
  have N: "kset_nodes p \<inter> N = {}" "kset_nodes q \<inter> N = {}" "wait_list (bus_lock bus) \<notin> N"
    using assms(11) unfolding N_def [symmetric] by blast+
  have r3: "kset_rep s3 k (objs @ [?b])"
    using kset_made_rep [OF r1 _ N(1) [unfolded N_def]] assms(9)
    by (subst kset_rep_cong [of _ s2]) (auto simp: s3_def s2_def)
  have r4: "kset_rep s4 k (objs @ [?b])"
    using kset_made_rep [OF r3 _ N(2) [unfolded N_def]] assms(9) by (auto simp: s4_def)
  have r5: "kset_rep s5 k (objs @ [?b])"
    using sema_init_kset_rep [OF r4 _ N(3) [unfolded N_def]] assms(9)
    by (subst kset_rep_cong [of _ "sema_init (bus_lock bus) 1 s4"]) (auto simp: s5_def sema_init_def)
  have sel: "kobj_kset s5 ?b = k" "bus_devices_kset s5 bus = p" "bus_drivers_kset s5 bus = q"
      "kobj_kset s5 (kset_kobj p) = NULL" "freed s5 = freed s"
    using assms(10) by (simp_all add: s5_def s4_def s3_def s2_def s1 sema_init_def kset_made_def)
  have "bus_register others w bus s = bus_drivers_fail others w bus 0 s5"
    using assms(2,4,5) add c1 c2 unfolding bus_register_def
    by (simp add: s3_def [symmetric] s5_def Let_def)
  then show ?thesis
    using bus_drivers_fail_undoes [OF r5 sel(1) k sel(2) assms(4,6) sel(4), of others w 0] sel by auto
qed

theorem bus_register_success_undone_witness:
  "\<exists>s' :: kobjs. bus_register (\<lambda>_ _ s. s) 2048 24576 example_kobjs = Some (0, s') \<and> kset_rep s' 4096 [] \<and>
     bus_devices_kset s' 24576 = 16384 \<and> freed s' = freed example_kobjs @ [16384]"
proof -
  have "joinable (example_kobjs\<lparr>kobj_kset := (kobj_kset example_kobjs)(bus_kobj 24576 := 4096)\<rparr>) 4096 [] (bus_kobj 24576)"
    by (simp add: joinable_def bus_kobj_def kset_list_def kset_lock_def kobj_entry_def wait_list_def)
  from bus_register_success_undone [OF example_kobjs_rep(1,5,4) _ _ _ _ this, of "\<lambda>_ _ s. s" 2048]
  show ?thesis
    by (auto simp: kset_kobj_def kset_lock_def bus_lock_def bus_kobj_def kset_nodes_def kobj_entry_def wait_list_def kset_list_def)
qed

text \<open>
  Adding a device to or removing it from a bus hangs. \<open>bus_probe_device\<close> and \<open>bus_remove_device\<close> take
  the lock of the bus and then call \<open>bus_for_each_drv\<close>, which takes it again: with a lock
  initialised with 1 neither call returns, unless code that does not hold the lock releases it.
\<close>

theorem bus_lock_taken_twice:
  assumes "\<And>a b s. waiter_up s w = 0 \<Longrightarrow> waiter_up (others a b s) w = 0"
    and "dev_bus s dev = bus" and "bus \<noteq> NULL" and "sem_count s (bus_lock bus) \<le> 1"
  shows "bus_probe_device others w probe dev s = None \<and> bus_remove_device others w remove dev s = None"
proof -
  have taken: "down others w sem t = None" if "sem_count t sem = 0" for t sem
    by (rule down_taken_never_returns) (fact assms(1), fact that)
  have c: "sem_count s (bus_lock bus) = 0 \<or> sem_count s (bus_lock bus) = 1"
    using assms(4) by (auto simp: order.order_iff_strict word_less_nat_alt unsigned_eq_0_iff)
  have "\<exists>s1. down others w (bus_lock bus) s = Some s1 \<and> sem_count s1 (bus_lock bus) = 0"
    if "sem_count s (bus_lock bus) = 1"
    using that by (simp add: down_def Let_def)
  then consider "down others w (bus_lock bus) s = None"
    | s1 where "down others w (bus_lock bus) s = Some s1" "sem_count s1 (bus_lock bus) = 0"
    using c by (metis taken)
  then have "bus_probe_device others w probe dev s = None \<and> bus_remove_device others w remove dev s = None"
  proof cases
    case 2
    have "bus_for_each_drv others w f bus s1 = None" for f
      using taken [OF 2(2)] assms(3) by (simp add: bus_for_each_drv_def Let_def)
    then show ?thesis using 2(1) assms(2,3) by (simp add: bus_probe_device_def bus_remove_device_def Let_def)
  qed (use assms(2,3) in \<open>simp add: bus_probe_device_def bus_remove_device_def Let_def\<close>)
  then show ?thesis .
qed

theorem bus_lock_taken_twice_witness:
  "bus_probe_device (\<lambda>_ _ s. s) 2048 (\<lambda>_. None) 12288 example_kobjs = None \<and>
   bus_remove_device (\<lambda>_ _ s. s) 2048 (\<lambda>_. None) 12288 example_kobjs = None"
  by (rule bus_lock_taken_twice [where bus = 24576]) (simp_all add: example_kobjs_rep bus_lock_def)

end
