(* ===== verification/Symtab.thy ===== *)
theory Symtab
  imports Strings
begin

section \<open>The kernel's symbol table: \<open>kernel/symtab.c\<close>\<close>

text \<open>
  \<open>symbols\<close> is the array of pairs of a name and a value that the build generates: sorted by name and
  ended by an entry of two null pointers, which \<open>symbols_nelts\<close> counts as well. The names are C
  strings in the memory. A comparison with the null pointer of the last entry is the fault
  \<^const>\<open>Null_Deref\<close>.
\<close>

type_synonym symbols = "(ptr \<times> ptr) list"

text \<open>\<open>symbols[middle].name\<close> compared with \<open>name\<close>.\<close>

definition compare_symbol :: "symbols \<Rightarrow> memory \<Rightarrow> ptr \<Rightarrow> int \<Rightarrow> int res option" where
  "compare_symbol tab m nm middle =
     (if middle < 0 \<or> int (length tab) \<le> middle then Some (Inl Out_Of_Bounds)
      else if fst (tab ! nat middle) = NULL then Some (Inl Null_Deref)
      else map_option Inr (strcmp nm (fst (tab ! nat middle)) m))"

function search_loop :: "symbols \<Rightarrow> memory \<Rightarrow> ptr \<Rightarrow> int \<Rightarrow> int \<Rightarrow> ptr res option" where
  "search_loop tab m nm start end =
     (if start \<le> end then
        let middle = (start + end) div 2 in
        and_then (compare_symbol tab m nm middle) (\<lambda>r.
          if r < 0 then search_loop tab m nm start (middle - 1)
          else if r > 0 then search_loop tab m nm (middle + 1) end
          else Some (Inr (snd (tab ! nat middle))))
      else Some (Inr NULL))"
  by pat_completeness auto
termination
  by (relation "measure (\<lambda>(tab, m, nm, start, end). nat (end - start + 1))") auto

declare search_loop.simps [simp del]

definition symtab_lookup :: "symbols \<Rightarrow> memory \<Rightarrow> ptr \<Rightarrow> ptr res option" where
  "symtab_lookup tab m nm = search_loop tab m nm 0 (int (length tab) - 1)"

subsection \<open>The order of names\<close>

lemma byte_order_eq_0 [simp]: "byte_order xs ys = 0 \<longleftrightarrow> xs = ys"
  by (simp add: byte_order_lexord)

lemma byte_order_refl [simp]: "byte_order xs xs = 0"
  by simp

lemma byte_order_swap: "byte_order ys xs = - byte_order xs ys"
proof -
  have "asym (lexord {(a, b :: u8). a < b})"
    by (rule lexord_asym) (auto intro: asymI)
  moreover have "xs = ys \<or> (xs, ys) \<in> lexord {(a, b). a < b} \<or> (ys, xs) \<in> lexord {(a, b). a < b}"
    using lexord_linear [of "{(a, b :: u8). a < b}" xs ys] linorder_less_linear by blast
  ultimately show ?thesis by (auto simp: byte_order_lexord dest: asymD)
qed

lemma byte_order_trans: "byte_order xs ys < 0 \<Longrightarrow> byte_order ys zs < 0 \<Longrightarrow> byte_order xs zs < 0"
proof -
  assume "byte_order xs ys < 0" and "byte_order ys zs < 0"
  then have a: "(xs, ys) \<in> lexord {(a, b). a < b}" and b: "(ys, zs) \<in> lexord {(a, b). a < b}"
    by (auto simp: byte_order_lexord split: if_splits)
  have "trans {(a, b :: u8). a < b}" by (auto intro: transI)
  from lexord_trans [OF a b this] have c: "(xs, zs) \<in> lexord {(a, b). a < b}" .
  have "asym (lexord {(a, b :: u8). a < b})"
    by (rule lexord_asym) (auto intro: asymI)
  with c have "xs \<noteq> zs" by (auto dest: asymD)
  with c show "byte_order xs zs < 0" by (simp add: byte_order_lexord)
qed

subsection \<open>The table as a map\<close>

text \<open>The table in memory holds the symbols \<open>syms\<close>, in strictly ascending order, and the last entry.\<close>

definition symtab_rep :: "memory \<Rightarrow> symbols \<Rightarrow> (u8 list \<times> ptr) list \<Rightarrow> bool" where
  "symtab_rep m tab syms \<longleftrightarrow> length tab = Suc (length syms) \<and> fst (tab ! length syms) = NULL \<and>
     (\<forall>i < length syms. fst (tab ! i) \<noteq> NULL \<and> cstr m (fst (tab ! i)) (fst (syms ! i)) \<and> snd (tab ! i) = snd (syms ! i)) \<and>
     sorted_wrt (\<lambda>a b. byte_order (fst a) (fst b) < 0) syms"

lemma symtab_rep_less:
  assumes "symtab_rep m tab syms" and "i < j" and "j < length syms"
  shows "byte_order (fst (syms ! i)) (fst (syms ! j)) < 0"
  using assms sorted_wrt_nth_less unfolding symtab_rep_def by blast

lemma symtab_rep_distinct: "symtab_rep m tab syms \<Longrightarrow> distinct (map fst syms)"
proof -
  assume r: "symtab_rep m tab syms"
  have "fst (syms ! i) \<noteq> fst (syms ! j)" if "i < j" "j < length syms" for i j
    using symtab_rep_less [OF r that] byte_order_eq_0 [of "fst (syms ! i)" "fst (syms ! j)"] by linarith
  then show ?thesis unfolding distinct_conv_nth
    by (metis length_map nat_neq_iff nth_map order.strict_trans)
qed

lemma compare_symbol_rep:
  assumes "symtab_rep m tab syms" and "cstr m p nm" and "k < length syms"
  shows "compare_symbol tab m p (int k) = Some (Inr (byte_order nm (fst (syms ! k))))"
  using assms strcmp_cstr [of m p nm "fst (tab ! k)" "fst (syms ! k)"]
  by (simp add: compare_symbol_def symtab_rep_def)

lemma byte_order_pos: "0 < byte_order xs ys \<longleftrightarrow> byte_order ys xs < 0"
  by (subst byte_order_swap) simp

lemma map_of_nth_name:
  assumes "symtab_rep m tab syms" and "k < length syms" and "nm = fst (syms ! k)"
  shows "map_of syms nm = Some (snd (tab ! k))"
proof -
  have "(nm, snd (syms ! k)) \<in> set syms" using assms(2,3) by (metis nth_mem prod.collapse)
  then show ?thesis
    using map_of_eq_Some_iff [OF symtab_rep_distinct [OF assms(1)]] assms(1,2) by (simp add: symtab_rep_def)
qed

lemma map_of_no_name:
  assumes "\<And>i. i < length syms \<Longrightarrow> byte_order nm (fst (syms ! i)) \<noteq> 0"
  shows "map_of syms nm = None"
  using assms by (fastforce simp: map_of_eq_None_iff in_set_conv_nth)

text \<open>What the loop computes once every name outside the range is known to be on its side of \<open>nm\<close>.\<close>

lemma lookup_loop_spec:
  assumes "symtab_rep m tab syms" and "cstr m p nm"
  shows "0 \<le> start \<Longrightarrow> start \<le> int (length syms) \<Longrightarrow> end \<le> int (length syms) \<Longrightarrow> start \<le> end + 1 \<Longrightarrow>
    (\<forall>i < length syms. int i < start \<longrightarrow> 0 < byte_order nm (fst (syms ! i))) \<Longrightarrow>
    (\<forall>i < length syms. end < int i \<longrightarrow> byte_order nm (fst (syms ! i)) < 0) \<Longrightarrow>
    search_loop tab m p start end =
      Some (if end = int (length syms) \<and> (\<forall>i < length syms. 0 < byte_order nm (fst (syms ! i)))
            then Inl Null_Deref else Inr (case map_of syms nm of None \<Rightarrow> NULL | Some v \<Rightarrow> v))"
proof (induction "nat (end - start + 1)" arbitrary: start "end" rule: less_induct)
  case less
  define k where "k = nat ((start + end) div 2)"
  let ?r = "byte_order nm (fst (syms ! k))"
  show ?case
  proof (cases "start \<le> end")
    case False
    have "map_of syms nm = None"
    proof (rule map_of_no_name)
      fix i assume "i < length syms"
      moreover have "int i < start \<or> end < int i" using False by linarith
      ultimately have "0 < byte_order nm (fst (syms ! i)) \<or> byte_order nm (fst (syms ! i)) < 0"
        using less.prems(5,6) by blast
      then show "byte_order nm (fst (syms ! i)) \<noteq> 0" by linarith
    qed
    then show ?thesis using False less.prems(2) by (subst search_loop.simps) simp
  next
    case True
    then have k: "(start + end) div 2 = int k" "start \<le> int k" "int k \<le> end"
      using less.prems(1) by (simp_all add: k_def)
    show ?thesis
    proof (cases "k < length syms")
      case False
      then have "start = int (length syms)" "end = int (length syms)" "k = length syms" using k less.prems(3) by linarith+
      moreover have "fst (tab ! length syms) = NULL" "length tab = Suc (length syms)"
        using assms(1) by (simp_all add: symtab_rep_def)
      ultimately show ?thesis
        using less.prems(5) by (subst search_loop.simps) (simp add: compare_symbol_def)
    next
      case kl: True
      consider "?r < 0" | "?r > 0" | "nm = fst (syms ! k)" using byte_order_eq_0 [of nm "fst (syms ! k)"] by linarith
      then show ?thesis
      proof cases
        case 1
        have "byte_order nm (fst (syms ! i)) < 0" if "i < length syms" "int k - 1 < int i" for i
          using 1 byte_order_trans [OF 1] symtab_rep_less [OF assms(1), of k i] that by (cases "i = k") simp_all
        then have "search_loop tab m p start (int k - 1) = Some (Inr (case map_of syms nm of None \<Rightarrow> NULL | Some v \<Rightarrow> v))"
          using less.hyps [of "int k - 1" start] less.prems k kl by simp
        moreover have "\<not> (\<forall>i < length syms. 0 < byte_order nm (fst (syms ! i)))" using 1 kl by (meson order.asym)
        ultimately show ?thesis
          using True 1 by (subst search_loop.simps) (simp add: k(1) compare_symbol_rep [OF assms kl])
      next
        case 2
        have "0 < byte_order nm (fst (syms ! i))" if "i < length syms" "int i < int k + 1" for i
          using 2 byte_order_trans [OF symtab_rep_less [OF assms(1), of i k], of nm] kl that
          by (cases "i = k") (simp_all add: byte_order_pos)
        moreover have "search_loop tab m p start end = search_loop tab m p (int k + 1) end"
          using True 2 by (subst search_loop.simps) (simp add: k(1) compare_symbol_rep [OF assms kl] Let_def)
        ultimately show ?thesis using less.hyps [of "end" "int k + 1"] less.prems k kl by simp
      next
        case 3
        then have "?r = 0" by simp
        then show ?thesis using True kl map_of_nth_name [OF assms(1) kl 3]
          by (subst search_loop.simps) (auto simp: k(1) compare_symbol_rep [OF assms kl] Let_def)
      qed
    qed
  qed
qed

subsection \<open>Properties\<close>

text \<open>
  C30. On a table sorted by name the binary search returns for every name and agrees with the map of the
  symbols: the value of the symbol, or \<open>NULL\<close> for an unknown name that is below some symbol. For
  a name above all symbols the search reaches the last entry, which \<open>symbols_nelts\<close> counts too, and
  compares the name with a null pointer.
\<close>

theorem symtab_lookup_is_map:
  assumes "symtab_rep m tab syms" and "cstr m p nm"
  shows "symtab_lookup tab m p =
    Some (if \<forall>s \<in> set syms. 0 < byte_order nm (fst s) then Inl Null_Deref
          else Inr (case map_of syms nm of None \<Rightarrow> NULL | Some v \<Rightarrow> v))"
  using lookup_loop_spec [OF assms, of 0 "int (length syms)"] assms(1)
  by (simp add: symtab_lookup_def symtab_rep_def all_set_conv_all_nth)

theorem symtab_lookup_is_map_witness:
  "symtab_lookup [(4, 1000), (6, 2000), (0, 0)] ((\<lambda>_. 0)(4 := 97, 6 := 98, 8 := 98)) 8 = Some (Inr 2000) \<and>
   symtab_lookup [(4, 1000), (6, 2000), (0, 0)] ((\<lambda>_. 0)(4 := 97, 6 := 98, 8 := 99)) 8 = Some (Inl Null_Deref)"
proof -
  have "symtab_rep ((\<lambda>_. 0)(4 := 97, 6 := 98, 8 := c)) [(4, 1000), (6, 2000), (0, 0)] [([97], 1000), ([98], 2000)]" for c
    by (simp add: symtab_rep_def less_Suc_eq all_conj_distrib)
  from symtab_lookup_is_map [OF this [of 98], of 8 "[98]"] symtab_lookup_is_map [OF this [of 99], of 8 "[99]"]
  show ?thesis by simp
qed

end
