(* ===== verification/Module_Loader.thy ===== *)
theory Module_Loader
  imports Symtab Semaphore
begin

section \<open>The module loader: \<open>kernel/module.c\<close>, \<open>arch/arm/kernel/module.c\<close>\<close>

text \<open>
  A module image is an ELF object in memory at \<open>input_addr\<close>; the loader reads its section headers,
  allocates a segment for each section, copies the sections and applies the relocations. A module is
  its address, with its fields in \<open>kmod_at\<close>; the local arrays of the functions and the string literals
  they compare with have the addresses of \<open>frame\<close>. The structures the code copies out of
  the image are decoded where they lie, in little-endian order. \<open>free_blocks\<close> is what the
  coming calls of \<open>kmalloc\<close> return, \<open>NULL\<close> for a failure. \<open>None\<close> stands for a call that does not return, an
  \<open>Inl\<close> below it for a null pointer that is followed. The messages are left out.
\<close>

datatype module_status =
  MODULE_OK | MODULE_BAD_ELF_HEADER | MODULE_NO_SYMTAB | MODULE_NO_STRTAB | MODULE_NO_TEXT
  | MODULE_SYMBOL_NOT_FOUND | MODULE_SEGMENT_NOT_FOUND | MODULE_NO_STARTPOINT | MODULE_UNHANDLED_RELOC
  | MODULE_OUTOF_RANGE | MODULE_RELOC_NOT_SORTED | MODULE_INPUT_ERROR | MODULE_OUTPUT_ERROR

fun status_code :: "module_status \<Rightarrow> int" where
  "status_code MODULE_OK = 0"
| "status_code MODULE_BAD_ELF_HEADER = 1"
| "status_code MODULE_NO_SYMTAB = 2"
| "status_code MODULE_NO_STRTAB = 3"
| "status_code MODULE_NO_TEXT = 4"
| "status_code MODULE_SYMBOL_NOT_FOUND = 5"
| "status_code MODULE_SEGMENT_NOT_FOUND = 6"
| "status_code MODULE_NO_STARTPOINT = 7"
| "status_code MODULE_UNHANDLED_RELOC = 8"
| "status_code MODULE_OUTOF_RANGE = 9"
| "status_code MODULE_RELOC_NOT_SORTED = 10"
| "status_code MODULE_INPUT_ERROR = 11"
| "status_code MODULE_OUTPUT_ERROR = 12"

record relevant_section =
  rs_number :: u8
  rs_offset :: u32
  rs_address :: ptr

record k_module =
  km_base :: ptr
  km_offset :: u32
  km_text :: relevant_section
  km_rodata :: relevant_section
  km_data :: relevant_section
  km_bss :: relevant_section
  km_entry :: ptr

record loader_frame =
  fr_reloc_name :: ptr
  fr_local_name :: ptr
  fr_copy_buf :: ptr
  fr_word :: ptr
  fr_zeros :: ptr
  fr_mod_entry :: ptr
  fr_mod :: ptr

record loader = sync +
  mem :: memory
  kmod_at :: "ptr \<Rightarrow> k_module"
  free_blocks :: "ptr list"
  symbol_table :: symbols
  module_unknown :: "u8 list"
  k_module_root :: ptr
  kmod_sem :: ptr
  frame :: loader_frame

definition upd_kmod :: "ptr \<Rightarrow> (k_module \<Rightarrow> k_module) \<Rightarrow> 'a loader_scheme \<Rightarrow> 'a loader_scheme" where
  "upd_kmod p f s = s\<lparr>kmod_at := (kmod_at s)(p := f (kmod_at s p))\<rparr>"

definition copy_mem :: "ptr \<Rightarrow> ptr \<Rightarrow> u32 \<Rightarrow> 'a loader_scheme \<Rightarrow> 'a loader_scheme" where
  "copy_mem dest src len s = s\<lparr>mem := snd (memcpy dest src len (mem s))\<rparr>"

definition kmalloc_block :: "'a loader_scheme \<Rightarrow> ptr \<times> 'a loader_scheme" where
  "kmalloc_block s = (case free_blocks s of [] \<Rightarrow> (NULL, s) | p # ps \<Rightarrow> (p, s\<lparr>free_blocks := ps\<rparr>))"

subsection \<open>Structures of the image\<close>

definition load16 :: "memory \<Rightarrow> ptr \<Rightarrow> u16" where
  "load16 m p = ucast (m p) OR push_bit 8 (ucast (m (p + 1)))"

definition load32 :: "memory \<Rightarrow> ptr \<Rightarrow> u32" where
  "load32 m p = ucast (m p) OR push_bit 8 (ucast (m (p + 1))) OR push_bit 16 (ucast (m (p + 2))) OR
     push_bit 24 (ucast (m (p + 3)))"

definition store32 :: "memory \<Rightarrow> ptr \<Rightarrow> u32 \<Rightarrow> memory" where
  "store32 m p w = m(p := ucast w, p + 1 := ucast (drop_bit 8 w), p + 2 := ucast (drop_bit 16 w), p + 3 := ucast (drop_bit 24 w))"

record elf32_ehdr =
  e_ident :: "u8 list"
  e_shoff :: u32
  e_shentsize :: u16
  e_shnum :: u16
  e_shstrndx :: u16

definition read_ehdr :: "memory \<Rightarrow> ptr \<Rightarrow> elf32_ehdr" where
  "read_ehdr m p = \<lparr>e_ident = block m p 16, e_shoff = load32 m (p + 32), e_shentsize = load16 m (p + 46),
     e_shnum = load16 m (p + 48), e_shstrndx = load16 m (p + 50)\<rparr>"

record elf32_shdr =
  sh_name :: u32
  sh_offset :: u32
  sh_size :: u32

definition read_shdr :: "memory \<Rightarrow> ptr \<Rightarrow> elf32_shdr" where
  "read_shdr m p = \<lparr>sh_name = load32 m p, sh_offset = load32 m (p + 16), sh_size = load32 m (p + 20)\<rparr>"

record elf32_sym =
  st_name :: u32
  st_value :: u32
  st_shndx :: u16

definition read_sym :: "memory \<Rightarrow> ptr \<Rightarrow> elf32_sym" where
  "read_sym m p = \<lparr>st_name = load32 m p, st_value = load32 m (p + 4), st_shndx = load16 m (p + 14)\<rparr>"

record elf32_rela =
  r_offset :: u32
  r_info :: u32

definition read_rela :: "memory \<Rightarrow> ptr \<Rightarrow> elf32_rela" where
  "read_rela m p = \<lparr>r_offset = load32 m p, r_info = load32 m (p + 4)\<rparr>"

definition ELF32_R_SYM :: "u32 \<Rightarrow> u32" where
  "ELF32_R_SYM info = drop_bit 8 info"

definition ELF32_R_TYPE :: "u32 \<Rightarrow> u8" where
  "ELF32_R_TYPE info = ucast info"

record sec_info =
  s_offset :: u32
  s_size :: u32
  s_reloff :: u32
  s_relsize :: u32
  s_relas :: u32
  s_number :: u32

abbreviation SEC_TYPE_TEXT :: nat where "SEC_TYPE_TEXT \<equiv> 0"
abbreviation SEC_TYPE_RODATA :: nat where "SEC_TYPE_RODATA \<equiv> Suc 0"
abbreviation SEC_TYPE_DATA :: nat where "SEC_TYPE_DATA \<equiv> 2"
abbreviation SEC_TYPE_SYMTAB :: nat where "SEC_TYPE_SYMTAB \<equiv> 3"
abbreviation SEC_TYPE_STRTAB :: nat where "SEC_TYPE_STRTAB \<equiv> 4"
abbreviation SEC_TYPE_BSS :: nat where "SEC_TYPE_BSS \<equiv> 5"

record elf_info =
  input_addr :: u32
  ehdr :: elf32_ehdr
  secs :: "nat \<Rightarrow> sec_info"
  strs :: u32

definition empty_elf_info :: "u32 \<Rightarrow> elf_info" where
  "empty_elf_info addr = \<lparr>input_addr = addr, ehdr = \<lparr>e_ident = replicate 16 0, e_shoff = 0, e_shentsize = 0, e_shnum = 0,
     e_shstrndx = 0\<rparr>, secs = (\<lambda>_. \<lparr>s_offset = 0, s_size = 0, s_reloff = 0, s_relsize = 0, s_relas = 0, s_number = 0\<rparr>), strs = 0\<rparr>"

text \<open>\<open>elf_seek_read\<close> into one of the local arrays.\<close>

definition elf_seek_read :: "elf_info \<Rightarrow> u32 \<Rightarrow> ptr \<Rightarrow> u32 \<Rightarrow> 'a loader_scheme \<Rightarrow> int \<times> 'a loader_scheme" where
  "elf_seek_read elf offset buf len s =
     (if buf = NULL then (- 1, s) else (sint len, copy_mem buf (input_addr elf + offset) len s))"

subsection \<open>The output operations\<close>

datatype seg_type = MODULE_SEG_TEXT | MODULE_SEG_RODATA | MODULE_SEG_DATA | MODULE_SEG_BSS

definition seg_of :: "seg_type \<Rightarrow> k_module \<Rightarrow> relevant_section" where
  "seg_of t km = (case t of MODULE_SEG_TEXT \<Rightarrow> km_text km | MODULE_SEG_RODATA \<Rightarrow> km_rodata km
     | MODULE_SEG_DATA \<Rightarrow> km_data km | MODULE_SEG_BSS \<Rightarrow> km_bss km)"

definition set_seg :: "seg_type \<Rightarrow> (relevant_section \<Rightarrow> relevant_section) \<Rightarrow> k_module \<Rightarrow> k_module" where
  "set_seg t f km = (case t of MODULE_SEG_TEXT \<Rightarrow> km\<lparr>km_text := f (km_text km)\<rparr>
     | MODULE_SEG_RODATA \<Rightarrow> km\<lparr>km_rodata := f (km_rodata km)\<rparr> | MODULE_SEG_DATA \<Rightarrow> km\<lparr>km_data := f (km_data km)\<rparr>
     | MODULE_SEG_BSS \<Rightarrow> km\<lparr>km_bss := f (km_bss km)\<rparr>)"

record 's module_output_ops =
  mo_allocate_segment :: "ptr \<Rightarrow> seg_type \<Rightarrow> u32 \<Rightarrow> 's \<Rightarrow> ptr \<times> 's"
  mo_free_segment :: "ptr \<Rightarrow> seg_type \<Rightarrow> 's \<Rightarrow> 's"
  mo_start_segment :: "ptr \<Rightarrow> seg_type \<Rightarrow> ptr \<Rightarrow> u32 \<Rightarrow> 's \<Rightarrow> module_status \<times> 's"
  mo_end_segment :: "ptr \<Rightarrow> 's \<Rightarrow> module_status \<times> 's"
  mo_write_segment :: "ptr \<Rightarrow> ptr \<Rightarrow> u32 \<Rightarrow> 's \<Rightarrow> u32 \<times> 's"
  mo_segment_offset :: "ptr \<Rightarrow> 's \<Rightarrow> u32"

definition assign_seg_address :: "ptr \<Rightarrow> seg_type \<Rightarrow> ptr \<Rightarrow> 'a loader_scheme \<Rightarrow> 'a loader_scheme" where
  "assign_seg_address output t addr s =
     (let old = rs_address (seg_of t (kmod_at s output));
          s1 = (if old \<noteq> NULL then kfree_block old s else s)
      in upd_kmod output (set_seg t (\<lambda>r. r\<lparr>rs_address := addr\<rparr>)) s1)"

definition allocate_segment :: "ptr \<Rightarrow> seg_type \<Rightarrow> u32 \<Rightarrow> 'a loader_scheme \<Rightarrow> ptr \<times> 'a loader_scheme" where
  "allocate_segment output t len s =
     (case kmalloc_block s of (blk, s1) \<Rightarrow>
        if blk = NULL then (NULL, s1) else (blk, assign_seg_address output t blk s1))"

definition free_segment :: "ptr \<Rightarrow> seg_type \<Rightarrow> 'a loader_scheme \<Rightarrow> 'a loader_scheme" where
  "free_segment output t s =
     (if output = NULL then s
      else let p = rs_address (seg_of t (kmod_at s output)) in if NULL \<noteq> p then kfree_block p s else s)"

definition start_segment :: "ptr \<Rightarrow> seg_type \<Rightarrow> ptr \<Rightarrow> u32 \<Rightarrow> 'a loader_scheme \<Rightarrow> module_status \<times> 'a loader_scheme" where
  "start_segment output t addr len s = (MODULE_OK, upd_kmod output (\<lambda>km. km\<lparr>km_base := addr, km_offset := 0\<rparr>) s)"

definition end_segment :: "ptr \<Rightarrow> 'a loader_scheme \<Rightarrow> module_status \<times> 'a loader_scheme" where
  "end_segment output s = (MODULE_OK, s)"

definition write_segment :: "ptr \<Rightarrow> ptr \<Rightarrow> u32 \<Rightarrow> 'a loader_scheme \<Rightarrow> u32 \<times> 'a loader_scheme" where
  "write_segment output buf len s =
     (let km = kmod_at s output
      in (len, upd_kmod output (\<lambda>km. km\<lparr>km_offset := km_offset km + len\<rparr>) (copy_mem (km_base km + km_offset km) buf len s)))"

definition segment_offset :: "ptr \<Rightarrow> 'a loader_scheme \<Rightarrow> u32" where
  "segment_offset output s = km_offset (kmod_at s output)"

definition mod_output_ops :: "'a loader_scheme module_output_ops" where
  "mod_output_ops =
     \<lparr>mo_allocate_segment = allocate_segment, mo_free_segment = free_segment, mo_start_segment = start_segment,
      mo_end_segment = end_segment, mo_write_segment = write_segment, mo_segment_offset = segment_offset\<rparr>"

subsection \<open>Copying a segment\<close>

text \<open>\<open>buffer\<close> has 16 bytes; the length still to copy decides when the loop ends.\<close>

function copy_segment_loop ::
  "'a loader_scheme module_output_ops \<Rightarrow> ptr \<Rightarrow> ptr \<Rightarrow> u32 \<Rightarrow> 'a loader_scheme \<Rightarrow> module_status \<times> 'a loader_scheme" where
  "copy_segment_loop ops addr output len s =
     (let buffer = fr_copy_buf (frame s) in
      if len > 16 then
        case mo_write_segment ops output buffer 16 (copy_mem buffer addr 16 s) of (res, s1) \<Rightarrow>
          if res \<noteq> 16 then (MODULE_OUTPUT_ERROR, s1) else copy_segment_loop ops (addr + 16) output (len - 16) s1
      else
        case mo_write_segment ops output buffer len (copy_mem buffer addr len s) of (res, s1) \<Rightarrow>
          if res \<noteq> len then (MODULE_OUTPUT_ERROR, s1) else (MODULE_OK, s1))"
  by pat_completeness auto
termination
proof (relation "measure (\<lambda>(ops, addr, output, len, s). unat len)", goal_cases)
  case (2 ops addr out len s buffer)
  then have "16 < unat len" by (simp add: word_less_nat_alt)
  then show ?case by (simp add: unat_sub_no_wrap)
qed simp

declare copy_segment_loop.simps [simp del]

definition copy_segment_data ::
  "'a loader_scheme module_output_ops \<Rightarrow> u32 \<Rightarrow> u32 \<Rightarrow> ptr \<Rightarrow> u32 \<Rightarrow> 'a loader_scheme \<Rightarrow> module_status \<times> 'a loader_scheme" where
  "copy_segment_data ops in_addr offset output len s = copy_segment_loop ops (in_addr + offset) output len s"

subsection \<open>Relocations of the processor\<close>

abbreviation R_ARM_PC24 :: u8 where "R_ARM_PC24 \<equiv> 1"
abbreviation R_ARM_ABS32 :: u8 where "R_ARM_ABS32 \<equiv> 2"
abbreviation R_ARM_THM_CALL :: u8 where "R_ARM_THM_CALL \<equiv> 10"
abbreviation R_ARM_CALL :: u8 where "R_ARM_CALL \<equiv> 28"
abbreviation R_ARM_JUMP24 :: u8 where "R_ARM_JUMP24 \<equiv> 29"

text \<open>The 32 bits written for each type: the addition, the branch and the pair of Thumb halfwords.\<close>

definition reloc_abs32 :: "u32 \<Rightarrow> ptr \<Rightarrow> u32" where
  "reloc_abs32 addend addr = addr + addend"

definition reloc_branch :: "u32 \<Rightarrow> ptr \<Rightarrow> ptr \<Rightarrow> u32" where
  "reloc_branch addend addr place =
     (let offset = push_bit 2 (addend AND 0x00ffffff);
          offset1 = signed_drop_bit 2 (offset + (addr - place))
      in (addend AND 0xff000000) OR (offset1 AND 0x00ffffff))"

definition reloc_thm_call :: "u16 \<Rightarrow> u16 \<Rightarrow> ptr \<Rightarrow> ptr \<Rightarrow> u16 \<times> u16" where
  "reloc_thm_call instr0 instr1 addr base =
     (let instr1' = (if instr1 AND 0xe800 = 0xe800
                     then if addr AND 1 \<noteq> 0 then instr1 OR 0x1800 else (instr1 AND NOT 0x1800) OR 0x0800
                     else instr1);
          addr1 = (if instr1' AND 0x1800 = 0x0800 then (addr AND 0xfffffffd) OR (base AND 2) else addr);
          offset = addr1 - base
      in ((instr0 AND 0xf800) OR (ucast (signed_drop_bit 12 offset) AND 0x07ff),
          (instr1' AND 0xf800) OR (ucast (signed_drop_bit 1 offset) AND 0x07ff)))"

definition apply_relocate ::
  "'a loader_scheme module_output_ops \<Rightarrow> u32 \<Rightarrow> ptr \<Rightarrow> u32 \<Rightarrow> ptr \<Rightarrow> elf32_rela \<Rightarrow> ptr \<Rightarrow> 'a loader_scheme
   \<Rightarrow> module_status \<times> 'a loader_scheme" where
  "apply_relocate ops in_addr output sectionoffset sectionaddr rela addr s =
     (let t = ELF32_R_TYPE (r_info rela);
          elf_addr = in_addr + sectionoffset + r_offset rela;
          addend = load32 (mem s) elf_addr;
          buf = fr_word (frame s);
          put = (\<lambda>w. (MODULE_OK, snd (mo_write_segment ops output buf 4 (s\<lparr>mem := store32 (mem s) buf w\<rparr>))))
      in if t = R_ARM_ABS32 then put (reloc_abs32 addend addr)
         else if t = R_ARM_PC24 \<or> t = R_ARM_CALL \<or> t = R_ARM_JUMP24
         then put (reloc_branch addend addr (sectionaddr + r_offset rela))
         else if t = R_ARM_THM_CALL
         then case reloc_thm_call (load16 (mem s) elf_addr) (load16 (mem s) (elf_addr + 2)) addr
                     (sectionaddr + (r_offset rela + 4)) of
                (i0, i1) \<Rightarrow> put (ucast i0 OR push_bit 16 (ucast i1))
         else (MODULE_UNHANDLED_RELOC, s))"

subsection \<open>Symbols of the module\<close>

text \<open>The loop over the symbol table of the image; \<open>endp\<close> is its end, \<open>found\<close> what a match returns.\<close>

partial_function (option) symbol_loop ::
  "elf_info \<Rightarrow> u32 \<Rightarrow> (elf32_sym \<Rightarrow> ptr) \<Rightarrow> u32 \<Rightarrow> ptr \<Rightarrow> u32 \<Rightarrow> 'a loader_scheme \<Rightarrow> (ptr \<times> 'a loader_scheme) option" where
  "symbol_loop elf strtab found endp symbol a s =
     (if a < endp then
        let sy = read_sym (mem s) (input_addr elf + a) in
        if st_name sy \<noteq> 0 then
          case elf_seek_read elf (strtab + st_name sy) (fr_local_name (frame s)) 30 s of (rv, s1) \<Rightarrow>
            if rv < 0 then Some (NULL, s1)
            else Option.bind (strcmp (fr_local_name (frame s1)) symbol (mem s1)) (\<lambda>r.
              if r = 0 then Some (found sy, s1) else symbol_loop elf strtab found endp symbol (a + 16) s1)
        else symbol_loop elf strtab found endp symbol (a + 16) s
      else Some (NULL, s))"

text \<open>Where a symbol of the module lies: \<open>find_local_symbol\<close> knows no symbols of \<open>.rodata\<close>.\<close>

definition local_address :: "k_module \<Rightarrow> elf32_sym \<Rightarrow> ptr" where
  "local_address km sy =
     (if st_shndx sy = ucast (rs_number (km_bss km)) then rs_address (km_bss km) + st_value sy
      else if st_shndx sy = ucast (rs_number (km_data km)) then rs_address (km_data km) + st_value sy
      else if st_shndx sy = ucast (rs_number (km_text km)) then rs_address (km_text km) + st_value sy
      else NULL)"

text \<open>The size of the table is kept in an \<open>unsigned short\<close>.\<close>

definition symtab_end :: "elf_info \<Rightarrow> u32" where
  "symtab_end elf = s_offset (secs elf SEC_TYPE_SYMTAB) + ucast (ucast (s_size (secs elf SEC_TYPE_SYMTAB)) :: u16)"

definition find_local_symbol ::
  "elf_info \<Rightarrow> ptr \<Rightarrow> ptr \<Rightarrow> 'a loader_scheme \<Rightarrow> (ptr \<times> 'a loader_scheme) option" where
  "find_local_symbol elf symbol this_module s =
     symbol_loop elf (s_offset (secs elf SEC_TYPE_STRTAB)) (local_address (kmod_at s this_module)) (symtab_end elf) symbol
       (s_offset (secs elf SEC_TYPE_SYMTAB)) s"

text \<open>\<open>find_module_entry\<close> does not look at the result of its reads, which cannot fail.\<close>

definition find_module_entry :: "elf_info \<Rightarrow> ptr \<Rightarrow> 'a loader_scheme \<Rightarrow> (ptr \<times> 'a loader_scheme) option" where
  "find_module_entry elf this_module s =
     symbol_loop elf (s_offset (secs elf SEC_TYPE_STRTAB))
       (\<lambda>sy. rs_address (km_data (kmod_at s this_module)) + st_value sy) (symtab_end elf) (fr_mod (frame s))
       (s_offset (secs elf SEC_TYPE_SYMTAB)) s"

subsection \<open>Relocating a section\<close>

text \<open>The section with the number of a symbol; \<open>.rodata\<close> is known here.\<close>

definition section_of :: "k_module \<Rightarrow> elf32_sym \<Rightarrow> relevant_section option" where
  "section_of km sy =
     (if st_shndx sy = ucast (rs_number (km_bss km)) then Some (km_bss km)
      else if st_shndx sy = ucast (rs_number (km_data km)) then Some (km_data km)
      else if st_shndx sy = ucast (rs_number (km_rodata km)) then Some (km_rodata km)
      else if st_shndx sy = ucast (rs_number (km_text km)) then Some (km_text km)
      else None)"

text \<open>The address a relocation refers to: the symbol of the kernel, of the module, or a section.\<close>

definition resolve_symbol ::
  "elf_info \<Rightarrow> ptr \<Rightarrow> elf32_sym \<Rightarrow> 'a loader_scheme \<Rightarrow> ((module_status + ptr) \<times> 'a loader_scheme) res option" where
  "resolve_symbol elf output sy s =
     (if st_name sy \<noteq> 0 then
        case elf_seek_read elf (s_offset (secs elf SEC_TYPE_STRTAB) + st_name sy) (fr_reloc_name (frame s)) 30 s of
          (rv, s1) \<Rightarrow>
            if rv < 0 then Some (Inr (Inl MODULE_INPUT_ERROR, s1))
            else
              let nm = fr_reloc_name (frame s1) in
              and_then (symtab_lookup (symbol_table s1) (mem s1) nm) (\<lambda>addr.
              and_then (if addr = NULL then map_option Inr (find_local_symbol elf nm output s1) else Some (Inr (addr, s1)))
                (\<lambda>(addr1, s2).
                   if addr1 = NULL then
                     case section_of (kmod_at s2 output) sy of
                       Some sect \<Rightarrow> Some (Inr (Inr (rs_address sect), s2))
                     | None \<Rightarrow> Some (Inr (Inl MODULE_SYMBOL_NOT_FOUND,
                         s2\<lparr>module_unknown := (block (mem s2) nm 30)[29 := 0]\<rparr>))
                   else Some (Inr (Inr addr1, s2))))
      else
        case section_of (kmod_at s output) sy of
          Some sect \<Rightarrow> Some (Inr (Inr (rs_address sect), s))
        | None \<Rightarrow> Some (Inr (Inl MODULE_SEGMENT_NOT_FOUND, s)))"

text \<open>The copy up to the place of a relocation and the relocation itself.\<close>

definition relocate_one ::
  "'a loader_scheme module_output_ops \<Rightarrow> elf_info \<Rightarrow> ptr \<Rightarrow> ptr \<Rightarrow> sec_info \<Rightarrow> elf32_rela \<Rightarrow> ptr \<Rightarrow> 'a loader_scheme
   \<Rightarrow> module_status \<times> 'a loader_scheme" where
  "relocate_one ops elf output sectionbase sec rela addr s =
     (let offset = mo_segment_offset ops output s;
          (ret1, s1) = (if r_offset rela > offset
                 then copy_segment_data ops (input_addr elf) (offset + s_offset sec) output (r_offset rela - offset) s
                 else (MODULE_OK, s))
      in if ret1 \<noteq> MODULE_OK then (ret1, s1)
         else apply_relocate ops (input_addr elf) output (s_offset sec) sectionbase rela addr s1)"

partial_function (option) relocate_loop ::
  "'a loader_scheme module_output_ops \<Rightarrow> elf_info \<Rightarrow> ptr \<Rightarrow> ptr \<Rightarrow> sec_info \<Rightarrow> u32 \<Rightarrow> u32 \<Rightarrow> 'a loader_scheme
   \<Rightarrow> (module_status \<times> 'a loader_scheme) res option" where
  "relocate_loop ops elf output sectionbase sec rel_size a s =
     (if a < s_reloff sec + s_relsize sec then
        let rela = read_rela (mem s) (input_addr elf + a);
            sy = read_sym (mem s) (input_addr elf + (s_offset (secs elf SEC_TYPE_SYMTAB) + 16 * ELF32_R_SYM (r_info rela)))
        in case resolve_symbol elf output sy s of
             None \<Rightarrow> None
           | Some (Inl e) \<Rightarrow> Some (Inl e)
           | Some (Inr (Inl st, s1)) \<Rightarrow> Some (Inr (st, s1))
           | Some (Inr (Inr addr, s1)) \<Rightarrow>
               (case relocate_one ops elf output sectionbase sec rela addr s1 of (st, s2) \<Rightarrow>
                  if st \<noteq> MODULE_OK then Some (Inr (st, s2))
                  else relocate_loop ops elf output sectionbase sec rel_size (a + rel_size) s2)
      else Some (Inr (MODULE_OK, s)))"

text \<open>\<open>sec\<close> already points to the entry of the section; \<open>using_relas\<close> indexes it once more.\<close>

definition rel_size_of :: "elf_info \<Rightarrow> nat \<Rightarrow> u32" where
  "rel_size_of elf sec_type = (if ucast (s_relas (secs elf (sec_type + sec_type))) \<noteq> (0 :: u8) then 12 else 8)"

definition relocate_section ::
  "'a loader_scheme module_output_ops \<Rightarrow> elf_info \<Rightarrow> ptr \<Rightarrow> ptr \<Rightarrow> nat \<Rightarrow> 'a loader_scheme
   \<Rightarrow> (module_status \<times> 'a loader_scheme) res option" where
  "relocate_section ops elf output sectionbase sec_type s =
     (let sec = secs elf sec_type
      in relocate_loop ops elf output sectionbase sec (rel_size_of elf sec_type) (s_reloff sec) s)"

definition copy_segment ::
  "'a loader_scheme module_output_ops \<Rightarrow> elf_info \<Rightarrow> ptr \<Rightarrow> ptr \<Rightarrow> seg_type \<Rightarrow> nat \<Rightarrow> 'a loader_scheme
   \<Rightarrow> (module_status \<times> 'a loader_scheme) res option" where
  "copy_segment ops elf output sectionbase t i s =
     (let sec = secs elf i in
      case mo_start_segment ops output t sectionbase (s_size sec) s of (st, s1) \<Rightarrow>
        if st \<noteq> MODULE_OK then Some (Inr (st, s1))
        else and_then (relocate_section ops elf output sectionbase i s1) (\<lambda>(st1, s2).
          if st1 \<noteq> MODULE_OK then Some (Inr (st1, s2))
          else
            let offset = mo_segment_offset ops output s2 in
            case copy_segment_data ops (input_addr elf) (offset + s_offset sec) output (s_size sec - offset) s2 of (st2, s3) \<Rightarrow>
              if st2 \<noteq> MODULE_OK then Some (Inr (st2, s3)) else Some (Inr (mo_end_segment ops output s3))))"

subsection \<open>The section headers\<close>

definition elf_magic_header :: "u8 list" where
  "elf_magic_header = [0x7f, 0x45, 0x4c, 0x46, 0x01, 0x01, 0x01]"

definition elf_header_check :: "elf_info \<Rightarrow> memory \<Rightarrow> module_status \<times> elf_info" where
  "elf_header_check elf m =
     (let elf1 = elf\<lparr>ehdr := read_ehdr m (input_addr elf)\<rparr> in
      if take (length elf_magic_header) (e_ident (ehdr elf1)) \<noteq> elf_magic_header then (MODULE_BAD_ELF_HEADER, elf1)
      else (MODULE_OK, elf1))"

text \<open>\<open>strncmp (name, lit, n) == 0\<close> for a literal of \<open>n\<close> characters.\<close>

definition name_is :: "string \<Rightarrow> u8 list \<Rightarrow> bool" where
  "name_is lit nm \<longleftrightarrow> take (length lit) nm = map (\<lambda>c. word_of_nat (of_char c)) lit"

definition upd_sec :: "nat \<Rightarrow> (sec_info \<Rightarrow> sec_info) \<Rightarrow> elf_info \<Rightarrow> elf_info" where
  "upd_sec i f elf = elf\<lparr>secs := (secs elf)(i := f (secs elf i))\<rparr>"

definition set_place :: "nat \<Rightarrow> elf32_shdr \<Rightarrow> nat \<Rightarrow> elf_info \<Rightarrow> elf_info" where
  "set_place i shdr n = upd_sec i (\<lambda>x. x\<lparr>s_offset := sh_offset shdr, s_size := sh_size shdr, s_number := of_nat n\<rparr>)"

definition set_reloc :: "nat \<Rightarrow> elf32_shdr \<Rightarrow> u32 \<Rightarrow> elf_info \<Rightarrow> elf_info" where
  "set_reloc i shdr relas = upd_sec i (\<lambda>x. x\<lparr>s_relas := relas, s_reloff := sh_offset shdr, s_relsize := sh_size shdr\<rparr>)"

definition set_table :: "nat \<Rightarrow> elf32_shdr \<Rightarrow> elf_info \<Rightarrow> elf_info" where
  "set_table i shdr = upd_sec i (\<lambda>x. x\<lparr>s_offset := sh_offset shdr, s_size := sh_size shdr\<rparr>)"

definition record_section :: "u8 list \<Rightarrow> elf32_shdr \<Rightarrow> nat \<Rightarrow> elf_info \<Rightarrow> elf_info" where
  "record_section nm shdr n elf =
     (if name_is ''.text'' nm then set_place SEC_TYPE_TEXT shdr n elf
      else if name_is ''.rel.text'' nm then set_reloc SEC_TYPE_TEXT shdr 0 elf
      else if name_is ''.rela.text'' nm then set_reloc SEC_TYPE_TEXT shdr 1 elf
      else if name_is ''.rodata'' nm then set_place SEC_TYPE_RODATA shdr n elf
      else if name_is ''.rel.rodata'' nm then set_reloc SEC_TYPE_RODATA shdr 1 elf
      else if name_is ''.rela.rodata'' nm then set_reloc SEC_TYPE_RODATA shdr 1 elf
      else if name_is ''.data'' nm then set_place SEC_TYPE_DATA shdr n elf
      else if name_is ''.rel.data'' nm then set_reloc SEC_TYPE_DATA shdr 0 elf
      else if name_is ''.rela.data'' nm then set_reloc SEC_TYPE_DATA shdr 1 elf
      else if name_is ''.symtab'' nm then set_table SEC_TYPE_SYMTAB shdr elf
      else if name_is ''.strtab'' nm then set_table SEC_TYPE_STRTAB shdr elf
      else if name_is ''.bss'' nm
      then upd_sec SEC_TYPE_BSS (\<lambda>x. x\<lparr>s_size := sh_size shdr, s_number := of_nat n, s_offset := 0\<rparr>) elf
      else elf)"

text \<open>The loop over the headers \<open>i\<close> up to \<open>e_shnum\<close>; \<open>rest\<close> is their number still to come.\<close>

primrec section_loop :: "nat \<Rightarrow> nat \<Rightarrow> u32 \<Rightarrow> memory \<Rightarrow> elf_info \<Rightarrow> elf_info" where
  "section_loop 0 i shdrptr m elf = elf"
| "section_loop (Suc rest) i shdrptr m elf =
     (let shdr = read_shdr m (input_addr elf + shdrptr);
          nm = block m (input_addr elf + (strs elf + sh_name shdr)) 12
      in section_loop rest (Suc i) (shdrptr + ucast (e_shentsize (ehdr elf))) m (record_section nm shdr i elf))"

definition elf_get_sec_info :: "elf_info \<Rightarrow> memory \<Rightarrow> module_status \<times> elf_info" where
  "elf_get_sec_info elf m =
     (let shoff = e_shoff (ehdr elf);
          strtable = read_shdr m (input_addr elf + (shoff + ucast (e_shentsize (ehdr elf)) * ucast (e_shstrndx (ehdr elf))));
          elf1 = section_loop (unat (e_shnum (ehdr elf))) 0 shoff m (elf\<lparr>strs := sh_offset strtable\<rparr>)
      in (if s_size (secs elf1 SEC_TYPE_SYMTAB) = 0 then MODULE_NO_SYMTAB
          else if s_size (secs elf1 SEC_TYPE_STRTAB) = 0 then MODULE_NO_STRTAB
          else if s_size (secs elf1 SEC_TYPE_TEXT) = 0 then MODULE_NO_TEXT
          else MODULE_OK, elf1))"

definition get_elf_info :: "elf_info \<Rightarrow> memory \<Rightarrow> module_status \<times> elf_info" where
  "get_elf_info elf m =
     (case elf_header_check elf m of (st, elf1) \<Rightarrow> if MODULE_OK \<noteq> st then (st, elf1) else elf_get_sec_info elf1 m)"

subsection \<open>Loading\<close>

definition sec_of :: "seg_type \<Rightarrow> nat" where
  "sec_of t = (case t of MODULE_SEG_TEXT \<Rightarrow> SEC_TYPE_TEXT | MODULE_SEG_RODATA \<Rightarrow> SEC_TYPE_RODATA
     | MODULE_SEG_DATA \<Rightarrow> SEC_TYPE_DATA | MODULE_SEG_BSS \<Rightarrow> SEC_TYPE_BSS)"

text \<open>The number of a section is stored in an \<open>unsigned char\<close>.\<close>

definition set_number :: "elf_info \<Rightarrow> seg_type \<Rightarrow> k_module \<Rightarrow> k_module" where
  "set_number elf t =
     set_seg t (\<lambda>r. r\<lparr>rs_number := ucast (s_number (secs elf (sec_of t))), rs_offset := s_offset (secs elf (sec_of t))\<rparr>)"

text \<open>The macro \<open>alloc_segment\<close>; a failed allocation goes unnoticed.\<close>

definition alloc_segment ::
  "'a loader_scheme module_output_ops \<Rightarrow> elf_info \<Rightarrow> ptr \<Rightarrow> seg_type \<Rightarrow> 'a loader_scheme \<Rightarrow> 'a loader_scheme" where
  "alloc_segment ops elf output t s =
     (let len = s_size (secs elf (sec_of t)) in if len \<noteq> 0 then snd (mo_allocate_segment ops output t len s) else s)"

definition set_seg_info ::
  "'a loader_scheme module_output_ops \<Rightarrow> elf_info \<Rightarrow> ptr \<Rightarrow> 'a loader_scheme \<Rightarrow> 'a loader_scheme" where
  "set_seg_info ops elf output s =
     (let s1 = upd_kmod output (set_number elf MODULE_SEG_BSS \<circ> set_number elf MODULE_SEG_DATA \<circ>
                 set_number elf MODULE_SEG_RODATA \<circ> set_number elf MODULE_SEG_TEXT) s
      in alloc_segment ops elf output MODULE_SEG_DATA (alloc_segment ops elf output MODULE_SEG_RODATA
           (alloc_segment ops elf output MODULE_SEG_TEXT (alloc_segment ops elf output MODULE_SEG_BSS s1))))"

text \<open>The body of the loop over the sections with contents.\<close>

definition relocate_seg ::
  "'a loader_scheme module_output_ops \<Rightarrow> elf_info \<Rightarrow> ptr \<Rightarrow> seg_type \<Rightarrow> 'a loader_scheme
   \<Rightarrow> (module_status \<times> 'a loader_scheme) res option" where
  "relocate_seg ops elf output t s =
     (let i = sec_of t; sec = secs elf i; addr = rs_address (seg_of t (kmod_at s output)) in
      if s_relsize sec > 0 then copy_segment ops elf output addr t i s
      else Some (Inr (MODULE_OK, copy_mem addr (input_addr elf + s_offset sec) (s_size sec) s)))"

fun relocate_segs ::
  "'a loader_scheme module_output_ops \<Rightarrow> elf_info \<Rightarrow> ptr \<Rightarrow> seg_type list \<Rightarrow> 'a loader_scheme
   \<Rightarrow> (module_status \<times> 'a loader_scheme) res option" where
  "relocate_segs ops elf output [] s = Some (Inr (MODULE_OK, s))"
| "relocate_segs ops elf output (t # ts) s =
     and_then (relocate_seg ops elf output t s) (\<lambda>(st, s1).
       if MODULE_OK \<noteq> st then Some (Inr (st, s1)) else relocate_segs ops elf output ts s1)"

text \<open>The loop that fills \<open>.bss\<close> from the array \<open>zeros\<close> of 16 bytes.\<close>

function bss_loop ::
  "'a loader_scheme module_output_ops \<Rightarrow> ptr \<Rightarrow> u32 \<Rightarrow> 'a loader_scheme \<Rightarrow> module_status \<times> 'a loader_scheme" where
  "bss_loop ops output len s =
     (let zeros = fr_zeros (frame s) in
      if len > 16 then
        case mo_write_segment ops output zeros 16 s of (res, s1) \<Rightarrow>
          if res \<noteq> 16 then (MODULE_OUTPUT_ERROR, s1) else bss_loop ops output (len - 16) s1
      else
        case mo_write_segment ops output zeros len s of (res, s1) \<Rightarrow>
          if res \<noteq> len then (MODULE_OUTPUT_ERROR, s1) else (MODULE_OK, s1))"
  by pat_completeness auto
termination
proof (relation "measure (\<lambda>(ops, output, len, s). unat len)", goal_cases)
  case (2 ops out len s zeros)
  then have "16 < unat len" by (simp add: word_less_nat_alt)
  then show ?case by (simp add: unat_sub_no_wrap)
qed simp

declare bss_loop.simps [simp del]

definition relocate_segment ::
  "'a loader_scheme module_output_ops \<Rightarrow> elf_info \<Rightarrow> ptr \<Rightarrow> 'a loader_scheme \<Rightarrow> (module_status \<times> 'a loader_scheme) res option" where
  "relocate_segment ops elf output s =
     and_then (relocate_segs ops elf output [MODULE_SEG_TEXT, MODULE_SEG_RODATA, MODULE_SEG_DATA] s) (\<lambda>(st, s1).
       if MODULE_OK \<noteq> st then Some (Inr (st, s1))
       else
         let len = s_size (secs elf SEC_TYPE_BSS) in
         case mo_start_segment ops output MODULE_SEG_BSS (rs_address (km_bss (kmod_at s1 output))) len s1 of (st1, s2) \<Rightarrow>
           if MODULE_OK \<noteq> st1 then Some (Inr (st1, s2)) else Some (Inr (bss_loop ops output len s2)))"

text \<open>\<open>_load_module\<close>. \<open>module_unknown[0] = 0\<close> empties the name of the unknown symbol.\<close>

definition load_module_image ::
  "'a loader_scheme module_output_ops \<Rightarrow> u32 \<Rightarrow> ptr \<Rightarrow> 'a loader_scheme \<Rightarrow> (module_status \<times> 'a loader_scheme) res option" where
  "load_module_image ops in_addr output s =
     (let s0 = s\<lparr>module_unknown := (module_unknown s)[0 := 0]\<rparr> in
      case get_elf_info (empty_elf_info in_addr) (mem s0) of (st, elf) \<Rightarrow>
        if MODULE_OK \<noteq> st then Some (Inr (st, s0))
        else and_then (relocate_segment ops elf output (set_seg_info ops elf output s0)) (\<lambda>(st1, s1).
          if MODULE_OK \<noteq> st1 then Some (Inr (st1, s1))
          else case find_local_symbol elf (fr_mod_entry (frame s1)) output s1 of
                 None \<Rightarrow> None
               | Some (module, s2) \<Rightarrow>
                   if NULL \<noteq> module then Some (Inr (MODULE_OK, upd_kmod output (\<lambda>km. km\<lparr>km_entry := module\<rparr>) s2))
                   else map_option (\<lambda>(p, s3). Inr (MODULE_NO_STARTPOINT, s3)) (find_module_entry elf output s2)))"

definition load_kmodule :: "u32 \<Rightarrow> ptr \<Rightarrow> 'a loader_scheme \<Rightarrow> (int \<times> 'a loader_scheme) res option" where
  "load_kmodule in_addr module s =
     (if NULL = module then Some (Inr (- 1, s))
      else map_option (map_sum id (\<lambda>(st, s1). (status_code st, s1))) (load_module_image mod_output_ops in_addr module s))"

subsection \<open>The list of modules\<close>

text \<open>The list node of a module is at offset 0.\<close>

definition null_section :: relevant_section where
  "null_section = \<lparr>rs_number = 0, rs_offset = 0, rs_address = NULL\<rparr>"

definition null_kmodule :: k_module where
  "null_kmodule = \<lparr>km_base = NULL, km_offset = 0, km_text = null_section, km_rodata = null_section,
     km_data = null_section, km_bss = null_section, km_entry = NULL\<rparr>"

definition alloc_kmodule :: "'a loader_scheme switch \<Rightarrow> ptr \<Rightarrow> 'a loader_scheme \<Rightarrow> (ptr \<times> 'a loader_scheme) option" where
  "alloc_kmodule others w s =
     (case kmalloc_block s of (module, s1) \<Rightarrow>
        if NULL = module then Some (NULL, s1)
        else map_option (\<lambda>s2. (module, up (kmod_sem s2) (s2\<lparr>links := list_add_tail module (k_module_root s2) (links s2)\<rparr>)))
               (down others w (kmod_sem s1) (upd_kmod module (\<lambda>_. null_kmodule) s1)))"

definition free_kmodule :: "'a loader_scheme switch \<Rightarrow> ptr \<Rightarrow> ptr \<Rightarrow> 'a loader_scheme \<Rightarrow> 'a loader_scheme option" where
  "free_kmodule others w kmod s =
     (if NULL = kmod then Some s
      else map_option (\<lambda>s1.
        let s2 = up (kmod_sem s1) (s1\<lparr>links := list_del kmod (links s1)\<rparr>);
            s3 = fold (mo_free_segment mod_output_ops kmod)
                   [MODULE_SEG_TEXT, MODULE_SEG_RODATA, MODULE_SEG_DATA, MODULE_SEG_BSS] s2
        in kfree_block kmod s3) (down others w (kmod_sem s) s))"

text \<open>The name is the first field of \<open>entry\<close>; a module without entry has none.\<close>

partial_function (option) find_module_loop :: "ptr \<Rightarrow> ptr \<Rightarrow> 'a loader_scheme \<Rightarrow> ptr res option" where
  "find_module_loop nm kmod s =
     (if kmod = k_module_root s then Some (Inr NULL)
      else if km_entry (kmod_at s kmod) = NULL then Some (Inl Null_Deref)
      else Option.bind (strcmp (km_entry (kmod_at s kmod)) nm (mem s)) (\<lambda>r.
        if r = 0 then Some (Inr kmod) else find_module_loop nm (nxt (links s) kmod) s))"

definition find_module_by_name :: "ptr \<Rightarrow> 'a loader_scheme \<Rightarrow> ptr res option" where
  "find_module_by_name nm s =
     (if NULL = nm then Some (Inr NULL) else find_module_loop nm (nxt (links s) (k_module_root s)) s)"

subsection \<open>What the output operations promise\<close>

lemma copy_mem_sel [simp]:
  "mem (copy_mem d b n s) = snd (memcpy d b n (mem s))" "frame (copy_mem d b n s) = frame s"
  "kmod_at (copy_mem d b n s) = kmod_at s"
  by (simp_all add: copy_mem_def)


text \<open>A write appends to the segment: it stores the bytes of the buffer behind what is already there.\<close>

lemma block_addrs_split:
  "k \<le> n \<Longrightarrow> block_addrs p n = block_addrs p k \<union> block_addrs (p + of_nat k) (n - k)"
proof
  assume k: "k \<le> n"
  show "block_addrs p n \<subseteq> block_addrs p k \<union> block_addrs (p + of_nat k) (n - k)"
  proof
    fix a assume "a \<in> block_addrs p n"
    then obtain i where i: "i < n" "a = p + of_nat i" by (auto simp: block_addrs_iff)
    show "a \<in> block_addrs p k \<union> block_addrs (p + of_nat k) (n - k)"
    proof (cases "i < k")
      case False
      then have "i - k < n - k" "a = p + of_nat k + of_nat (i - k)" using i k by (simp_all add: of_nat_diff)
      then show ?thesis unfolding block_addrs_iff Un_iff by blast
    qed (use i in \<open>auto simp: block_addrs_iff\<close>)
  qed
  show "block_addrs p k \<union> block_addrs (p + of_nat k) (n - k) \<subseteq> block_addrs p n"
    using k block_addrs_offset [of 0 k n p] block_addrs_offset [of k "n - k" n p] by simp
qed

lemma block_addrs_mono: "k \<le> n \<Longrightarrow> block_addrs p k \<subseteq> block_addrs p n"
  using block_addrs_offset [of 0 k n p] by simp

lemma shift_both: "(addr :: ptr) + 16 + (a - (q + 16)) = addr + (a - q)"
  by (simp add: algebra_simps)

text \<open>A copy through a buffer is a copy, outside the buffer.\<close>

lemma copy_through_buffer:
  assumes "block_addrs addr (unat n) \<inter> block_addrs buf (unat n) = {}"
    and "block_addrs buf (unat n) \<inter> block_addrs dst (unat n) = {}" and "a \<notin> block_addrs buf (unat n)"
  shows "snd (memcpy dst buf n (snd (memcpy buf addr n m))) a =
    (if a \<in> block_addrs dst (unat n) then m (addr + (a - dst)) else m a)"
proof (cases "a \<in> block_addrs dst (unat n)")
  case True
  then obtain i where i: "i < unat n" "a = dst + of_nat i" by (auto simp: block_addrs_iff)
  then have "buf + of_nat i \<in> block_addrs buf (unat n)" by (auto simp: block_addrs_iff)
  then show ?thesis using i True by (simp add: memcpy_spec assms)
qed (simp add: memcpy_spec assms)

text \<open>A copy of 16 bytes followed by a copy of the rest is a copy of the whole.\<close>

lemma copied_in_two:
  fixes addr dst :: ptr
  assumes n: "16 \<le> n"
    and "block_addrs addr n \<inter> block_addrs buf 16 = {}" "block_addrs addr n \<inter> block_addrs dst n = {}"
    and m1: "\<And>a. a \<notin> block_addrs buf 16 \<Longrightarrow> m1 a = (if a \<in> block_addrs dst 16 then m (addr + (a - dst)) else m a)"
    and m2: "\<And>a. a \<notin> block_addrs buf 16 \<Longrightarrow> m2 a = (if a \<in> block_addrs (dst + 16) (n - 16) then m1 (addr + (a - dst)) else m1 a)"
    and a: "a \<notin> block_addrs buf 16"
  shows "m2 a = (if a \<in> block_addrs dst n then m (addr + (a - dst)) else m a)"
proof -
  have cover: "block_addrs p n = block_addrs p 16 \<union> block_addrs (p + 16) (n - 16)" for p :: ptr
    using block_addrs_split [OF n, of p] by simp
  show ?thesis
  proof (cases "a \<in> block_addrs (dst + 16) (n - 16)")
    case True
    then obtain i where "i < n - 16" "a = dst + 16 + of_nat i" by (auto simp: block_addrs_iff)
    then have "addr + (a - dst) \<in> block_addrs addr n"
      unfolding cover by (auto simp: block_addrs_iff algebra_simps)
    then have "addr + (a - dst) \<notin> block_addrs buf 16" "addr + (a - dst) \<notin> block_addrs dst n" using assms(2,3) by blast+
    then show ?thesis using True m2 [OF a] m1 by (simp add: cover)
  next
    case False
    then show ?thesis using m2 [OF a] m1 [OF a] by (simp add: cover)
  qed
qed

locale module_output =
  fixes ops :: "'a loader_scheme module_output_ops" and base :: "ptr \<Rightarrow> 'a loader_scheme \<Rightarrow> ptr"
  assumes write_len: "fst (mo_write_segment ops output buf len s) = len"
    and write_mem: "mem (snd (mo_write_segment ops output buf len s)) =
      snd (memcpy (base output s + mo_segment_offset ops output s) buf len (mem s))"
    and write_offset: "mo_segment_offset ops output (snd (mo_write_segment ops output buf len s)) =
      mo_segment_offset ops output s + len"
    and write_base: "base output (snd (mo_write_segment ops output buf len s)) = base output s"
    and write_frame: "frame (snd (mo_write_segment ops output buf len s)) = frame s"
    and mem_offset: "mo_segment_offset ops output (s\<lparr>mem := m\<rparr>) = mo_segment_offset ops output s"
    and mem_base: "base output (s\<lparr>mem := m\<rparr>) = base output s"
    and start_ok: "fst (mo_start_segment ops output t addr len s) = MODULE_OK"
    and start_base: "base output (snd (mo_start_segment ops output t addr len s)) = addr"
    and start_offset: "mo_segment_offset ops output (snd (mo_start_segment ops output t addr len s)) = 0"
    and start_mem: "mem (snd (mo_start_segment ops output t addr len s)) = mem s"
    and start_frame: "frame (snd (mo_start_segment ops output t addr len s)) = frame s"
begin

lemma write_cases:
  obtains s1 where "mo_write_segment ops output buf len s = (len, s1)"
    and "mem s1 = snd (memcpy (base output s + mo_segment_offset ops output s) buf len (mem s))"
    and "mo_segment_offset ops output s1 = mo_segment_offset ops output s + len"
    and "base output s1 = base output s" and "frame s1 = frame s"
  using write_len write_mem write_offset write_base write_frame by (metis prod.collapse)

lemma copy_chunk:
  fixes s :: "'a loader_scheme"
  assumes "unat len \<le> 16" "block_addrs addr (unat len) \<inter> block_addrs (fr_copy_buf (frame s)) 16 = {}"
    and "block_addrs (base output s + mo_segment_offset ops output s) (unat len) \<inter> block_addrs (fr_copy_buf (frame s)) 16 = {}"
  obtains s1 where "mo_write_segment ops output (fr_copy_buf (frame s)) len (copy_mem (fr_copy_buf (frame s)) addr len s) = (len, s1)"
    and "mo_segment_offset ops output s1 = mo_segment_offset ops output s + len"
    and "base output s1 = base output s" and "frame s1 = frame s"
    and "\<And>a. a \<notin> block_addrs (fr_copy_buf (frame s)) 16 \<Longrightarrow>
      mem s1 a = (if a \<in> block_addrs (base output s + mo_segment_offset ops output s) (unat len)
        then mem s (addr + (a - (base output s + mo_segment_offset ops output s))) else mem s a)"
proof -
  let ?buf = "fr_copy_buf (frame s)" and ?dst = "base output s + mo_segment_offset ops output s"
  obtain s1 where s1: "mo_write_segment ops output ?buf len (copy_mem ?buf addr len s) = (len, s1)"
      "mem s1 = snd (memcpy ?dst ?buf len (snd (memcpy ?buf addr len (mem s))))"
      "mo_segment_offset ops output s1 = mo_segment_offset ops output s + len" "base output s1 = base output s" "frame s1 = frame s"
    using write_cases [of "output" ?buf len "copy_mem ?buf addr len s"]
    by (metis copy_mem_def copy_mem_sel mem_offset mem_base)
  have "mem s1 a = (if a \<in> block_addrs ?dst (unat len) then mem s (addr + (a - ?dst)) else mem s a)"
    if "a \<notin> block_addrs ?buf 16" for a
    unfolding s1(2) using assms block_addrs_mono [OF assms(1), of ?buf] that by (intro copy_through_buffer) blast+
  with that [OF s1(1,3-5)] show thesis by blast
qed

text \<open>Copying in pieces of 16 bytes through a buffer copies the whole.\<close>

lemma copy_segment_loop_copies:
  fixes s :: "'a loader_scheme"
  assumes "block_addrs addr (unat len) \<inter> block_addrs (fr_copy_buf (frame s)) 16 = {}"
    and "block_addrs (base output s + mo_segment_offset ops output s) (unat len) \<inter> block_addrs (fr_copy_buf (frame s)) 16 = {}"
    and "block_addrs addr (unat len) \<inter> block_addrs (base output s + mo_segment_offset ops output s) (unat len) = {}"
  shows "\<exists>s'. copy_segment_loop ops addr output len s = (MODULE_OK, s') \<and>
    mo_segment_offset ops output s' = mo_segment_offset ops output s + len \<and> base output s' = base output s \<and>
    frame s' = frame s \<and>
    (\<forall>a. a \<notin> block_addrs (fr_copy_buf (frame s)) 16 \<longrightarrow>
      mem s' a = (if a \<in> block_addrs (base output s + mo_segment_offset ops output s) (unat len)
        then mem s (addr + (a - (base output s + mo_segment_offset ops output s))) else mem s a))"
  using assms
proof (induction "unat len" arbitrary: addr len s rule: less_induct)
  case less
  let ?buf = "fr_copy_buf (frame s)" and ?dst = "base output s + mo_segment_offset ops output s"
  show ?case
  proof (cases "len > 16")
    case False
    then have "unat len \<le> 16" by (simp add: word_less_nat_alt)
    from copy_chunk [OF this less.prems(1,2)] obtain s1 where
      "mo_write_segment ops output ?buf len (copy_mem ?buf addr len s) = (len, s1)"
      "mo_segment_offset ops output s1 = mo_segment_offset ops output s + len" "base output s1 = base output s" "frame s1 = frame s"
      "\<And>a. a \<notin> block_addrs ?buf 16 \<Longrightarrow> mem s1 a = (if a \<in> block_addrs ?dst (unat len) then mem s (addr + (a - ?dst)) else mem s a)"
      by blast
    then show ?thesis using False by (subst copy_segment_loop.simps) (simp add: Let_def)
  next
    case True
    then have n: "16 \<le> unat len" "16 < unat len" by (simp_all add: word_less_nat_alt)
    then have n16: "unat (len - 16) = unat len - 16" by (simp add: unat_sub_no_wrap)
    have cover: "block_addrs p (unat len) = block_addrs p 16 \<union> block_addrs (p + 16) (unat len - 16)" for p :: ptr
      using block_addrs_split [OF n(1), of p] by simp
    obtain s1 where s1: "mo_write_segment ops output ?buf 16 (copy_mem ?buf addr 16 s) = (16, s1)"
      "mo_segment_offset ops output s1 = mo_segment_offset ops output s + 16" "base output s1 = base output s" "frame s1 = frame s"
      "\<And>a. a \<notin> block_addrs ?buf 16 \<Longrightarrow> mem s1 a = (if a \<in> block_addrs ?dst 16 then mem s (addr + (a - ?dst)) else mem s a)"
      using copy_chunk [of 16 addr s "output"] less.prems(1,2) by (auto simp: cover Int_Un_distrib2)
    have dst: "base output s1 + mo_segment_offset ops output s1 = ?dst + 16" by (simp add: s1 algebra_simps)
    have "\<exists>s'. copy_segment_loop ops (addr + 16) output (len - 16) s1 = (MODULE_OK, s') \<and>
        mo_segment_offset ops output s' = mo_segment_offset ops output s1 + (len - 16) \<and> base output s' = base output s1 \<and>
        frame s' = frame s1 \<and>
        (\<forall>a. a \<notin> block_addrs (fr_copy_buf (frame s1)) 16 \<longrightarrow>
          mem s' a = (if a \<in> block_addrs (?dst + 16) (unat (len - 16))
            then mem s1 (addr + 16 + (a - (?dst + 16))) else mem s1 a))"
      unfolding dst [symmetric]
      by (rule less.hyps) (use less.prems n in \<open>auto simp: n16 dst s1(4) cover\<close>)
    then obtain s' where s': "copy_segment_loop ops (addr + 16) output (len - 16) s1 = (MODULE_OK, s')"
        "mo_segment_offset ops output s' = mo_segment_offset ops output s + len" "base output s' = base output s" "frame s' = frame s"
        "\<And>a. a \<notin> block_addrs ?buf 16 \<Longrightarrow> mem s' a = (if a \<in> block_addrs (?dst + 16) (unat len - 16)
            then mem s1 (addr + (a - ?dst)) else mem s1 a)"
      by (auto simp: s1 n16 shift_both)
    note whole = copied_in_two [OF n(1) less.prems(1,3) s1(5) s'(5)]
    show ?thesis using True s'(1-4) s1(1) whole by (subst copy_segment_loop.simps) (simp add: Let_def)
  qed
qed

text \<open>Writing the array of zeros again and again fills the segment with zeros.\<close>

lemma bss_loop_zeros:
  fixes s :: "'a loader_scheme"
  assumes "block_addrs (base output s + mo_segment_offset ops output s) (unat len) \<inter> block_addrs (fr_zeros (frame s)) 16 = {}"
    and "\<And>a. a \<in> block_addrs (fr_zeros (frame s)) 16 \<Longrightarrow> mem s a = 0"
  shows "\<exists>s'. bss_loop ops output len s = (MODULE_OK, s') \<and> frame s' = frame s \<and>
    (\<forall>a. mem s' a = (if a \<in> block_addrs (base output s + mo_segment_offset ops output s) (unat len) then 0 else mem s a))"
  using assms
proof (induction "unat len" arbitrary: len s rule: less_induct)
  case less
  let ?z = "fr_zeros (frame s)" and ?dst = "base output s + mo_segment_offset ops output s"
  define n where "n = (if len > 16 then 16 else len)"
  have n: "unat n \<le> 16" "unat n \<le> unat len" by (auto simp: n_def word_less_nat_alt)
  obtain s1 where s1: "mo_write_segment ops output ?z n s = (n, s1)" "mem s1 = snd (memcpy ?dst ?z n (mem s))"
      "mo_segment_offset ops output s1 = mo_segment_offset ops output s + n"
      "base output s1 = base output s" "frame s1 = frame s"
    using write_cases by blast
  have "block_addrs ?z (unat n) \<inter> block_addrs ?dst (unat n) = {}"
    using less.prems(1) block_addrs_mono [OF n(1), of ?z] block_addrs_mono [OF n(2), of ?dst] by blast
  moreover have "mem s (?z + (a - ?dst)) = 0" if "a \<in> block_addrs ?dst (unat n)" for a
  proof -
    obtain i where "i < unat n" "a = ?dst + of_nat i" using \<open>a \<in> _\<close> by (auto simp: block_addrs_iff)
    then have "i < 16" "?z + (a - ?dst) = ?z + of_nat i" using n(1) by simp_all
    then have "?z + (a - ?dst) \<in> block_addrs ?z 16" unfolding block_addrs_iff by blast
    then show ?thesis by (rule less.prems(2))
  qed
  ultimately have m1: "mem s1 a = (if a \<in> block_addrs ?dst (unat n) then 0 else mem s a)" for a
    by (simp add: s1(2) memcpy_spec)
  show ?case
  proof (cases "len > 16")
    case False
    then show ?thesis
      using s1(1,5) m1 by (subst bss_loop.simps) (simp add: n_def)
  next
    case True
    then have k: "16 < unat len" "n = 16" by (simp_all add: n_def word_less_nat_alt)
    then have n16: "unat (len - 16) = unat len - 16" by (simp add: unat_sub_no_wrap)
    have cover: "block_addrs ?dst (unat len) = block_addrs ?dst 16 \<union> block_addrs (?dst + 16) (unat len - 16)"
      using block_addrs_split [of 16 "unat len" ?dst] k by simp
    have dst: "base output s1 + mo_segment_offset ops output s1 = ?dst + 16" by (simp add: s1 k algebra_simps)
    have "\<exists>s'. bss_loop ops output (len - 16) s1 = (MODULE_OK, s') \<and> frame s' = frame s1 \<and>
        (\<forall>a. mem s' a = (if a \<in> block_addrs (?dst + 16) (unat (len - 16)) then 0 else mem s1 a))"
      unfolding dst [symmetric]
      by (rule less.hyps) (use less.prems k m1 in \<open>auto simp: n16 dst s1(5) cover\<close>)
    then show ?thesis
      using True s1(1,5) m1 k by (subst bss_loop.simps) (auto simp: n16 cover)
  qed
qed

end

interpretation kmod_out: module_output mod_output_ops "\<lambda>output s. km_base (kmod_at s output)"
  by unfold_locales
    (simp_all add: mod_output_ops_def write_segment_def start_segment_def segment_offset_def upd_kmod_def copy_mem_def Let_def)

subsection \<open>Sections without relocations\<close>

text \<open>Where the section of a segment lies in the image, and where the segment was allocated.\<close>

definition sec_addr :: "elf_info \<Rightarrow> seg_type \<Rightarrow> ptr" where
  "sec_addr elf t = input_addr elf + s_offset (secs elf (sec_of t))"

definition seg_addr :: "k_module \<Rightarrow> seg_type \<Rightarrow> ptr" where
  "seg_addr km t = rs_address (seg_of t km)"

definition seg_len :: "elf_info \<Rightarrow> seg_type \<Rightarrow> nat" where
  "seg_len elf t = unat (s_size (secs elf (sec_of t)))"

definition seg_area :: "elf_info \<Rightarrow> k_module \<Rightarrow> seg_type \<Rightarrow> ptr set" where
  "seg_area elf km t = block_addrs (seg_addr km t) (seg_len elf t)"

definition sec_area :: "elf_info \<Rightarrow> seg_type \<Rightarrow> ptr set" where
  "sec_area elf t = block_addrs (sec_addr elf t) (seg_len elf t)"

text \<open>No two segments overlap, no segment overlaps a section of the image or the array of zeros.\<close>

definition segs_apart :: "elf_info \<Rightarrow> k_module \<Rightarrow> ptr \<Rightarrow> bool" where
  "segs_apart elf km zeros \<longleftrightarrow>
     (\<forall>t u. t \<noteq> u \<longrightarrow> seg_area elf km t \<inter> seg_area elf km u = {}) \<and>
     (\<forall>t u. u \<noteq> MODULE_SEG_BSS \<longrightarrow> seg_area elf km t \<inter> sec_area elf u = {}) \<and>
     (\<forall>t. seg_area elf km t \<inter> block_addrs zeros 16 = {})"

lemma relocate_segs_copy:
  assumes "segs_apart elf (kmod_at s output) z" and "\<forall>t \<in> set ts. t \<noteq> MODULE_SEG_BSS \<and> s_relsize (secs elf (sec_of t)) = 0"
    and "distinct ts"
  shows "\<exists>s'. relocate_segs ops elf output ts s = Some (Inr (MODULE_OK, s')) \<and> frame s' = frame s \<and> kmod_at s' = kmod_at s \<and>
    (\<forall>t \<in> set ts. \<forall>a \<in> seg_area elf (kmod_at s output) t. mem s' a = mem s (sec_addr elf t + (a - seg_addr (kmod_at s output) t))) \<and>
    (\<forall>a. a \<notin> (\<Union>t \<in> set ts. seg_area elf (kmod_at s output) t) \<longrightarrow> mem s' a = mem s a)"
  using assms
proof (induction ts arbitrary: s)
  case Nil
  then show ?case by simp
next
  case (Cons t ts)
  let ?km = "kmod_at s output"
  define s1 where "s1 = copy_mem (seg_addr ?km t) (sec_addr elf t) (s_size (secs elf (sec_of t))) s"
  have s1: "frame s1 = frame s" "kmod_at s1 = kmod_at s" by (simp_all add: s1_def)
  have m1: "mem s1 a = (if a \<in> seg_area elf ?km t then mem s (sec_addr elf t + (a - seg_addr ?km t)) else mem s a)" for a
    using Cons.prems(1,2) memcpy_spec [of "sec_addr elf t" "s_size (secs elf (sec_of t))" "seg_addr ?km t" "mem s" a]
    by (auto simp: s1_def segs_apart_def seg_area_def sec_area_def seg_len_def Int_commute)
  have "relocate_seg ops elf output t s = Some (Inr (MODULE_OK, s1))"
    using Cons.prems(2) by (simp add: relocate_seg_def Let_def seg_addr_def sec_addr_def s1_def)
  moreover obtain s' where s': "relocate_segs ops elf output ts s1 = Some (Inr (MODULE_OK, s'))" "frame s' = frame s"
      "kmod_at s' = kmod_at s"
      "\<forall>u \<in> set ts. \<forall>a \<in> seg_area elf ?km u. mem s' a = mem s1 (sec_addr elf u + (a - seg_addr ?km u))"
      "\<forall>a. a \<notin> (\<Union>u \<in> set ts. seg_area elf ?km u) \<longrightarrow> mem s' a = mem s1 a"
    using Cons.IH [of s1] Cons.prems unfolding s1 by auto
  moreover have "mem s1 (sec_addr elf u + (a - seg_addr ?km u)) = mem s (sec_addr elf u + (a - seg_addr ?km u))"
    if u: "u \<in> set ts" and a: "a \<in> seg_area elf ?km u" for u a
  proof -
    obtain i where "i < seg_len elf u" "a = seg_addr ?km u + of_nat i"
      using a by (auto simp: seg_area_def block_addrs_iff)
    then have "sec_addr elf u + (a - seg_addr ?km u) \<in> sec_area elf u" by (auto simp: sec_area_def block_addrs_iff)
    moreover have "seg_area elf ?km t \<inter> sec_area elf u = {}"
      using Cons.prems(1,2) u by (simp add: segs_apart_def)
    ultimately have "sec_addr elf u + (a - seg_addr ?km u) \<notin> seg_area elf ?km t" by blast
    then show ?thesis by (simp add: m1)
  qed
  ultimately have r1: "\<And>u a. u \<in> set ts \<Longrightarrow> a \<in> seg_area elf ?km u \<Longrightarrow> mem s' a = mem s (sec_addr elf u + (a - seg_addr ?km u))"
      "relocate_segs ops elf output (t # ts) s = Some (Inr (MODULE_OK, s'))"
    by simp_all
  have "seg_area elf ?km t \<inter> seg_area elf ?km u = {}" if "u \<in> set ts" for u
  proof -
    have "t \<noteq> u" using Cons.prems(3) that by auto
    then show ?thesis using Cons.prems(1) unfolding segs_apart_def by simp
  qed
  then have "seg_area elf ?km t \<inter> (\<Union>u \<in> set ts. seg_area elf ?km u) = {}" by blast
  then have "mem s' a = mem s (sec_addr elf t + (a - seg_addr ?km t))" if "a \<in> seg_area elf ?km t" for a
  proof -
    assume "seg_area elf ?km t \<inter> (\<Union>u \<in> set ts. seg_area elf ?km u) = {}"
    then have "mem s' a = mem s1 a" using s'(5) that by blast
    then show ?thesis using m1 [of a] that by simp
  qed
  then have "\<forall>u \<in> set (t # ts). \<forall>a \<in> seg_area elf ?km u. mem s' a = mem s (sec_addr elf u + (a - seg_addr ?km u))"
    using r1(1) by simp
  moreover have "\<forall>a. a \<notin> (\<Union>u \<in> set (t # ts). seg_area elf ?km u) \<longrightarrow> mem s' a = mem s a"
    using s'(5) m1 by simp
  ultimately show ?case using r1(2) s'(2,3) by blast
qed

text \<open>
  C12. A module whose sections need no relocation is loaded as it is in the image: \<open>relocate_segment\<close>
  returns \<open>MODULE_OK\<close>, every byte of the segments of \<open>.text\<close>, \<open>.rodata\<close> and \<open>.data\<close> is the byte at the
  same place of its section, every byte of the segment of \<open>.bss\<close> is 0, and nothing outside the
  segments has changed.
\<close>

theorem relocate_segment_copies_sections:
  fixes s :: "'a loader_scheme"
  assumes "segs_apart elf (kmod_at s output) (fr_zeros (frame s))"
    and "\<And>t. s_relsize (secs elf (sec_of t)) = 0" and "block (mem s) (fr_zeros (frame s)) 16 = replicate 16 0"
  shows "\<exists>s'. relocate_segment mod_output_ops elf output s = Some (Inr (MODULE_OK, s')) \<and>
    (\<forall>t. block (mem s') (seg_addr (kmod_at s output) t) (seg_len elf t) =
      (if t = MODULE_SEG_BSS then replicate (seg_len elf t) 0 else block (mem s) (sec_addr elf t) (seg_len elf t))) \<and>
    (\<forall>a. (\<forall>t. a \<notin> seg_area elf (kmod_at s output) t) \<longrightarrow> mem s' a = mem s a)"
proof -
  let ?km = "kmod_at s output" and ?ts = "[MODULE_SEG_TEXT, MODULE_SEG_RODATA, MODULE_SEG_DATA]"
  let ?len = "s_size (secs elf SEC_TYPE_BSS)"
  have in_ts: "t \<in> set ?ts \<longleftrightarrow> t \<noteq> MODULE_SEG_BSS" for t by (cases t) simp_all
  obtain s1 where s1: "relocate_segs mod_output_ops elf output ?ts s = Some (Inr (MODULE_OK, s1))" "frame s1 = frame s"
      "kmod_at s1 = kmod_at s"
      "\<forall>t \<in> set ?ts. \<forall>a \<in> seg_area elf ?km t. mem s1 a = mem s (sec_addr elf t + (a - seg_addr ?km t))"
      "\<forall>a. a \<notin> (\<Union>t \<in> set ?ts. seg_area elf ?km t) \<longrightarrow> mem s1 a = mem s a"
    using relocate_segs_copy [OF assms(1), of ?ts mod_output_ops] assms(2) by auto
  let ?addr = "rs_address (km_bss ?km)"
  let ?start = "mo_start_segment mod_output_ops output MODULE_SEG_BSS ?addr ?len s1"
  obtain s2 where st: "?start = (MODULE_OK, s2)" by (metis kmod_out.start_ok prod.collapse)
  note start = kmod_out.start_base [of "output" MODULE_SEG_BSS ?addr ?len s1] kmod_out.start_offset [of "output" MODULE_SEG_BSS ?addr ?len s1]
    kmod_out.start_frame [of "output" MODULE_SEG_BSS ?addr ?len s1] kmod_out.start_mem [of "output" MODULE_SEG_BSS ?addr ?len s1]
  have z: "mem s1 a = 0" if "a \<in> block_addrs (fr_zeros (frame s)) 16" for a
  proof -
    have "a \<notin> (\<Union>t \<in> set ?ts. seg_area elf ?km t)" using that assms(1) unfolding segs_apart_def by blast
    moreover have "mem s a = 0" using that assms(3) by (auto simp: block_eq_iff block_addrs_iff)
    ultimately show ?thesis using s1(5) by simp
  qed
  have bss: "seg_area elf ?km MODULE_SEG_BSS = block_addrs ?addr (unat ?len)"
    by (simp add: seg_area_def seg_addr_def seg_len_def seg_of_def sec_of_def)
  then have "block_addrs ?addr (unat ?len) \<inter> block_addrs (fr_zeros (frame s)) 16 = {}"
    using assms(1) unfolding segs_apart_def by metis
  then obtain s' where s': "bss_loop mod_output_ops output ?len s2 = (MODULE_OK, s')"
      "\<forall>a. mem s' a = (if a \<in> seg_area elf ?km MODULE_SEG_BSS then 0 else mem s1 a)"
    using kmod_out.bss_loop_zeros [of s2 "output" ?len] z start [unfolded st snd_conv]
    by (auto simp: s1(2) bss)
  have "relocate_segment mod_output_ops elf output s = Some (Inr (MODULE_OK, s'))"
    using s1(1) s'(1) st unfolding relocate_segment_def
    by (simp add: Let_def s1(3) del: relocate_segs.simps)
  moreover have "block (mem s') (seg_addr ?km t) (seg_len elf t) =
      (if t = MODULE_SEG_BSS then replicate (seg_len elf t) 0 else block (mem s) (sec_addr elf t) (seg_len elf t))" for t
  proof (cases "t = MODULE_SEG_BSS")
    case True
    then show ?thesis using s'(2) by (auto simp: block_eq_iff seg_area_def block_addrs_iff)
  next
    case False
    have "mem s' (seg_addr ?km t + of_nat i) = mem s (sec_addr elf t + of_nat i)" if "i < seg_len elf t" for i
    proof -
      have a: "seg_addr ?km t + of_nat i \<in> seg_area elf ?km t" using that by (auto simp: seg_area_def block_addrs_iff)
      then have "seg_addr ?km t + of_nat i \<notin> seg_area elf ?km MODULE_SEG_BSS"
        using False assms(1) unfolding segs_apart_def by blast
      moreover have "mem s1 (seg_addr ?km t + of_nat i) = mem s (sec_addr elf t + of_nat i)"
        using s1(4) in_ts [of t] False a by (metis add_diff_cancel_left')
      ultimately show ?thesis using s'(2) by simp
    qed
    then show ?thesis using False by (simp add: block_def)
  qed
  moreover have "mem s' a = mem s a" if "\<forall>t. a \<notin> seg_area elf ?km t" for a using that s'(2) s1(5) by simp
  ultimately show ?thesis by blast
qed

lemma block_addrs_disjoint:
  assumes "unat p + n \<le> unat q" and "unat q + k \<le> 2 ^ 32"
  shows "block_addrs p n \<inter> block_addrs q k = {}" and "block_addrs q k \<inter> block_addrs p n = {}"
proof -
  have "p + of_nat i \<noteq> q + of_nat j" if "i < n" "j < k" for i j
    using unat_offset [of p i] unat_offset [of q j] that assms by force
  then show "block_addrs p n \<inter> block_addrs q k = {}" by (auto simp: block_addrs_iff)
  then show "block_addrs q k \<inter> block_addrs p n = {}" by blast
qed

text \<open>A module at 256 with four bytes of \<open>.text\<close> at 1052 of the image and twenty of \<open>.bss\<close>.\<close>

definition example_elf :: elf_info where
  "example_elf = upd_sec SEC_TYPE_BSS (\<lambda>x. x\<lparr>s_size := 20\<rparr>)
     (upd_sec SEC_TYPE_TEXT (\<lambda>x. x\<lparr>s_offset := 52, s_size := 4\<rparr>) (empty_elf_info 1000))"

definition example_loader :: loader where
  "example_loader = sync.extend example_sync
     (loader.fields ((\<lambda>_. 0)(1052 := 1, 1053 := 2, 1054 := 3, 1055 := 4, 8192 := 9))
        (\<lambda>_. null_kmodule\<lparr>km_text := null_section\<lparr>rs_address := 4096\<rparr>, km_bss := null_section\<lparr>rs_address := 8192\<rparr>\<rparr>)
        [16384] [] [] 20480 20488
        \<lparr>fr_reloc_name = 12400, fr_local_name = 12500, fr_copy_buf = 12600, fr_word = 12700, fr_zeros = 12288,
         fr_mod_entry = 12800, fr_mod = 12900\<rparr>)"

lemma example_loader_sel [simp]:
  "mem example_loader = (\<lambda>_. 0)(1052 := 1, 1053 := 2, 1054 := 3, 1055 := 4, 8192 := 9)"
  "kmod_at example_loader 256 = null_kmodule\<lparr>km_text := null_section\<lparr>rs_address := 4096\<rparr>, km_bss := null_section\<lparr>rs_address := 8192\<rparr>\<rparr>"
  "fr_zeros (frame example_loader) = 12288" "fr_word (frame example_loader) = 12700" "fr_copy_buf (frame example_loader) = 12600"
  "symbol_table example_loader = []"
  by (simp_all add: example_loader_def sync.defs loader.defs)

lemma example_seg [simp]:
  "seg_len example_elf t = (case t of MODULE_SEG_TEXT \<Rightarrow> 4 | MODULE_SEG_BSS \<Rightarrow> 20 | _ \<Rightarrow> 0)"
  "sec_addr example_elf MODULE_SEG_TEXT = 1052"
  "seg_addr (kmod_at example_loader 256) t = (case t of MODULE_SEG_TEXT \<Rightarrow> 4096 | MODULE_SEG_BSS \<Rightarrow> 8192 | _ \<Rightarrow> 0)"
  "s_relsize (secs example_elf i) = 0"
  by (cases t; simp add: seg_len_def sec_addr_def seg_addr_def sec_of_def seg_of_def example_elf_def empty_elf_info_def
      upd_sec_def null_kmodule_def null_section_def)+

lemma block_addrs_0 [simp]: "block_addrs p 0 = {}"
  by (simp add: block_addrs_def)

lemma example_apart: "segs_apart example_elf (kmod_at example_loader 256) 12288"
proof -
  have a: "seg_area example_elf (kmod_at example_loader 256) t =
      (case t of MODULE_SEG_TEXT \<Rightarrow> block_addrs 4096 4 | MODULE_SEG_BSS \<Rightarrow> block_addrs 8192 20 | _ \<Rightarrow> {})" for t
    by (cases t) (simp_all add: seg_area_def del: example_loader_sel(2))
  have b: "sec_area example_elf t = (case t of MODULE_SEG_TEXT \<Rightarrow> block_addrs 1052 4 | _ \<Rightarrow> {})" if "t \<noteq> MODULE_SEG_BSS" for t
    using that by (cases t) (simp_all add: sec_area_def)
  have d: "block_addrs 4096 4 \<inter> block_addrs 8192 20 = ({} :: ptr set)" "block_addrs 1052 4 \<inter> block_addrs 4096 4 = ({} :: ptr set)"
      "block_addrs 1052 4 \<inter> block_addrs 8192 20 = ({} :: ptr set)" "block_addrs 4096 4 \<inter> block_addrs 12288 16 = ({} :: ptr set)"
      "block_addrs 8192 20 \<inter> block_addrs 12288 16 = ({} :: ptr set)"
    by (rule block_addrs_disjoint; simp)+
  show ?thesis unfolding segs_apart_def a using b d
    by (auto split: seg_type.splits)
qed

lemma replicate_16: "replicate 16 x = [x, x, x, x, x, x, x, x, x, x, x, x, x, x, x, x]"
  by (simp add: numeral_eq_Suc)

theorem relocate_segment_copies_sections_witness:
  "\<exists>s'. relocate_segment mod_output_ops example_elf 256 example_loader = Some (Inr (MODULE_OK, s')) \<and>
     block (mem s') 4096 4 = [1, 2, 3, 4] \<and> block (mem s') 8192 20 = replicate 20 0"
proof -
  have z: "block (mem example_loader) (fr_zeros (frame example_loader)) 16 = replicate 16 0"
    unfolding replicate_16 by (simp add: block_def upt_rec)
  have ap: "segs_apart example_elf (kmod_at example_loader 256) (fr_zeros (frame example_loader))"
    using example_apart by simp
  have t: "block (mem example_loader) 1052 4 = [1, 2, 3, 4]" by (simp add: block_def upt_rec)
  obtain s' where s': "relocate_segment mod_output_ops example_elf 256 example_loader = Some (Inr (MODULE_OK, s'))"
      "\<forall>t. block (mem s') (seg_addr (kmod_at example_loader 256) t) (seg_len example_elf t) =
      (if t = MODULE_SEG_BSS then replicate (seg_len example_elf t) 0
       else block (mem example_loader) (sec_addr example_elf t) (seg_len example_elf t))"
    using relocate_segment_copies_sections [OF ap _ z] by auto
  from s'(2) [rule_format, of MODULE_SEG_TEXT] s'(2) [rule_format, of MODULE_SEG_BSS] s'(1) t
  show ?thesis by (simp del: example_loader_sel(1,2))
qed

subsection \<open>Relocated branches\<close>

text \<open>The displacement of a branch: the 24 bits of the instruction, shifted and sign-extended.\<close>

definition branch_disp :: "u32 \<Rightarrow> u32" where
  "branch_disp w = signed_take_bit 25 (push_bit 2 w)"

lemma branch_masks: "(0x00ffffff :: u32) = mask 24" "(0xff000000 :: u32) = NOT (mask 24)"
  by (simp_all add: mask_eq_exp_minus_1)

lemma word_take_bit_add: "take_bit n (take_bit n a + take_bit n b) = take_bit n (a + b :: 'a::len word)"
  by transfer (metis take_bit_add take_bit_take_bit min.commute)

lemma signed_take_bit_cong:
  "take_bit (Suc n) a = take_bit (Suc n) b \<Longrightarrow> signed_take_bit n a = signed_take_bit n (b :: 'a::len word)"
  by (simp add: signed_take_bit_eq_iff_take_bit_eq)

lemma push_bit_2: "push_bit 2 (x :: u32) = 4 * x"
  by (simp add: push_bit_eq_mult)

lemma reloc_branch_imm:
  assumes "addr - place = 4 * d"
  shows "take_bit 24 (reloc_branch addend addr place) = take_bit 24 (addend + d)"
    and "reloc_branch addend addr place AND 0xff000000 = addend AND 0xff000000"
proof -
  let ?o = "take_bit 24 addend + d"
  have eq: "reloc_branch addend addr place = (addend AND NOT (mask 24)) OR (signed_drop_bit 2 (push_bit 2 ?o) AND mask 24)"
    unfolding reloc_branch_def Let_def branch_masks assms
    by (simp add: take_bit_eq_mask [symmetric] push_bit_2 algebra_simps)
  have "take_bit 24 (reloc_branch addend addr place) = take_bit 24 ?o"
    unfolding eq by (rule bit_word_eqI) (auto simp: bit_simps)
  also have "\<dots> = take_bit 24 (addend + d)"
    using word_take_bit_add [of 24 "take_bit 24 addend" d] word_take_bit_add [of 24 addend d] by simp
  finally show "take_bit 24 (reloc_branch addend addr place) = take_bit 24 (addend + d)" .
  show "reloc_branch addend addr place AND 0xff000000 = addend AND 0xff000000"
    unfolding eq branch_masks by (rule bit_word_eqI) (auto simp: bit_simps)
qed

lemma branch_disp_take: "branch_disp w = signed_take_bit 25 (push_bit 2 (take_bit 24 w))"
  unfolding branch_disp_def by (rule signed_take_bit_cong, rule bit_word_eqI) (auto simp: bit_simps)

lemma reloc_branch_disp:
  assumes "addr - place = 4 * d"
  shows "branch_disp (reloc_branch addend addr place) = signed_take_bit 25 (branch_disp addend + (addr - place))"
proof -
  have "branch_disp (reloc_branch addend addr place) = branch_disp (addend + d)"
    using reloc_branch_imm(1) [OF assms] branch_disp_take by metis
  also have "\<dots> = signed_take_bit 25 (push_bit 2 addend + (addr - place))"
    by (simp add: branch_disp_def assms push_bit_2 algebra_simps)
  also have "\<dots> = signed_take_bit 25 (branch_disp addend + (addr - place))"
  proof (rule signed_take_bit_cong)
    have "take_bit (Suc 25) (branch_disp addend) = take_bit (Suc 25) (push_bit 2 addend)"
      by (simp add: branch_disp_def take_bit_signed_take_bit)
    then show "take_bit (Suc 25) (push_bit 2 addend + (addr - place)) = take_bit (Suc 25) (branch_disp addend + (addr - place))"
      by (metis word_take_bit_add)
  qed
  finally show ?thesis .
qed

lemma signed_take_bit_word_iff:
  "signed_take_bit 25 x = (x :: u32) \<longleftrightarrow> - (2 ^ 25) \<le> sint x \<and> sint x < 2 ^ 25"
proof -
  have "signed_take_bit 25 x = x \<longleftrightarrow> sint (signed_take_bit 25 x) = sint x" by (metis signed_word_eqI)
  also have "sint (signed_take_bit 25 x) = signed_take_bit 25 (sint x)" 
    by (rule bit_eqI) (auto simp: bit_simps min_def not_le)
  also have "signed_take_bit 25 (sint x) = sint x \<longleftrightarrow> - (2 ^ 25) \<le> sint x \<and> sint x < 2 ^ 25"
    by (rule signed_take_bit_int_eq_self_iff)
  finally show ?thesis .
qed
text \<open>
  C37. The word written for a branch relocation keeps the condition and opcode of the instruction and adds the
  distance between symbol and place to the displacement modulo 64 MiB. The branch goes to the symbol,
  moved by the old displacement, exactly if the new displacement fits into 26 bits: the code does
  not test this, so a module too far from the kernel is loaded with wrong branches.
\<close>

theorem reloc_branch_reaches_symbol:
  assumes "addr - place = 4 * d"
  shows "reloc_branch addend addr place AND 0xff000000 = addend AND 0xff000000 \<and>
    branch_disp (reloc_branch addend addr place) = signed_take_bit 25 (branch_disp addend + (addr - place)) \<and>
    (place + branch_disp (reloc_branch addend addr place) = addr + branch_disp addend \<longleftrightarrow>
      - (2 ^ 25) \<le> sint (branch_disp addend + (addr - place)) \<and> sint (branch_disp addend + (addr - place)) < 2 ^ 25)"
proof -
  let ?x = "branch_disp addend + (addr - place)"
  have "place + signed_take_bit 25 ?x = addr + branch_disp addend \<longleftrightarrow> signed_take_bit 25 ?x = ?x"
    by (auto simp: algebra_simps)
  then show ?thesis
    using reloc_branch_imm(2) [OF assms] reloc_branch_disp [OF assms] signed_take_bit_word_iff [of ?x] by simp
qed

theorem reloc_branch_reaches_symbol_witness:
  "0x8000 + branch_disp (reloc_branch 0xebfffffe 0x9000 0x8000) = 0x9000 + branch_disp 0xebfffffe \<and>
   0x8000 + branch_disp (reloc_branch 0xebfffffe 0x4008000 0x8000) \<noteq> 0x4008000 + branch_disp 0xebfffffe"
proof -
  have d: "branch_disp 0xebfffffe = - 8" by (simp add: branch_disp_def push_bit_2)
  have "(0x9000 :: ptr) - 0x8000 = 4 * 0x400" "(0x4008000 :: ptr) - 0x8000 = 4 * 0x1000000" by simp_all
  from this [THEN reloc_branch_reaches_symbol, of "0xebfffffe"] show ?thesis
    by (simp add: d)
qed

subsection \<open>One relocation\<close>

lemma word_bytes: "(ucast (ucast w :: u8) :: u32) OR push_bit 8 (ucast (ucast (drop_bit 8 w) :: u8)) OR
    push_bit 16 (ucast (ucast (drop_bit 16 w) :: u8)) OR push_bit 24 (ucast (ucast (drop_bit 24 w) :: u8)) = w"
proof (rule bit_word_eqI)
  fix n assume "n < LENGTH(32)"
  then have "n < 32" by simp
  then consider "n < 8" | "8 \<le> n" "n < 16" | "16 \<le> n" "n < 24" | "24 \<le> n" "n < 32" by (metis leI)
  then show "bit ((ucast (ucast w :: u8) :: u32) OR push_bit 8 (ucast (ucast (drop_bit 8 w) :: u8)) OR
      push_bit 16 (ucast (ucast (drop_bit 16 w) :: u8)) OR push_bit 24 (ucast (ucast (drop_bit 24 w) :: u8))) n = bit w n"
    by cases (auto simp: bit_simps)
qed

lemma load32_store32: "load32 (store32 m p w) p = w"
  using word_bytes by (simp add: load32_def store32_def)

lemma block_addrs_4: "block_addrs p 4 = {p, p + 1, p + 2, p + 3}"
  by (simp add: block_addrs_def lessThan_nat_numeral lessThan_Suc_eq_insert_0 image_image insert_commute)

lemma store32_other: "a \<notin> block_addrs p 4 \<Longrightarrow> store32 m p w a = m a"
  by (simp add: store32_def block_addrs_4)

lemma load32_cong: "(\<And>a. a \<in> block_addrs p 4 \<Longrightarrow> m' a = m (q + (a - p))) \<Longrightarrow> load32 m' p = load32 m q"
  by (simp add: load32_def block_addrs_4)

lemma patch_word:
  assumes "block_addrs buf 4 \<inter> block_addrs dst 4 = {}"
  shows "load32 (snd (memcpy dst buf 4 (store32 m buf w))) dst = w"
    and "a \<notin> block_addrs dst 4 \<Longrightarrow> a \<notin> block_addrs buf 4 \<Longrightarrow> snd (memcpy dst buf 4 (store32 m buf w)) a = m a"
proof -
  have m': "snd (memcpy dst buf 4 (store32 m buf w)) a =
      (if a \<in> block_addrs dst 4 then store32 m buf w (buf + (a - dst)) else store32 m buf w a)" for a
    using memcpy_spec [of buf 4 dst] assms by simp
  have "load32 (snd (memcpy dst buf 4 (store32 m buf w))) dst = load32 (store32 m buf w) buf"
    by (rule load32_cong) (simp add: m')
  then show "load32 (snd (memcpy dst buf 4 (store32 m buf w))) dst = w" by (simp add: load32_store32)
  show "a \<notin> block_addrs dst 4 \<Longrightarrow> a \<notin> block_addrs buf 4 \<Longrightarrow> snd (memcpy dst buf 4 (store32 m buf w)) a = m a"
    by (simp add: m' store32_other)
qed

lemma block_addrs_proper: "q \<notin> block_addrs p n \<Longrightarrow> n \<le> 2 ^ 32"
proof (rule ccontr)
  assume q: "q \<notin> block_addrs p n" and "\<not> n \<le> 2 ^ 32"
  then have "unat (q - p) < n" using unat_u32_less [of "q - p"] by simp
  then have "p + of_nat (unat (q - p)) \<in> block_addrs p n" unfolding block_addrs_iff by blast
  then show False using q by simp
qed

lemma block_addrs_consecutive:
  assumes "n + k \<le> 2 ^ 32"
  shows "block_addrs p n \<inter> block_addrs (p + of_nat n) k = {}"
proof -
  have "p + of_nat i \<noteq> p + of_nat n + of_nat j" if "i < n" "j < k" for i j
    using offset_inj [of i "n + j" p] that assms by (simp add: algebra_simps)
  then show ?thesis unfolding block_addrs_def by blast
qed

text \<open>The word a relocation of the types for data and branches puts at its place.\<close>

definition reloc_word :: "elf32_rela \<Rightarrow> u32 \<Rightarrow> ptr \<Rightarrow> ptr \<Rightarrow> u32" where
  "reloc_word rela addend addr place =
     (if ELF32_R_TYPE (r_info rela) = R_ARM_ABS32 then reloc_abs32 addend addr else reloc_branch addend addr place)"

lemma apply_relocate_word:
  assumes "ELF32_R_TYPE (r_info rela) \<in> {R_ARM_ABS32, R_ARM_PC24, R_ARM_CALL, R_ARM_JUMP24}"
  shows "apply_relocate ops in_addr output soff saddr rela addr s =
    (MODULE_OK, snd (mo_write_segment ops output (fr_word (frame s)) 4
       (s\<lparr>mem := store32 (mem s) (fr_word (frame s))
          (reloc_word rela (load32 (mem s) (in_addr + soff + r_offset rela)) addr (saddr + r_offset rela))\<rparr>)))"
  using assms by (auto simp: apply_relocate_def Let_def reloc_word_def)

text \<open>The four areas of memory a relocation works on.\<close>

definition reloc_areas :: "elf_info \<Rightarrow> sec_info \<Rightarrow> u32 \<Rightarrow> u32 \<Rightarrow> ptr \<Rightarrow> loader_frame \<Rightarrow> ptr set list" where
  "reloc_areas elf sec off r bas fr =
     [block_addrs (input_addr elf + s_offset sec + off) (unat (r - off) + 4), block_addrs (bas + off) (unat (r - off) + 4),
      block_addrs (fr_copy_buf fr) 16, block_addrs (fr_word fr) 4]"

lemma relocate_one_copy:
  assumes "off \<le> r" and "km_offset (kmod_at s output) = off"
    and "reloc_areas elf sec off r (km_base (kmod_at s output)) (frame s) = [S, D, B, W]"
    and "S \<inter> D = {}" and "S \<inter> B = {}" and "D \<inter> B = {}"
  obtains s1 where "(if r > off then copy_segment_data mod_output_ops (input_addr elf) (off + s_offset sec) output (r - off) s
      else (MODULE_OK, s)) = (MODULE_OK, s1)"
    and "km_offset (kmod_at s1 output) = r" and "km_base (kmod_at s1 output) = km_base (kmod_at s output)" and "frame s1 = frame s"
    and "\<And>a. a \<notin> B \<Longrightarrow> mem s1 a =
      (if a \<in> block_addrs (km_base (kmod_at s output) + off) (unat (r - off))
       then mem s (input_addr elf + s_offset sec + off + (a - (km_base (kmod_at s output) + off))) else mem s a)"
proof (cases "r > off")
  case False
  then have "r = off" using assms(1) by simp
  then show ?thesis using that [of s] assms(2) by simp
next
  case True
  let ?b = "km_base (kmod_at s output)" and ?src = "input_addr elf + (off + s_offset sec)"
  have sub: "block_addrs p (unat (r - off)) \<subseteq> block_addrs p (unat (r - off) + 4)" for p :: ptr
    by (rule block_addrs_mono) simp
  have off: "mo_segment_offset mod_output_ops output s = off"
    using assms(2) by (simp add: mod_output_ops_def segment_offset_def)
  have src: "?src = input_addr elf + s_offset sec + off" by (simp add: algebra_simps)
  have "S = block_addrs ?src (unat (r - off) + 4)" "D = block_addrs (?b + off) (unat (r - off) + 4)"
      "B = block_addrs (fr_copy_buf (frame s)) 16"
    using assms(3) by (simp_all add: reloc_areas_def src)
  then have "block_addrs ?src (unat (r - off)) \<inter> block_addrs (fr_copy_buf (frame s)) 16 = {}"
    "block_addrs (?b + off) (unat (r - off)) \<inter> block_addrs (fr_copy_buf (frame s)) 16 = {}"
    "block_addrs ?src (unat (r - off)) \<inter> block_addrs (?b + off) (unat (r - off)) = {}" and B: "B = block_addrs (fr_copy_buf (frame s)) 16"
    using assms(4-6) sub [of ?src] sub [of "?b + off"] by blast+
  from kmod_out.copy_segment_loop_copies [of ?src "r - off" s "output", unfolded off, OF this(1-3)]
  obtain s1 where "copy_segment_loop mod_output_ops ?src output (r - off) s = (MODULE_OK, s1)"
      "mo_segment_offset mod_output_ops output s1 = off + (r - off)" "km_base (kmod_at s1 output) = ?b" "frame s1 = frame s"
      "\<forall>a. a \<notin> block_addrs (fr_copy_buf (frame s)) 16 \<longrightarrow>
        mem s1 a = (if a \<in> block_addrs (?b + off) (unat (r - off)) then mem s (?src + (a - (?b + off))) else mem s a)"
    by auto
  then show ?thesis
    using True by (intro that [of s1]) (simp_all add: copy_segment_data_def mod_output_ops_def segment_offset_def B src)
qed

text \<open>
  C11. A relocation of type \<open>ABS32\<close>, \<open>PC24\<close>, \<open>CALL\<close> or \<open>JUMP24\<close> that lies at or behind the end of what has been written
  copies the section up to its place and patches the
  word there, if the section in the file, its place in memory and the two local buffers do not overlap: \<open>relocate_section\<close>'s step returns \<open>MODULE_OK\<close>, the bytes before the place are those of the
  section, the word at the place is the relocated word of the section, the segment is written up to
  the end of that word, and only the segment and the two local buffers have changed.
\<close>

theorem relocate_one_patches_word:
  fixes s :: "'a loader_scheme"
  assumes "ELF32_R_TYPE (r_info rela) \<in> {R_ARM_ABS32, R_ARM_PC24, R_ARM_CALL, R_ARM_JUMP24}"
    and "km_offset (kmod_at s output) = off" and "km_base (kmod_at s output) = bas" and "off \<le> r_offset rela"
    and "reloc_areas elf sec off (r_offset rela) bas (frame s) = [S, D, B, W]"
    and "S \<inter> D = {}" and "S \<inter> B = {}" and "D \<inter> B = {}" and "D \<inter> W = {}" and "W \<inter> B = {}"
  shows "\<exists>s'. relocate_one mod_output_ops elf output bas sec rela addr s = (MODULE_OK, s') \<and>
    km_offset (kmod_at s' output) = r_offset rela + 4 \<and>
    block (mem s') (bas + off) (unat (r_offset rela - off)) =
      block (mem s) (input_addr elf + s_offset sec + off) (unat (r_offset rela - off)) \<and>
    load32 (mem s') (bas + r_offset rela) =
      reloc_word rela (load32 (mem s) (input_addr elf + s_offset sec + r_offset rela)) addr (bas + r_offset rela) \<and>
    (\<forall>a. a \<notin> D \<union> B \<union> W \<longrightarrow> mem s' a = mem s a)"
proof -
  let ?r = "r_offset rela" and ?src = "input_addr elf + s_offset sec + off" and ?buf = "fr_word (frame s)"
  define n where "n = unat (?r - off)"
  have r: "?r = off + of_nat n" by (simp add: n_def)
  obtain s1 where s1: "(if ?r > off then copy_segment_data mod_output_ops (input_addr elf) (off + s_offset sec) output (?r - off) s
      else (MODULE_OK, s)) = (MODULE_OK, s1)" "km_offset (kmod_at s1 output) = ?r" "km_base (kmod_at s1 output) = bas"
      "frame s1 = frame s"
      "\<And>a. a \<notin> B \<Longrightarrow> mem s1 a = (if a \<in> block_addrs (bas + off) n then mem s (?src + (a - (bas + off))) else mem s a)"
    using relocate_one_copy [OF assms(4,2) assms(5) [folded assms(3)] assms(6-8)] unfolding assms(3) n_def by metis
  have areas: "S = block_addrs ?src (n + 4)" "D = block_addrs (bas + off) (n + 4)" "W = block_addrs ?buf 4"
    using assms(5) by (simp_all add: reloc_areas_def n_def)
  have split: "block_addrs p (n + 4) = block_addrs p n \<union> block_addrs (p + of_nat n) 4" for p :: ptr
    using block_addrs_split [of n "n + 4" p] by simp
  have place: "bas + off + of_nat n = bas + ?r" and elf_addr: "?src + of_nat n = input_addr elf + s_offset sec + ?r"
    by (simp_all add: r algebra_simps)
  let ?w = "reloc_word rela (load32 (mem s) (input_addr elf + s_offset sec + ?r)) addr (bas + ?r)"
  have "load32 (mem s1) (input_addr elf + s_offset sec + ?r) = load32 (mem s) (input_addr elf + s_offset sec + ?r)"
  proof (rule load32_cong)
    fix a assume "a \<in> block_addrs (input_addr elf + s_offset sec + ?r) 4"
    then have "a \<in> S" by (simp add: areas split elf_addr)
    then have "a \<notin> B" "a \<notin> D" using assms(6,7) by blast+
    then show "mem s1 a = mem s (input_addr elf + s_offset sec + ?r + (a - (input_addr elf + s_offset sec + ?r)))"
      using s1(5) [of a] by (simp add: areas split)
  qed
  then obtain s' where s': "apply_relocate mod_output_ops (input_addr elf) output (s_offset sec) bas rela addr s1 = (MODULE_OK, s')"
      "mem s' = snd (memcpy (bas + ?r) ?buf 4 (store32 (mem s1) ?buf ?w))" "km_offset (kmod_at s' output) = ?r + 4"
    using apply_relocate_word [OF assms(1), of mod_output_ops "input_addr elf" "output" "s_offset sec" bas addr s1] s1(2-4)
    by (simp add: mod_output_ops_def write_segment_def upd_kmod_def copy_mem_def Let_def)
  have segoff: "mo_segment_offset mod_output_ops output s = off"
    using assms(2) by (simp add: mod_output_ops_def segment_offset_def)
  have one: "relocate_one mod_output_ops elf output bas sec rela addr s = (MODULE_OK, s')"
    unfolding relocate_one_def Let_def segoff s1(1) by (simp add: s'(1))
  have DW: "block_addrs ?buf 4 \<inter> block_addrs (bas + ?r) 4 = {}"
    using assms(9) unfolding areas split place by blast
  note patch = patch_word [OF DW, where m = "mem s1" and w = ?w, folded s'(2)]
  have outside: "mem s' a = mem s a" if "a \<notin> D \<union> B \<union> W" for a
    using that s1(5) [of a] patch(2) [of a] by (simp add: areas split place)
  have "?buf \<notin> block_addrs (bas + off) (n + 4)" using assms(9) by (auto simp: areas block_addrs_4)
  then have apart: "block_addrs (bas + off) n \<inter> block_addrs (bas + ?r) 4 = {}"
    using block_addrs_consecutive [OF block_addrs_proper] place by metis
  have "mem s' (bas + off + of_nat i) = mem s (?src + of_nat i)" if i: "i < n" for i
  proof -
    have a: "bas + off + of_nat i \<in> block_addrs (bas + off) n" using i by (auto simp: block_addrs_iff)
    then have "bas + off + of_nat i \<notin> B" "bas + off + of_nat i \<notin> W" "bas + off + of_nat i \<notin> block_addrs (bas + ?r) 4"
      using assms(8,9) apart unfolding areas split by blast+
    then show ?thesis using s1(5) a patch(2) by (simp add: areas)
  qed
  then have "block (mem s') (bas + off) n = block (mem s) ?src n" by (rule block_cong)
  then show ?thesis using one patch(1) outside s'(3) unfolding n_def by blast
qed

text \<open>An absolute relocation at offset 4 of a section of eight bytes.\<close>

theorem relocate_one_patches_word_witness:
  "\<exists>s'. relocate_one mod_output_ops example_elf 256 4096 (secs example_elf SEC_TYPE_TEXT) \<lparr>r_offset = 4, r_info = 2\<rparr> 7
       (upd_kmod 256 (\<lambda>km. km\<lparr>km_base := 4096, km_offset := 0\<rparr>) example_loader) = (MODULE_OK, s') \<and>
     block (mem s') 4096 4 = [1, 2, 3, 4] \<and> load32 (mem s') 4100 = 7"
proof -
  let ?s = "upd_kmod 256 (\<lambda>km. km\<lparr>km_base := 4096, km_offset := 0\<rparr>) example_loader"
  let ?sec = "secs example_elf SEC_TYPE_TEXT" and ?rela = "\<lparr>r_offset = 4, r_info = 2\<rparr> :: elf32_rela"
  have e: "input_addr example_elf = 1000" "s_offset ?sec = 52"
    by (simp_all add: example_elf_def empty_elf_info_def upd_sec_def)
  have s: "km_offset (kmod_at ?s 256) = 0" "km_base (kmod_at ?s 256) = 4096" "frame ?s = frame example_loader" "mem ?s = mem example_loader"
    by (simp_all add: upd_kmod_def)
  have areas: "reloc_areas example_elf ?sec 0 (r_offset ?rela) 4096 (frame ?s) =
      [block_addrs 1052 8, block_addrs 4096 8, block_addrs 12600 16, block_addrs 12700 4]"
    by (simp add: reloc_areas_def e s)
  have d: "block_addrs 1052 8 \<inter> block_addrs 4096 8 = ({} :: ptr set)" "block_addrs 1052 8 \<inter> block_addrs 12600 16 = ({} :: ptr set)"
      "block_addrs 4096 8 \<inter> block_addrs 12600 16 = ({} :: ptr set)" "block_addrs 4096 8 \<inter> block_addrs 12700 4 = ({} :: ptr set)"
      "block_addrs 12700 4 \<inter> block_addrs 12600 16 = ({} :: ptr set)"
    by (rule block_addrs_disjoint; simp)+
  have "ELF32_R_TYPE (r_info ?rela) \<in> {R_ARM_ABS32, R_ARM_PC24, R_ARM_CALL, R_ARM_JUMP24}" by (simp add: ELF32_R_TYPE_def)
  from relocate_one_patches_word [OF this s(1,2) _ areas d, of 7]
  show ?thesis
    by (auto simp: e s reloc_word_def ELF32_R_TYPE_def reloc_abs32_def load32_def block_def upt_rec)
qed

subsection \<open>Symbols nobody defines\<close>

lemma symbol_loop_keeps_modules:
  assumes "symbol_loop elf strtab found endp symbol a s = Some r"
  shows "kmod_at (snd r) = kmod_at s"
proof (rule symbol_loop.raw_induct
    [where P = "\<lambda>elf strtab found endp symbol a s r. kmod_at (snd r) = kmod_at s", OF _ assms], goal_cases)
  case (1 loop elf strtab found endp symbol a s r)
  then show ?case
    by (auto simp: elf_seek_read_def Let_def bind_eq_Some_conv split: if_splits dest!: 1(1))
qed

text \<open>The state in which \<open>resolve_symbol\<close> has read the name of a symbol.\<close>

definition name_read :: "elf_info \<Rightarrow> elf32_sym \<Rightarrow> 'a loader_scheme \<Rightarrow> 'a loader_scheme" where
  "name_read elf sy s =
     copy_mem (fr_reloc_name (frame s)) (input_addr elf + (s_offset (secs elf SEC_TYPE_STRTAB) + st_name sy)) 30 s"

lemma resolve_falls_back:
  assumes "st_name sy \<noteq> 0" and "fr_reloc_name (frame s) \<noteq> NULL"
    and "symtab_lookup (symbol_table s) (mem (name_read elf sy s)) (fr_reloc_name (frame s)) = Some (Inr NULL)"
    and "find_local_symbol elf (fr_reloc_name (frame s)) output (name_read elf sy s) = Some (NULL, s2)"
    and "section_of (kmod_at s output) sy = Some sect"
  shows "resolve_symbol elf output sy s = Some (Inr (Inr (rs_address sect), s2))"
proof -
  have "kmod_at s2 = kmod_at s"
    using symbol_loop_keeps_modules [OF assms(4) [unfolded find_local_symbol_def]] by (simp add: name_read_def)
  moreover have "elf_seek_read elf (s_offset (secs elf SEC_TYPE_STRTAB) + st_name sy) (fr_reloc_name (frame s)) 30 s =
      (30, name_read elf sy s)"
    using assms(2) by (simp add: elf_seek_read_def name_read_def)
  moreover have "frame (name_read elf sy s) = frame s" "symbol_table (name_read elf sy s) = symbol_table s"
    by (simp_all add: name_read_def copy_mem_def)
  ultimately show ?thesis using assms(1,3-5) by (simp add: resolve_symbol_def Let_def)
qed

text \<open>
  A symbol that neither the kernel nor \<open>find_local_symbol\<close> knows is not always an error. If it is undefined
  (section 0) and the module has no \<open>.bss\<close>, whose number is then 0 as well, it is taken for a
  symbol of \<open>.bss\<close> and relocated to the address of that segment, \<open>NULL\<close> when none was allocated. A
  symbol of \<open>.rodata\<close>, which \<open>find_local_symbol\<close> never finds, is relocated to the start of the
  segment whatever its value is.
\<close>

theorem unknown_symbol_takes_section_start:
  assumes "st_name sy \<noteq> 0" and "fr_reloc_name (frame s) \<noteq> NULL"
    and "symtab_lookup (symbol_table s) (mem (name_read elf sy s)) (fr_reloc_name (frame s)) = Some (Inr NULL)"
    and "find_local_symbol elf (fr_reloc_name (frame s)) output (name_read elf sy s) = Some (NULL, s2)"
    and "kmod_at s output = km"
  shows "(st_shndx sy = 0 \<and> rs_number (km_bss km) = 0 \<longrightarrow>
      resolve_symbol elf output sy s = Some (Inr (Inr (rs_address (km_bss km)), s2))) \<and>
    (st_shndx sy = ucast (rs_number (km_rodata km)) \<and> rs_number (km_rodata km) \<notin> {rs_number (km_bss km), rs_number (km_data km)} \<longrightarrow>
      resolve_symbol elf output sy s = Some (Inr (Inr (rs_address (km_rodata km)), s2)))"
proof (intro conjI impI)
  assume "st_shndx sy = 0 \<and> rs_number (km_bss km) = 0"
  then have "section_of km sy = Some (km_bss km)" by (simp add: section_of_def)
  then show "resolve_symbol elf output sy s = Some (Inr (Inr (rs_address (km_bss km)), s2))"
    using resolve_falls_back [OF assms(1-4)] assms(5) by simp
next
  assume a: "st_shndx sy = ucast (rs_number (km_rodata km)) \<and> rs_number (km_rodata km) \<notin> {rs_number (km_bss km), rs_number (km_data km)}"
  have "unat (ucast x :: u16) = unat x" for x :: u8 by (rule unat_ucast_up) simp
  then have "(ucast x :: u16) = ucast (y :: u8) \<longleftrightarrow> x = y" for x y by (metis unsigned_word_eqI)
  then have "section_of km sy = Some (km_rodata km)" using a by (auto simp: section_of_def)
  then show "resolve_symbol elf output sy s = Some (Inr (Inr (rs_address (km_rodata km)), s2))"
    using resolve_falls_back [OF assms(1-4)] assms(5) by simp
qed

theorem unknown_symbol_takes_section_start_witness:
  "\<exists>s2. resolve_symbol example_elf 256 \<lparr>st_name = 5, st_value = 16, st_shndx = 0\<rparr> example_loader = Some (Inr (Inr 8192, s2))"
proof -
  let ?sy = "\<lparr>st_name = 5, st_value = 16, st_shndx = 0\<rparr> :: elf32_sym"
  have fr: "fr_reloc_name (frame example_loader) = 12400"
    by (simp add: example_loader_def sync.defs loader.defs)
  have "symtab_lookup (symbol_table example_loader) (mem (name_read example_elf ?sy example_loader)) (fr_reloc_name (frame example_loader)) = Some (Inr NULL)"
    by (simp add: symtab_lookup_def search_loop.simps)
  moreover have "find_local_symbol example_elf (fr_reloc_name (frame example_loader)) 256 (name_read example_elf ?sy example_loader) =
      Some (NULL, name_read example_elf ?sy example_loader)"
    by (simp add: find_local_symbol_def symbol_loop.simps symtab_end_def example_elf_def upd_sec_def empty_elf_info_def)
  moreover have "rs_number (km_bss (kmod_at example_loader 256)) = 0" "rs_address (km_bss (kmod_at example_loader 256)) = 8192"
    by (simp_all add: null_kmodule_def null_section_def)
  ultimately show ?thesis
    using unknown_symbol_takes_section_start [of ?sy example_loader example_elf 256 "name_read example_elf ?sy example_loader", OF _ _ _ _ refl] fr
    by simp
qed

subsection \<open>The size of relocation entries\<close>

lemma length_magic: "length elf_magic_header = 7"
  by (simp add: elf_magic_header_def)

lemma record_section_strtab_relas:
  "s_relas (secs (record_section nm shdr n elf) SEC_TYPE_STRTAB) = s_relas (secs elf SEC_TYPE_STRTAB)"
  by (simp add: record_section_def set_place_def set_reloc_def set_table_def upd_sec_def)

lemma section_loop_strtab_relas:
  "s_relas (secs (section_loop rest i p m elf) SEC_TYPE_STRTAB) = s_relas (secs elf SEC_TYPE_STRTAB)"
  by (induction rest arbitrary: i p elf) (simp_all add: Let_def record_section_strtab_relas)

text \<open>
  C39. A module is accepted only with the ELF magic number, a symbol table, a string table and \<open>.text\<close>, and the
  size of its relocation entries is taken from the wrong section: for \<open>.rodata\<close> from \<open>.data\<close>, and for
  \<open>.data\<close> from \<open>.strtab\<close>, which has no relocations, so that entries of \<open>.rela.data\<close>, 12 bytes
  apart, are read 8 bytes apart.
\<close>

theorem get_elf_info_accepts:
  assumes "get_elf_info (empty_elf_info in_addr) m = (MODULE_OK, elf)"
  shows "block m in_addr 7 = elf_magic_header \<and>
    (\<forall>i \<in> {SEC_TYPE_SYMTAB, SEC_TYPE_STRTAB, SEC_TYPE_TEXT}. s_size (secs elf i) \<noteq> 0) \<and>
    rel_size_of elf SEC_TYPE_DATA = 8 \<and>
    rel_size_of elf SEC_TYPE_RODATA = (if ucast (s_relas (secs elf SEC_TYPE_DATA)) \<noteq> (0 :: u8) then 12 else 8)"
proof -
  let ?e = "(empty_elf_info in_addr)\<lparr>ehdr := read_ehdr m in_addr\<rparr>"
  have in_addr: "input_addr (empty_elf_info in_addr) = in_addr" by (simp add: empty_elf_info_def)
  have magic: "take 7 (e_ident (read_ehdr m in_addr)) = elf_magic_header"
    and sec: "elf_get_sec_info ?e m = (MODULE_OK, elf)"
    using assms by (auto simp: get_elf_info_def elf_header_check_def in_addr length_magic Let_def split: if_splits)
  have "s_relas (secs elf SEC_TYPE_STRTAB) = 0"
    using sec by (auto simp: elf_get_sec_info_def Let_def section_loop_strtab_relas empty_elf_info_def)
  moreover have "take 7 (block m in_addr 16) = block m in_addr 7" by (simp add: block_def take_map)
  moreover have "s_size (secs elf SEC_TYPE_SYMTAB) \<noteq> 0 \<and> s_size (secs elf SEC_TYPE_STRTAB) \<noteq> 0 \<and> s_size (secs elf SEC_TYPE_TEXT) \<noteq> 0"
    using sec by (auto simp: elf_get_sec_info_def Let_def split: if_splits)
  moreover have idx: "SEC_TYPE_DATA + SEC_TYPE_DATA = SEC_TYPE_STRTAB" "SEC_TYPE_RODATA + SEC_TYPE_RODATA = SEC_TYPE_DATA" by simp_all
  ultimately show ?thesis using magic unfolding rel_size_of_def idx by (simp add: read_ehdr_def)
qed

text \<open>An image at 4096 with the three sections \<open>.strtab\<close>, \<open>.symtab\<close> and \<open>.text\<close>.\<close>

definition example_image :: memory where
  "example_image = (\<lambda>_. 0)(4096 := 127, 4097 := 69, 4098 := 76, 4099 := 70, 4100 := 1, 4101 := 1, 4102 := 1, 4128 := 52, 4142 := 40, 4144
     := 3, 4164 := 172, 4168 := 1, 4188 := 8, 4208 := 1, 4228 := 16, 4248 := 4, 4268 := 46, 4269 := 115, 4270 :=
     116, 4271 := 114, 4272 := 116, 4273 := 97, 4274 := 98, 4276 := 46, 4277 := 115, 4278 := 121, 4279 := 109, 4280
     := 116, 4281 := 97, 4282 := 98, 4284 := 46, 4285 := 116, 4286 := 101, 4287 := 120, 4288 := 116)"

definition example_shdr :: "nat \<Rightarrow> elf32_shdr" where
  "example_shdr i = [\<lparr>sh_name = 0, sh_offset = 172, sh_size = 1\<rparr>, \<lparr>sh_name = 8, sh_offset = 0, sh_size = 1\<rparr>,
     \<lparr>sh_name = 16, sh_offset = 0, sh_size = 4\<rparr>] ! i"

lemma example_image_reads:
  "read_ehdr example_image 4096 = \<lparr>e_ident = elf_magic_header @ [0, 0, 0, 0, 0, 0, 0, 0, 0], e_shoff = 52, e_shentsize = 40, e_shnum = 3, e_shstrndx = 0\<rparr>"
  "read_shdr example_image 4148 = example_shdr 0" "read_shdr example_image 4188 = example_shdr 1"
  "read_shdr example_image 4228 = example_shdr 2"
  by (simp_all add: read_ehdr_def read_shdr_def load32_def load16_def example_image_def block_def upt_rec elf_magic_header_def
      example_shdr_def)

lemma example_image_names:
  "block example_image 4268 12 = [46, 115, 116, 114, 116, 97, 98, 0, 46, 115, 121, 109]"
  "block example_image 4276 12 = [46, 115, 121, 109, 116, 97, 98, 0, 46, 116, 101, 120]"
  "block example_image 4284 12 = [46, 116, 101, 120, 116, 0, 0, 0, 0, 0, 0, 0]"
  by (simp_all add: block_def upt_rec example_image_def)

lemma example_record_section:
  "record_section [46, 115, 116, 114, 116, 97, 98, 0, 46, 115, 121, 109] sh n = set_table SEC_TYPE_STRTAB sh"
  "record_section [46, 115, 121, 109, 116, 97, 98, 0, 46, 116, 101, 120] sh n = set_table SEC_TYPE_SYMTAB sh"
  "record_section [46, 116, 101, 120, 116, 0, 0, 0, 0, 0, 0, 0] sh n = set_place SEC_TYPE_TEXT sh n"
  by (rule ext, simp add: record_section_def name_is_def)+

lemma section_loop_3: "section_loop 3 i p m elf = section_loop (Suc (Suc (Suc 0))) i p m elf"
  by (simp only: numeral_3_eq_3)

theorem get_elf_info_accepts_witness:
  "\<exists>elf. get_elf_info (empty_elf_info 4096) example_image = (MODULE_OK, elf) \<and> rel_size_of elf SEC_TYPE_DATA = 8"
proof -
  have "fst (get_elf_info (empty_elf_info 4096) example_image) = MODULE_OK"
    by (simp add: get_elf_info_def elf_header_check_def elf_get_sec_info_def empty_elf_info_def example_image_reads length_magic
        Let_def section_loop_3 example_image_names example_record_section set_table_def set_place_def upd_sec_def
        example_shdr_def)
  then obtain elf where "get_elf_info (empty_elf_info 4096) example_image = (MODULE_OK, elf)" by (metis prod.collapse)
  with get_elf_info_accepts [OF this] show ?thesis by blast
qed

subsection \<open>The list of modules as a sequence\<close>

definition kmods_rep :: "'a loader_scheme \<Rightarrow> ptr list \<Rightarrow> bool" where
  "kmods_rep s mods \<longleftrightarrow> ints_balanced s \<and> 0 < sem_count s (kmod_sem s) \<and> list_empty (wait_list (kmod_sem s)) (links s) \<and>
     dlist (links s) (k_module_root s) mods \<and> wait_list (kmod_sem s) \<notin> set (k_module_root s # mods)"

lemma kmods_rep_links:
  assumes "kmods_rep s mods" and "unchanged_outside S (links s) h" and "wait_list (kmod_sem s) \<notin> S"
    and "dlist h (k_module_root s) mods'" and "wait_list (kmod_sem s) \<notin> set mods'"
  shows "kmods_rep (s\<lparr>links := h\<rparr>) mods'" and "list_empty (wait_list (kmod_sem s)) h"
  using assms by (auto simp: kmods_rep_def unchanged_outside_def list_empty_def)

lemma kmods_rep_cong:
  "links t = links s \<Longrightarrow> sem_count t = sem_count s \<Longrightarrow> ints_balanced t = ints_balanced s \<Longrightarrow> kmod_sem t = kmod_sem s \<Longrightarrow>
   k_module_root t = k_module_root s \<Longrightarrow> kmods_rep t mods = kmods_rep s mods"
  by (simp add: kmods_rep_def)

lemma alloc_kmodule_rep:
  assumes "kmods_rep s mods" and "free_blocks s = p # ps" and "p \<noteq> NULL"
    and "p \<notin> set (k_module_root s # wait_list (kmod_sem s) # mods)"
  defines "s1 \<equiv> (upd_kmod p (\<lambda>_. null_kmodule) (s\<lparr>free_blocks := ps\<rparr>))\<lparr>links := list_add_tail p (k_module_root s) (links s)\<rparr>"
  shows "alloc_kmodule others w s = Some (p, s1)" and "kmods_rep s1 (mods @ [p])"
proof -
  let ?t = "upd_kmod p (\<lambda>_. null_kmodule) (s\<lparr>free_blocks := ps\<rparr>)"
  let ?h = "list_add_tail p (k_module_root s) (links s)"
  have sel: "links ?t = links s" "sem_count ?t = sem_count s" "ints_balanced ?t = ints_balanced s" "kmod_sem ?t = kmod_sem s"
      "k_module_root ?t = k_module_root s"
    by (simp_all add: upd_kmod_def ints_balanced_def)
  have rt: "kmods_rep ?t mods" using assms(1) kmods_rep_cong [OF sel] by simp
  have d: "dlist (links s) (k_module_root s) mods" "wait_list (kmod_sem s) \<notin> set (k_module_root s # mods)"
    using assms(1) by (simp_all add: kmods_rep_def)
  have "dlist ?h (k_module_root s) (mods @ [p])" by (rule list_add_tail_dlist [OF d(1)]) (use assms(4) in auto)
  then have r: "kmods_rep (?t\<lparr>links := ?h\<rparr>) (mods @ [p])" and e: "list_empty (wait_list (kmod_sem s)) ?h"
    using kmods_rep_links [OF rt, of "set (p # k_module_root s # mods)" ?h "mods @ [p]"] list_add_tail_unchanged [OF d(1), of p] d(2) assms(4)
    by (auto simp: sel)
  then show "kmods_rep s1 (mods @ [p])" by (simp add: s1_def)
  have "map_option (\<lambda>s2. (p, up (kmod_sem s2) (s2\<lparr>links := list_add_tail p (k_module_root s2) (links s2)\<rparr>)))
      (down others w (kmod_sem s) ?t) = Some (p, ?t\<lparr>links := ?h\<rparr>)"
    using down_free [of ?t "kmod_sem s" others w] assms(1) e by (simp add: kmods_rep_def sel up_free)
  then show "alloc_kmodule others w s = Some (p, s1)"
    using assms(2,3) by (simp add: alloc_kmodule_def kmalloc_block_def s1_def sel)
qed

text \<open>The blocks \<open>free_kmodule\<close> gives back.\<close>

definition kmodule_blocks :: "k_module \<Rightarrow> ptr list" where
  "kmodule_blocks km = filter (\<lambda>p. p \<noteq> NULL)
     (map (seg_addr km) [MODULE_SEG_TEXT, MODULE_SEG_RODATA, MODULE_SEG_DATA, MODULE_SEG_BSS])"

lemma free_segments:
  assumes "kmod \<noteq> NULL"
  shows "fold (mo_free_segment mod_output_ops kmod) ts s =
    s\<lparr>freed := freed s @ filter (\<lambda>p. p \<noteq> NULL) (map (seg_addr (kmod_at s kmod)) ts)\<rparr>"
  by (induction ts arbitrary: s)
    (simp_all add: mod_output_ops_def free_segment_def kfree_block_def seg_addr_def assms Let_def)

lemma free_kmodule_rep:
  assumes "kmods_rep s (xs @ kmod # ys)" and "kmod \<noteq> NULL"
  defines "s1 \<equiv> s\<lparr>links := list_del kmod (links s), freed := freed s @ kmodule_blocks (kmod_at s kmod) @ [kmod]\<rparr>"
  shows "free_kmodule others w kmod s = Some s1" and "kmods_rep s1 (xs @ ys)"
proof -
  let ?h = "list_del kmod (links s)"
  have d: "dlist (links s) (k_module_root s) (xs @ kmod # ys)" "wait_list (kmod_sem s) \<notin> set (k_module_root s # xs @ kmod # ys)"
    using assms(1) by (simp_all add: kmods_rep_def)
  have "unchanged_outside (set (k_module_root s # xs @ kmod # ys)) (links s) ?h"
    by (rule list_del_unchanged [OF d(1)]) simp
  then have r: "kmods_rep (s\<lparr>links := ?h\<rparr>) (xs @ ys)" and e: "list_empty (wait_list (kmod_sem s)) ?h"
    using kmods_rep_links [OF assms(1), of _ ?h "xs @ ys"] list_del_dlist [OF d(1)] d(2) by auto
  show "kmods_rep s1 (xs @ ys)"
    using r unfolding s1_def by (subst kmods_rep_cong [of _ "s\<lparr>links := ?h\<rparr>"]) (simp_all add: ints_balanced_def)
  show "free_kmodule others w kmod s = Some s1"
    using down_free [of s "kmod_sem s" others w] assms(1,2) e
    unfolding free_kmodule_def free_segments [OF assms(2)] kmodule_blocks_def [symmetric] s1_def Let_def
    by (simp add: kmods_rep_def up_free kfree_block_def)
qed

text \<open>The abstract search: a module without entry is the fault of following its null pointer.\<close>

fun first_module :: "(ptr \<Rightarrow> u8 list option) \<Rightarrow> u8 list \<Rightarrow> ptr list \<Rightarrow> ptr res" where
  "first_module names n [] = Inr NULL"
| "first_module names n (q # qs) =
     (case names q of None \<Rightarrow> Inl Null_Deref | Some n' \<Rightarrow> if n' = n then Inr q else first_module names n qs)"

definition named_modules :: "'a loader_scheme \<Rightarrow> (ptr \<Rightarrow> u8 list option) \<Rightarrow> ptr list \<Rightarrow> bool" where
  "named_modules s names mods \<longleftrightarrow> (\<forall>q \<in> set mods. let e = km_entry (kmod_at s q) in
     (case names q of None \<Rightarrow> e = NULL | Some n \<Rightarrow> e \<noteq> NULL \<and> cstr (mem s) e n))"

lemma find_module_loop_linked:
  "linked (links s) (mods @ [k_module_root s]) \<Longrightarrow> k_module_root s \<notin> set mods \<Longrightarrow> named_modules s names mods \<Longrightarrow>
   cstr (mem s) nm n \<Longrightarrow> find_module_loop nm (hd (mods @ [k_module_root s])) s = Some (first_module names n mods)"
proof (induction mods)
  case Nil
  then show ?case by (simp add: find_module_loop.simps)
next
  case (Cons a mods)
  have nx: "nxt (links s) a = hd (mods @ [k_module_root s])" and l: "linked (links s) (mods @ [k_module_root s])"
    using Cons.prems(1) by (cases mods; simp)+
  have IH: "find_module_loop nm (hd (mods @ [k_module_root s])) s = Some (first_module names n mods)"
    using Cons.IH l Cons.prems by (simp add: named_modules_def)
  show ?case
  proof (cases "names a")
    case None
    then show ?thesis using Cons.prems(2,3) by (subst find_module_loop.simps) (auto simp: named_modules_def)
  next
    case (Some n')
    then have "km_entry (kmod_at s a) \<noteq> NULL" "strcmp (km_entry (kmod_at s a)) nm (mem s) = Some (byte_order n' n)"
      using Cons.prems(3,4) strcmp_cstr by (auto simp: named_modules_def Let_def)
    then show ?thesis using Cons.prems(2) IH Some nx by (subst find_module_loop.simps) auto
  qed
qed

text \<open>
  C31. The modules are a sequence in the order of \<open>alloc_kmodule\<close>, which appends a cleared module and returns with
  the lock free. \<open>free_kmodule\<close> takes a module out of the sequence and gives exactly its allocated segments and
  itself back. \<open>find_module_by_name\<close> returns the first module of that name, or \<open>NULL\<close>, unless it
  meets a module that has not been loaded yet: then it follows the null pointer of its entry.
\<close>

theorem module_list_refines_sequence:
  assumes "kmods_rep s mods" and "free_blocks s = p # ps" and "p \<noteq> NULL"
    and "p \<notin> set (k_module_root s # wait_list (kmod_sem s) # mods)"
    and "kmods_rep t (xs @ q # ys)" and "q \<noteq> NULL"
    and "named_modules t names (xs @ q # ys)" and "cstr (mem t) nm n" and "nm \<noteq> NULL"
  shows "(\<exists>s1. alloc_kmodule others w s = Some (p, s1) \<and> kmods_rep s1 (mods @ [p]) \<and> kmod_at s1 p = null_kmodule) \<and>
    (\<exists>t1. free_kmodule others w q t = Some t1 \<and> kmods_rep t1 (xs @ ys) \<and>
      freed t1 = freed t @ kmodule_blocks (kmod_at t q) @ [q]) \<and>
    find_module_by_name nm t = Some (first_module names n (xs @ q # ys))"
proof -
  have d: "dlist (links t) (k_module_root t) (xs @ q # ys)" using assms(5) by (simp add: kmods_rep_def)
  from find_module_loop_linked [OF dlist_from_first [OF d] assms(7,8)]
  have "find_module_by_name nm t = Some (first_module names n (xs @ q # ys))"
    using assms(9) dlist_next [OF d] by (simp add: find_module_by_name_def)
  moreover have "\<exists>s1. alloc_kmodule others w s = Some (p, s1) \<and> kmods_rep s1 (mods @ [p]) \<and> kmod_at s1 p = null_kmodule"
    using alloc_kmodule_rep [OF assms(1-4)] by (simp add: upd_kmod_def)
  moreover have "\<exists>t1. free_kmodule others w q t = Some t1 \<and> kmods_rep t1 (xs @ ys) \<and>
      freed t1 = freed t @ kmodule_blocks (kmod_at t q) @ [q]"
    using free_kmodule_rep [OF assms(5,6)] by simp
  ultimately show ?thesis by blast
qed

text \<open>An empty list of modules at 20480 with its lock at 20488.\<close>

definition example_modules :: loader where
  "example_modules = sema_init 20488 1 (example_loader\<lparr>links := INIT_LIST_HEAD 20480 (links example_loader)\<rparr>)"

lemma example_modules_rep:
  "kmods_rep example_modules []" "free_blocks example_modules = [16384]" "k_module_root example_modules = 20480"
  "kmod_sem example_modules = 20488" "mem example_modules = mem example_loader"
  by (simp_all add: example_modules_def kmods_rep_def sema_init_def INIT_LIST_HEAD_def dlist_def list_empty_def wait_list_def
      example_loader_def example_sync_def example_timers_def kernel.defs sync.defs loader.defs example_boot_def ints_balanced_def)

theorem module_list_refines_sequence_witness:
  "\<exists>t t1 :: loader. kmods_rep t [16384] \<and> free_kmodule (\<lambda>_ _ s. s) 2048 16384 t = Some t1 \<and> kmods_rep t1 [] \<and>
     find_module_by_name 1055 t = Some (Inl Null_Deref)"
proof -
  have p: "16384 \<notin> set (k_module_root example_modules # wait_list (kmod_sem example_modules) # [])"
    by (simp add: example_modules_rep wait_list_def)
  define t where "t = (upd_kmod 16384 (\<lambda>_. null_kmodule) (example_modules\<lparr>free_blocks := []\<rparr>))
      \<lparr>links := list_add_tail 16384 (k_module_root example_modules) (links example_modules)\<rparr>"
  have t: "kmods_rep t ([] @ 16384 # [])" "kmod_at t 16384 = null_kmodule" "mem t = mem example_loader"
    using alloc_kmodule_rep(2) [OF example_modules_rep(1,2) _ p] by (simp_all add: t_def upd_kmod_def example_modules_rep(5))
  have "named_modules t (\<lambda>_. None) ([] @ 16384 # [])" by (simp add: named_modules_def t(2) null_kmodule_def)
  moreover have "cstr (mem t) 1055 [4]" by (simp add: t(3))
  ultimately show ?thesis
    using module_list_refines_sequence [OF example_modules_rep(1,2) _ p t(1), of "\<lambda>_. None" 1055 "[4]" "\<lambda>_ _ s. s" 2048] t(1)
    by auto
qed

end
