(* ===== verification/Shell.thy ===== *)
theory Shell
  imports Symtab Vfs
begin

section \<open>The shell: \<open>init/init_shell.c\<close>\<close>

text \<open>
  The line editor works on \<open>console_buffer\<close>, an array of 256 characters: \<open>p\<close> is the index of the pointer
  into it and \<open>n\<close> the count of characters. The characters \<open>getchar\<close> will return are a list; when
  it is used up the task waits forever, which is \<open>None\<close>. What is printed is appended to
  \<open>echo\<close>. The command table is a list of commands linked by their first field; the functions of
  the commands are an argument.
\<close>

abbreviation CONSOLE_BUFFER_SIZE :: nat where "CONSOLE_BUFFER_SIZE \<equiv> 256"

definition erase_seq :: "u8 list" where "erase_seq = [8, 32, 8]"
definition tab_seq :: "u8 list" where "tab_seq = replicate 8 32"

subsection \<open>The line editor\<close>

record editor =
  buffer :: "u8 list"
  ed_p :: nat
  ed_n :: nat
  ed_col :: nat
  echo :: "u8 list"

definition say :: "u8 list \<Rightarrow> editor \<Rightarrow> editor" where
  "say t e = e\<lparr>echo := echo e @ t\<rparr>"

text \<open>\<open>while (col > plen)\<close>: one erase sequence per column.\<close>

definition erase_to :: "nat \<Rightarrow> editor \<Rightarrow> editor" where
  "erase_to plen e =
     (if ed_col e > plen then (say (concat (replicate (ed_col e - plen) erase_seq)) e)\<lparr>ed_col := plen\<rparr> else e)"

text \<open>Printing a character, a TAB as spaces up to the next multiple of eight.\<close>

definition type_char :: "u8 \<Rightarrow> editor \<Rightarrow> editor" where
  "type_char c e =
     (let col = ed_col e in
      if c = 9 then (say (drop (col mod 8) tab_seq) e)\<lparr>ed_col := col + (8 - col mod 8)\<rparr>
      else (say [c] e)\<lparr>ed_col := col + 1\<rparr>)"

definition delete_char :: "nat \<Rightarrow> editor \<Rightarrow> editor" where
  "delete_char plen e =
     (if ed_n e = 0 then e
      else
        let p = ed_p e - 1;
            e1 = (if buffer e ! p = 9 then fold type_char (take p (buffer e)) (erase_to plen e)
                  else (say erase_seq e)\<lparr>ed_col := ed_col e - 1\<rparr>)
        in e1\<lparr>ed_p := p, ed_n := ed_n e - 1\<rparr>)"

lemma fold_type_char_n: "ed_n (fold type_char cs e) = ed_n e"
  by (induction cs arbitrary: e) (simp_all add: type_char_def say_def Let_def)

lemma delete_char_n: "ed_n (delete_char plen e) = ed_n e - 1"
  by (simp add: delete_char_def Let_def)

text \<open>The loop of \<open>^W\<close> after its first deletion.\<close>

function erase_word :: "nat \<Rightarrow> editor \<Rightarrow> editor" where
  "erase_word plen e =
     (if 0 < ed_n e \<and> buffer e ! ed_p e \<noteq> 32 then erase_word plen (delete_char plen e) else e)"
  by pat_completeness auto
termination
  by (relation "measure (\<lambda>(plen, e). ed_n e)") (simp_all add: delete_char_n)

declare erase_word.simps [simp del]

fun read_loop :: "nat \<Rightarrow> u8 list \<Rightarrow> editor \<Rightarrow> (int \<times> u8 list \<times> editor) option" where
  "read_loop plen [] e = None"
| "read_loop plen (c # cs) e =
     (if c = 13 \<or> c = 10 then
        Some (int (ed_p e), cs, say [13, 10] (e\<lparr>buffer := (buffer e)[ed_p e := 0]\<rparr>))
      else if c = 0 then read_loop plen cs e
      else if c = 3 then Some (- 1, cs, e\<lparr>buffer := (buffer e)[0 := 0]\<rparr>)
      else if c = 0x15 then read_loop plen cs ((erase_to plen e)\<lparr>ed_p := 0, ed_n := 0\<rparr>)
      else if c = 0x17 then read_loop plen cs (erase_word plen (delete_char plen e))
      else if c = 8 \<or> c = 0x7f then read_loop plen cs (delete_char plen e)
      else if ed_n e < CONSOLE_BUFFER_SIZE - 2 then
        read_loop plen cs ((type_char c e)\<lparr>buffer := (buffer e)[ed_p e := c], ed_p := ed_p e + 1, ed_n := ed_n e + 1\<rparr>)
      else read_loop plen cs (say [7] e))"

text \<open>\<open>readline\<close> with its prompt; \<open>buf\<close> is the console buffer as the last call left it.\<close>

definition readline :: "u8 list option \<Rightarrow> u8 list \<Rightarrow> u8 list \<Rightarrow> u8 list \<Rightarrow> (int \<times> u8 list \<times> editor) option" where
  "readline prompt input buf printed =
     (let plen = (case prompt of None \<Rightarrow> 0 | Some t \<Rightarrow> length t);
          shown = (case prompt of None \<Rightarrow> [] | Some t \<Rightarrow> t)
      in read_loop plen input \<lparr>buffer = buf, ed_p = 0, ed_n = 0, ed_col = plen, echo = printed @ shown\<rparr>)"

subsection \<open>Strings and numbers\<close>

definition TOLOWER :: "u8 \<Rightarrow> u8" where
  "TOLOWER c = c OR 0x20"

definition isxdigit_c :: "u8 \<Rightarrow> bool" where
  "isxdigit_c c \<longleftrightarrow> (48 \<le> c \<and> c \<le> 57) \<or> (97 \<le> c \<and> c \<le> 102) \<or> (65 \<le> c \<and> c \<le> 70)"

definition isdigit_c :: "u8 \<Rightarrow> bool" where
  "isdigit_c c \<longleftrightarrow> 48 \<le> c \<and> c \<le> 57"

text \<open>The character at an index of a C string, the terminating NUL behind its end.\<close>

definition char_at :: "u8 list \<Rightarrow> nat \<Rightarrow> u8" where
  "char_at t i = (if i < length t then t ! i else 0)"

definition simple_str2up :: "u8 list \<Rightarrow> u8 list" where
  "simple_str2up t = map (\<lambda>c. if 97 \<le> c \<and> c \<le> 122 then c - 32 else c) t"

definition simple_str2lo :: "u8 list \<Rightarrow> u8 list" where
  "simple_str2lo t = map (\<lambda>c. if 65 \<le> c \<and> c \<le> 90 then c + 32 else c) t"

definition simple_guess_base :: "u8 list \<Rightarrow> u32" where
  "simple_guess_base cp =
     (if char_at cp 0 = 48 then if TOLOWER (char_at cp 1) = 120 \<and> isxdigit_c (char_at cp 2) then 16 else 8 else 10)"

definition digit_value :: "u8 \<Rightarrow> u32" where
  "digit_value c = (if isdigit_c c then ucast c - 48 else ucast (TOLOWER c) - 97 + 10)"

fun strtoul_loop :: "u32 \<Rightarrow> u32 \<Rightarrow> u8 list \<Rightarrow> u32 \<times> u8 list" where
  "strtoul_loop bs result [] = (result, [])"
| "strtoul_loop bs result (c # cp) =
     (if isxdigit_c c \<and> digit_value c < bs then strtoul_loop bs (result * bs + digit_value c) cp else (result, c # cp))"

text \<open>The value, and what \<open>endp\<close> points to.\<close>

definition simple_strtoul :: "u8 list \<Rightarrow> u32 \<Rightarrow> u32 \<times> u8 list" where
  "simple_strtoul cp bs =
     (let bs1 = (if bs = 0 then simple_guess_base cp else bs);
          cp1 = (if bs1 = 16 \<and> char_at cp 0 = 48 \<and> TOLOWER (char_at cp 1) = 120 then drop 2 cp else cp)
      in strtoul_loop bs1 0 cp1)"

subsection \<open>Commands\<close>

record shell_command =
  sc_command :: "u8 list"
  sc_description :: "u8 list"

record shell =
  cmd_links :: list_heap
  command_at :: "ptr \<Rightarrow> shell_command"
  commands :: ptr
  printed :: "u8 list"
  sh_path :: "u8 list"

definition shell_unregister_command :: "ptr \<Rightarrow> 'a shell_scheme \<Rightarrow> 'a shell_scheme" where
  "shell_unregister_command cmd s = s\<lparr>cmd_links := list_del cmd (cmd_links s)\<rparr>"

partial_function (option) register_loop :: "ptr \<Rightarrow> ptr \<Rightarrow> 'a shell_scheme \<Rightarrow> 'a shell_scheme option" where
  "register_loop cmd pos s =
     (if pos = commands s then Some (s\<lparr>cmd_links := list_add_tail cmd (commands s) (cmd_links s)\<rparr>)
      else if byte_order (sc_command (command_at s pos)) (sc_command (command_at s cmd)) > 0
      then Some (s\<lparr>cmd_links := list_add_tail cmd pos (cmd_links s)\<rparr>)
      else register_loop cmd (nxt (cmd_links s) pos) s)"

definition shell_register_command :: "ptr \<Rightarrow> 'a shell_scheme \<Rightarrow> 'a shell_scheme option" where
  "shell_register_command cmd s =
     (if cmd = NULL then Some s
      else if list_empty (commands s) (cmd_links s)
      then Some (s\<lparr>cmd_links := list_add_tail cmd (commands s) (cmd_links s)\<rparr>)
      else register_loop cmd (nxt (cmd_links s) (commands s)) s)"

definition print_out :: "u8 list \<Rightarrow> 'a shell_scheme \<Rightarrow> 'a shell_scheme" where
  "print_out t s = s\<lparr>printed := printed s @ t\<rparr>"

text \<open>\<open>args\<close>: what follows the first space of the line and the spaces after it; \<open>None\<close> without a space.\<close>

definition command_args :: "u8 list \<Rightarrow> u8 list option" where
  "command_args str =
     (case dropWhile (\<lambda>c. c \<noteq> 32) str of [] \<Rightarrow> None | _ # rest \<Rightarrow> Some (dropWhile (\<lambda>c. c = 32) rest))"

type_synonym 's command_fn = "ptr \<Rightarrow> u8 list option \<Rightarrow> 's \<Rightarrow> 's"

definition run_found :: "'a shell_scheme command_fn \<Rightarrow> ptr \<Rightarrow> u8 list \<Rightarrow> 'a shell_scheme \<Rightarrow> 'a shell_scheme" where
  "run_found func cur str s =
     (let args1 = command_args str in
      if args1 = Some (txt_of ''--help'') \<or> args1 = Some (txt_of ''-h'')
      then print_out (sc_description (command_at s cur) @ [10]) s
      else func cur args1 s)"

partial_function (option) run_loop :: "'a shell_scheme command_fn \<Rightarrow> ptr \<Rightarrow> u8 list \<Rightarrow> 'a shell_scheme \<Rightarrow> 'a shell_scheme option" where
  "run_loop func cur str s =
     (if cur = commands s then Some (print_out (txt_of ''unknown command'' @ [10]) s)
      else if strncmp_zero (sc_command (command_at s cur)) str (length (sc_command (command_at s cur)))
      then Some (run_found func cur str s)
      else run_loop func (nxt (cmd_links s) cur) str s)"

definition run_command :: "'a shell_scheme command_fn \<Rightarrow> u8 list \<Rightarrow> 'a shell_scheme \<Rightarrow> (int \<times> 'a shell_scheme) option" where
  "run_command func cmd s =
     (if cmd = [] then Some (- 1, s)
      else map_option (Pair 0) (run_loop func (nxt (cmd_links s) (commands s)) (dropWhile (\<lambda>c. c = 32) cmd) s))"

text \<open>\<open>help\<close>: a line for every command of the table.\<close>

definition help_line :: "shell_command \<Rightarrow> u8 list" where
  "help_line c = txt_of ''--> '' @ sc_command c @ txt_of '':'' @ [10, 9] @ sc_description c @ txt_of ''.'' @ [10]"

partial_function (option) help_loop :: "ptr \<Rightarrow> 'a shell_scheme \<Rightarrow> 'a shell_scheme option" where
  "help_loop cur s =
     (if cur = commands s then Some s
      else help_loop (nxt (cmd_links s) cur) (print_out (help_line (command_at s cur)) s))"

definition shell_help :: "'a shell_scheme \<Rightarrow> 'a shell_scheme option" where
  "shell_help s =
     (let rule = replicate 80 45 in
      map_option (print_out (rule @ [10, 10]))
        (help_loop (nxt (cmd_links s) (commands s)) (print_out (txt_of ''All Supported Commands:'' @ [10] @ rule @ [10]) s)))"

text \<open>\<open>cd\<close>, the command that needs only the current path.\<close>

definition do_command_cd :: "u8 list option \<Rightarrow> 'a shell_scheme \<Rightarrow> (int \<times> 'a shell_scheme) res" where
  "do_command_cd args1 s =
     (case args1 of
        None \<Rightarrow> Inr (- 1, s)
      | Some path \<Rightarrow> bind_res (vfs_change_path (sh_path s) (simple_str2lo path)) (\<lambda>q. Inr (0, s\<lparr>sh_path := q\<rparr>)))"

text \<open>
  One round of the loop of \<open>init_shell\<close> on the characters to come and the console buffer, and the state
  after some rounds: the loop itself never ends.
\<close>

definition shell_round ::
  "'a shell_scheme command_fn \<Rightarrow> u8 list \<times> u8 list \<times> 'a shell_scheme \<Rightarrow> (u8 list \<times> u8 list \<times> 'a shell_scheme) option" where
  "shell_round func st =
     (case st of (input, buf, s) \<Rightarrow>
        case readline (Some []) input buf (printed s @ sh_path s @ txt_of '' # '') of
          None \<Rightarrow> None
        | Some (len, rest, e) \<Rightarrow>
            let s1 = s\<lparr>printed := echo e\<rparr> in
            if len > 0 then map_option (\<lambda>(r, s2). (rest, buffer e, s2)) (run_command func (takeWhile (\<lambda>c. c \<noteq> 0) (buffer e)) s1)
            else Some (rest, buffer e, s1))"

primrec shell_rounds ::
  "nat \<Rightarrow> 'a shell_scheme command_fn \<Rightarrow> u8 list \<times> u8 list \<times> 'a shell_scheme \<Rightarrow> (u8 list \<times> u8 list \<times> 'a shell_scheme) option" where
  "shell_rounds 0 func st = Some st"
| "shell_rounds (Suc k) func st = Option.bind (shell_round func st) (shell_rounds k func)"

primrec register_all :: "ptr list \<Rightarrow> 'a shell_scheme \<Rightarrow> 'a shell_scheme option" where
  "register_all [] s = Some s"
| "register_all (c # cs) s = Option.bind (shell_register_command c s) (register_all cs)"

definition init_shell ::
  "nat \<Rightarrow> 'a shell_scheme command_fn \<Rightarrow> ptr list \<Rightarrow> u8 list \<Rightarrow> u8 list \<Rightarrow> 'a shell_scheme \<Rightarrow> (u8 list \<times> u8 list \<times> 'a shell_scheme) option" where
  "init_shell k func cmds input buf s = Option.bind (register_all cmds s) (\<lambda>s1. shell_rounds k func (input, buf, s1))"

text \<open>The argument of \<open>mount\<close>: the address of the image, or -1.\<close>

definition mount_address :: "u8 list option \<Rightarrow> u32 option" where
  "mount_address args1 =
     (case args1 of None \<Rightarrow> None | Some t \<Rightarrow> let a = fst (simple_strtoul t 16) in if a = 0 then None else Some a)"

subsection \<open>The line editor edits a line\<close>

text \<open>The abstract editor: a list of characters, without a buffer, a cursor or a screen.\<close>

definition edit_char :: "u8 \<Rightarrow> u8 list \<Rightarrow> u8 list" where
  "edit_char c line =
     (if c = 0x15 then []
      else if c = 0x17 then rev (drop 1 (dropWhile (\<lambda>d. d \<noteq> 32) (rev line)))
      else if c = 8 \<or> c = 0x7f then butlast line
      else if c \<noteq> 0 \<and> length line < CONSOLE_BUFFER_SIZE - 2 then line @ [c] else line)"

fun edit_line :: "u8 list \<Rightarrow> u8 list \<Rightarrow> (int \<times> u8 list \<times> u8 list) option" where
  "edit_line line [] = None"
| "edit_line line (c # cs) =
     (if c = 13 \<or> c = 10 then Some (int (length line), line, cs)
      else if c = 3 then Some (- 1, [], cs)
      else edit_line (edit_char c line) cs)"

text \<open>The column of the cursor behind a line printed from column \<open>plen\<close> on.\<close>

definition next_col :: "u8 \<Rightarrow> nat \<Rightarrow> nat" where
  "next_col c col = (if c = 9 then col + (8 - col mod 8) else col + 1)"

definition column :: "nat \<Rightarrow> u8 list \<Rightarrow> nat" where
  "column plen line = fold next_col line plen"

lemma next_col_grows: "col < next_col c col"
proof -
  have "0 < 8 - col mod 8" by simp
  then have "col < col + (8 - col mod 8)" by (simp only: less_add_same_cancel1)
  then show ?thesis by (simp only: next_col_def split: if_split) simp
qed

lemma column_ge: "plen \<le> column plen line"
  unfolding column_def
proof (induction line arbitrary: plen)
  case (Cons c line)
  have "plen \<le> next_col c plen" using next_col_grows by (rule less_imp_le)
  also have "\<dots> \<le> fold next_col line (next_col c plen)" by (rule Cons.IH)
  finally show ?case by simp
qed simp

lemma column_snoc: "column plen (line @ [c]) = next_col c (column plen line)"
  by (simp add: column_def)

definition editor_inv :: "nat \<Rightarrow> u8 list \<Rightarrow> editor \<Rightarrow> bool" where
  "editor_inv plen line e \<longleftrightarrow> length (buffer e) = CONSOLE_BUFFER_SIZE \<and> ed_p e = length line \<and> ed_n e = length line \<and>
     length line \<le> CONSOLE_BUFFER_SIZE - 2 \<and> take (length line) (buffer e) = line \<and> 0 \<notin> set line \<and> ed_col e = column plen line"

lemma type_char_sel [simp]:
  "buffer (type_char c e) = buffer e" "ed_p (type_char c e) = ed_p e" "ed_n (type_char c e) = ed_n e"
  "ed_col (type_char c e) = next_col c (ed_col e)"
  by (simp_all add: type_char_def say_def next_col_def Let_def)

lemma fold_type_char_sel:
  "buffer (fold type_char cs e) = buffer e" "ed_col (fold type_char cs e) = fold next_col cs (ed_col e)"
  by (induction cs arbitrary: e) simp_all

lemma erase_to_sel [simp]:
  "buffer (erase_to plen e) = buffer e" "plen \<le> ed_col e \<Longrightarrow> ed_col (erase_to plen e) = plen"
  by (auto simp: erase_to_def say_def)

lemma say_sel [simp]: "buffer (say t e) = buffer e" "ed_p (say t e) = ed_p e" "ed_n (say t e) = ed_n e" "ed_col (say t e) = ed_col e"
  by (simp_all add: say_def)

lemma editor_inv_snoc:
  assumes "editor_inv plen (line @ [c]) e"
  shows "buffer e ! length line = c" and "take (length line) (buffer e) = line" and "ed_col e = next_col c (column plen line)"
proof -
  have t: "take (length (line @ [c])) (buffer e) = line @ [c]" "length line < length (buffer e)"
    using assms by (auto simp: editor_inv_def)
  then show "buffer e ! length line = c" by (metis length_append_singleton lessI nth_append_length nth_take)
  show "take (length line) (buffer e) = line" using t(1) by (simp add: take_Suc_conv_app_nth t(2))
  show "ed_col e = next_col c (column plen line)" using assms by (simp add: editor_inv_def column_snoc)
qed

lemma delete_char_snoc:
  assumes "editor_inv plen (line @ [c]) e"
  shows "editor_inv plen line (delete_char plen e)" and "buffer (delete_char plen e) = buffer e"
proof -
  note i = editor_inv_snoc [OF assms]
  have ge: "plen \<le> ed_col e" using assms column_ge by (simp add: editor_inv_def)
  have p: "ed_p e - 1 = length line" "ed_n e - 1 = length line" "ed_n e \<noteq> 0" using assms by (simp_all add: editor_inv_def)
  have col: "ed_col (delete_char plen e) = column plen line"
  proof (cases "c = 9")
    case True
    then show ?thesis
      using i(1,2) erase_to_sel(2) [OF ge] p by (simp add: delete_char_def Let_def fold_type_char_sel column_def)
  next
    case False
    then show ?thesis using i p by (simp add: delete_char_def Let_def next_col_def)
  qed
  show b: "buffer (delete_char plen e) = buffer e" using p by (simp add: delete_char_def Let_def fold_type_char_sel)
  show "editor_inv plen line (delete_char plen e)"
    using assms col b i(2) p by (simp add: editor_inv_def delete_char_def Let_def)
qed

lemma delete_char_inv: "editor_inv plen line e \<Longrightarrow> editor_inv plen (butlast line) (delete_char plen e)"
  using delete_char_snoc(1) [of plen "butlast line" "last line" e]
  by (cases "line = []") (simp_all add: delete_char_def editor_inv_def)

lemma erase_word_inv:
  assumes "editor_inv plen line e"
  shows "editor_inv plen (rev (drop 1 (dropWhile (\<lambda>d. d \<noteq> 32) (buffer e ! length line # rev line)))) (erase_word plen e)"
  using assms
proof (induction plen e arbitrary: line rule: erase_word.induct)
  case (1 plen e)
  have n: "ed_n e = length line" "ed_p e = length line" using "1.prems" by (simp_all add: editor_inv_def)
  show ?case
  proof (cases "0 < ed_n e \<and> buffer e ! ed_p e \<noteq> 32")
    case False
    then show ?thesis using "1.prems" n by (subst erase_word.simps) auto
  next
    case True
    then obtain l c where l: "line = l @ [c]" using n by (cases line rule: rev_cases) auto
    note d = delete_char_snoc [OF "1.prems" [unfolded l]] and c = editor_inv_snoc(1) [OF "1.prems" [unfolded l]]
    show ?thesis
      using "1.IH" [OF True d(1)] True n d(2) c l by (subst erase_word.simps) simp
  qed
qed

text \<open>One round of the loop for a character that does not end the line.\<close>

lemma read_loop_step:
  assumes "editor_inv plen line e" and "c \<noteq> 13" "c \<noteq> 10" "c \<noteq> 3"
  obtains e' where "read_loop plen (c # cs) e = read_loop plen cs e'" and "editor_inv plen (edit_char c line) e'"
proof -
  have n: "ed_n e = length line" "ed_p e = length line" "length (buffer e) = CONSOLE_BUFFER_SIZE" "ed_col e = column plen line"
    using assms(1) by (simp_all add: editor_inv_def)
  consider "c = 0" | "c = 0x15" | "c = 0x17" | "c = 8 \<or> c = 0x7f"
    | "c \<noteq> 0" "c \<noteq> 0x15" "c \<noteq> 0x17" "\<not> (c = 8 \<or> c = 0x7f)" by blast
  then show thesis
  proof cases
    case 1
    then show ?thesis using that [of e] assms(1) by (simp add: edit_char_def)
  next
    case 2
    have "editor_inv plen [] ((erase_to plen e)\<lparr>ed_p := 0, ed_n := 0\<rparr>)"
      using n column_ge by (simp add: editor_inv_def column_def)
    then show ?thesis using that 2 by (simp add: edit_char_def)
  next
    case 3
    have "editor_inv plen (edit_char c line) (erase_word plen (delete_char plen e))"
    proof (cases line rule: rev_cases)
      case Nil
      then have "delete_char plen e = e" "erase_word plen e = e" using n by (simp_all add: delete_char_def erase_word.simps)
      then show ?thesis using 3 Nil assms(1) by (simp add: edit_char_def)
    next
      case (snoc l d)
      note i = assms(1) [unfolded snoc]
      show ?thesis
        using erase_word_inv [OF delete_char_snoc(1) [OF i]] delete_char_snoc(2) [OF i] editor_inv_snoc(1) [OF i] 3 snoc
        by (simp add: edit_char_def)
    qed
    then show ?thesis using that 3 by simp
  next
    case 4
    then show ?thesis using that delete_char_inv [OF assms(1)] by (auto simp: edit_char_def)
  next
    case 5
    show ?thesis
    proof (cases "length line < CONSOLE_BUFFER_SIZE - 2")
      case True
      let ?e = "(type_char c e)\<lparr>buffer := (buffer e)[length line := c], ed_p := length line + 1, ed_n := length line + 1\<rparr>"
      have "take (Suc (length line)) ((buffer e)[length line := c]) = line @ [c]"
        using assms(1) True by (simp add: take_Suc_conv_app_nth editor_inv_def)
      then have "editor_inv plen (line @ [c]) ?e"
        using assms(1) True 5(1) by (simp add: editor_inv_def column_snoc)
      then show ?thesis using that [of ?e] 5 assms(2-4) True n by (simp add: edit_char_def)
    next
      case False
      have "editor_inv plen line (say [7] e)" using assms(1) by (simp add: editor_inv_def)
      then show ?thesis using that [of "say [7] e"] 5 assms(2-4) False n by (simp add: edit_char_def)
    qed
  qed
qed

lemma read_loop_edits:
  assumes "editor_inv plen line e"
  shows "case edit_line line input of
      None \<Rightarrow> read_loop plen input e = None
    | Some (r, l, rest) \<Rightarrow> \<exists>e'. read_loop plen input e = Some (r, rest, e') \<and> length (buffer e') = CONSOLE_BUFFER_SIZE \<and>
        takeWhile (\<lambda>c. c \<noteq> 0) (buffer e') = l \<and> length l \<le> CONSOLE_BUFFER_SIZE - 2"
  using assms
proof (induction input arbitrary: line e)
  case (Cons c cs)
  have n: "ed_p e = length line" "length (buffer e) = CONSOLE_BUFFER_SIZE" "length line \<le> CONSOLE_BUFFER_SIZE - 2" "0 \<notin> set line"
      "take (length line) (buffer e) = line"
    using Cons.prems by (simp_all add: editor_inv_def)
  consider "c = 13 \<or> c = 10" | "c = 3" | "c \<noteq> 13" "c \<noteq> 10" "c \<noteq> 3" by blast
  then show ?case
  proof cases
    case 1
    have "(buffer e)[length line := 0] = line @ 0 # drop (Suc (length line)) (buffer e)"
      using n upd_conv_take_nth_drop [of "length line" "buffer e" 0] by simp
    moreover have "takeWhile (\<lambda>c. c \<noteq> 0) (line @ 0 # xs) = line" for xs using n(4) by (subst takeWhile_append2) auto
    ultimately show ?thesis using 1 n by auto
  next
    case 2
    have "buffer e \<noteq> []" using n(2) by auto
    then show ?thesis using 2 n by (cases "buffer e") auto
  next
    case 3
    then obtain e' where r: "read_loop plen (c # cs) e = read_loop plen cs e'" and i: "editor_inv plen (edit_char c line) e'"
      using read_loop_step [OF Cons.prems] by metis
    have "edit_line line (c # cs) = edit_line (edit_char c line) cs" using 3 by simp
    then show ?thesis unfolding r using Cons.IH [OF i] by simp
  qed
qed simp

lemma readline_edits:
  assumes "length buf = CONSOLE_BUFFER_SIZE"
  shows "case edit_line [] input of
      None \<Rightarrow> readline prompt input buf shown = None
    | Some (r, line, rest) \<Rightarrow> \<exists>e. readline prompt input buf shown = Some (r, rest, e) \<and> length (buffer e) = CONSOLE_BUFFER_SIZE \<and>
        takeWhile (\<lambda>c. c \<noteq> 0) (buffer e) = line \<and> length line \<le> CONSOLE_BUFFER_SIZE - 2"
proof -
  have "editor_inv plen [] \<lparr>buffer = buf, ed_p = 0, ed_n = 0, ed_col = plen, echo = t\<rparr>" for plen t
    using assms by (simp add: editor_inv_def column_def)
  from read_loop_edits [OF this] show ?thesis unfolding readline_def Let_def by blast
qed

text \<open>
  C29. \<open>readline\<close> is a line editor. Whatever is typed, it returns exactly when the abstract editor has seen
  the end of a line or \<open>^C\<close>; the console buffer then holds the edited line as a C string, which
  never has more than 254 characters, and the result is its length, or -1 after \<open>^C\<close> with an
  empty buffer. Backspace, \<open>^W\<close> and \<open>^U\<close> delete a character, a word and the line.
\<close>

theorem readline_edits_line:
  assumes "length buf = CONSOLE_BUFFER_SIZE"
  shows "case edit_line [] input of
      None \<Rightarrow> readline prompt input buf shown = None
    | Some (r, line, rest) \<Rightarrow> \<exists>e. readline prompt input buf shown = Some (r, rest, e) \<and> length (buffer e) = CONSOLE_BUFFER_SIZE \<and>
        takeWhile (\<lambda>c. c \<noteq> 0) (buffer e) = line \<and> length line \<le> CONSOLE_BUFFER_SIZE - 2"
  by (rule readline_edits [OF assms])

theorem readline_edits_line_witness:
  "\<exists>e. readline None [97, 32, 98, 99, 23, 100, 13] (replicate 256 0) [] = Some (2, [], e) \<and>
     takeWhile (\<lambda>c. c \<noteq> 0) (buffer e) = [97, 100]"
proof -
  have "edit_line [] [97, 32, 98, 99, 23, 100, 13] = Some (2, [97, 100], [])" by (simp add: edit_char_def)
  moreover have "length (replicate 256 (0 :: u8)) = CONSOLE_BUFFER_SIZE" by (rule length_replicate)
  ultimately show ?thesis
    using readline_edits_line [of "replicate 256 0" None "[97, 32, 98, 99, 23, 100, 13]" "[]"] by auto
qed

subsection \<open>Numbers typed and printed\<close>

lemma hextable_values: "d < 16 \<Longrightarrow> isxdigit_c (chr (hextable ! d)) \<and> digit_value (chr (hextable ! d)) = of_nat d"
proof -
  have "\<forall>d \<in> set [0..<16]. isxdigit_c (chr (hextable ! d)) \<and> digit_value (chr (hextable ! d)) = of_nat d" by code_simp
  then show "d < 16 \<Longrightarrow> ?thesis" by simp
qed

lemma hex_loop_read:
  "\<exists>ds. (\<forall>buf. hex_loop hextable u buf = ds @ buf) \<and>
     (\<forall>rest. strtoul_loop 16 0 (ds @ rest) = strtoul_loop 16 (ucast u) rest) \<and> (\<forall>c \<in> set ds. isxdigit_c c) \<and> ds \<noteq> []"
proof (induction "unat u" arbitrary: u rule: less_induct)
  case less
  let ?c = "chr (hextable ! unat (u mod 16))"
  have um: "unat (u mod 16) = unat u mod 16" "unat (u div 16) = unat u div 16" by (simp_all add: unat_mod unat_div)
  have c: "isxdigit_c ?c" "digit_value ?c = of_nat (unat u mod 16)" "digit_value ?c < 16"
    unfolding um using hextable_values [of "unat u mod 16"] by (simp_all add: word_less_nat_alt unat_of_nat_below)
  have split: "ucast (u div 16) * 16 + digit_value ?c = (ucast u :: u32)"
  proof -
    have "(ucast u :: u32) = of_nat (16 * (unat u div 16) + unat u mod 16)" by simp
    also have "\<dots> = of_nat (unat (u div 16)) * 16 + digit_value ?c"
      unfolding um(2) c(2) of_nat_add of_nat_mult by simp
    finally show ?thesis by simp
  qed
  have last: "strtoul_loop 16 (ucast (u div 16)) (?c # rest) = strtoul_loop 16 (ucast u) rest" for rest
    using c(1,3) split by simp
  show ?case
  proof (cases "u div 16 = 0")
    case True
    then show ?thesis
      using last c(1) by (intro exI [of _ "[?c]"]) (simp add: hex_loop.simps Let_def)
  next
    case False
    then have "0 < unat u div 16" using unat_pos [of "u div 16"] um(2) by simp
    then have "unat (u div 16) < unat u" using um(2) by simp
    from less.hyps [OF this] obtain ds where ds: "\<forall>buf. hex_loop hextable (u div 16) buf = ds @ buf"
        "\<forall>rest. strtoul_loop 16 0 (ds @ rest) = strtoul_loop 16 (ucast (u div 16)) rest" "\<forall>c \<in> set ds. isxdigit_c c"
      by blast
    have "\<forall>buf. hex_loop hextable u buf = (ds @ [?c]) @ buf"
      using False ds(1) by (subst hex_loop.simps) (simp add: Let_def)
    moreover have "\<forall>rest. strtoul_loop 16 0 ((ds @ [?c]) @ rest) = strtoul_loop 16 (ucast u) rest"
      using ds(2) last by simp
    ultimately show ?thesis using ds(3) c(1) by (intro exI [of _ "ds @ [?c]"]) auto
  qed
qed

lemma no_hex_prefix:
  assumes "\<forall>c \<in> set ds. isxdigit_c c"
  shows "TOLOWER (char_at ds 1) \<noteq> 120"
proof (cases "1 < length ds")
  case True
  then have x: "isxdigit_c (ds ! 1)" using assms by simp
  have "\<forall>n \<in> set [0..<256]. isxdigit_c (of_nat n) \<longrightarrow> TOLOWER (of_nat n) \<noteq> 120" by code_simp
  moreover have "unat (ds ! 1) < 256" by (rule order.strict_trans2 [OF unsigned_less]) simp
  ultimately have "isxdigit_c (of_nat (unat (ds ! 1))) \<longrightarrow> TOLOWER (of_nat (unat (ds ! 1))) \<noteq> 120"
    by (metis atLeastLessThan_iff atLeastLessThan_upt zero_le)
  then have "TOLOWER (ds ! 1) \<noteq> 120" using x by simp
  then show ?thesis using True by (simp add: char_at_def)
qed (simp add: char_at_def TOLOWER_def)

text \<open>
  What \<open>printk\<close> prints with \<open>%x\<close> can be typed back: \<open>simple_strtoul\<close> with base 16 reads the printed
  digits of every 32-bit number as that number, up to the first character that is no digit, and
  \<open>mount\<close> takes the printed address of an image for its address, 0 apart.
\<close>

theorem strtoul_reads_printed_hex:
  assumes "rest = [] \<or> \<not> isxdigit_c (hd rest) \<and> TOLOWER (hd rest) \<noteq> 120"
  shows "simple_strtoul (longlong_to_hexstring (ucast (a :: u32)) 0 @ rest) 16 = (a, rest) \<and>
    mount_address (Some (longlong_to_hexstring (ucast a) 0 @ rest)) = (if a = 0 then None else Some a)"
proof -
  obtain ds where ds: "\<forall>buf. hex_loop hextable (ucast a) buf = ds @ buf"
      "\<forall>rest. strtoul_loop 16 0 (ds @ rest) = strtoul_loop 16 (ucast (ucast a :: u64)) rest" "\<forall>c \<in> set ds. isxdigit_c c" "ds \<noteq> []"
    using hex_loop_read [of "ucast a :: u64"] by blast
  have p: "longlong_to_hexstring (ucast a) 0 = ds" using ds(1) by (simp add: longlong_to_hexstring_def flagged_def)
  have "TOLOWER (char_at (ds @ rest) 1) \<noteq> 120"
  proof (cases "1 < length ds")
    case True
    then show ?thesis using no_hex_prefix [OF ds(3)] by (simp add: char_at_def nth_append)
  next
    case False
    then have "length ds = 1" using ds(4) by (cases ds) auto
    then show ?thesis using assms by (cases rest) (auto simp: char_at_def nth_append TOLOWER_def)
  qed
  moreover have "strtoul_loop 16 r rest = (r, rest)" for r using assms by (cases rest) auto
  moreover have "unat (ucast (ucast a :: u64) :: u32) = unat a" using unat_u32_less [of a] by (simp add: unat_ucast_mod)
  then have "ucast (ucast a :: u64) = a" by (metis unsigned_word_eqI)
  ultimately show ?thesis using ds(2) by (simp add: p simple_strtoul_def mount_address_def Let_def)
qed

theorem strtoul_reads_printed_hex_witness:
  "simple_strtoul (longlong_to_hexstring (ucast (0xc0100000 :: u32)) 0 @ [32, 49]) 16 = (0xc0100000, [32, 49])"
  using strtoul_reads_printed_hex [of "[32, 49]" "0xc0100000"] by (simp add: isxdigit_c_def TOLOWER_def)

subsection \<open>The command table\<close>

abbreviation cmd_name :: "'a shell_scheme \<Rightarrow> ptr \<Rightarrow> u8 list" where
  "cmd_name s p \<equiv> sc_command (command_at s p)"

definition commands_rep :: "'a shell_scheme \<Rightarrow> ptr list \<Rightarrow> bool" where
  "commands_rep s cs \<longleftrightarrow> dlist (cmd_links s) (commands s) cs \<and>
     sorted_wrt (\<lambda>a b. byte_order (cmd_name s a) (cmd_name s b) \<le> 0) cs \<and> (\<forall>p \<in> set cs. 0 \<notin> set (cmd_name s p))"

lemma register_loop_walk:
  "linked (cmd_links s) (ys @ [commands s]) \<Longrightarrow> commands s \<notin> set ys \<Longrightarrow>
   register_loop cmd (hd (ys @ [commands s])) s =
     Some (s\<lparr>cmd_links := list_add_tail cmd (hd (dropWhile (\<lambda>p. byte_order (cmd_name s p) (cmd_name s cmd) \<le> 0) ys @ [commands s])) (cmd_links s)\<rparr>)"
proof (induction ys)
  case Nil
  then show ?case by (simp add: register_loop.simps)
next
  case (Cons a ys)
  have "nxt (cmd_links s) a = hd (ys @ [commands s])" "linked (cmd_links s) (ys @ [commands s])"
    using Cons.prems(1) by (cases ys; simp)+
  then show ?case using Cons by (subst register_loop.simps) auto
qed

lemma insert_before:
  assumes "dlist h q (xs @ ys)" and "new \<notin> set (q # xs @ ys)"
  shows "dlist (list_add_tail new (hd (ys @ [q])) h) q (xs @ new # ys)"
proof -
  have "prv h (hd (ys @ [q])) = last (q # xs)"
    using assms(1) dlist_node_links(1) [of h q xs] dlist_prev [of h q xs] by (cases ys) auto
  then show ?thesis
    unfolding list_add_tail_def by (intro list_add_between_dlist [OF assms]) simp_all
qed

lemma byte_order_le_trans: "byte_order xs ys \<le> 0 \<Longrightarrow> byte_order ys zs \<le> 0 \<Longrightarrow> byte_order xs zs \<le> 0"
  using byte_order_trans [of xs ys zs] byte_order_eq_0 [of xs ys] byte_order_eq_0 [of ys zs] by (fastforce simp: order.order_iff_strict)

lemma sorted_insert:
  assumes "sorted_wrt (\<lambda>a b. byte_order (nm a) (nm b) \<le> 0) cs" and P: "P = (\<lambda>p. byte_order (nm p) (nm c) \<le> 0)"
  shows "sorted_wrt (\<lambda>a b. byte_order (nm a) (nm b) \<le> 0) (takeWhile P cs @ c # dropWhile P cs)"
proof -
  let ?le = "\<lambda>a b. byte_order (nm a) (nm b) \<le> 0"
  have s: "sorted_wrt ?le (takeWhile P cs @ dropWhile P cs)" using assms(1) by simp
  have t: "?le x c" if "x \<in> set (takeWhile P cs)" for x using set_takeWhileD [OF that] P by simp
  have d: "?le c z" if "z \<in> set (dropWhile P cs)" for z
  proof (cases "dropWhile P cs")
    case (Cons y ys)
    have "\<not> P y" using hd_dropWhile [of P cs] Cons by simp
    then have cy: "?le c y" using byte_order_swap [of "nm c" "nm y"] P by simp
    moreover have "?le y z" if "z \<noteq> y" using s \<open>z \<in> _\<close> Cons that by (auto simp: sorted_wrt_append)
    ultimately show ?thesis using byte_order_le_trans by blast
  next
    case Nil
    then show ?thesis using that by (simp only: list.set(1) empty_iff)
  qed
  have "?le x z" if "x \<in> set (takeWhile P cs)" "z \<in> set (dropWhile P cs)" for x z
    using t [OF that(1)] d [OF that(2)] byte_order_le_trans by blast
  then show ?thesis using s t d by (auto simp: sorted_wrt_append)
qed

lemma strncmp_zero_prefix:
  assumes "0 \<notin> set a"
  shows "strncmp_zero a b (length a) \<longleftrightarrow> take (length a) b = a"
proof -
  have "take (length a) (b @ [0]) = a \<longleftrightarrow> take (length a) b = a"
  proof (cases "length a \<le> length b")
    case False
    have "take (length a) (b @ [0]) \<noteq> a"
    proof
      assume e: "take (length a) (b @ [0]) = a"
      then have "length a = Suc (length b)" using False by (metis length_append_singleton length_take min_def nat_less_le not_less_eq_eq)
      then show False using e assms by (metis last_in_set last_snoc length_append_singleton take_all_iff order_refl snoc_eq_iff_butlast)
    qed
    then show ?thesis using False by (metis length_take min.absorb_iff2 nle_le)
  qed simp
  then show ?thesis unfolding strncmp_zero_def by (metis append_eq_conv_conj)
qed

lemma run_loop_walk:
  "linked (cmd_links s) (cs @ [commands s]) \<Longrightarrow> commands s \<notin> set cs \<Longrightarrow> \<forall>p \<in> set cs. 0 \<notin> set (cmd_name s p) \<Longrightarrow>
   run_loop func (hd (cs @ [commands s])) str s =
     Some (case List.find (\<lambda>p. take (length (cmd_name s p)) str = cmd_name s p) cs of
             None \<Rightarrow> print_out (txt_of ''unknown command'' @ [10]) s | Some p \<Rightarrow> run_found func p str s)"
proof (induction cs)
  case Nil
  then show ?case by (simp add: run_loop.simps)
next
  case (Cons a cs)
  have "nxt (cmd_links s) a = hd (cs @ [commands s])" "linked (cmd_links s) (cs @ [commands s])"
    using Cons.prems(1) by (cases cs; simp)+
  then show ?case using Cons strncmp_zero_prefix [of "cmd_name s a" str] by (subst run_loop.simps) auto
qed

lemma run_prefix:
  assumes "commands_rep s cs" and "line \<noteq> []"
  shows "run_command func line s =
    Some (0, case List.find (\<lambda>p. take (length (cmd_name s p)) (dropWhile (\<lambda>c. c = 32) line) = cmd_name s p) cs of
               None \<Rightarrow> print_out (txt_of ''unknown command'' @ [10]) s
             | Some p \<Rightarrow> run_found func p (dropWhile (\<lambda>c. c = 32) line) s)"
proof -
  have d: "dlist (cmd_links s) (commands s) cs" "\<forall>p \<in> set cs. 0 \<notin> set (cmd_name s p)" using assms(1) by (simp_all add: commands_rep_def)
  from run_loop_walk [OF dlist_from_first [OF d(1)] d(2)] show ?thesis
    using dlist_next [OF d(1)] assms(2) by (simp add: run_command_def)
qed

lemma edit_line_result: "edit_line l input = Some (r, line, rest) \<Longrightarrow> r = int (length line) \<or> r = - 1 \<and> line = []"
  by (induction input arbitrary: l) (auto split: if_splits)

text \<open>
  The command table stays sorted by name: registering a command returns and puts it behind the commands
  that are not greater, in front of the first greater one, and every other command keeps its
  place. Unregistering takes exactly that command out.
\<close>

theorem shell_register_sorted:
  assumes "commands_rep s cs" and "cmd \<noteq> NULL" and "cmd \<notin> set (commands s # cs)" and "0 \<notin> set (cmd_name s cmd)"
  shows "\<exists>s' before after. shell_register_command cmd s = Some s' \<and> cs = before @ after \<and> commands_rep s' (before @ cmd # after) \<and>
    (\<forall>p \<in> set before. byte_order (cmd_name s p) (cmd_name s cmd) \<le> 0) \<and>
    (after \<noteq> [] \<longrightarrow> 0 < byte_order (cmd_name s (hd after)) (cmd_name s cmd)) \<and>
    commands_rep (shell_unregister_command cmd s') cs"
proof -
  let ?P = "\<lambda>p. byte_order (cmd_name s p) (cmd_name s cmd) \<le> 0"
  let ?xs = "takeWhile ?P cs" and ?ys = "dropWhile ?P cs"
  let ?h = "list_add_tail cmd (hd (?ys @ [commands s])) (cmd_links s)"
  have d: "dlist (cmd_links s) (commands s) (?xs @ ?ys)" using assms(1) by (simp add: commands_rep_def)
  have l: "linked (cmd_links s) (cs @ [commands s])" "commands s \<notin> set cs" "nxt (cmd_links s) (commands s) = hd (cs @ [commands s])"
    using assms(1) dlist_from_first dlist_next unfolding commands_rep_def by blast+
  have reg: "shell_register_command cmd s = Some (s\<lparr>cmd_links := ?h\<rparr>)"
  proof (cases "cs = []")
    case True
    then show ?thesis using l(3) assms(2) by (simp add: shell_register_command_def list_empty_def)
  next
    case False
    then have "hd (cs @ [commands s]) \<noteq> commands s" using l(2) by (cases cs) auto
    then show ?thesis using register_loop_walk [OF l(1,2)] l(3) assms(2) by (simp add: shell_register_command_def list_empty_def)
  qed
  have ins: "dlist ?h (commands s) (?xs @ cmd # ?ys)" by (rule insert_before [OF d]) (use assms(3) in simp)
  then have rep: "commands_rep (s\<lparr>cmd_links := ?h\<rparr>) (?xs @ cmd # ?ys)"
    using assms(1,4) sorted_insert [of "cmd_name s" cs ?P cmd] set_takeWhileD [of _ ?P cs] set_dropWhileD [of _ ?P cs]
    by (auto simp: commands_rep_def)
  have un: "commands_rep (shell_unregister_command cmd (s\<lparr>cmd_links := ?h\<rparr>)) cs"
    using list_del_dlist [OF ins] assms(1) by (simp add: commands_rep_def shell_unregister_command_def)
  have "0 < byte_order (cmd_name s (hd ?ys)) (cmd_name s cmd)" if "?ys \<noteq> []"
    using hd_dropWhile [OF that] by simp
  then show ?thesis
    using reg rep un set_takeWhileD [of _ ?P cs] by (intro exI [of _ "s\<lparr>cmd_links := ?h\<rparr>"] exI [of _ ?xs] exI [of _ ?ys]) auto
qed

text \<open>
  A command line runs the first command of the table whose name is a prefix of the line behind its
  leading spaces, with what follows the first space as argument, or prints its description for
  \<open>--help\<close> and \<open>-h\<close>. The name need not end there: \<open>lsx\<close> runs \<open>ls\<close>.
\<close>

theorem run_command_runs_first_prefix:
  assumes "commands_rep s cs" and "line \<noteq> []"
  shows "run_command func line s =
    Some (0, case List.find (\<lambda>p. take (length (cmd_name s p)) (dropWhile (\<lambda>c. c = 32) line) = cmd_name s p) cs of
               None \<Rightarrow> print_out (txt_of ''unknown command'' @ [10]) s
             | Some p \<Rightarrow> run_found func p (dropWhile (\<lambda>c. c = 32) line) s)"
  by (rule run_prefix [OF assms])

text \<open>A table at 64 and the command \<open>ls\<close> at 128.\<close>

definition example_shell :: shell where
  "example_shell = \<lparr>cmd_links = INIT_LIST_HEAD 64 \<lparr>nxt = (\<lambda>_. 0), prv = (\<lambda>_. 0)\<rparr>, command_at = (\<lambda>_. \<lparr>sc_command = [108, 115], sc_description = []\<rparr>),
     commands = 64, printed = [], sh_path = [47]\<rparr>"

lemma example_shell_rep: "commands_rep example_shell []"
  by (simp add: commands_rep_def example_shell_def INIT_LIST_HEAD_dlist)

lemma example_shell_ls: "\<exists>s :: shell. commands_rep s [128] \<and> cmd_name s 128 = [108, 115]"
proof -
  define s' where "s' = example_shell\<lparr>cmd_links := list_add_tail 128 64 (cmd_links example_shell)\<rparr>"
  have "dlist (list_add_tail 128 64 (cmd_links example_shell)) 64 ([] @ [128])"
    by (rule list_add_tail_dlist) (simp_all add: example_shell_def INIT_LIST_HEAD_dlist)
  then have "commands_rep s' [128]" "cmd_name s' 128 = [108, 115]"
    by (simp_all add: commands_rep_def s'_def) (simp_all add: example_shell_def)
  then show ?thesis by blast
qed

theorem shell_register_sorted_witness:
  "\<exists>s' :: shell. shell_register_command 128 example_shell = Some s' \<and> commands_rep s' [128]"
  using shell_register_sorted [OF example_shell_rep, of 128] by (auto simp: example_shell_def)

theorem run_command_runs_first_prefix_witness:
  "\<exists>s :: shell. commands_rep s [128] \<and> run_command (\<lambda>p args1 s. print_out [42] s) [32, 108, 115, 120] s = Some (0, print_out [42] s)"
proof -
  obtain s' :: shell where s': "commands_rep s' [128]" "cmd_name s' 128 = [108, 115]" using example_shell_ls by blast
  then show ?thesis
    using run_command_runs_first_prefix [OF s'(1), of "[32, 108, 115, 120]" "\<lambda>p args1 s. print_out [42] s"]
    by (intro exI [of _ s']) (simp add: run_found_def command_args_def)
qed

lemma commands_rep_printed: "commands_rep (s\<lparr>printed := t\<rparr>) cs = commands_rep s cs"
  by (simp add: commands_rep_def)

lemma shell_round_typed:
  assumes "commands_rep s cs" and "length buf = CONSOLE_BUFFER_SIZE" and "edit_line [] input = Some (r, line, rest)" and "line \<noteq> []"
    and "List.find (\<lambda>p. take (length (cmd_name s p)) (dropWhile (\<lambda>c. c = 32) line) = cmd_name s p) cs = Some p"
  shows "\<exists>buf' t. shell_round func (input, buf, s) = Some (rest, buf', run_found func p (dropWhile (\<lambda>c. c = 32) line) (s\<lparr>printed := t\<rparr>)) \<and>
    length buf' = CONSOLE_BUFFER_SIZE"
proof -
  let ?shown = "printed s @ sh_path s @ txt_of '' # ''"
  obtain e where e: "readline (Some []) input buf ?shown = Some (r, rest, e)" "length (buffer e) = CONSOLE_BUFFER_SIZE"
      "takeWhile (\<lambda>c. c \<noteq> 0) (buffer e) = line"
    using readline_edits [OF assms(2), of "Some []" input ?shown] assms(3) by auto
  have "0 < r" using edit_line_result [OF assms(3)] assms(4) by simp
  moreover have "run_command func line (s\<lparr>printed := echo e\<rparr>) =
      Some (0, run_found func p (dropWhile (\<lambda>c. c = 32) line) (s\<lparr>printed := echo e\<rparr>))"
    using run_prefix [of "s\<lparr>printed := echo e\<rparr>" cs line func] assms(1,4,5) by (simp add: commands_rep_printed)
  ultimately show ?thesis using e by (auto simp: shell_round_def)
qed

text \<open>
  From the keyboard to the command: when the characters typed are edited to a line that is not empty, the
  round of the shell returns, has run the first command whose name is a prefix of the line with the
  line's arguments, and leaves the rest of the characters for the next round.
\<close>

theorem shell_round_runs_typed_line:
  assumes "commands_rep s cs" and "length buf = CONSOLE_BUFFER_SIZE" and "edit_line [] input = Some (r, line, rest)" and "line \<noteq> []"
    and "List.find (\<lambda>p. take (length (cmd_name s p)) (dropWhile (\<lambda>c. c = 32) line) = cmd_name s p) cs = Some p"
  shows "\<exists>buf' t. shell_round func (input, buf, s) = Some (rest, buf', run_found func p (dropWhile (\<lambda>c. c = 32) line) (s\<lparr>printed := t\<rparr>)) \<and>
    length buf' = CONSOLE_BUFFER_SIZE"
  by (rule shell_round_typed [OF assms])

theorem shell_round_runs_typed_line_witness:
  "\<exists>s buf' t. commands_rep (s :: shell) [128] \<and>
     shell_round (\<lambda>p args1 s. print_out [42] s) ([108, 115, 13], replicate 256 0, s) = Some ([], buf', print_out [42] (s\<lparr>printed := t\<rparr>))"
proof -
  obtain s :: shell where s: "commands_rep s [128]" "cmd_name s 128 = [108, 115]" using example_shell_ls by blast
  have b: "length (replicate 256 (0 :: u8)) = CONSOLE_BUFFER_SIZE" by (rule length_replicate)
  have "edit_line [] [108, 115, 13] = Some (2, [108, 115], [])" by (simp add: edit_char_def)
  from shell_round_runs_typed_line [OF s(1) b this, of 128 "\<lambda>p args1 s. print_out [42] s"] s
  show ?thesis by (force simp: run_found_def command_args_def)
qed

end
