(* ===== verification/Commands.thy ===== *)
theory Commands
  imports Shell Module_Loader Fat
begin

section \<open>The commands of the shell: \<open>init/init_shell.c\<close>, \<open>init/cmd_pwd.c\<close>\<close>

text \<open>
  The bodies of the commands work on the file-system switch, the module loader and the log at once. Their state is
  the shell's state extended by those of the three components. The current path is one variable of the program; it
  stands in the state of the shell, which prints it as its prompt, and in that of the switch, and \<open>set_cur_path\<close>
  writes both. \<open>cmd_file\<close> is the address of the local \<open>struct vfs_node\<close>, \<open>cmd_args\<close> the address of the argument in
  the console buffer, \<open>cmd_waiter\<close> that of the waiter in \<open>down\<close>. \<open>run\<close> is what a call of a function of a module at an
  address does. A command returns its C result; \<open>None\<close> when it does not return.
\<close>

record ('v, 'p, 'w) sys = shell +
  sys_vfs :: "('v, 'p, 'w) vfs"
  sys_loader :: loader
  sys_log :: plog
  cmd_file :: ptr
  cmd_args :: ptr
  cmd_waiter :: ptr
  stopped :: bool

type_synonym ('v, 'p, 'w) command_body = "u8 list option \<Rightarrow> ('v, 'p, 'w) sys \<Rightarrow> (int \<times> ('v, 'p, 'w) sys) res option"

definition set_cur_path :: "u8 list \<Rightarrow> ('v, 'p, 'w) sys \<Rightarrow> ('v, 'p, 'w) sys" where
  "set_cur_path p s = s\<lparr>sh_path := p, sys_vfs := (sys_vfs s)\<lparr>cur_path := p\<rparr>\<rparr>"

text \<open>The path a command works on: the current path changed by its argument, in upper case.\<close>

definition command_path :: "u8 list option \<Rightarrow> ('v, 'p, 'w) sys \<Rightarrow> u8 list res" where
  "command_path args1 s =
     (let new_path = vfs_get_cur_path (sys_vfs s) in
      bind_res (case args1 of Some path \<Rightarrow> if 0 < length path then vfs_change_path new_path path else Inr new_path | None \<Rightarrow> Inr new_path)
        (\<lambda>p. Inr (simple_str2up p)))"

definition put_string :: "ptr \<Rightarrow> u8 list \<Rightarrow> memory \<Rightarrow> memory" where
  "put_string p bs m = fold (\<lambda>i m. m(p + of_nat i := bs ! i)) [0..<length bs] m"

text \<open>\<open>mod->entry->syms[i].value\<close>: the name takes 60 bytes, the count 4, a symbol 8.\<close>

definition entry_function :: "ptr \<Rightarrow> nat \<Rightarrow> loader \<Rightarrow> ptr res" where
  "entry_function kmod i l =
     (let entry1 = km_entry (kmod_at l kmod)
      in if entry1 = NULL then Inl Null_Deref else Inr (load32 (mem l) (entry1 + 64 + 8 * of_nat i + 4)))"

text \<open>
  The read loop of \<open>insmod\<close>. Each read goes to where the one before ended, and the space is set to the page size less
  the size of the last read.
\<close>

partial_function (option) insmod_read_loop ::
  "('v \<Rightarrow> ('v, 'p, 'w) vfs_opvector) \<Rightarrow> int \<Rightarrow> ptr \<Rightarrow> u32 \<Rightarrow> ('v, 'p, 'w) vfs \<Rightarrow> memory \<Rightarrow> (('v, 'p, 'w) vfs \<times> memory) res option" where
  "insmod_read_loop ops fd buf n v m =
     (case vfs_read ops fd (block m buf (unat n)) n v of
        None \<Rightarrow> None
      | Some (Inl e) \<Rightarrow> Some (Inl e)
      | Some (Inr (r, bs, count, v1)) \<Rightarrow>
          (let m1 = put_string buf bs m in
           if r \<noteq> - 1 \<and> count \<noteq> 0 then insmod_read_loop ops fd (buf + count) (4096 - count) v1 m1
           else Some (Inr (v1, m1))))"

text \<open>What follows the opening of the file: read, close, load, run.\<close>

definition insmod_load ::
  "('v \<Rightarrow> ('v, 'p, 'w) vfs_opvector) \<Rightarrow> (ptr \<Rightarrow> ('v, 'p, 'w) sys \<Rightarrow> ('v, 'p, 'w) sys res option) \<Rightarrow> int \<Rightarrow> ptr \<Rightarrow> ptr
   \<Rightarrow> ('v, 'p, 'w) sys \<Rightarrow> (int \<times> ('v, 'p, 'w) sys) res option" where
  "insmod_load ops run fd module file_buf s =
     and_then (insmod_read_loop ops fd file_buf 4096 (sys_vfs s) (mem (sys_loader s))) (\<lambda>(v, m).
       case vfs_close ops fd v of
         Inl e \<Rightarrow> Some (Inl e)
       | Inr (r, v1) \<Rightarrow>
           let s1 = s\<lparr>sys_vfs := v1, sys_loader := (sys_loader s)\<lparr>mem := m\<rparr>\<rparr> in
           if r \<noteq> 0 then Some (Inr (- 1, print_out (txt_of ''vfs_close failed'' @ [10]) s1))
           else and_then (load_kmodule file_buf module (sys_loader s1)) (\<lambda>(_, l).
             let l1 = kfree_block file_buf l in
             case entry_function module 0 l1 of
               Inl e \<Rightarrow> Some (Inl e)
             | Inr pFun \<Rightarrow> and_then (run pFun (s1\<lparr>sys_loader := l1\<rparr>)) (\<lambda>s2. Some (Inr (0, s2)))))"

definition do_command_insmod ::
  "('v \<Rightarrow> ('v, 'p, 'w) vfs_opvector) \<Rightarrow> loader switch \<Rightarrow> (ptr \<Rightarrow> ('v, 'p, 'w) sys \<Rightarrow> ('v, 'p, 'w) sys res option)
   \<Rightarrow> ('v, 'p, 'w) command_body" where
  "do_command_insmod ops others run args1 s =
     (if args1 = None then Some (Inr (- 1, print_out (txt_of ''Please give a correct path!'' @ [10]) s))
      else case command_path args1 s of
          Inl e \<Rightarrow> Some (Inl e)
        | Inr new_path \<Rightarrow>
            Option.bind (alloc_kmodule others (cmd_waiter s) (sys_loader s)) (\<lambda>(module, l).
              let s1 = s\<lparr>sys_loader := l\<rparr> in
              if module = NULL then Some (Inr (- 1, print_out (txt_of ''kmodule alloc failed!'' @ [10]) s1))
              else case kmalloc_block l of (file_buf, l1) \<Rightarrow>
                let s2 = s1\<lparr>sys_loader := l1\<rparr> in
                if file_buf = NULL then Some (Inr (- 1, print_out (txt_of ''file buffer alloc failed!'' @ [10]) s2))
                else and_then (vfs_open ops new_path (cmd_file s2) (sys_vfs s2)) (\<lambda>(fd, v).
                  let s3 = s2\<lparr>sys_vfs := v\<rparr> in
                  if fd = - 1 then Some (Inr (- 1, print_out (txt_of ''vfs_open failed'' @ [10]) s3))
                  else insmod_load ops run fd module file_buf s3)))"

definition do_command_rmmod ::
  "loader switch \<Rightarrow> (ptr \<Rightarrow> ('v, 'p, 'w) sys \<Rightarrow> ('v, 'p, 'w) sys res option) \<Rightarrow> ('v, 'p, 'w) command_body" where
  "do_command_rmmod others run args1 s =
     (case args1 of
        None \<Rightarrow> Some (Inr (- 1, print_out (txt_of ''Please give a correct module name!'' @ [10]) s))
      | Some mod_name \<Rightarrow>
          let l = sys_loader s; l1 = l\<lparr>mem := put_string (cmd_args s) (mod_name @ [0]) (mem l)\<rparr>; s1 = s\<lparr>sys_loader := l1\<rparr> in
          and_then (find_module_by_name (cmd_args s) l1) (\<lambda>module.
            if module = NULL then Some (Inr (- 1, print_out (txt_of ''Cann'' @ [39] @ txt_of ''t find the module!'' @ [10]) s1))
            else case entry_function module 1 l1 of
                Inl e \<Rightarrow> Some (Inl e)
              | Inr pFun \<Rightarrow> and_then (run pFun s1) (\<lambda>s2.
                  map_option (\<lambda>l2. Inr (0, s2\<lparr>sys_loader := l2\<rparr>)) (free_kmodule others (cmd_waiter s2) module (sys_loader s2)))))"

definition do_command_mount :: "('v, 'p, 'w) command_body" where
  "do_command_mount args1 s =
     (case args1 of
        None \<Rightarrow> Some (Inr (- 1, s))
      | Some t \<Rightarrow>
          (case mount_address (Some t) of
             None \<Rightarrow> Some (Inr (- 1, print_out (txt_of ''Please give a correct address!'') s))
           | Some fimage_addr \<Rightarrow>
               (case vfs_mount fimage_addr (txt_of ''FAT'') (sys_vfs s) of
                  Inl e \<Rightarrow> Some (Inl e)
                | Inr (r, v) \<Rightarrow>
                    if r \<noteq> 0 then Some (Inr (- 1, print_out (txt_of ''FAT FS Mount Failed!'' @ [10]) (s\<lparr>sys_vfs := v\<rparr>)))
                    else Some (Inr (0, s\<lparr>sys_vfs := v\<rparr>)))))"

text \<open>The read loop of \<open>ls\<close> with the contents of its buffer of 1024 bytes; a name ends at its terminator.\<close>

definition ls_show :: "u8 list \<Rightarrow> ('v, 'p, 'w) sys \<Rightarrow> ('v, 'p, 'w) sys" where
  "ls_show bs s =
     (let nm = takeWhile (\<lambda>c. c \<noteq> 0) bs in if 0 < length nm then print_out (simple_str2lo nm @ [10]) s else s)"

partial_function (option) ls_loop ::
  "('v \<Rightarrow> ('v, 'p, 'w) vfs_opvector) \<Rightarrow> int \<Rightarrow> u8 list \<Rightarrow> ('v, 'p, 'w) sys \<Rightarrow> ('v, 'p, 'w) sys res option" where
  "ls_loop ops fd buf s =
     (case vfs_read ops fd buf 1024 (sys_vfs s) of
        None \<Rightarrow> None
      | Some (Inl e) \<Rightarrow> Some (Inl e)
      | Some (Inr (r, bs, count, v)) \<Rightarrow>
          (let s1 = s\<lparr>sys_vfs := v\<rparr> in
           if r \<noteq> - 1 \<and> count \<noteq> 0 then ls_loop ops fd (replicate 1024 0) (ls_show bs s1) else Some (Inr s1)))"

definition do_command_ls :: "('v \<Rightarrow> ('v, 'p, 'w) vfs_opvector) \<Rightarrow> ('v, 'p, 'w) command_body" where
  "do_command_ls ops args1 s =
     (case kmalloc_block (sys_loader s) of (buf, l) \<Rightarrow>
        let s1 = s\<lparr>sys_loader := l\<rparr> in
        if buf = NULL then Some (Inr (- 1, s1))
        else case command_path args1 s1 of
            Inl e \<Rightarrow> Some (Inl e)
          | Inr new_path \<Rightarrow>
              and_then (vfs_open ops new_path (cmd_file s1) (sys_vfs s1)) (\<lambda>(fd, v).
                let s2 = s1\<lparr>sys_vfs := v\<rparr> in
                if fd = - 1 then Some (Inr (- 1, print_out (txt_of ''vfs_open failed'' @ [10]) s2))
                else and_then (ls_loop ops fd (block (mem l) buf 1024) s2) (\<lambda>s3.
                  case vfs_close ops fd (sys_vfs s3) of
                    Inl e \<Rightarrow> Some (Inl e)
                  | Inr (r, v1) \<Rightarrow>
                      let s4 = s3\<lparr>sys_vfs := v1\<rparr> in
                      if r \<noteq> 0 then Some (Inr (- 1, print_out (txt_of ''vfs_close failed'' @ [10]) s4))
                      else Some (Inr (0, s4\<lparr>sys_loader := kfree_block buf (sys_loader s4)\<rparr>)))))"

definition do_command_chdir :: "('v, 'p, 'w) command_body" where
  "do_command_chdir args1 s =
     Some (bind_res (do_command_cd args1 s) (\<lambda>(r, s1). Inr (r, set_cur_path (sh_path s1) s1)))"

definition do_command_kmsg :: "('v, 'p, 'w) command_body" where
  "do_command_kmsg args1 s = and_then (kmsg_dump (sys_log s)) (\<lambda>l. Some (Inr (0, s\<lparr>sys_log := l\<rparr>)))"

definition do_command_help :: "('v, 'p, 'w) command_body" where
  "do_command_help args1 s = map_option (\<lambda>s1. Inr (0, s1)) (shell_help s)"

definition do_command_pwd :: "('v, 'p, 'w) command_body" where
  "do_command_pwd args1 s = Some (Inr (0, print_out (vfs_get_cur_path (sys_vfs s) @ [10]) s))"

text \<open>
  The functions of the two modules in the tree, as \<open>insmod\<close> and \<open>rmmod\<close> run them: \<open>pwd\<close> registers its command at the address
  \<open>pwd_command\<close> of the loaded module, \<open>hello\<close> only prints.
\<close>

definition pwd_init_module :: "ptr \<Rightarrow> ('v, 'p, 'w) sys \<Rightarrow> (int \<times> ('v, 'p, 'w) sys) option" where
  "pwd_init_module pwd_command s =
     map_option (\<lambda>s1. (0, s1)) (shell_register_command pwd_command (print_out (txt_of ''start init pwd command!'' @ [10]) s))"

definition pwd_exit_module :: "('v, 'p, 'w) sys \<Rightarrow> ('v, 'p, 'w) sys" where
  "pwd_exit_module s = print_out (txt_of ''delete pwd command!'' @ [10]) s"

definition hello_init_module :: "('v, 'p, 'w) sys \<Rightarrow> int \<times> ('v, 'p, 'w) sys" where
  "hello_init_module s = (0, print_out (txt_of ''module hello runned!'' @ [10]) s)"

definition hello_exit_module :: "('v, 'p, 'w) sys \<Rightarrow> ('v, 'p, 'w) sys" where
  "hello_exit_module s = print_out (txt_of ''module hello exited!'' @ [10]) s"

text \<open>The command of the module stays in the table when the module is removed.\<close>

lemma pwd_exit_keeps_table: "commands_rep (pwd_exit_module s) cs = commands_rep s cs"
  by (simp add: pwd_exit_module_def print_out_def commands_rep_def)

text \<open>The function of a command, by the name of the command; the module \<open>pwd\<close> adds its own when it is loaded.\<close>

definition command_body ::
  "('v \<Rightarrow> ('v, 'p, 'w) vfs_opvector) \<Rightarrow> loader switch \<Rightarrow> (ptr \<Rightarrow> ('v, 'p, 'w) sys \<Rightarrow> ('v, 'p, 'w) sys res option) \<Rightarrow> u8 list
   \<Rightarrow> ('v, 'p, 'w) command_body" where
  "command_body ops others run nm =
     (if nm = txt_of ''kmsg'' then do_command_kmsg
      else if nm = txt_of ''insmod'' then do_command_insmod ops others run
      else if nm = txt_of ''rmmod'' then do_command_rmmod others run
      else if nm = txt_of ''mount'' then do_command_mount
      else if nm = txt_of ''ls'' then do_command_ls ops
      else if nm = txt_of ''cd'' then do_command_chdir
      else if nm = txt_of ''pwd'' then do_command_pwd
      else do_command_help)"

text \<open>
  The functions for \<open>run_command\<close>: a command that fails in the sense of a \<^typ>\<open>fault\<close> or does not return stops the shell.
\<close>

definition shell_func ::
  "('v \<Rightarrow> ('v, 'p, 'w) vfs_opvector) \<Rightarrow> loader switch \<Rightarrow> (ptr \<Rightarrow> ('v, 'p, 'w) sys \<Rightarrow> ('v, 'p, 'w) sys res option)
   \<Rightarrow> ('v, 'p, 'w) sys command_fn" where
  "shell_func ops others run cur args1 s =
     (case command_body ops others run (sc_command (command_at s cur)) args1 s of
        Some (Inr (r, s1)) \<Rightarrow> s1
      | _ \<Rightarrow> s\<lparr>stopped := True\<rparr>)"

subsection \<open>Listing a directory\<close>

text \<open>
  What \<open>ls\<close> prints for a sequence of directory entries: the names of those that are neither deleted nor parts of long
  names, in lower case, a line each.
\<close>

definition visible :: "fat_entry \<Rightarrow> bool" where
  "visible e \<longleftrightarrow> \<not> DENTRY_IS_DELETED e \<and> \<not> DENTRY_IS_LONG_NAME e"

definition listing :: "fat_entry list \<Rightarrow> u8 list" where
  "listing es = concat (map (\<lambda>e. simple_str2lo (dirent_name e) @ [10]) (filter visible es))"

text \<open>The entries of the first sector of the root directory, and a directory that ends in that sector.\<close>

definition root_entry :: "fatfs_priv \<Rightarrow> fat_world \<Rightarrow> nat \<Rightarrow> fat_entry" where
  "root_entry fs w j =
     fat_entry_at (block (volume w) (fimage fs + root_sector fs * bytes_per_sector fs) (unat (bytes_per_sector fs))) j"

definition root_dir_of :: "fatfs_priv \<Rightarrow> fat_world \<Rightarrow> nat \<Rightarrow> bool" where
  "root_dir_of fs w k \<longleftrightarrow>
     512 \<le> unat (bytes_per_sector fs) \<and> buffer_ok w (bytes_per_sector fs) \<and>
     k < unat (root_entries fs) \<and> k < unat (bytes_per_sector fs) div 32 \<and>
     (\<forall>j < k. \<not> DENTRY_IS_ZERO (root_entry fs w j) \<and> (visible (root_entry fs w j) \<longrightarrow> 0 < dirent_trim (ent_name (root_entry fs w j)))) \<and>
     DENTRY_IS_ZERO (root_entry fs w k)"

lemma dirent_trim_take: "0 \<notin> set (take (dirent_trim t) t)"
  unfolding dirent_trim_def takeWhile_eq_take [symmetric] by (auto dest: set_takeWhileD)

lemma dirent_name_no_nul: "0 \<notin> set (dirent_name e)"
  using dirent_trim_take [of "ent_name e"] dirent_trim_take [of "ent_fext e"] by (simp add: dirent_name_def Let_def)

lemma takeWhile_name: "0 \<notin> set nm \<Longrightarrow> takeWhile (\<lambda>c. c \<noteq> 0) (overlay (nm @ [0]) buf) = nm"
  by (subst overlay_def, simp, subst takeWhile_append2) auto

lemma dirent_trim_le: "dirent_trim t \<le> length t"
  by (simp add: dirent_trim_def length_takeWhile_le)

lemma root_entry_name_length: "length (dirent_name (fat_entry_at sec j)) \<le> 12"
  using dirent_trim_le [of "take 8 (drop (32 * j) sec)"] dirent_trim_le [of "take 3 (drop 8 (drop (32 * j) sec))"]
  by (simp add: dirent_name_def fat_entry_at_def Let_def)

text \<open>One read of the root directory at entry \<open>i\<close>.\<close>

definition at_entry :: "fatfs_dirent \<Rightarrow> nat \<Rightarrow> fatfs_dirent" where
  "at_entry d i = d\<lparr>de_offset := 0, lseek := of_nat (32 * i)\<rparr>"

lemma root_dir_read_entry:
  assumes "root_dir_of (de_fs d) w k" "i \<le> k"
  shows "fatfs_root_dir_read (at_entry d i) buf w =
    Inr (if i = k then (- 1, buf, 0, at_entry d i)
         else let e = root_entry (de_fs d) w i in
           if visible e then (0, overlay (dirent_name e @ [0]) buf, of_nat (length (dirent_name e) + 1), at_entry d (Suc i))
           else (0, buf, - 1, at_entry d (Suc i)))"
proof -
  let ?fs = "de_fs d" and ?b = "unat (bytes_per_sector (de_fs d))"
  have r: "512 \<le> ?b" "k < ?b div 32" "k < unat (root_entries ?fs)" "buffer_ok w (bytes_per_sector ?fs)"
    using assms(1) by (simp_all add: root_dir_of_def)
  have "32 * i < ?b" using r(2) assms(2) by linarith
  then have l: "unat (of_nat (32 * i) :: u32) = 32 * i"
    by (intro unat_of_nat_below) (use unat_u32_less [of "bytes_per_sector ?fs"] in simp)
  then have cnt: "unat ((of_nat (32 * i) :: u32) div 32) = i" by (simp add: unat_div_distrib)
  have "(of_nat (32 * i) :: u32) div 32 < root_entries ?fs" using cnt r(3) assms(2) by (simp add: word_less_nat_alt)
  moreover have "\<not> (of_nat (32 * i) :: u32) > bytes_per_sector ?fs" using l \<open>32 * i < ?b\<close> by (simp add: word_less_nat_alt)
  moreover have "unat ((of_nat (32 * i) :: u32) div 32 mod (bytes_per_sector ?fs div 32)) = i"
    using cnt r(2) assms(2) by (simp add: unat_mod_distrib unat_div_distrib)
  moreover have "fat_read_sector ?fs (root_sector ?fs) w =
      Some (block (volume w) (fimage ?fs + root_sector ?fs * bytes_per_sector ?fs) ?b)"
    using r(1) by (simp add: fat_read_sector_def word_le_nat_alt)
  moreover have "(of_nat (32 * i) :: u32) + 32 = of_nat (32 * Suc i)" by simp
  moreover have "i = k \<Longrightarrow> DENTRY_IS_ZERO (root_entry ?fs w i)"
    "i \<noteq> k \<Longrightarrow> \<not> DENTRY_IS_ZERO (root_entry ?fs w i) \<and> (visible (root_entry ?fs w i) \<longrightarrow> 0 < dirent_trim (ent_name (root_entry ?fs w i)))"
    using assms by (auto simp: root_dir_of_def)
  ultimately show ?thesis using r(4)
    unfolding fatfs_root_dir_read_def at_entry_def root_entry_def [symmetric] visible_def
    by (auto simp: Let_def not_le root_entry_def [symmetric] simp del: of_nat_mult of_nat_Suc)
qed

definition dir_at :: "ptr \<Rightarrow> fatfs_dirent \<Rightarrow> nat \<Rightarrow> (fat_vops, ptr, fat_world) vfs \<Rightarrow> (fat_vops, ptr, fat_world) vfs" where
  "dir_at root d i v = v\<lparr>fs_world := (fs_world v)\<lparr>dirent_at := (dirent_at (fs_world v))(root := at_entry d i)\<rparr>\<rparr>"

lemma dir_at_sel [simp]:
  "desc (dir_at root d i v) = desc v" "node_at (dir_at root d i v) = node_at v"
  "dirent_at (fs_world (dir_at root d i v)) root = at_entry d i" "fp_get fd (dir_at root d i v) = fp_get fd v"
  by (simp_all add: dir_at_def fp_get_def)

lemma at_entry_sel [simp]: "de_fs (at_entry d i) = de_fs d" "de_flag (at_entry d i) = de_flag d"
  by (simp_all add: at_entry_def)

lemma vfs_read_root:
  assumes "fp_get fd v = Inr fl" "fl \<noteq> NULL" "node_at v fl = (fatfs_dir_vops, root)" "root \<noteq> NULL"
    and "de_flag d = 0xFF00" "root_dir_of (de_fs d) (fs_world v) k" "i \<le> k"
  shows "vfs_read fat_ops fd buf 1024 (dir_at root d i v) =
    Some (Inr (if i = k then (- 1, buf, 0, dir_at root d i v)
         else let e = root_entry (de_fs d) (fs_world v) i in
           if visible e then (0, overlay (dirent_name e @ [0]) buf, of_nat (length (dirent_name e) + 1), dir_at root d (Suc i) v)
           else (0, buf, - 1, dir_at root d (Suc i) v)))"
proof -
  let ?w = "fs_world (dir_at root d i v)"
  have "root_dir_of (de_fs d) ?w k" "root_entry (de_fs d) ?w = root_entry (de_fs d) (fs_world v)"
    using assms(6) by (simp_all add: dir_at_def root_dir_of_def root_entry_def fun_eq_iff)
  from root_dir_read_entry [OF this(1) assms(7), of buf] this(2)
  show ?thesis
    unfolding vfs_read_def dir_at_sel assms(1) using assms(2-5)
    by (simp add: fatfs_dir_read_def Let_def dir_at_def)
qed

lemma ls_loop_root:
  assumes "fp_get fd v = Inr fl" "fl \<noteq> NULL" "node_at v fl = (fatfs_dir_vops, root)" "root \<noteq> NULL"
    and "de_flag d = 0xFF00" "root_dir_of (de_fs d) (fs_world v) k" "i \<le> k"
    and "takeWhile (\<lambda>c. c \<noteq> 0) buf = []" "sys_vfs s = dir_at root d i v"
  shows "ls_loop fat_ops fd buf s =
    Some (Inr (s\<lparr>sys_vfs := dir_at root d k v, printed := printed s @ listing (map (root_entry (de_fs d) (fs_world v)) [i..<k])\<rparr>))"
  using assms(7-9)
proof (induction "k - i" arbitrary: i buf s)
  case 0
  then have "i = k" by simp
  then show ?case
    using 0 vfs_read_root [OF assms(1-6), of k buf]
    by (subst ls_loop.simps) (simp add: listing_def)
next
  case (Suc n)
  then have lt: "i < k" by simp
  let ?e = "root_entry (de_fs d) (fs_world v) i"
  have es: "[i..<k] = i # [Suc i..<k]" using lt by (rule upt_conv_Cons)
  have len: "length (dirent_name ?e) \<le> 12" unfolding root_entry_def by (rule root_entry_name_length)
  have zero: "takeWhile (\<lambda>c. c \<noteq> 0) (replicate 1024 0 :: u8 list) = []" by (simp add: takeWhile_eq_Nil_iff)
  have IH: "ls_loop fat_ops fd (replicate 1024 0) t =
      Some (Inr (t\<lparr>sys_vfs := dir_at root d k v, printed := printed t @ listing (map (root_entry (de_fs d) (fs_world v)) [Suc i..<k])\<rparr>))"
    if "sys_vfs t = dir_at root d (Suc i) v" for t
    using Suc.hyps(1) [of "Suc i" "replicate 1024 0" t] Suc.hyps(2) lt zero that by simp
  show ?case
  proof (cases "visible ?e")
    case True
    have "0 < dirent_trim (ent_name ?e)" using assms(6) lt True by (simp add: root_dir_of_def)
    then have pos: "0 < length (dirent_name ?e)" using dirent_trim_le [of "ent_name ?e"] by (simp add: dirent_name_def Let_def)
    have "unat (of_nat (length (dirent_name ?e) + 1) :: u32) = length (dirent_name ?e) + 1"
      using len by (intro unat_of_nat_below) simp
    then have "(of_nat (length (dirent_name ?e) + 1) :: u32) \<noteq> 0" by auto
    then have "ls_loop fat_ops fd buf s = ls_loop fat_ops fd (replicate 1024 0)
        (print_out (simple_str2lo (dirent_name ?e) @ [10]) (s\<lparr>sys_vfs := dir_at root d (Suc i) v\<rparr>))"
      using vfs_read_root [OF assms(1-6), of i buf] lt True Suc.prems(3) pos
      by (subst ls_loop.simps) (simp add: Let_def ls_show_def takeWhile_name dirent_name_no_nul)
    then show ?thesis using True by (simp add: IH print_out_def es listing_def)
  next
    case False
    have "ls_loop fat_ops fd buf s = ls_loop fat_ops fd (replicate 1024 0) (s\<lparr>sys_vfs := dir_at root d (Suc i) v\<rparr>)"
      using vfs_read_root [OF assms(1-6), of i buf] lt False Suc.prems(2,3)
      by (subst ls_loop.simps) (simp add: Let_def ls_show_def)
    then show ?thesis using False by (simp add: IH es listing_def)
  qed
qed

lemma open_root:
  assumes "fd_alloc 0 v = (fd, v0)" "0 \<le> fd" "fl \<noteq> NULL" "vfsroot v = (fatfs_dir_vops, root)" "root \<noteq> NULL"
    and "d = dirent_at (fs_world v) root"
  shows "vfs_open fat_ops [slash] fl v = Some (Inr (fd,
    dir_at root (d\<lparr>de_cluster := de_entry d\<rparr>) 0 (v\<lparr>desc := (desc v)(nat fd := fl), node_at := (node_at v)(fl := (fatfs_dir_vops, root))\<rparr>)))"
proof -
  note l = fd_alloc_lowest [OF assms(1,2)]
  show ?thesis
    using assms l(1)
    by (simp add: vfs_open_def open_dir_def open_node_def l(4) fatfs_open_def Let_def fat_files.fd_assign_desc dir_at_def at_entry_def)
qed

lemma close_any:
  assumes "0 \<le> fd" "fd < FD_MAX_NUM" "desc v (nat fd) = fl" "fl \<noteq> NULL" "fl \<noteq> FD_ALLOCATED"
  shows "vfs_close fat_ops fd v = Inr (0, v\<lparr>desc := (desc v)(nat fd := NULL)\<rparr>)"
  using assms by (simp add: vfs_close_def fp_get_def fat_files.fd_free_desc fat_files.close_nop)

text \<open>
  C23. \<open>ls\<close> in the root of a mounted FAT12 or FAT16 volume, whose root directory ends in its first sector: the command
  returns 0 and prints the names of the entries that are neither deleted nor parts of long names, in lower case and in
  the order of the directory; the descriptor it used is free again and its buffer has been freed. The buffer must
  start with a zero byte when \<open>kmalloc\<close> returns it.
\<close>

theorem ls_lists_root_directory:
  assumes "args1 = None \<or> args1 = Some []" "cur_path (sys_vfs s) = [slash]"
    and "vfsroot (sys_vfs s) = (fatfs_dir_vops, root)" "root \<noteq> NULL"
    and "fd_alloc 0 (sys_vfs s) = (fd, v0)" "0 \<le> fd" "cmd_file s \<noteq> NULL" "cmd_file s \<noteq> FD_ALLOCATED"
    and "free_blocks (sys_loader s) = buf # rest" "buf \<noteq> NULL" "mem (sys_loader s) buf = 0"
    and "d = dirent_at (fs_world (sys_vfs s)) root" "de_flag d = 0xFF00" "root_dir_of (de_fs d) (fs_world (sys_vfs s)) k"
  shows "\<exists>s'. do_command_ls fat_ops args1 s = Some (Inr (0, s')) \<and>
    printed s' = printed s @ listing (map (root_entry (de_fs d) (fs_world (sys_vfs s))) [0..<k]) \<and>
    desc (sys_vfs s') = desc (sys_vfs s) \<and> freed (sys_loader s') = freed (sys_loader s) @ [buf]"
proof -
  let ?v = "sys_vfs s" and ?fl = "cmd_file s" and ?l = "(sys_loader s)\<lparr>free_blocks := rest\<rparr>"
  note l = fd_alloc_lowest [OF assms(5,6)]
  define d' where "d' = d\<lparr>de_cluster := de_entry d\<rparr>"
  define v where "v = ?v\<lparr>desc := (desc ?v)(nat fd := ?fl), node_at := (node_at ?v)(?fl := (fatfs_dir_vops, root))\<rparr>"
  define s2 where "s2 = s\<lparr>sys_loader := ?l, sys_vfs := dir_at root d' 0 v\<rparr>"
  define s3 where "s3 = s2\<lparr>sys_vfs := dir_at root d' k v, printed := printed s2 @ listing (map (root_entry (de_fs d') (fs_world v)) [0..<k])\<rparr>"
  have path: "command_path args1 (s\<lparr>sys_loader := ?l\<rparr>) = Inr [slash]"
    using assms(1,2) by (auto simp: command_path_def vfs_get_cur_path_def simple_str2up_def)
  have opened: "vfs_open fat_ops [slash] ?fl ?v = Some (Inr (fd, dir_at root d' 0 v))"
    unfolding d'_def v_def using assms by (intro open_root) simp_all
  have fp: "fp_get fd v = Inr ?fl" "node_at v ?fl = (fatfs_dir_vops, root)"
    using assms(6-8) l(1) by (simp_all add: fp_get_def v_def)
  have buf0: "takeWhile (\<lambda>c. c \<noteq> 0) (block (mem ?l) buf 1024) = []"
  proof -
    have "[0..<1024] = 0 # [Suc 0..<1024]" by (rule upt_conv_Cons) simp
    then show ?thesis using assms(11) by (simp add: block_def del: upt_Suc)
  qed
  have loop: "ls_loop fat_ops fd (block (mem ?l) buf 1024) s2 = Some (Inr s3)"
    unfolding s3_def
    by (rule ls_loop_root [OF fp(1) assms(7) fp(2) assms(4)])
      (use assms(13,14) buf0 in \<open>simp_all add: d'_def v_def s2_def\<close>)
  have close: "vfs_close fat_ops fd (sys_vfs s3) = Inr (0, (sys_vfs s3)\<lparr>desc := (desc v)(nat fd := NULL)\<rparr>)"
    using close_any [of fd "sys_vfs s3" ?fl] assms(6-8) l(1) by (simp add: s3_def v_def)
  let ?s4 = "s3\<lparr>sys_vfs := (sys_vfs s3)\<lparr>desc := (desc v)(nat fd := NULL)\<rparr>\<rparr>"
  have fd: "fd \<noteq> - 1" using assms(6) by simp
  have "do_command_ls fat_ops args1 s = Some (Inr (0, ?s4\<lparr>sys_loader := kfree_block buf (sys_loader ?s4)\<rparr>))"
    unfolding do_command_ls_def kmalloc_block_def assms(9)
    using assms(10) fd path opened loop close by (simp add: Let_def s2_def [symmetric])
  moreover have "(desc v)(nat fd := NULL) = desc ?v" using l(2) by (auto simp: v_def fun_eq_iff)
  moreover have "printed s3 = printed s @ listing (map (root_entry (de_fs d) (fs_world ?v)) [0..<k])"
    by (simp add: s3_def s2_def d'_def v_def)
  ultimately show ?thesis by (simp add: kfree_block_def s3_def s2_def)
qed

text \<open>A volume whose root directory, in its second sector, holds one file.\<close>

definition example_entry :: "u8 list" where
  "example_entry = txt_of ''README  TXT'' @ [0x20]"

definition example_volume :: memory where
  "example_volume a = (if 512 \<le> a \<and> a < 524 then example_entry ! unat (a - 512) else 0)"

definition example_root_fs :: fatfs_priv where
  "example_root_fs = \<lparr>fimage = 0, bytes_per_sector = 512, sectors_per_cluster = 1, first_cluster_sector = 2, reserved_sector = 1,
     sectors_per_fat = 0, number_of_FAT = 0, root_entries = 16, opvector = fat12fs_opvector\<rparr>"

definition example_sys :: "(fat_vops, ptr, fat_world) sys" where
  "example_sys = shell.extend example_shell (sys.fields
     (example_vfs\<lparr>fs_world := \<lparr>volume = example_volume, dirent_at = (\<lambda>_. \<lparr>de_fs = example_root_fs, lseek = 0, de_cluster = 0,
        de_offset = 0, de_length = 0, de_entry = 0, de_flag = 0xFF00\<rparr>), spare = [], buffer_ok = (\<lambda>_. True)\<rparr>\<rparr>)
     (example_loader\<lparr>mem := (\<lambda>_. 0), free_blocks := [0x4000, 0x5000]\<rparr>) example_log 0x9000 0xa000 0xb000 False)"

lemma fat_entry_block:
  assumes "32 * j + 32 \<le> n"
  shows "fat_entry_at (block m p n) j =
    (let q = p + of_nat (32 * j) in
     \<lparr>ent_name = block m q 8, ent_fext = block m (q + 8) 3, ent_attribute = m (q + 11),
      ent_cluster_high = ucast (m (q + 20)) OR push_bit 8 (ucast (m (q + 21))),
      ent_cluster_entry = ucast (m (q + 26)) OR push_bit 8 (ucast (m (q + 27))),
      ent_length = get32 (m (q + 28)) (m (q + 29)) (m (q + 30)) (m (q + 31))\<rparr>)"
proof -
  have n: "(block m p n) ! (32 * j + i) = m (p + of_nat (32 * j) + of_nat i)" if "i < 32" for i
    using assms that by (simp add: nth_block add.assoc)
  have t: "take k (drop i (drop (32 * j) (block m p n))) = block m (p + of_nat (32 * j) + of_nat i) k" if "i + k \<le> 32" for i k
    using assms that by (intro nth_equalityI) (simp_all add: nth_block length_block add_ac)
  show ?thesis
    using t [of 0 8] t [of 8 3] n [of 11] n [of 20] n [of 21] n [of 26] n [of 27] n [of 28] n [of 29] n [of 30] n [of 31] assms
    by (simp add: fat_entry_at_def Let_def get16_def get32_at_def length_block)
qed

lemma example_root_dir: "root_entry example_root_fs (fs_world (sys_vfs example_sys)) 0 =
    \<lparr>ent_name = txt_of ''README  '', ent_fext = txt_of ''TXT'', ent_attribute = 0x20, ent_cluster_high = 0, ent_cluster_entry = 0, ent_length = 0\<rparr>"
  "ent_name (root_entry example_root_fs (fs_world (sys_vfs example_sys)) 1) = [0, 0, 0, 0, 0, 0, 0, 0]"
proof -
  have v: "volume (fs_world (sys_vfs example_sys)) = example_volume"
    by (simp add: example_sys_def sys.defs shell.defs)
  have base: "fimage example_root_fs + root_sector example_root_fs * bytes_per_sector example_root_fs = 512"
    "unat (bytes_per_sector example_root_fs) = 512"
    by (simp_all add: example_root_fs_def root_sector_def)
  have b: "block m q 8 = [m q, m (q + 1), m (q + 2), m (q + 3), m (q + 4), m (q + 5), m (q + 6), m (q + 7)]"
    "block m q 3 = [m q, m (q + 1), m (q + 2)]" for m q
    by (simp_all add: block_def upt_rec)
  show "root_entry example_root_fs (fs_world (sys_vfs example_sys)) 0 =
    \<lparr>ent_name = txt_of ''README  '', ent_fext = txt_of ''TXT'', ent_attribute = 0x20, ent_cluster_high = 0, ent_cluster_entry = 0, ent_length = 0\<rparr>"
    unfolding root_entry_def v base
    by (simp add: fat_entry_block b get32_def example_volume_def example_entry_def txt_of_def chr_def)
  show "ent_name (root_entry example_root_fs (fs_world (sys_vfs example_sys)) 1) = [0, 0, 0, 0, 0, 0, 0, 0]"
    unfolding root_entry_def v base by (simp add: fat_entry_block b example_volume_def)
qed

lemma example_root_dir_of: "root_dir_of example_root_fs (fs_world (sys_vfs example_sys)) 1"
proof -
  have "buffer_ok (fs_world (sys_vfs example_sys)) = (\<lambda>_. True)" by (simp add: example_sys_def sys.defs shell.defs)
  moreover have "unat (bytes_per_sector example_root_fs) = 512" "unat (root_entries example_root_fs) = 16"
    by (simp_all add: example_root_fs_def)
  ultimately show ?thesis
    unfolding root_dir_of_def
    by (simp add: example_root_dir example_root_dir(2) [unfolded One_nat_def] visible_def DENTRY_IS_ZERO_def dirent_trim_def txt_of_def chr_def)
qed

theorem ls_lists_root_directory_witness:
  "\<exists>s'. do_command_ls fat_ops None example_sys = Some (Inr (0, s')) \<and> printed s' = txt_of ''readme.txt'' @ [10] \<and>
     desc (sys_vfs s') = (\<lambda>_. NULL)"
proof -
  have e: "cur_path (sys_vfs example_sys) = [slash]" "vfsroot (sys_vfs example_sys) = (fatfs_dir_vops, 0x8000)"
    "desc (sys_vfs example_sys) = (\<lambda>_. NULL)" "cmd_file example_sys = 0x9000" "printed example_sys = []"
    "free_blocks (sys_loader example_sys) = [0x4000, 0x5000]" "mem (sys_loader example_sys) = (\<lambda>_. 0)"
    "de_fs (dirent_at (fs_world (sys_vfs example_sys)) 0x8000) = example_root_fs"
    "de_flag (dirent_at (fs_world (sys_vfs example_sys)) 0x8000) = 0xFF00"
    by (simp_all add: example_sys_def sys.defs shell.defs example_vfs_def example_shell_def)
  have fd: "fd_alloc 0 (sys_vfs example_sys) = (0, (sys_vfs example_sys)\<lparr>desc := (desc (sys_vfs example_sys))(0 := FD_ALLOCATED)\<rparr>)"
    by (simp add: fd_alloc_def e upt_conv_Cons del: upt_Suc)
  have "listing (map (root_entry example_root_fs (fs_world (sys_vfs example_sys))) [0..<1]) = txt_of ''readme.txt'' @ [10]"
    by (simp add: listing_def example_root_dir visible_def DENTRY_IS_DELETED_def DENTRY_IS_LONG_NAME_def dirent_name_def dirent_trim_def
        simple_str2lo_def txt_of_def chr_def Let_def)
  with ls_lists_root_directory [of None example_sys "0x8000" 0
      "(sys_vfs example_sys)\<lparr>desc := (desc (sys_vfs example_sys))(0 := FD_ALLOCATED)\<rparr>" "0x4000" "[0x5000]"
      "dirent_at (fs_world (sys_vfs example_sys)) 0x8000" 1] fd example_root_dir_of
  show ?thesis by (auto simp: e)
qed

subsection \<open>Reading a module file\<close>

lemma put_string_byte:
  assumes "length bs \<le> 2 ^ 32"
  shows "put_string p bs m a = (if unat (a - p) < length bs then bs ! unat (a - p) else m a)"
  using assms
proof (induction bs rule: rev_induct)
  case Nil
  show ?case by (simp add: put_string_def)
next
  case (snoc b bs)
  have step: "put_string p (bs @ [b]) m = (put_string p bs m)(p + of_nat (length bs) := b)"
  proof -
    have "fold (\<lambda>i m. m(p + of_nat i := (bs @ [b]) ! i)) [0..<length bs] m = put_string p bs m"
      unfolding put_string_def by (intro fold_cong) (simp_all add: nth_append)
    then show ?thesis by (simp add: put_string_def)
  qed
  have len: "length bs < 2 ^ 32" using snoc.prems by simp
  have "a = p + of_nat (length bs) \<longleftrightarrow> a - p = of_nat (length bs)" by (auto simp: algebra_simps)
  also have "\<dots> \<longleftrightarrow> unat (a - p) = unat (of_nat (length bs) :: u32)" by (rule word_unat_eq_iff)
  also have "unat (of_nat (length bs) :: u32) = length bs" using len by (intro unat_of_nat_below) simp
  finally have eq: "a = p + of_nat (length bs) \<longleftrightarrow> unat (a - p) = length bs" .
  show ?case unfolding step using snoc.IH len eq by (auto simp: nth_append)
qed

lemma put_string_block: "n \<le> 2 ^ 32 \<Longrightarrow> put_string p (block m p n) m = m"
  by (rule ext) (simp add: put_string_byte)

lemma fatfs_read_file:
  assumes "file_at w f cs" "priv \<noteq> NULL" "dirent_at w priv = f" "unat (lseek f) \<le> unat (de_length f)"
    and "unat (lseek f) + unat count < 2 ^ 32" "unat (de_length f) < 2 ^ 32 - 1"
  shows "\<exists>f'. fatfs_read priv buf count w = Some (Inr (0,
      overlay (take (min (unat count) (unat (de_length f) - unat (lseek f))) (drop (unat (lseek f)) (chain_bytes (de_fs f) w cs))) buf,
      of_nat (min (unat count) (unat (de_length f) - unat (lseek f))),
      w\<lparr>dirent_at := (dirent_at w)(priv := f'\<lparr>lseek := lseek f + of_nat (min (unat count) (unat (de_length f) - unat (lseek f)))\<rparr>)\<rparr>)) \<and>
    file_at w f' cs \<and> same_file f f'"
proof -
  let ?n = "min (unat count) (unat (de_length f) - unat (lseek f))"
  obtain f' where f': "fatfs_pread f count (lseek f) w =
      Some (Inr (of_nat ?n, take ?n (drop (unat (lseek f)) (chain_bytes (de_fs f) w cs)), f'))" "file_at w f' cs"
    using pread_run_contents [OF assms(1,4,5)] unfolding fatfs_pread_def by blast
  have same: "same_file f f'" using f'(1) unfolding fatfs_pread_def by (rule pread_run_same_file)
  have "unat (of_nat ?n :: u32) = ?n" using assms(6) by (intro unat_of_nat_below) simp
  moreover have "unat (- 1 :: u32) = 2 ^ 32 - 1" by (simp add: unsigned_minus_1_eq_mask mask_eq_exp_minus_1)
  ultimately have "of_nat ?n \<noteq> (- 1 :: u32)" using assms(6) by auto
  then show ?thesis
    using f' same same_file_sel(2) [OF same] assms(2,3) by (intro exI [of _ f']) (simp add: fatfs_read_def)
qed

lemma fat_world_dirent:
  "fat_read_sector fs k (w\<lparr>dirent_at := g\<rparr>) = fat_read_sector fs k w"
  "fat_next_cluster opv fs c (w\<lparr>dirent_at := g\<rparr>) = fat_next_cluster opv fs c w"
  "fat_read_cluster fs c (w\<lparr>dirent_at := g\<rparr>) = fat_read_cluster fs c w"
proof -
  show sector: "fat_read_sector fs k (w\<lparr>dirent_at := g\<rparr>) = fat_read_sector fs k w" for k by (simp add: fat_read_sector_def)
  show "fat_next_cluster opv fs c (w\<lparr>dirent_at := g\<rparr>) = fat_next_cluster opv fs c w"
  proof -
    have "buffer_ok (w\<lparr>dirent_at := g\<rparr>) = buffer_ok w" by simp
    then have "fat_next_cluster12 fs c (w\<lparr>dirent_at := g\<rparr>) = fat_next_cluster12 fs c w"
      "fat_next_cluster16 fs c (w\<lparr>dirent_at := g\<rparr>) = fat_next_cluster16 fs c w"
      "fat_next_cluster32 fs c (w\<lparr>dirent_at := g\<rparr>) = fat_next_cluster32 fs c w"
      unfolding fat_next_cluster12_def fat_next_cluster16_def fat_next_cluster32_def sector by presburger+
    then show ?thesis by (cases opv) simp_all
  qed
  have "read_sectors fs n k (w\<lparr>dirent_at := g\<rparr>) = read_sectors fs n k w" for n k
    by (induction n arbitrary: k) (simp_all add: sector)
  then show "fat_read_cluster fs c (w\<lparr>dirent_at := g\<rparr>) = fat_read_cluster fs c w" by (simp add: fat_read_cluster_def)
qed

lemma file_at_dirent:
  "file_at (w\<lparr>dirent_at := g\<rparr>) f cs = file_at w f cs" "file_at w (f\<lparr>lseek := k\<rparr>) cs = file_at w f cs"
  by (simp_all add: file_at_def chain_ok_def on_chain_def fat_world_dirent)

lemma overlay_nth: "i < length bs \<Longrightarrow> overlay bs buf ! i = bs ! i"
  by (simp add: overlay_def nth_append)

lemma put_overlay:
  fixes buf :: ptr and m :: memory
  assumes "length bs \<le> 4096"
  defines "m' \<equiv> put_string buf (overlay bs (block m buf 4096)) m"
  shows "block m' buf (length bs) = bs" "a \<notin> block_addrs buf 4096 \<Longrightarrow> m' a = m a"
proof -
  have len: "length (overlay bs (block m buf 4096)) = 4096" using assms(1) by (simp add: overlay_def)
  have byte: "m' a = (if unat (a - buf) < 4096 then overlay bs (block m buf 4096) ! unat (a - buf) else m a)" for a
    unfolding m'_def using put_string_byte [of "overlay bs (block m buf 4096)" buf m a] len by simp
  have off: "unat (buf + of_nat i - buf) = i" if "i < 4096" for i using that by (simp add: unat_of_nat_below)
  show "block m' buf (length bs) = bs"
    unfolding block_eq_iff
  proof (intro conjI allI impI refl)
    fix i assume i: "i < length bs"
    then have "i < 4096" using assms(1) by simp
    then show "m' (buf + of_nat i) = bs ! i" unfolding byte off [OF \<open>i < 4096\<close>] using i by (simp add: overlay_nth)
  qed
  show "m' a = m a" if "a \<notin> block_addrs buf 4096"
  proof -
    have "a = buf + of_nat (unat (a - buf))" by simp
    then have "\<not> unat (a - buf) < 4096" using that unfolding block_addrs_iff by blast
    then show ?thesis by (simp add: byte)
  qed
qed

text \<open>
  C24. \<open>insmod\<close> reads a file of at most 4096 bytes from a FAT volume completely: from the start of the file its read loop
  returns, the memory from the buffer on holds the bytes of the file in order, and nothing outside the 4096 bytes of
  the buffer has changed.
\<close>

theorem insmod_reads_whole_file:
  assumes "fp_get fd v = Inr fl" "fl \<noteq> NULL" "node_at v fl = (fatfs_vops, priv)" "priv \<noteq> NULL"
    and "f = dirent_at (fs_world v) priv" "file_at (fs_world v) f cs" "lseek f = 0" "unat (de_length f) \<le> 4096"
  shows "\<exists>v' m'. insmod_read_loop fat_ops fd buf 4096 v m = Some (Inr (v', m')) \<and>
    block m' buf (unat (de_length f)) = take (unat (de_length f)) (chain_bytes (de_fs f) (fs_world v) cs) \<and>
    (\<forall>a. a \<notin> block_addrs buf 4096 \<longrightarrow> m' a = m a)"
proof -
  let ?w = "fs_world v" and ?L = "unat (de_length f)"
  define bs where "bs = take ?L (chain_bytes (de_fs f) ?w cs)"
  have geo: "geometry_ok (de_fs f)" "?L \<le> length cs * unat (bytes_per_cluster (de_fs f))" using assms(6) by (simp_all add: file_at_def)
  then have len: "length bs = ?L" by (simp add: bs_def chain_bytes_length)
  define m1 where "m1 = put_string buf (overlay bs (block m buf 4096)) m"
  obtain f' where f': "fatfs_read priv (block m buf 4096) 4096 ?w =
      Some (Inr (0, overlay bs (block m buf 4096), de_length f, ?w\<lparr>dirent_at := (dirent_at ?w)(priv := f'\<lparr>lseek := de_length f\<rparr>)\<rparr>))"
      "file_at ?w f' cs" "same_file f f'"
    using fatfs_read_file [OF assms(6,4) assms(5) [symmetric], of 4096 "block m buf 4096"] assms(7,8) by (auto simp: bs_def min_def)
  define v1 where "v1 = v\<lparr>fs_world := ?w\<lparr>dirent_at := (dirent_at ?w)(priv := f'\<lparr>lseek := de_length f\<rparr>)\<rparr>\<rparr>"
  have read1: "vfs_read fat_ops fd (block m buf 4096) 4096 v = Some (Inr (0, overlay bs (block m buf 4096), de_length f, v1))"
    using assms(1-3) f'(1) by (simp add: vfs_read_def v1_def)
  have "\<exists>v'. insmod_read_loop fat_ops fd buf 4096 v m = Some (Inr (v', m1))"
  proof (cases "de_length f = 0")
    case True
    then show ?thesis using read1 by (subst insmod_read_loop.simps) (simp add: m1_def [symmetric] Let_def)
  next
    case False
    let ?buf = "buf + de_length f" and ?n = "4096 - de_length f"
    have n: "unat ?n = 4096 - ?L" using assms(8) by (subst unat_sub_no_wrap) simp_all
    have "file_at (fs_world v1) (f'\<lparr>lseek := de_length f\<rparr>) cs" using f'(2) by (simp add: v1_def file_at_dirent)
    from fatfs_read_file [OF this assms(4), of ?n "block m1 ?buf (unat ?n)"] same_file_sel [OF f'(3)] n assms(8)
    obtain w2 where "fatfs_read priv (block m1 ?buf (unat ?n)) ?n (fs_world v1) =
        Some (Inr (0, overlay [] (block m1 ?buf (unat ?n)), 0, w2))"
      by (auto simp: v1_def)
    moreover have "fp_get fd v1 = fp_get fd v" "node_at v1 fl = (fatfs_vops, priv)" using assms(3) by (simp_all add: v1_def fp_get_def)
    ultimately have read2: "vfs_read fat_ops fd (block m1 ?buf (unat ?n)) ?n v1 =
        Some (Inr (0, block m1 ?buf (unat ?n), 0, v1\<lparr>fs_world := w2\<rparr>))"
      using assms(1,2) by (simp add: vfs_read_def overlay_def)
    have "insmod_read_loop fat_ops fd buf 4096 v m = insmod_read_loop fat_ops fd ?buf ?n v1 m1"
      using read1 False by (subst insmod_read_loop.simps) (simp add: m1_def [symmetric] Let_def)
    also have "\<dots> = Some (Inr (v1\<lparr>fs_world := w2\<rparr>, m1))"
      using read2 n by (subst insmod_read_loop.simps) (simp add: Let_def put_string_block)
    finally show ?thesis by blast
  qed
  moreover have "block m1 buf ?L = bs" "\<forall>a. a \<notin> block_addrs buf 4096 \<longrightarrow> m1 a = m a"
    using put_overlay [where bs = bs and buf = buf and m = m] len assms(8) unfolding m1_def by simp_all
  ultimately show ?thesis unfolding bs_def by blast
qed

theorem insmod_reads_whole_file_witness:
  "\<exists>v' m'. insmod_read_loop fat_ops 0 0x4000 4096 (example_vfs\<lparr>desc := (\<lambda>_. 0x9000), node_at := (\<lambda>_. (fatfs_vops, 0x8000))\<rparr>) (\<lambda>_. 0) =
      Some (Inr (v', m')) \<and> block m' 0x4000 300 = take 300 (chain_bytes example_fs example_fat [2])"
proof -
  let ?v = "example_vfs\<lparr>desc := (\<lambda>_. 0x9000), node_at := (\<lambda>_. (fatfs_vops, 0x8000))\<rparr>"
  have f: "fp_get 0 ?v = Inr 0x9000" "dirent_at example_fat 0x8000 = example_file" "fs_world ?v = example_fat"
    "lseek example_file = 0" "unat (de_length example_file) = 300" "de_fs example_file = example_fs"
    by (simp_all add: fp_get_def example_vfs_def example_fat_def example_file_def)
  show ?thesis
    using insmod_reads_whole_file [OF f(1), of "0x8000" example_file "[2]" "0x4000" "\<lambda>_. 0"] example_file_at
    by (auto simp: f)
qed

end
