(* ===== verification/Mmu.thy ===== *)
theory Mmu
  imports Prelude
begin

section \<open>Page tables: \<open>arch/arm/mmu.c\<close>, \<open>include/arch/arm/memory.h\<close>\<close>

text \<open>
  The first-level table of the ARM926 has 4096 descriptors of one megabyte each, at \<open>kernel_pgd\<close>. Memory is
  read and written in words here. The coprocessor registers are fields of the state; invalidating the TLB and
  cleaning cache lines change nothing that the model keeps. \<open>pt_blocks\<close> is what the coming calls of
  \<open>kmalloc\<close> return. The constants are those of the board \<open>Hi3560\<close>.
\<close>

record mmu =
  word_mem :: "ptr \<Rightarrow> u32"
  kernel_pgd_base :: ptr
  pt_blocks :: "ptr list"
  ttbr :: u32
  dacr :: u32
  cr1 :: u32

abbreviation PAGE_OFFSET :: u32 where "PAGE_OFFSET \<equiv> 0xc0000000"
abbreviation PHYS_OFFSET :: u32 where "PHYS_OFFSET \<equiv> 0xc0000000"

definition SECTION_MASK :: u32 where "SECTION_MASK = NOT (mask 20)"
definition PAGE_MASK :: u32 where "PAGE_MASK = NOT (mask 12)"

definition pgd_index :: "u32 \<Rightarrow> u32" where "pgd_index addr = drop_bit 20 addr"
definition pgd_offset :: "ptr \<Rightarrow> u32 \<Rightarrow> ptr" where "pgd_offset pgd addr = pgd + 4 * pgd_index addr"
definition align_down :: "u32 \<Rightarrow> u32 \<Rightarrow> u32" where "align_down p n = p AND NOT (n - 1)"

definition virt_to_phys :: "u32 \<Rightarrow> u32" where "virt_to_phys x = x - PAGE_OFFSET + PHYS_OFFSET"
definition phys_to_virt :: "u32 \<Rightarrow> u32" where "phys_to_virt x = x - PHYS_OFFSET + PAGE_OFFSET"

datatype map_type = MAP_DESC_TYPE_SECTION | MAP_DESC_TYPE_PAGE

record map_desc =
  md_paddr :: u32
  md_vaddr :: u32
  md_length :: u32
  md_attr :: u32
  md_type :: map_type

definition put_word :: "ptr \<Rightarrow> u32 \<Rightarrow> mmu \<Rightarrow> mmu" where
  "put_word a w s = s\<lparr>word_mem := (word_mem s)(a := w)\<rparr>"

text \<open>The access bits \<open>TTB_AP\<close>, the cache bits and \<open>TTB_SD\<close>.\<close>

definition section_desc :: "u32 \<Rightarrow> u32 \<Rightarrow> u32" where
  "section_desc paddr flags = (paddr AND SECTION_MASK) OR (flags AND 0xc00) OR ((flags AND 8) OR (flags AND 4)) OR 2"

definition arm_mmu_map_section :: "u32 \<Rightarrow> u32 \<Rightarrow> u32 \<Rightarrow> mmu \<Rightarrow> mmu" where
  "arm_mmu_map_section vaddr paddr flags s = put_word (pgd_offset (kernel_pgd_base s) vaddr) (section_desc paddr flags) s"

definition arm_mmu_unmap_section :: "u32 \<Rightarrow> mmu \<Rightarrow> mmu" where
  "arm_mmu_unmap_section vaddr s = put_word (pgd_offset (kernel_pgd_base s) vaddr) 0 s"

definition pte_offset :: "ptr \<Rightarrow> u32 \<Rightarrow> ptr" where
  "pte_offset pt virtual = pt + 4 * drop_bit 12 (virtual AND NOT SECTION_MASK)"

definition page_desc :: "u32 \<Rightarrow> u32 \<Rightarrow> u32" where
  "page_desc paddr flags =
     (paddr AND PAGE_MASK) OR ((flags AND 0x30) OR (flags AND 0xc0) OR (flags AND 0x300) OR (flags AND 0xc00)) OR
     ((flags AND 8) OR (flags AND 4)) OR 2"

definition kmalloc_table :: "mmu \<Rightarrow> ptr \<times> mmu" where
  "kmalloc_table s = (case pt_blocks s of [] \<Rightarrow> (NULL, s) | p # ps \<Rightarrow> (p, s\<lparr>pt_blocks := ps\<rparr>))"

text \<open>The coarse descriptors \<open>pgd[i]\<close> for \<open>i < 4\<close>.\<close>

definition coarse_desc :: "ptr \<Rightarrow> nat \<Rightarrow> u32" where
  "coarse_desc pt i = (virt_to_phys pt + of_nat i * 256 * 4) OR 1"

definition set_coarse :: "ptr \<Rightarrow> ptr \<Rightarrow> mmu \<Rightarrow> mmu" where
  "set_coarse pgd pt s = fold (\<lambda>i. put_word (pgd + 4 * of_nat i) (coarse_desc pt i)) [0..<4] s"

definition arm_mmu_map_page :: "u32 \<Rightarrow> u32 \<Rightarrow> u32 \<Rightarrow> mmu \<Rightarrow> mmu" where
  "arm_mmu_map_page vaddr paddr flags s =
     (let pgd = align_down (pgd_offset (kernel_pgd_base s) vaddr) 4;
          s1 = (if pgd \<noteq> NULL then case kmalloc_table s of (blk, t) \<Rightarrow> set_coarse pgd (align_down blk 1024) t else s);
          pt = align_down (phys_to_virt (word_mem s1 pgd)) 1024
      in put_word (pte_offset pt vaddr) (page_desc paddr flags) s1)"

partial_function (option) map_section_loop :: "u32 \<Rightarrow> u32 \<Rightarrow> u32 \<Rightarrow> u32 \<Rightarrow> mmu \<Rightarrow> mmu option" where
  "map_section_loop vaddr paddr endp flags s =
     (if vaddr < endp then map_section_loop (vaddr + 0x100000) (paddr + 0x100000) endp flags (arm_mmu_map_section vaddr paddr flags s)
      else Some s)"

partial_function (option) map_page_loop :: "u32 \<Rightarrow> u32 \<Rightarrow> u32 \<Rightarrow> u32 \<Rightarrow> mmu \<Rightarrow> mmu option" where
  "map_page_loop vaddr paddr endp flags s =
     (if vaddr < endp then map_page_loop (vaddr + 0x1000) (paddr + 0x1000) endp flags (arm_mmu_map_page vaddr paddr flags s)
      else Some s)"

definition arm_mmu_create_mapping :: "map_desc \<Rightarrow> mmu \<Rightarrow> mmu option" where
  "arm_mmu_create_mapping md s =
     (case md_type md of
        MAP_DESC_TYPE_SECTION \<Rightarrow>
          if md_paddr md AND NOT SECTION_MASK \<noteq> 0 \<or> md_vaddr md AND NOT SECTION_MASK \<noteq> 0 \<or> md_length md AND NOT SECTION_MASK \<noteq> 0
          then Some s
          else map_section_loop (md_vaddr md) (md_paddr md) (md_vaddr md + md_length md) (md_attr md) s
      | MAP_DESC_TYPE_PAGE \<Rightarrow>
          if md_paddr md AND NOT PAGE_MASK \<noteq> 0 \<or> md_vaddr md AND NOT PAGE_MASK \<noteq> 0 \<or> md_length md AND NOT PAGE_MASK \<noteq> 0
          then Some s
          else map_page_loop (md_vaddr md) (md_paddr md) (md_vaddr md + md_length md) (md_attr md) s)"

definition arm_mmu_map_low_memory :: "mmu \<Rightarrow> mmu option" where
  "arm_mmu_map_low_memory = arm_mmu_create_mapping
     \<lparr>md_paddr = PHYS_OFFSET, md_vaddr = PAGE_OFFSET, md_length = 0x8000000, md_attr = 0xc0c, md_type = MAP_DESC_TYPE_SECTION\<rparr>"

definition arm_mmu_map_vector_memory :: "mmu \<Rightarrow> mmu option" where
  "arm_mmu_map_vector_memory = arm_mmu_create_mapping
     \<lparr>md_paddr = 0, md_vaddr = 0, md_length = 0x100000, md_attr = 0xc00, md_type = MAP_DESC_TYPE_SECTION\<rparr>"

definition arm_mmu_map_register :: "mmu \<Rightarrow> mmu option" where
  "arm_mmu_map_register = arm_mmu_create_mapping
     \<lparr>md_paddr = 0x10100000, md_vaddr = 0x10100000, md_length = 0x100000, md_attr = 0xc00, md_type = MAP_DESC_TYPE_SECTION\<rparr>"

definition arm_mmu_remap_evt :: "mmu \<Rightarrow> mmu option" where
  "arm_mmu_remap_evt s =
     (case kmalloc_table s of (p, s1) \<Rightarrow> arm_mmu_create_mapping
        \<lparr>md_paddr = align_down (virt_to_phys (p + 0xfff)) 0x1000, md_vaddr = 0xffff0000, md_length = 0x1000,
         md_attr = 0x30, md_type = MAP_DESC_TYPE_PAGE\<rparr> s1)"

function clean_loop :: "u32 \<Rightarrow> mmu \<Rightarrow> mmu" where
  "clean_loop virtual s =
     (if virtual < PAGE_OFFSET then clean_loop (virtual + 0x100000) (put_word (pgd_offset (kernel_pgd_base s) virtual) 0 s) else s)"
  by pat_completeness auto
termination
proof (relation "measure (\<lambda>(v, s). 2 ^ 32 - unat v)", goal_cases)
  case (2 virtual s)
  then have "unat virtual < 0xc0000000" by (simp add: word_less_nat_alt)
  then have "unat (virtual + 0x100000) = unat virtual + 0x100000" by (subst unat_add_no_wrap) simp_all
  then show ?case using \<open>unat virtual < _\<close> by simp
qed simp

declare clean_loop.simps [simp del]

definition clean_user_space :: "mmu \<Rightarrow> mmu" where
  "clean_user_space s = clean_loop 0 s"

text \<open>\<open>DOMAIN_CLIENT\<close> is 1.\<close>

definition arm_mmu_init :: "mmu \<Rightarrow> mmu option" where
  "arm_mmu_init s0 =
     (let s = s0\<lparr>cr1 := cr1 s0 AND NOT 0xd\<rparr> in
      Option.bind (arm_mmu_map_low_memory s) (\<lambda>s1.
      Option.bind (arm_mmu_map_vector_memory s1) (\<lambda>s2.
      Option.bind (arm_mmu_map_register s2) (\<lambda>s3.
        Some (s3\<lparr>ttbr := PAGE_OFFSET, dacr := 1, cr1 := cr1 s3 OR 1 OR push_bit 13 1\<rparr>)))))"


subsection \<open>The walk of the first-level table\<close>

text \<open>
  What the processor does with an address: a section descriptor gives the physical section, a coarse descriptor the
  second-level table, whose small pages are the only kind the code writes. Anything else is a fault.
\<close>

definition small_page :: "u32 \<Rightarrow> u32 \<Rightarrow> u32 option" where
  "small_page pte a = (if pte AND 3 = 2 then Some ((pte AND PAGE_MASK) OR (a AND NOT PAGE_MASK)) else None)"

definition translate :: "(ptr \<Rightarrow> u32) \<Rightarrow> ptr \<Rightarrow> u32 \<Rightarrow> u32 option" where
  "translate mem base a =
     (let d = mem (pgd_offset base a)
      in if d AND 3 = 2 then Some ((d AND SECTION_MASK) OR (a AND NOT SECTION_MASK))
         else if d AND 3 = 1 then small_page (mem (pte_offset (d AND NOT (mask 10)) a)) a
         else None)"

lemma pgd_index_nat: "unat (pgd_index a) = unat a div 2 ^ 20"
  unfolding pgd_index_def by (rule unat_drop_bit)

lemma pgd_index_eq_iff: "pgd_index a = pgd_index b \<longleftrightarrow> unat a div 2 ^ 20 = unat b div 2 ^ 20"
  by (metis pgd_index_nat word_unat_eq_iff)

lemma pgd_offset_eq_iff: "pgd_offset base a = pgd_offset base b \<longleftrightarrow> unat a div 2 ^ 20 = unat b div 2 ^ 20"
proof -
  have q: "unat (4 * pgd_index x) = 4 * (unat x div 2 ^ 20)" for x :: u32
  proof -
    have "unat x div 2 ^ 20 < 4096" using unat_u32_less [of x] by simp
    then show ?thesis unfolding pgd_index_nat [symmetric] by (simp add: unat_word_ariths)
  qed
  have "4 * pgd_index a = 4 * pgd_index b \<longleftrightarrow> unat (4 * pgd_index a) = unat (4 * pgd_index b)"
    by (rule word_unat_eq_iff)
  then show ?thesis unfolding pgd_offset_def by (simp add: q)
qed

lemma section_mask_eq_iff:
  "x AND SECTION_MASK = y AND SECTION_MASK \<longleftrightarrow> unat x div 2 ^ 20 = unat y div 2 ^ 20"
proof -
  have m: "unat (z AND SECTION_MASK) = unat z div 2 ^ 20 * 2 ^ 20" for z :: u32
    unfolding SECTION_MASK_def unat_align_down by (simp add: minus_mod_eq_div_mult)
  show ?thesis unfolding word_unat_eq_iff m by simp
qed

lemma section_desc_type: "section_desc paddr flags AND 3 = 2"
  unfolding section_desc_def SECTION_MASK_def
  by (rule bit_word_eqI) (auto simp: bit_simps bit_numeral_rec numeral_eq_Suc less_Suc_eq)

lemma section_desc_base: "section_desc paddr flags AND SECTION_MASK = paddr AND SECTION_MASK"
proof -
  have z: "w AND (0xc00 AND SECTION_MASK) = 0" "w AND (8 AND SECTION_MASK) = 0" "w AND (4 AND SECTION_MASK) = 0"
    "2 AND SECTION_MASK = (0 :: u32)" for w :: u32
    by (simp_all add: SECTION_MASK_def mask_eq_exp_minus_1)
  show ?thesis unfolding section_desc_def bit.conj_disj_distrib2 and.assoc z by simp
qed

lemma translate_section:
  assumes "mem (pgd_offset base a) = section_desc paddr flags"
  shows "translate mem base a = Some ((paddr AND SECTION_MASK) OR (a AND NOT SECTION_MASK))"
  unfolding translate_def by (simp add: assms section_desc_type section_desc_base)

lemma section_desc_same:
  assumes "unat p div 2 ^ 20 = unat q div 2 ^ 20"
  shows "section_desc p flags = section_desc q flags"
  unfolding section_desc_def section_mask_eq_iff [THEN iffD2, OF assms] by (rule refl)

subsection \<open>Sections\<close>

lemma aligned_nat: "x AND NOT SECTION_MASK = 0 \<longleftrightarrow> 2 ^ 20 dvd unat x"
proof -
  have "x AND NOT SECTION_MASK = take_bit 20 x" by (simp add: SECTION_MASK_def take_bit_eq_mask)
  moreover have "unat (take_bit 20 x) = unat x mod 2 ^ 20"
    by (simp only: unsigned_take_bit_eq take_bit_eq_mod [where 'a = nat])
  ultimately show ?thesis by (metis dvd_eq_mod_eq_0 unsigned_eq_0_iff)
qed

lemma section_offset:
  assumes "2 ^ 20 dvd unat p" "2 ^ 20 dvd unat v" "unat v \<le> unat a"
  shows "((p + (a - v)) AND SECTION_MASK) OR (a AND NOT SECTION_MASK) = p + (a - v)"
proof -
  have low: "a AND NOT SECTION_MASK = (p + (a - v)) AND NOT SECTION_MASK"
  proof -
    have "(p + (a - v)) AND mask 20 = a AND mask 20"
    proof -
      have "unat (p + (a - v)) mod 2 ^ 20 = unat a mod 2 ^ 20"
      proof -
        obtain i j where ij: "unat p = 2 ^ 20 * i" "unat v = 2 ^ 20 * j" using assms unfolding dvd_def by blast
        have "unat (p + (a - v)) = (unat p + (unat a - unat v)) mod 2 ^ 32"
          using assms(3) by (simp add: unat_word_ariths unat_sub_no_wrap)
        then have "unat (p + (a - v)) mod 2 ^ 20 = (unat p + (unat a - unat v)) mod 2 ^ 20"
          by (simp add: mod_mod_cancel)
        also have "\<dots> = (unat a - unat v) mod 2 ^ 20" unfolding ij by simp
        also have "\<dots> = (unat a - unat v + unat v) mod 2 ^ 20" unfolding ij(2) by simp
        finally show ?thesis using assms(3) by simp
      qed
      then have "unat (take_bit 20 (p + (a - v))) = unat (take_bit 20 a)"
        by (simp only: unsigned_take_bit_eq take_bit_eq_mod [where 'a = nat])
      then show ?thesis by (simp only: take_bit_eq_mask word_unat_eq_iff)
    qed
    then show ?thesis by (simp add: SECTION_MASK_def)
  qed
  show ?thesis unfolding low by (rule bit_word_eqI) (auto simp: bit_simps)
qed

lemma map_section_effect [simp]:
  "kernel_pgd_base (arm_mmu_map_section v p flags s) = kernel_pgd_base s"
  "word_mem (arm_mmu_map_section v p flags s) =
     (word_mem s)(pgd_offset (kernel_pgd_base s) v := section_desc p flags)"
  by (simp_all add: arm_mmu_map_section_def put_word_def)

definition table_words :: "ptr \<Rightarrow> u32 \<Rightarrow> nat \<Rightarrow> ptr set" where
  "table_words base v len = {pgd_offset base a | a. unat v \<le> unat a \<and> unat a < unat v + len}"

text \<open>The state after mapping \<open>len\<close> bytes at \<open>v\<close> to \<open>p\<close>, and what it keeps.\<close>

definition sections_mapped :: "u32 \<Rightarrow> u32 \<Rightarrow> nat \<Rightarrow> u32 \<Rightarrow> mmu \<Rightarrow> mmu \<Rightarrow> bool" where
  "sections_mapped v p len flags s s' \<longleftrightarrow>
     (\<exists>mem. s' = s\<lparr>word_mem := mem\<rparr> \<and>
       (\<forall>a. unat v \<le> unat a \<and> unat a < unat v + len \<longrightarrow>
          mem (pgd_offset (kernel_pgd_base s) a) = section_desc (p + (a - v)) flags) \<and>
       (\<forall>x. x \<notin> table_words (kernel_pgd_base s) v len \<longrightarrow> mem x = word_mem s x))"

lemma aligned_step:
  assumes "2 ^ 20 dvd unat p"
  shows "2 ^ 20 dvd unat (p + 0x100000 :: u32)"
proof -
  have "unat (p + 0x100000) = (unat p + 2 ^ 20) mod 2 ^ 32" by (simp add: unat_word_ariths)
  moreover have "(2 :: nat) ^ 20 dvd (unat p + 2 ^ 20) mod 2 ^ 32"
    using assms by (intro dvd_mod dvd_add le_imp_power_dvd) simp_all
  ultimately show ?thesis by metis
qed

lemma section_desc_within:
  assumes "2 ^ 20 dvd unat p" "unat v \<le> unat a" "unat a < unat v + 2 ^ 20"
  shows "section_desc (p + (a - v)) flags = section_desc p flags"
proof (rule section_desc_same)
  obtain i where i: "unat p = 2 ^ 20 * i" using assms(1) unfolding dvd_def by blast
  have "i < 4096" using i unat_u32_less [of p] by simp
  have d: "unat (a - v) = unat a - unat v" using assms(2) by (rule unat_sub_no_wrap)
  have "unat (p + (a - v)) = unat p + (unat a - unat v)"
    unfolding d [symmetric] using i \<open>i < 4096\<close> assms(2,3) d by (intro unat_add_no_wrap) simp
  then show "unat (p + (a - v)) div 2 ^ 20 = unat p div 2 ^ 20" using i assms(2,3) by simp
qed

lemma table_words_step:
  assumes "2 ^ 20 dvd unat v" "unat v + 2 ^ 20 \<le> unat w"
  shows "pgd_offset base v \<notin> table_words base w len"
proof
  assume "pgd_offset base v \<in> table_words base w len"
  then obtain a :: u32 where "unat v div 2 ^ 20 = unat a div 2 ^ 20" "unat w \<le> unat a"
    unfolding table_words_def mem_Collect_eq pgd_offset_eq_iff by blast
  moreover obtain i where "unat v = 2 ^ 20 * i" using assms(1) unfolding dvd_def by blast
  ultimately show False using assms(2) div_le_mono [of "unat v + 2 ^ 20" "unat a" "2 ^ 20"] by simp
qed

lemma map_section_loop_maps:
  assumes "2 ^ 20 dvd unat v" "2 ^ 20 dvd unat p" "unat endp = unat v + n * 2 ^ 20"
  shows "\<exists>s'. map_section_loop v p endp flags s = Some s' \<and> sections_mapped v p (n * 2 ^ 20) flags s s'"
  using assms
proof (induction n arbitrary: v p s)
  case 0
  then have "map_section_loop v p endp flags s = Some s"
    by (subst map_section_loop.simps) (simp add: word_less_nat_alt)
  moreover have "sections_mapped v p (0 * 2 ^ 20) flags s s"
    unfolding sections_mapped_def by (intro exI [of _ "word_mem s"]) auto
  ultimately show ?case by blast
next
  case (Suc n)
  let ?b = "kernel_pgd_base s" and ?w = "v + 0x100000"
  have lt: "unat v + 2 ^ 20 \<le> unat endp" using Suc.prems(3) by simp
  have w: "unat ?w = unat v + 2 ^ 20"
    using lt unat_u32_less [of endp] by (subst unat_add_no_wrap) simp_all
  have "unat endp = unat ?w + n * 2 ^ 20" using Suc.prems(3) w by simp
  from Suc.IH [OF aligned_step [OF Suc.prems(1)] aligned_step [OF Suc.prems(2)] this, of "arm_mmu_map_section v p flags s"]
  obtain s' mem where loop: "map_section_loop ?w (p + 0x100000) endp flags (arm_mmu_map_section v p flags s) = Some s'"
    and s': "s' = (arm_mmu_map_section v p flags s)\<lparr>word_mem := mem\<rparr>"
    and inside: "\<And>a. unat ?w \<le> unat a \<Longrightarrow> unat a < unat ?w + n * 2 ^ 20 \<Longrightarrow>
      mem (pgd_offset ?b a) = section_desc (p + 0x100000 + (a - ?w)) flags"
    and outside: "\<And>x. x \<notin> table_words ?b ?w (n * 2 ^ 20) \<Longrightarrow> mem x = word_mem (arm_mmu_map_section v p flags s) x"
    unfolding sections_mapped_def map_section_effect(1) by blast
  have "mem (pgd_offset ?b a) = section_desc (p + (a - v)) flags"
    if a: "unat v \<le> unat a" "unat a < unat v + Suc n * 2 ^ 20" for a
  proof (cases "unat ?w \<le> unat a")
    case True
    then show ?thesis using inside [of a] a w by (simp add: algebra_simps)
  next
    case False
    then have b: "unat a < unat v + 2 ^ 20" using w by simp
    obtain i where "unat v = 2 ^ 20 * i" using Suc.prems(1) unfolding dvd_def by blast
    then have "unat a div 2 ^ 20 = unat v div 2 ^ 20" using a(1) b by simp
    then have "pgd_offset ?b a = pgd_offset ?b v" by (simp only: pgd_offset_eq_iff)
    then show ?thesis
      using outside [OF table_words_step [OF Suc.prems(1)]] w section_desc_within [OF Suc.prems(2) a(1) b] by simp
  qed
  moreover have "mem x = word_mem s x" if x: "x \<notin> table_words ?b v (Suc n * 2 ^ 20)" for x
  proof -
    have "x \<noteq> pgd_offset ?b v" using x by (auto simp: table_words_def)
    moreover have "x \<notin> table_words ?b ?w (n * 2 ^ 20)"
      using x w unfolding table_words_def mem_Collect_eq by (metis add.assoc add_leD1 mult_Suc)
    ultimately show ?thesis using outside [of x] by simp
  qed
  moreover have "s' = s\<lparr>word_mem := mem\<rparr>" unfolding s' by (simp add: arm_mmu_map_section_def put_word_def)
  moreover have "map_section_loop v p endp flags s = Some s'"
    using lt loop by (subst map_section_loop.simps) (simp add: word_less_nat_alt)
  ultimately show ?case unfolding sections_mapped_def by blast
qed

lemma create_section_mapping:
  assumes "md_type md = MAP_DESC_TYPE_SECTION"
    and "2 ^ 20 dvd unat (md_vaddr md)" "2 ^ 20 dvd unat (md_paddr md)" "2 ^ 20 dvd unat (md_length md)"
    and "unat (md_vaddr md) + unat (md_length md) < 2 ^ 32"
  shows "\<exists>s'. arm_mmu_create_mapping md s = Some s' \<and>
    sections_mapped (md_vaddr md) (md_paddr md) (unat (md_length md)) (md_attr md) s s'"
proof -
  obtain n where n: "unat (md_length md) = n * 2 ^ 20" using assms(4) by (metis dvd_div_mult_self)
  have "unat (md_vaddr md + md_length md) = unat (md_vaddr md) + n * 2 ^ 20"
    unfolding n [symmetric] using assms(5) by (intro unat_add_no_wrap) simp
  from map_section_loop_maps [OF assms(2,3) this] n assms(1-4)
  show ?thesis by (auto simp: arm_mmu_create_mapping_def aligned_nat)
qed

lemma sections_mapped_word:
  assumes "sections_mapped v p len flags s s'" "unat v \<le> unat a" "unat a < unat v + len"
  shows "word_mem s' (pgd_offset (kernel_pgd_base s) a) = section_desc (p + (a - v)) flags"
  using assms unfolding sections_mapped_def by auto

lemma block_index_differs: "(x :: nat) < 2 ^ 20 * m \<Longrightarrow> 2 ^ 20 * m \<le> y \<Longrightarrow> x div 2 ^ 20 \<noteq> y div 2 ^ 20"
  using less_mult_imp_div_less [of x m "2 ^ 20"] div_le_mono [of "2 ^ 20 * m" y "2 ^ 20"] by (simp add: mult.commute)

lemma sections_mapped_other:
  assumes "sections_mapped v p len flags s s'" "2 ^ 20 dvd unat v" "2 ^ 20 dvd len"
    and "unat a < unat v \<or> unat v + len \<le> unat a"
  shows "word_mem s' (pgd_offset (kernel_pgd_base s) a) = word_mem s (pgd_offset (kernel_pgd_base s) a)"
proof -
  obtain i j where ij: "unat v = 2 ^ 20 * i" "len = 2 ^ 20 * j" using assms(2,3) unfolding dvd_def by blast
  have "unat a div 2 ^ 20 \<noteq> unat b div 2 ^ 20" if b: "unat v \<le> unat b" "unat b < unat v + len" for b :: u32
    using assms(4)
  proof
    assume "unat a < unat v"
    then show ?thesis using b(1) block_index_differs [of "unat a" i "unat b"] ij(1) by simp
  next
    assume "unat v + len \<le> unat a"
    then show ?thesis using b(2) block_index_differs [of "unat b" "i + j" "unat a"] ij by (simp add: distrib_left)
  qed
  then have "pgd_offset (kernel_pgd_base s) a \<notin> table_words (kernel_pgd_base s) v len"
    unfolding table_words_def mem_Collect_eq pgd_offset_eq_iff by blast
  then show ?thesis using assms(1) unfolding sections_mapped_def by auto
qed

lemma sections_mapped_regs:
  assumes "sections_mapped v p len flags s s'"
  shows "kernel_pgd_base s' = kernel_pgd_base s" "cr1 s' = cr1 s"
  using assms unfolding sections_mapped_def by auto

lemma sections_mapped_translate:
  assumes "sections_mapped v p len flags s s'" "2 ^ 20 dvd unat v" "2 ^ 20 dvd unat p"
    and "unat v \<le> unat a" "unat a < unat v + len"
  shows "translate (word_mem s') (kernel_pgd_base s) a = Some (p + (a - v))"
proof -
  have "translate (word_mem s') (kernel_pgd_base s) a = Some (((p + (a - v)) AND SECTION_MASK) OR (a AND NOT SECTION_MASK))"
    using sections_mapped_word [OF assms(1,4,5)] by (rule translate_section)
  then show ?thesis using section_offset [OF assms(3,2,4)] by simp
qed

lemma translate_identity:
  assumes "mem (pgd_offset base a) = section_desc a flags"
  shows "translate mem base a = Some a"
proof -
  have "translate mem base a = Some ((a AND SECTION_MASK) OR (a AND NOT SECTION_MASK))"
    using assms by (rule translate_section)
  moreover have "(a AND SECTION_MASK) OR (a AND NOT SECTION_MASK) = a"
    by (rule bit_word_eqI) (auto simp: bit_simps)
  ultimately show ?thesis by simp
qed

text \<open>
  C33. \<open>arm_mmu_create_mapping\<close> with a section descriptor whose addresses and length are multiples of the section
  size, and whose region ends below 4 GiB, returns, and afterwards the processor's walk of the table takes every
  address \<open>a\<close> of the region to \<open>paddr + (a - vaddr)\<close>; every word of memory other than the region's descriptors keeps
  its value.
\<close>

theorem create_mapping_translates:
  assumes "md_type md = MAP_DESC_TYPE_SECTION"
    and "2 ^ 20 dvd unat (md_vaddr md)" "2 ^ 20 dvd unat (md_paddr md)" "2 ^ 20 dvd unat (md_length md)"
    and "unat (md_vaddr md) + unat (md_length md) < 2 ^ 32"
  shows "\<exists>s'. arm_mmu_create_mapping md s = Some s' \<and>
    (\<forall>a. unat (md_vaddr md) \<le> unat a \<and> unat a < unat (md_vaddr md) + unat (md_length md) \<longrightarrow>
       translate (word_mem s') (kernel_pgd_base s) a = Some (md_paddr md + (a - md_vaddr md))) \<and>
    (\<forall>x. x \<notin> table_words (kernel_pgd_base s) (md_vaddr md) (unat (md_length md)) \<longrightarrow> word_mem s' x = word_mem s x)"
proof -
  obtain s' where s': "arm_mmu_create_mapping md s = Some s'"
    "sections_mapped (md_vaddr md) (md_paddr md) (unat (md_length md)) (md_attr md) s s'"
    using create_section_mapping [OF assms] by blast
  have "word_mem s' x = word_mem s x"
    if "x \<notin> table_words (kernel_pgd_base s) (md_vaddr md) (unat (md_length md))" for x
    using s'(2) that unfolding sections_mapped_def by auto
  with s' sections_mapped_translate [OF s'(2) assms(2,3)] show ?thesis by blast
qed

definition example_mmu :: mmu where
  "example_mmu = \<lparr>word_mem = (\<lambda>_. 0), kernel_pgd_base = PAGE_OFFSET, pt_blocks = [0xc0100000], ttbr = 0, dacr = 0, cr1 = 0x79\<rparr>"

theorem create_mapping_translates_witness:
  "\<exists>s'. arm_mmu_create_mapping \<lparr>md_paddr = 0x10100000, md_vaddr = 0x20100000, md_length = 0x200000, md_attr = 0xc00,
      md_type = MAP_DESC_TYPE_SECTION\<rparr> example_mmu = Some s' \<and>
    translate (word_mem s') PAGE_OFFSET 0x20234567 = Some 0x10234567"
  using create_mapping_translates [of "\<lparr>md_paddr = 0x10100000, md_vaddr = 0x20100000, md_length = 0x200000, md_attr = 0xc00,
      md_type = MAP_DESC_TYPE_SECTION\<rparr>" example_mmu]
  by (auto simp: example_mmu_def)

text \<open>
  The end of a region that reaches 4 GiB is 0 in 32 bits, so the loop maps no part of it.
\<close>

lemma region_to_the_top_maps_nothing:
  assumes "md_vaddr md + md_length md = 0"
  shows "arm_mmu_create_mapping md s = Some s"
proof -
  have "map_section_loop v p 0 flags s = Some s" "map_page_loop v p 0 flags s = Some s" for v p flags
    by (simp_all add: map_section_loop.simps map_page_loop.simps)
  then show ?thesis using assms unfolding arm_mmu_create_mapping_def by (auto split: map_type.splits)
qed

subsection \<open>Start-up\<close>

text \<open>The addresses the start-up maps: the vectors, the registers and the memory.\<close>

definition boot_range :: "u32 \<Rightarrow> bool" where
  "boot_range a \<longleftrightarrow> unat a < 0x100000 \<or> 0x10100000 \<le> unat a \<and> unat a < 0x10200000 \<or> 0xc0000000 \<le> unat a \<and> unat a < 0xc8000000"

lemma arm_mmu_init_sections:
  assumes "kernel_pgd_base s = PAGE_OFFSET"
  shows "\<exists>s'. arm_mmu_init s = Some s' \<and> bit (cr1 s') 0 \<and> bit (cr1 s') 13 \<and> \<not> bit (cr1 s') 2 \<and> dacr s' = 1 \<and> ttbr s' = PAGE_OFFSET \<and>
    kernel_pgd_base s' = PAGE_OFFSET \<and>
    (\<forall>a. boot_range a \<longrightarrow> (\<exists>flags. word_mem s' (pgd_offset PAGE_OFFSET a) = section_desc a flags))"
proof -
  let ?s0 = "s\<lparr>cr1 := cr1 s AND NOT 0xd\<rparr>"
  obtain s1 where 1: "arm_mmu_map_low_memory ?s0 = Some s1" "sections_mapped PAGE_OFFSET PHYS_OFFSET 0x8000000 0xc0c ?s0 s1"
    using create_section_mapping [of "\<lparr>md_paddr = PHYS_OFFSET, md_vaddr = PAGE_OFFSET, md_length = 0x8000000,
        md_attr = 0xc0c, md_type = MAP_DESC_TYPE_SECTION\<rparr>" ?s0]
    by (auto simp: arm_mmu_map_low_memory_def)
  obtain s2 where 2: "arm_mmu_map_vector_memory s1 = Some s2" "sections_mapped 0 0 0x100000 0xc00 s1 s2"
    using create_section_mapping [of "\<lparr>md_paddr = 0, md_vaddr = 0, md_length = 0x100000,
        md_attr = 0xc00, md_type = MAP_DESC_TYPE_SECTION\<rparr>" s1]
    by (auto simp: arm_mmu_map_vector_memory_def)
  obtain s3 where 3: "arm_mmu_map_register s2 = Some s3" "sections_mapped 0x10100000 0x10100000 0x100000 0xc00 s2 s3"
    using create_section_mapping [of "\<lparr>md_paddr = 0x10100000, md_vaddr = 0x10100000, md_length = 0x100000,
        md_attr = 0xc00, md_type = MAP_DESC_TYPE_SECTION\<rparr>" s2]
    by (auto simp: arm_mmu_map_register_def)
  note regs = sections_mapped_regs [OF 1(2)] sections_mapped_regs [OF 2(2)] sections_mapped_regs [OF 3(2)]
  let ?r = "s3\<lparr>ttbr := PAGE_OFFSET, dacr := 1, cr1 := cr1 s3 OR 1 OR push_bit 13 1\<rparr>"
  have init: "arm_mmu_init s = Some ?r" unfolding arm_mmu_init_def Let_def 1(1) by (simp add: 2(1) 3(1))
  have "\<exists>flags. word_mem s3 (pgd_offset PAGE_OFFSET a) = section_desc a flags" if "boot_range a" for a
    using that unfolding boot_range_def
  proof (elim disjE conjE)
    assume a: "unat a < 0x100000"
    then have "word_mem s3 (pgd_offset PAGE_OFFSET a) = section_desc a 0xc00"
      using sections_mapped_other [OF 3(2), of a] sections_mapped_word [OF 2(2), of a] regs assms by simp
    then show ?thesis by blast
  next
    assume "0x10100000 \<le> unat a" "unat a < 0x10200000"
    then have "word_mem s3 (pgd_offset PAGE_OFFSET a) = section_desc a 0xc00"
      using sections_mapped_word [OF 3(2), of a] regs assms by simp
    then show ?thesis by blast
  next
    assume "0xc0000000 \<le> unat a" "unat a < 0xc8000000"
    then have "word_mem s3 (pgd_offset PAGE_OFFSET a) = section_desc a 0xc0c"
      using sections_mapped_other [OF 3(2), of a] sections_mapped_other [OF 2(2), of a] sections_mapped_word [OF 1(2), of a]
        regs assms by simp
    then show ?thesis by blast
  qed
  moreover have "bit (cr1 ?r) 0" "bit (cr1 ?r) 13" "\<not> bit (cr1 ?r) 2"
    by (simp_all add: regs bit_simps bit_numeral_rec numeral_eq_Suc)
  ultimately show ?thesis using init regs assms by simp
qed

text \<open>
  \<open>arm_mmu_init\<close>, with \<open>kernel_pgd\<close> at \<open>PAGE_OFFSET\<close>, returns with the MMU on and the table register at the
  table it filled; the walk from that register takes every address of the 128 MiB of memory, of the first megabyte
  (the vectors) and of the register block to itself, so the code that is running and its devices stay where they are.
\<close>

theorem arm_mmu_init_identity:
  assumes "kernel_pgd_base s = PAGE_OFFSET"
  shows "\<exists>s'. arm_mmu_init s = Some s' \<and> bit (cr1 s') 0 \<and> bit (cr1 s') 13 \<and> \<not> bit (cr1 s') 2 \<and> dacr s' = 1 \<and> ttbr s' = PAGE_OFFSET \<and>
    (\<forall>a. boot_range a \<longrightarrow> translate (word_mem s') (ttbr s') a = Some a)"
  using arm_mmu_init_sections [OF assms] translate_identity by metis

theorem arm_mmu_init_identity_witness:
  "\<exists>s'. arm_mmu_init example_mmu = Some s' \<and> translate (word_mem s') (ttbr s') 0xc0008000 = Some 0xc0008000"
  using arm_mmu_init_identity [of example_mmu] by (auto simp: example_mmu_def boot_range_def)

subsection \<open>Pages\<close>

lemma align_down_mask: "align_down p 1024 = p AND NOT (mask 10)" "align_down p 4 = p AND NOT (mask 2)"
  by (simp_all add: align_down_def mask_eq_exp_minus_1)

lemma word_aligned_nat: "(x :: u32) AND mask 2 = 0 \<longleftrightarrow> unat x mod 4 = 0"
proof -
  have "unat (x AND mask 2) = unat x mod 2 ^ 2"
    by (simp only: take_bit_eq_mask [symmetric] unsigned_take_bit_eq take_bit_eq_mod [where 'a = nat])
  then show ?thesis by (simp add: word_unat_eq_iff)
qed

lemma align_down_table:
  assumes "base AND 3 = 0"
  shows "align_down (pgd_offset base a) 4 = pgd_offset base a"
proof -
  have b: "unat base mod 4 = 0" using assms word_aligned_nat [of base] by (simp add: mask_eq_exp_minus_1)
  have "unat (pgd_offset base a) = (unat base + 4 * unat (pgd_index a)) mod 2 ^ 32"
    unfolding pgd_offset_def by (simp add: unat_word_ariths mod_simps)
  then have "unat (pgd_offset base a) mod 4 = (unat base + 4 * unat (pgd_index a)) mod 4" by (simp add: mod_mod_cancel)
  then have "unat (pgd_offset base a) mod 4 = 0" using b by simp
  then have "pgd_offset base a AND mask 2 = 0" by (simp only: word_aligned_nat)
  then show ?thesis unfolding align_down_mask using word_and_add_and_not [of "pgd_offset base a" "mask 2"] by simp
qed

lemma virt_phys_same [simp]: "virt_to_phys x = x" "phys_to_virt x = x"
  by (simp_all add: virt_to_phys_def phys_to_virt_def)

lemma coarse_desc_0:
  "coarse_desc (p AND NOT (mask 10)) 0 AND NOT (mask 10) = p AND NOT (mask 10)"
  "coarse_desc (p AND NOT (mask 10)) 0 AND 3 = 1"
proof -
  show "coarse_desc (p AND NOT (mask 10)) 0 AND NOT (mask 10) = p AND NOT (mask 10)"
    by (rule bit_word_eqI) (auto simp: coarse_desc_def bit_simps)
  show "coarse_desc (p AND NOT (mask 10)) 0 AND 3 = 1"
    by (rule bit_word_eqI) (auto simp: coarse_desc_def bit_simps bit_numeral_rec numeral_eq_Suc less_Suc_eq)
qed

lemma page_desc_type: "page_desc paddr flags AND 3 = 2"
  unfolding page_desc_def PAGE_MASK_def
  by (rule bit_word_eqI) (auto simp: bit_simps bit_numeral_rec numeral_eq_Suc less_Suc_eq)

lemma page_desc_base: "page_desc paddr flags AND PAGE_MASK = paddr AND PAGE_MASK"
proof -
  have z: "w AND (0x30 AND PAGE_MASK) = 0" "w AND (0xc0 AND PAGE_MASK) = 0" "w AND (0x300 AND PAGE_MASK) = 0"
    "w AND (0xc00 AND PAGE_MASK) = 0" "w AND (8 AND PAGE_MASK) = 0" "w AND (4 AND PAGE_MASK) = 0"
    "2 AND PAGE_MASK = (0 :: u32)" for w :: u32
    by (simp_all add: PAGE_MASK_def mask_eq_exp_minus_1)
  show ?thesis unfolding page_desc_def bit.conj_disj_distrib2 and.assoc z by simp
qed

lemma below_4: "(i :: nat) < 4 \<longleftrightarrow> i = 0 \<or> i = 1 \<or> i = 2 \<or> i = 3"
  by auto

lemma set_coarse_words:
  assumes "i < 4"
  shows "word_mem (set_coarse pgd pt s) (pgd + 4 * of_nat i) = coarse_desc pt i"
proof -
  have "[0..<4] = [0, 1, 2, 3 :: nat]" by (simp add: upt_rec)
  then show ?thesis using assms unfolding below_4 by (auto simp: set_coarse_def put_word_def)
qed

lemma set_coarse_other:
  shows "(\<And>i. i < 4 \<Longrightarrow> x \<noteq> pgd + 4 * of_nat i) \<Longrightarrow> word_mem (set_coarse pgd pt s) x = word_mem s x"
    and "ttbr (set_coarse pgd pt s) = ttbr s" "cr1 (set_coarse pgd pt s) = cr1 s"
proof -
  have "[0..<4] = [0, 1, 2, 3 :: nat]" by (simp add: upt_rec)
  then have u: "set_coarse pgd pt s = put_word (pgd + 12) (coarse_desc pt 3) (put_word (pgd + 8) (coarse_desc pt 2)
      (put_word (pgd + 4) (coarse_desc pt 1) (put_word pgd (coarse_desc pt 0) s)))"
    by (simp add: set_coarse_def)
  show "word_mem (set_coarse pgd pt s) x = word_mem s x" if n: "\<And>i. i < 4 \<Longrightarrow> x \<noteq> pgd + 4 * of_nat i"
    unfolding u using n [of 0] n [of 1] n [of 2] n [of 3] by (simp add: put_word_def)
  show "ttbr (set_coarse pgd pt s) = ttbr s" "cr1 (set_coarse pgd pt s) = cr1 s" unfolding u by (simp_all add: put_word_def)
qed

lemma same_page:
  assumes "drop_bit 12 a = drop_bit 12 (b :: u32)"
  shows "pgd_offset base a = pgd_offset base b" "pte_offset pt a = pte_offset pt b"
proof -
  have "drop_bit 20 a = drop_bit 20 b"
    using arg_cong [OF assms, of "drop_bit 8"] by (simp add: drop_bit_drop_bit)
  then show "pgd_offset base a = pgd_offset base b" by (simp add: pgd_offset_def pgd_index_def)
  show "pte_offset pt a = pte_offset pt b" using assms by (simp add: pte_offset_def)
qed

text \<open>The words one page mapping writes, and the translation of every address of the page.\<close>

lemma arm_mmu_map_page_words:
  assumes "pt_blocks s = p # ps" "kernel_pgd_base s AND 3 = 0" "pgd_offset (kernel_pgd_base s) vaddr \<noteq> NULL"
    and "\<forall>i<4. pte_offset (align_down p 1024) vaddr \<noteq> pgd_offset (kernel_pgd_base s) vaddr + 4 * of_nat i"
  shows "i < 4 \<Longrightarrow> word_mem (arm_mmu_map_page vaddr paddr flags s) (pgd_offset (kernel_pgd_base s) vaddr + 4 * of_nat i) =
      coarse_desc (align_down p 1024) i"
    and "drop_bit 12 a = drop_bit 12 vaddr \<Longrightarrow> translate (word_mem (arm_mmu_map_page vaddr paddr flags s)) (kernel_pgd_base s) a =
      Some ((paddr AND PAGE_MASK) OR (a AND NOT PAGE_MASK))"
    and "x \<noteq> pte_offset (align_down p 1024) vaddr \<Longrightarrow> (\<And>i. i < 4 \<Longrightarrow> x \<noteq> pgd_offset (kernel_pgd_base s) vaddr + 4 * of_nat i) \<Longrightarrow>
      word_mem (arm_mmu_map_page vaddr paddr flags s) x = word_mem s x"
    and "ttbr (arm_mmu_map_page vaddr paddr flags s) = ttbr s" "cr1 (arm_mmu_map_page vaddr paddr flags s) = cr1 s"
proof -
  let ?pgd = "pgd_offset (kernel_pgd_base s) vaddr" and ?pt = "align_down p 1024"
  define s1 where "s1 = set_coarse ?pgd ?pt (s\<lparr>pt_blocks := ps\<rparr>)"
  have first: "word_mem s1 ?pgd = coarse_desc ?pt 0"
    unfolding s1_def using set_coarse_words [of 0 ?pgd ?pt] by simp
  have "align_down (phys_to_virt (word_mem s1 ?pgd)) 1024 = ?pt"
    unfolding first virt_phys_same align_down_mask coarse_desc_0 by (rule refl)
  then have step: "arm_mmu_map_page vaddr paddr flags s = put_word (pte_offset ?pt vaddr) (page_desc paddr flags) s1"
    using assms(1,3) by (simp add: arm_mmu_map_page_def Let_def kmalloc_table_def align_down_table [OF assms(2)] s1_def)
  show all: "word_mem (arm_mmu_map_page vaddr paddr flags s) (?pgd + 4 * of_nat i) = coarse_desc ?pt i" if "i < 4" for i
    using assms(4) that unfolding step put_word_def s1_def by (auto simp: set_coarse_words)
  have "word_mem (arm_mmu_map_page vaddr paddr flags s) ?pgd = coarse_desc ?pt 0"
    using all [of 0] by simp
  moreover have "word_mem (arm_mmu_map_page vaddr paddr flags s) (pte_offset ?pt vaddr) = page_desc paddr flags"
    unfolding step put_word_def by simp
  ultimately show "translate (word_mem (arm_mmu_map_page vaddr paddr flags s)) (kernel_pgd_base s) a =
      Some ((paddr AND PAGE_MASK) OR (a AND NOT PAGE_MASK))" if "drop_bit 12 a = drop_bit 12 vaddr"
    unfolding translate_def Let_def align_down_mask same_page [OF that]
    by (simp add: coarse_desc_0 small_page_def page_desc_type page_desc_base)
  show "word_mem (arm_mmu_map_page vaddr paddr flags s) x = word_mem s x"
    if "x \<noteq> pte_offset ?pt vaddr" "\<And>i. i < 4 \<Longrightarrow> x \<noteq> ?pgd + 4 * of_nat i"
    unfolding step s1_def using that by (simp add: put_word_def set_coarse_other)
  show "ttbr (arm_mmu_map_page vaddr paddr flags s) = ttbr s" "cr1 (arm_mmu_map_page vaddr paddr flags s) = cr1 s"
    unfolding step s1_def by (simp_all add: put_word_def set_coarse_other)
qed

text \<open>
  \<open>arm_mmu_map_page\<close>, given a block by \<open>kmalloc\<close> whose second-level entry does not lie on the four descriptors,
  maps the page: the walk takes the address to the page frame. It does so by pointing not only the address's own
  descriptor but also those of the three following megabytes at the new table, whatever they held.
\<close>

theorem map_page_replaces_four_descriptors:
  assumes "pt_blocks s = p # ps" "kernel_pgd_base s AND 3 = 0" "pgd_offset (kernel_pgd_base s) vaddr \<noteq> NULL"
    and "\<forall>i<4. pte_offset (align_down p 1024) vaddr \<noteq> pgd_offset (kernel_pgd_base s) vaddr + 4 * of_nat i"
  shows "translate (word_mem (arm_mmu_map_page vaddr paddr flags s)) (kernel_pgd_base s) vaddr =
      Some ((paddr AND PAGE_MASK) OR (vaddr AND NOT PAGE_MASK)) \<and>
    (\<forall>i<4. word_mem (arm_mmu_map_page vaddr paddr flags s) (pgd_offset (kernel_pgd_base s) vaddr + 4 * of_nat i) =
      coarse_desc (align_down p 1024) i)"
  using arm_mmu_map_page_words(1,2) [OF assms] by blast

theorem map_page_replaces_four_descriptors_witness:
  "translate (word_mem (arm_mmu_map_page 0xffff0000 0xc0102000 0x30 example_mmu)) PAGE_OFFSET 0xffff0000 = Some 0xc0102000"
  using map_page_replaces_four_descriptors [of example_mmu "0xc0100000" "[]" "0xffff0000" "0xc0102000" "0x30"]
  by (simp add: example_mmu_def pgd_offset_def pgd_index_def pte_offset_def align_down_def SECTION_MASK_def PAGE_MASK_def
      mask_eq_exp_minus_1 below_4)

end
