(* ===== verification/Board.thy ===== *)
theory Board
  imports Semaphore
begin

section \<open>Interrupts and the tick: \<open>arch/arm/boards/Hi3560/interrupts.c\<close> and \<open>timer.c\<close>\<close>

text \<open>
  The board's part of the kernel state. A write to a device register is recorded in \<open>io_log\<close>, in order. What the
  devices answer is part of the state: the pending interrupts, the clock configuration, and the values that the
  timer's counter and the raw interrupt status will have at the coming reads. The table of interrupt handlers has
  31 entries; a handler is the address of a function, and running the function at an address is the argument
  \<open>call\<close> of the dispatch, because handlers are registered by every driver. The last fields are the addresses of the
  serial port's semaphore and of the board's own functions.
\<close>

datatype fifo = Fifo (fifo_mem: "u8 list") (fifo_wp: nat) (fifo_rp: nat)

record board = sync +
  io_log :: "(ptr \<times> u32) list"
  int_handler_table :: "(ptr \<times> ptr) list"
  irq_status :: u32
  t_callback :: ptr
  timer_reload :: u32
  pllc_status :: u32
  timer_values :: "u32 list"
  raw_status :: "u32 list"
  fifo_out :: fifo
  fifo_in :: fifo
  uart_puts :: ptr
  uart_getchar :: ptr
  uart_mis :: u32
  tx_room :: nat
  rx_pending :: "u32 list"
  sent :: "u8 list"
  serial_sem :: ptr
  platform_tick_addr :: ptr
  platform_uart_addr :: ptr
  puts_addr :: ptr
  getchar_addr :: ptr

abbreviation (input) INTNR_IRQ_END :: nat where "INTNR_IRQ_END \<equiv> 31"
abbreviation (input) INTNR_TIMER_0 :: nat where "INTNR_TIMER_0 \<equiv> 2"
abbreviation (input) INTNR_UART0 :: nat where "INTNR_UART0 \<equiv> 10"

definition writel :: "u32 \<Rightarrow> ptr \<Rightarrow> 'a board_scheme \<Rightarrow> 'a board_scheme" where
  "writel v a s = s\<lparr>io_log := io_log s @ [(a, v)]\<rparr>"

definition ioaddr_intc :: "ptr \<Rightarrow> ptr" where "ioaddr_intc x = 0x10190000 + x"

abbreviation REG_INTC_INTSELECT :: ptr where "REG_INTC_INTSELECT \<equiv> 0x00c"
abbreviation REG_INTC_INTENABLE :: ptr where "REG_INTC_INTENABLE \<equiv> 0x010"
abbreviation REG_INTC_INTENCLEAR :: ptr where "REG_INTC_INTENCLEAR \<equiv> 0x014"
abbreviation REG_INTC_SOFTINTCLEAR :: ptr where "REG_INTC_SOFTINTCLEAR \<equiv> 0x01c"
abbreviation REG_INTC_SUPERPRIV_PROT :: ptr where "REG_INTC_SUPERPRIV_PROT \<equiv> 0x020"

definition platform_init_interrupts :: "'a board_scheme \<Rightarrow> 'a board_scheme" where
  "platform_init_interrupts s =
     writel 1 (ioaddr_intc REG_INTC_SUPERPRIV_PROT)
       (writel (NOT 0) (ioaddr_intc REG_INTC_SOFTINTCLEAR)
         (writel 0 (ioaddr_intc REG_INTC_INTSELECT)
           (writel (NOT 0) (ioaddr_intc REG_INTC_INTENCLEAR) s)))"

definition mask_interrupt :: "nat \<Rightarrow> 'a board_scheme \<Rightarrow> int \<times> 'a board_scheme" where
  "mask_interrupt vector s =
     (if vector > INTNR_IRQ_END then (- 1, s)
      else (0, exit_critical_section (writel (push_bit vector 1) (ioaddr_intc REG_INTC_INTENCLEAR) (enter_critical_section s))))"

definition unmask_interrupt :: "nat \<Rightarrow> 'a board_scheme \<Rightarrow> int \<times> 'a board_scheme" where
  "unmask_interrupt vector s =
     (if vector > INTNR_IRQ_END then (- 1, s)
      else (0, exit_critical_section (writel (push_bit vector 1) (ioaddr_intc REG_INTC_INTENABLE) (enter_critical_section s))))"

type_synonym 's handler_call = "ptr \<Rightarrow> ptr \<Rightarrow> 's \<Rightarrow> (handler_return \<times> 's) res option"

text \<open>The loop of \<open>platform_irq\<close>; the table is read at the counter after its increment.\<close>

function irq_loop ::
    "'a board_scheme handler_call \<Rightarrow> u32 \<Rightarrow> nat \<Rightarrow> handler_return \<Rightarrow> 'a board_scheme \<Rightarrow> (handler_return \<times> 'a board_scheme) res option" where
  "irq_loop call status irq_num r s =
     (if status = 0 then Some (Inr (r, s))
      else if Suc irq_num \<ge> length (int_handler_table s) then Some (Inl Out_Of_Bounds)
      else case int_handler_table s ! Suc irq_num of (h, a) \<Rightarrow>
        if h \<noteq> NULL then and_then (call h a s) (\<lambda>(r', s'). irq_loop call (drop_bit 1 status) (Suc irq_num) r' s')
        else irq_loop call (drop_bit 1 status) (Suc irq_num) r s)"
  by pat_completeness auto
termination
proof (relation "measure (\<lambda>(call, status, n, r, s). unat status)", goal_cases)
  case 1
  show ?case by simp
next
  case (2 call status irq_num r s)
  then show ?case by (simp add: unat_halve)
next
  case (3 call status irq_num r s)
  then show ?case by (simp add: unat_halve)
qed

declare irq_loop.simps [simp del]

definition platform_irq :: "'a board_scheme handler_call \<Rightarrow> 'a board_scheme \<Rightarrow> (handler_return \<times> 'a board_scheme) res option" where
  "platform_irq call s = irq_loop call (irq_status s) 0 INT_NO_RESCHEDULE s"

text \<open>A vector out of range is reported on the console and used all the same.\<close>

definition register_int_handler :: "nat \<Rightarrow> ptr \<Rightarrow> ptr \<Rightarrow> 'a board_scheme \<Rightarrow> 'a board_scheme res" where
  "register_int_handler vector h a s =
     (let s1 = enter_critical_section s in
      if vector \<ge> length (int_handler_table s1) then Inl Out_Of_Bounds
      else Inr (exit_critical_section (s1\<lparr>int_handler_table := (int_handler_table s1)[vector := (h, a)]\<rparr>)))"

subsection \<open>The timer\<close>

definition pllc_refdiv :: "u32 \<Rightarrow> u32" where "pllc_refdiv pllc = drop_bit 12 pllc AND 0x3f"
definition pllc_fbdiv :: "u32 \<Rightarrow> u32" where "pllc_fbdiv pllc = pllc AND 0xfff"

definition pllc_to_busclk :: "u32 \<Rightarrow> u32 \<Rightarrow> u32 res" where
  "pllc_to_busclk pllc fxin =
     (if pllc_refdiv pllc = 0 then Inl Div_By_Zero else Inr (fxin div pllc_refdiv pllc * pllc_fbdiv pllc div 12))"

definition is_pllc_invalid :: "u32 \<Rightarrow> u32 \<Rightarrow> bool res" where
  "is_pllc_invalid pllc fxin =
     (if pllc_refdiv pllc = 0 then Inl Div_By_Zero
      else let v = fxin div pllc_refdiv pllc * pllc_fbdiv pllc in Inr (v > 2400000000 \<or> v \<le> 800000000))"

abbreviation DEFAULT_MPLLIN :: u32 where "DEFAULT_MPLLIN \<equiv> 12000000"
abbreviation DEFAULT_BUSCLK :: u32 where "DEFAULT_BUSCLK \<equiv> 110000000"
abbreviation CFG_TIMER_VABASE :: ptr where "CFG_TIMER_VABASE \<equiv> 0x101e2000"
abbreviation CFG_TIMER_CONTROL :: u32 where "CFG_TIMER_CONTROL \<equiv> 0xe2"

definition BUSCLK_TO_TIMER_RELOAD :: "u32 \<Rightarrow> u32" where "BUSCLK_TO_TIMER_RELOAD busclk = busclk div 1 div 100"

definition platform_set_periodic_timer :: "ptr \<Rightarrow> ptr \<Rightarrow> u32 \<Rightarrow> 'a board_scheme \<Rightarrow> (int \<times> 'a board_scheme) res" where
  "platform_set_periodic_timer callback a interval s =
     (let s1 = writel 0 (CFG_TIMER_VABASE + 8) ((enter_critical_section s)\<lparr>t_callback := callback\<rparr>);
          pllc = pllc_status s1
      in bind_res (is_pllc_invalid pllc DEFAULT_MPLLIN) (\<lambda>invalid.
         bind_res (if \<not> invalid then bind_res (pllc_to_busclk pllc DEFAULT_MPLLIN) (\<lambda>b. Inr (BUSCLK_TO_TIMER_RELOAD b))
                   else Inr (BUSCLK_TO_TIMER_RELOAD DEFAULT_BUSCLK)) (\<lambda>reload.
           let s2 = s1\<lparr>timer_reload := reload\<rparr>;
               s3 = s2\<lparr>timer_reload := 6800000\<rparr>;
               s4 = writel (timer_reload s3) CFG_TIMER_VABASE s3;
               s5 = writel CFG_TIMER_CONTROL (CFG_TIMER_VABASE + 8) s4
           in Inr (0, exit_critical_section (snd (unmask_interrupt INTNR_TIMER_0 s5))))))"

text \<open>
  The loop of \<open>gettimeoffset\<close> over the coming readings: it stops at a counter value that is neither zero nor above the
  one before it. \<open>None\<close> when the readings given end before.
\<close>

fun offset_loop :: "u32 \<Rightarrow> u32 list \<Rightarrow> u32 list \<Rightarrow> (u32 \<times> u32 \<times> u32 list \<times> u32 list) option" where
  "offset_loop ticks1 (v # vs) (st # sts) =
     (if v > ticks1 \<or> v = 0 then offset_loop v vs sts else Some (v, st, vs, sts))"
| "offset_loop ticks1 _ _ = None"

definition ticks2ms :: "u32 \<Rightarrow> u32 \<Rightarrow> u32 res" where
  "ticks2ms reload t = (if drop_bit 2 reload = 0 then Inl Div_By_Zero else Inr (t * drop_bit 2 (1000 div 100) div drop_bit 2 reload))"

definition gettimeoffset :: "'a board_scheme \<Rightarrow> (u32 \<times> 'a board_scheme) res option" where
  "gettimeoffset s =
     (case timer_values s of
        [] \<Rightarrow> None
      | v # vs \<Rightarrow>
          (case offset_loop v vs (raw_status s) of
             None \<Rightarrow> None
           | Some (ticks2, st, vs', sts') \<Rightarrow>
               let ticks1 = timer_reload s - ticks2;
                   ticks1 = (if st AND push_bit INTNR_TIMER_0 1 \<noteq> 0 then ticks1 + timer_reload s else ticks1)
               in Some (bind_res (ticks2ms (timer_reload s) ticks1) (\<lambda>ms.
                    Inr (ms, s\<lparr>timer_values := vs', raw_status := sts'\<rparr>)))))"

type_synonym 's timer_callback = "ptr \<Rightarrow> ptr \<Rightarrow> u32 \<Rightarrow> 's \<Rightarrow> (handler_return \<times> 's) res option"

text \<open>The callback takes the time as a 32-bit \<open>time_t\<close>.\<close>

definition platform_tick ::
    "'a board_scheme timer_callback \<Rightarrow> ptr \<Rightarrow> 'a board_scheme \<Rightarrow> (handler_return \<times> 'a board_scheme) res option" where
  "platform_tick callback a s =
     and_then (gettimeoffset s) (\<lambda>(ms, s1).
       let s2 = writel (NOT 0) (CFG_TIMER_VABASE + 0xc) (s1\<lparr>ticks := ticks s1 + ucast ms\<rparr>)
       in if t_callback s2 \<noteq> NULL then callback (t_callback s2) a (ucast (current_time s2)) s2
          else Some (Inr (INT_NO_RESCHEDULE, s2)))"

definition platform_init_timer :: "'a board_scheme \<Rightarrow> 'a board_scheme res" where
  "platform_init_timer s = register_int_handler INTNR_TIMER_0 (platform_tick_addr s) NULL s"

subsection \<open>Which handlers an interrupt runs\<close>

text \<open>Running the handlers of a list of vectors in order, the result being that of the last one that ran.\<close>

fun run_handlers ::
    "'a board_scheme handler_call \<Rightarrow> nat list \<Rightarrow> handler_return \<Rightarrow> 'a board_scheme \<Rightarrow> (handler_return \<times> 'a board_scheme) res option" where
  "run_handlers call [] r s = Some (Inr (r, s))"
| "run_handlers call (v # vs) r s =
     (if v \<ge> length (int_handler_table s) then Some (Inl Out_Of_Bounds)
      else case int_handler_table s ! v of (h, a) \<Rightarrow>
        if h \<noteq> NULL then and_then (call h a s) (\<lambda>(r', s'). run_handlers call vs r' s')
        else run_handlers call vs r s)"

lemma irq_loop_runs:
  assumes "2 ^ k \<le> unat status" "unat status < 2 ^ Suc k"
  shows "irq_loop call status n r s = run_handlers call [Suc n..<Suc n + Suc k] r s"
  using assms
proof (induction k arbitrary: status n r s)
  case 0
  then have "unat (drop_bit (Suc 0) status) = 0" unfolding unat_drop_bit by simp
  then have "drop_bit (Suc 0) status = 0" by (rule unsigned_eq_0_iff [THEN iffD1])
  moreover have "status \<noteq> 0" using 0 by auto
  moreover have "irq_loop call 0 m = run_handlers call []" for m by (intro ext) (simp add: irq_loop.simps)
  ultimately show ?case by (simp add: irq_loop.simps [of _ status] split: prod.splits)
next
  case (Suc k)
  have "2 ^ k \<le> unat (drop_bit (Suc 0) status)" "unat (drop_bit (Suc 0) status) < 2 ^ Suc k"
    using Suc.prems unfolding unat_drop_bit by simp_all
  note IH = Suc.IH [OF this]
  have nz: "status \<noteq> 0" using Suc.prems by auto
  let ?vs = "[Suc (Suc n)..<Suc (Suc n) + Suc k]"
  have fn: "irq_loop call (drop_bit 1 status) (Suc n) = run_handlers call ?vs" by (intro ext) (use IH in simp)
  have vs: "[Suc n..<Suc n + Suc (Suc k)] = Suc n # ?vs" by (subst upt_conv_Cons) simp_all
  show ?case unfolding vs irq_loop.simps [of _ status] fn run_handlers.simps using nz by simp
qed

text \<open>
  With \<open>k\<close> the highest pending interrupt, \<open>platform_irq\<close> runs the registered handlers of the vectors 1 to
  \<open>k + 1\<close> in this order, pending or not, and returns what the last of them returned; the handler of vector 0 is never
  among them. When \<open>k\<close> is 30 or more the walk leaves the table.
\<close>

theorem platform_irq_runs_lower_vectors:
  assumes "2 ^ k \<le> unat (irq_status s)" "unat (irq_status s) < 2 ^ Suc k"
  shows "platform_irq call s = run_handlers call [1..<k + 2] INT_NO_RESCHEDULE s"
  using irq_loop_runs [OF assms, of call 0] by (simp add: platform_irq_def)

subsection \<open>The tick\<close>

lemma unat_mult_no_wrap:
  fixes a b :: u32
  assumes "unat a * unat b < 2 ^ 32"
  shows "unat (a * b) = unat a * unat b"
  using assms by (simp add: unat_word_ariths)

lemma ticks2ms_nat:
  assumes "4 dvd unat reload" "0 < unat reload" "2 * unat t < 2 ^ 32"
  shows "ticks2ms reload t = Inr (of_nat (8 * unat t div unat reload))"
proof -
  obtain q where q: "unat reload = 4 * q" using assms(1) by (rule dvdE)
  have d: "unat (drop_bit 2 reload) = q" unfolding unat_drop_bit q by simp
  then have nz: "drop_bit 2 reload \<noteq> 0" using assms(2) q by auto
  have "unat (t * 2) = 2 * unat t" using assms(3) by (subst unat_mult_no_wrap) simp_all
  then have "unat (t * 2 div drop_bit 2 reload) = 2 * unat t div q" by (simp add: unat_div_distrib d)
  also have "\<dots> = 8 * unat t div unat reload" unfolding q using div_mult_mult1 [of 4 "2 * unat t" q] by simp
  finally have "t * 2 div drop_bit 2 reload = of_nat (8 * unat t div unat reload)"
    by (metis unat_of_nat_below unsigned_less word_unat_eq_iff)
  then show ?thesis using nz by (simp add: ticks2ms_def)
qed

text \<open>The timer ticks since the last full period that a reading stands for.\<close>

definition elapsed :: "'a board_scheme \<Rightarrow> u32 \<Rightarrow> u32 \<Rightarrow> nat" where
  "elapsed s v st = unat (timer_reload s) - unat v + (if bit st 2 then unat (timer_reload s) else 0)"

text \<open>
  The timer runs through \<open>timer_reload\<close> ticks in 10 ms (\<open>HZ\<close> is 100). When the counter is read twice in a row
  without passing zero, \<open>gettimeoffset\<close> returns the elapsed ticks at 8 ms for a full period, rounded down: the clock of
  the kernel runs at four fifths of the time.
\<close>

theorem gettimeoffset_counts_eight_ms:
  assumes "timer_values s = v # w # vs" "raw_status s = st # sts" "w \<noteq> 0" "w \<le> v" "w \<le> timer_reload s"
    and "4 dvd unat (timer_reload s)" "4 * unat (timer_reload s) < 2 ^ 32"
  shows "gettimeoffset s = Some (Inr (of_nat (8 * elapsed s w st div unat (timer_reload s)),
    s\<lparr>timer_values := vs, raw_status := sts\<rparr>))"
proof -
  let ?R = "timer_reload s"
  define t where "t = (if st AND 4 \<noteq> 0 then ?R - w + ?R else ?R - w)"
  have b: "st AND 4 \<noteq> 0 \<longleftrightarrow> bit st 2"
    using bit_iff_and_push_bit_not_eq_0 [of st 2] by (simp add: push_bit_eq_mult)
  have sub: "unat (?R - w) = unat ?R - unat w" using assms(5) by (intro unat_sub_no_wrap) (simp add: word_le_nat_alt)
  then have add: "unat (?R - w + ?R) = unat ?R - unat w + unat ?R"
    using assms(7) by (subst unat_add_no_wrap) simp_all
  have t: "unat t = elapsed s w st" unfolding t_def elapsed_def b using sub add by simp
  have pos: "0 < unat ?R" using assms(3,5) unat_pos [of w] by (simp add: word_le_nat_alt)
  have "elapsed s w st \<le> 2 * unat ?R" unfolding elapsed_def by auto
  then have "ticks2ms ?R t = Inr (of_nat (8 * elapsed s w st div unat ?R))"
    using ticks2ms_nat [OF assms(6) pos, of t] assms(7) unfolding t by simp
  moreover have "gettimeoffset s = Some (bind_res (ticks2ms ?R t) (\<lambda>ms. Inr (ms, s\<lparr>timer_values := vs, raw_status := sts\<rparr>)))"
    unfolding gettimeoffset_def using assms(1-4) by (simp add: t_def Let_def push_bit_eq_mult leD)
  ultimately show ?thesis by simp
qed

subsection \<open>An example\<close>

text \<open>
  The board after \<open>platform_init\<close> with the serial port's semaphore at 1024, the timer set and a serial interrupt
  pending while the counter is read at a quarter of its period.
\<close>

definition example_board :: board where
  "example_board = sync.extend (sema_init 1024 1 example_sync)
     (board.fields [] ((replicate 31 (NULL, NULL))[2 := (0x9000, NULL), 10 := (0xa000, NULL)]) 0x400
       0xb000 6800000 0 [1700000, 1700000] [0] (Fifo (replicate 1024 0) 0 0) (Fifo (replicate 1024 0) 0 0)
       0xc000 0xd000 0x10 2 [0x68, 0x69] [] 1024 0x9000 0xa000 0xc000 0xd000)"

lemma example_board_sel [simp]:
  "irq_status example_board = 0x400"
  "int_handler_table example_board = (replicate 31 (NULL, NULL))[2 := (0x9000, NULL), 10 := (0xa000, NULL)]"
  "t_callback example_board = 0xb000" "timer_reload example_board = 6800000"
  "timer_values example_board = [1700000, 1700000]" "raw_status example_board = [0]"
  "fifo_out example_board = Fifo (replicate 1024 0) 0 0" "fifo_in example_board = Fifo (replicate 1024 0) 0 0"
  "uart_mis example_board = 0x10" "tx_room example_board = 2" "rx_pending example_board = [0x68, 0x69]"
  "sent example_board = []" "serial_sem example_board = 1024" "platform_tick_addr example_board = 0x9000"
  "platform_uart_addr example_board = 0xa000" "ticks example_board = 100"
  by (simp_all add: example_board_def board.defs sync.defs kernel.defs example_sync_def example_timers_def sema_init_def)

lemma example_board_sem: "sem_rep example_board 1024 1 []"
  using sema_init_rep [of 1024 1 example_sync]
  by (simp add: sem_rep_def example_board_def board.defs sync.defs sema_init_def example_sync_def)

theorem platform_irq_runs_lower_vectors_witness:
  "platform_irq (\<lambda>h a s. Some (Inr (INT_RESCHEDULE, s))) example_board =
     run_handlers (\<lambda>h a s. Some (Inr (INT_RESCHEDULE, s))) [1..<12] INT_NO_RESCHEDULE example_board"
  using platform_irq_runs_lower_vectors [of 10 example_board] by simp

lemma example_offset: "gettimeoffset example_board = Some (Inr (6, example_board\<lparr>timer_values := [], raw_status := []\<rparr>))"
  by (simp add: gettimeoffset_def Let_def ticks2ms_def)

theorem gettimeoffset_counts_eight_ms_witness:
  "gettimeoffset example_board =
     Some (Inr (of_nat (8 * elapsed example_board 1700000 0 div 6800000), example_board\<lparr>timer_values := [], raw_status := []\<rparr>))"
  using gettimeoffset_counts_eight_ms [of example_board 1700000 1700000 "[]" 0 "[]"] by simp

end
