(* ===== verification/Uart.thy ===== *)
theory Uart
  imports Board
begin

section \<open>The serial port: \<open>arch/arm/boards/Hi3560/serial.c\<close>, \<open>platform.c\<close>\<close>

text \<open>
  Two rings of 1024 bytes stand between the tasks and the UART: \<open>fifo_out\<close> is filled by \<open>__puts\<close> and emptied there
  and by the transmit interrupt, \<open>fifo_in\<close> is filled by the receive interrupt and emptied by \<open>__getchar\<close>. Of the
  device, \<open>tx_room\<close> is the number of bytes it takes before its flag register reads as full, \<open>rx_pending\<close> the words
  that its data register returns before the flag register reads as empty, \<open>uart_mis\<close> the masked interrupt status and
  \<open>sent\<close> the bytes written to the data register. The other registers are in \<open>io_log\<close>. A busy wait for room in the
  transmitter ends with room for one byte; a wait for input that has not come is the value \<open>None\<close>.
\<close>

abbreviation (input) UART_FIFO_SIZE :: nat where "UART_FIFO_SIZE \<equiv> 1024"
abbreviation (input) REG_BASE_UART0 :: ptr where "REG_BASE_UART0 \<equiv> 0x101ea000"

text \<open>Storing at the write pointer and reading at the read pointer, each with its advance.\<close>

definition fifo_put :: "u8 \<Rightarrow> fifo \<Rightarrow> fifo" where
  "fifo_put c f = Fifo ((fifo_mem f)[fifo_wp f := c]) ((fifo_wp f + 1) mod UART_FIFO_SIZE) (fifo_rp f)"

definition fifo_get :: "fifo \<Rightarrow> u8 \<times> fifo" where
  "fifo_get f = (fifo_mem f ! fifo_rp f, Fifo (fifo_mem f) (fifo_wp f) ((fifo_rp f + 1) mod UART_FIFO_SIZE))"

definition fifo_empty :: "fifo \<Rightarrow> bool" where
  "fifo_empty f \<longleftrightarrow> fifo_rp f = fifo_wp f"

definition wait_tx :: "'a board_scheme \<Rightarrow> 'a board_scheme" where
  "wait_tx s = (if tx_room s = 0 then s\<lparr>tx_room := 1\<rparr> else s)"

definition uart_dr :: "u8 \<Rightarrow> 'a board_scheme \<Rightarrow> 'a board_scheme" where
  "uart_dr c s = s\<lparr>sent := sent s @ [c], tx_room := tx_room s - 1\<rparr>"

fun puts_early_loop :: "u8 list \<Rightarrow> 'a board_scheme \<Rightarrow> 'a board_scheme" where
  "puts_early_loop [] s = s"
| "puts_early_loop (c # cs) s =
     (let s1 = uart_dr c (wait_tx s)
      in puts_early_loop cs (if c = 10 then uart_dr 13 (wait_tx s1) else s1))"

definition puts_early :: "u8 list \<Rightarrow> 'a board_scheme \<Rightarrow> 'a board_scheme" where
  "puts_early str s = puts_early_loop (takeWhile (\<lambda>c. c \<noteq> 0) str) s"

fun puts_fill :: "u8 list \<Rightarrow> fifo \<Rightarrow> fifo" where
  "puts_fill [] f = f"
| "puts_fill (c # cs) f =
     (let f1 = fifo_put c f
      in puts_fill cs (if c = 10 then fifo_put 13 f1 else f1))"

text \<open>The loop that hands bytes to the transmitter, in \<open>__puts\<close> and in the interrupt handler.\<close>

function tx_loop :: "'a board_scheme \<Rightarrow> 'a board_scheme" where
  "tx_loop s =
     (if tx_room s = 0 then s
      else if \<not> fifo_empty (fifo_out s)
      then case fifo_get (fifo_out s) of (c, f) \<Rightarrow> tx_loop (uart_dr c (s\<lparr>fifo_out := f\<rparr>))
      else s)"
  by pat_completeness auto
termination by (relation "measure tx_room") (simp_all add: uart_dr_def)

declare tx_loop.simps [simp del]

definition uart_puts_op :: "'a board_scheme switch \<Rightarrow> ptr \<Rightarrow> u8 list \<Rightarrow> 'a board_scheme \<Rightarrow> 'a board_scheme option" where
  "uart_puts_op others waiter str s =
     map_option (\<lambda>s1. up (serial_sem s1) (tx_loop (s1\<lparr>fifo_out := puts_fill (takeWhile (\<lambda>c. c \<noteq> 0) str) (fifo_out s1)\<rparr>)))
       (down others waiter (serial_sem s) s)"

definition putchar :: "u8 \<Rightarrow> 'a board_scheme \<Rightarrow> 'a board_scheme" where
  "putchar c s = uart_dr c (wait_tx s)"

definition getchar_early :: "'a board_scheme \<Rightarrow> (u8 \<times> 'a board_scheme) option" where
  "getchar_early s =
     (case rx_pending s of
        [] \<Rightarrow> None
      | d # ds \<Rightarrow>
          let s1 = s\<lparr>rx_pending := ds\<rparr>
          in if d AND 0xffffff00 \<noteq> 0 then Some (- 1, writel 0xffffffff (REG_BASE_UART0 + 4) s1)
             else Some (ucast (d AND 0xff), s1))"

definition uart_getchar_op :: "'a board_scheme switch \<Rightarrow> ptr \<Rightarrow> 'a board_scheme \<Rightarrow> (u8 \<times> 'a board_scheme) option" where
  "uart_getchar_op others waiter s =
     (if fifo_empty (fifo_in s) then None
      else map_option (\<lambda>s1. case fifo_get (fifo_in s1) of (c, f) \<Rightarrow> (c, up (serial_sem s1) (s1\<lparr>fifo_in := f\<rparr>)))
        (down others waiter (serial_sem s) s))"

text \<open>The receive loop of the interrupt handler, over the words the data register returns.\<close>

fun rx_loop :: "u32 list \<Rightarrow> 'a board_scheme \<Rightarrow> 'a board_scheme" where
  "rx_loop [] s = s"
| "rx_loop (d # ds) s =
     (let s1 = (if d AND 0xffffff00 \<noteq> 0
                then (let t = writel 0xffffffff (REG_BASE_UART0 + 4) s in t\<lparr>fifo_in := fifo_put (- 1) (fifo_in t)\<rparr>)
                else s\<lparr>fifo_in := fifo_put (ucast (d AND 0xff)) (fifo_in s)\<rparr>)
      in rx_loop ds s1)"

definition platform_uart :: "ptr \<Rightarrow> 'a board_scheme \<Rightarrow> handler_return \<times> 'a board_scheme" where
  "platform_uart a s =
     (let reg = uart_mis s;
          s1 = (if reg AND 0x20 \<noteq> 0 then writel 0x20 (REG_BASE_UART0 + 0x44) (tx_loop s) else s);
          s2 = (if reg AND 0x10 \<noteq> 0
                then writel 0x10 (REG_BASE_UART0 + 0x44) ((rx_loop (rx_pending s1) s1)\<lparr>rx_pending := []\<rparr>) else s1)
      in (INT_NO_RESCHEDULE, snd (unmask_interrupt INTNR_UART0 s2)))"

text \<open>The divisors of the baud rate; the clock is 54 MHz and the rate 115200.\<close>

definition baud_divider :: "u32 \<Rightarrow> u32 \<Rightarrow> u32" where
  "baud_divider clock baud = clock div (16 * baud)"

definition baud_fraction :: "u32 \<Rightarrow> u32 \<Rightarrow> u32" where
  "baud_fraction clock baud =
     (let remainder = clock mod (16 * baud); temp = (8 * remainder) div baud in drop_bit 1 temp + (temp AND 1))"

definition serial_init :: "'a board_scheme \<Rightarrow> 'a board_scheme" where
  "serial_init s =
     (let s1 = writel 0 (REG_BASE_UART0 + 0x30) s;
          s2 = writel (baud_divider 54000000 115200) (REG_BASE_UART0 + 0x24) s1;
          s3 = writel (baud_fraction 54000000 115200) (REG_BASE_UART0 + 0x28) s2;
          s4 = writel 0x60 (REG_BASE_UART0 + 0x2c) s3;
          s5 = writel (0x10 OR 0x20) (REG_BASE_UART0 + 0x38) s4
      in writel (1 OR 0x100 OR 0x200) (REG_BASE_UART0 + 0x30) s5)"

definition console_init :: "'a board_scheme \<Rightarrow> 'a board_scheme res" where
  "console_init s =
     (let s1 = enter_critical_section s;
          s2 = s1\<lparr>uart_puts := puts_addr s1, uart_getchar := getchar_addr s1\<rparr>
      in bind_res (register_int_handler INTNR_UART0 (platform_uart_addr s2) NULL s2) (\<lambda>s3.
           Inr (exit_critical_section (serial_init (snd (unmask_interrupt INTNR_UART0 s3))))))"

text \<open>\<open>puts\<close> and \<open>getchar\<close> of \<open>kernel/printk.c\<close> call what the port's structure points to: the polled functions until
  \<open>_console_init\<close> has run, the ones with rings afterwards.\<close>

definition console_puts :: "'a board_scheme switch \<Rightarrow> ptr \<Rightarrow> u8 list \<Rightarrow> 'a board_scheme \<Rightarrow> 'a board_scheme option" where
  "console_puts others waiter str s = (if uart_puts s = puts_addr s then uart_puts_op others waiter str s else Some (puts_early str s))"

text \<open>
  The board \<open>qemu_mini2440\<close> has polled output only, without a test for room: \<open>UART0DR\<close> is the address its \<open>__console_init\<close>
  stores, and every character of a text is written there.
\<close>

definition mini2440_console_init :: ptr where
  "mini2440_console_init = 0x101f1000"

primrec mini2440_puts_loop :: "u8 list \<Rightarrow> ptr \<Rightarrow> 'a board_scheme \<Rightarrow> 'a board_scheme" where
  "mini2440_puts_loop [] UART0DR s = s"
| "mini2440_puts_loop (c # cs) UART0DR s = (if c \<noteq> 0 then mini2440_puts_loop cs UART0DR (writel (ucast c) UART0DR s) else s)"

definition mini2440_puts :: "u8 list \<Rightarrow> ptr \<Rightarrow> 'a board_scheme \<Rightarrow> 'a board_scheme" where
  "mini2440_puts str UART0DR s = mini2440_puts_loop str UART0DR s"

lemma mini2440_puts_writes:
  "io_log (mini2440_puts str UART0DR s) = io_log s @ map (\<lambda>c. (UART0DR, ucast c)) (takeWhile (\<lambda>c. c \<noteq> 0) str)"
  unfolding mini2440_puts_def by (induction str arbitrary: s) (simp_all add: writel_def)

definition getchar :: "'a board_scheme switch \<Rightarrow> ptr \<Rightarrow> 'a board_scheme \<Rightarrow> (u8 \<times> 'a board_scheme) option" where
  "getchar others waiter s = (if uart_getchar s = getchar_addr s then uart_getchar_op others waiter s else getchar_early s)"

definition platform_init :: "'a board_scheme \<Rightarrow> 'a board_scheme res" where
  "platform_init s = bind_res (console_init (platform_init_interrupts s)) platform_init_timer"

text \<open>The functions of the board that are registered as handlers, by address.\<close>

definition board_call :: "'a board_scheme timer_callback \<Rightarrow> 'a board_scheme handler_call \<Rightarrow> 'a board_scheme handler_call" where
  "board_call callback other h a s =
     (if h = platform_tick_addr s then platform_tick callback a s
      else if h = platform_uart_addr s then Some (Inr (platform_uart a s))
      else other h a s)"

subsection \<open>Byte queues\<close>

text \<open>What the console relies on: a queue of bytes that keeps up to \<open>cap\<close> of them in order.\<close>

locale byte_queue =
  fixes put :: "u8 \<Rightarrow> 'q \<Rightarrow> 'q" and get :: "'q \<Rightarrow> u8 \<times> 'q" and is_empty :: "'q \<Rightarrow> bool"
    and holds :: "'q \<Rightarrow> u8 list \<Rightarrow> bool" and cap :: nat
  assumes put_holds: "holds q xs \<Longrightarrow> length xs < cap \<Longrightarrow> holds (put c q) (xs @ [c])"
    and get_holds: "holds q (c # xs) \<Longrightarrow> fst (get q) = c \<and> holds (snd (get q)) xs"
    and empty_iff: "holds q xs \<Longrightarrow> is_empty q \<longleftrightarrow> xs = []"
begin

lemma puts_hold:
  assumes "holds q xs" "length xs + length cs \<le> cap"
  shows "holds (fold put cs q) (xs @ cs)"
  using assms
proof (induction cs arbitrary: q xs)
  case (Cons c cs)
  have "holds (put c q) (xs @ [c])" using Cons.prems by (intro put_holds) simp_all
  then show ?case using Cons.IH [of "put c q" "xs @ [c]"] Cons.prems(2) by simp
qed simp

end

definition ring :: "fifo \<Rightarrow> u8 list \<Rightarrow> bool" where
  "ring f q \<longleftrightarrow> length (fifo_mem f) = UART_FIFO_SIZE \<and> fifo_rp f < UART_FIFO_SIZE \<and> length q < UART_FIFO_SIZE \<and>
     fifo_wp f = (fifo_rp f + length q) mod UART_FIFO_SIZE \<and>
     (\<forall>i < length q. fifo_mem f ! ((fifo_rp f + i) mod UART_FIFO_SIZE) = q ! i)"

lemma mod_ring_inj:
  assumes "i < 1024" "j < 1024" "(r + i) mod 1024 = (r + j) mod (1024 :: nat)"
  shows "i = j"
proof -
  have "i \<le> j" if "(r + i) mod 1024 = (r + j) mod (1024 :: nat)" "i < 1024" for i j
  proof (rule ccontr)
    assume "\<not> i \<le> j"
    then have "1024 dvd i - j" using that mod_eq_dvd_iff_nat [of "r + j" "r + i" 1024] by simp
    then show False using that(2) \<open>\<not> i \<le> j\<close> by (auto dest: dvd_imp_le)
  qed
  from this [of i j] this [of j i] show ?thesis using assms by simp
qed

lemma fifo_put_ring:
  assumes "ring f q" "length q < 1023"
  shows "ring (fifo_put c f) (q @ [c])"
proof -
  have len: "length (fifo_mem f) = 1024" and wp: "fifo_wp f = (fifo_rp f + length q) mod 1024" "fifo_wp f < 1024"
    using assms by (simp_all add: ring_def)
  have "(fifo_mem f)[fifo_wp f := c] ! ((fifo_rp f + i) mod 1024) = (q @ [c]) ! i" if i: "i < Suc (length q)" for i
  proof (cases "i = length q")
    case True
    then show ?thesis using len wp by simp
  next
    case False
    then have "fifo_wp f \<noteq> (fifo_rp f + i) mod 1024"
      using i assms(2) mod_ring_inj [of i "length q" "fifo_rp f"] wp(1) by auto
    then show ?thesis using assms(1) i False by (simp add: ring_def nth_append)
  qed
  moreover have "(fifo_wp f + 1) mod 1024 = (fifo_rp f + Suc (length q)) mod 1024" unfolding wp(1) by (simp add: mod_Suc_eq)
  ultimately show ?thesis using assms len by (simp add: ring_def fifo_put_def)
qed

lemma fifo_get_ring:
  assumes "ring f (c # q)"
  shows "fst (fifo_get f) = c \<and> ring (snd (fifo_get f)) q"
proof -
  have all: "fifo_mem f ! ((fifo_rp f + i) mod 1024) = (c # q) ! i" if "i < Suc (length q)" for i
    using assms that by (simp add: ring_def)
  have "fifo_mem f ! fifo_rp f = c" using all [of 0] assms by (simp add: ring_def)
  moreover have "fifo_mem f ! (((fifo_rp f + 1) mod 1024 + i) mod 1024) = q ! i" if "i < length q" for i
    using all [of "Suc i"] that by (simp add: mod_simps)
  moreover have "fifo_wp f = ((fifo_rp f + 1) mod 1024 + length q) mod 1024" using assms by (simp add: ring_def mod_simps)
  ultimately show ?thesis using assms by (simp add: ring_def fifo_get_def)
qed

lemma fifo_empty_ring:
  assumes "ring f q"
  shows "fifo_empty f \<longleftrightarrow> q = []"
proof -
  have "fifo_rp f mod 1024 = (fifo_rp f + length q) mod 1024 \<longleftrightarrow> length q = 0"
    using assms mod_ring_inj [of "length q" 0 "fifo_rp f"] by (auto simp: ring_def)
  then show ?thesis using assms by (simp add: ring_def fifo_empty_def)
qed

interpretation uart_ring: byte_queue fifo_put fifo_get fifo_empty ring 1023
  by unfold_locales (simp_all add: fifo_put_ring fifo_get_ring fifo_empty_ring)

text \<open>A ring that is given 1024 bytes without being read looks empty: all of them are lost.\<close>

lemma ring_overflow_loses_all:
  assumes "ring f []" "length cs = 1024"
  shows "fifo_empty (fold fifo_put cs f)"
proof -
  have wp: "fifo_wp (fold fifo_put xs g) = (fifo_wp g + length xs) mod 1024" if "fifo_wp g < 1024" for xs g
    using that by (induction xs arbitrary: g) (simp_all add: fifo_put_def mod_simps)
  have "fifo_rp (fold fifo_put xs g) = fifo_rp g" for xs g by (induction xs arbitrary: g) (simp_all add: fifo_put_def)
  then show ?thesis using assms wp [of f cs] by (simp add: fifo_empty_def ring_def)
qed

subsection \<open>Output\<close>

text \<open>What the console makes of a string: a carriage return after every newline.\<close>

fun with_cr :: "u8 list \<Rightarrow> u8 list" where
  "with_cr [] = []"
| "with_cr (c # cs) = (if c = 10 then c # 13 # with_cr cs else c # with_cr cs)"

lemma puts_fill_eq: "puts_fill cs f = fold fifo_put (with_cr cs) f"
  by (induction cs arbitrary: f) (simp_all add: Let_def)

lemma tx_loop_sends:
  assumes "ring (fifo_out s) q"
  shows "\<exists>f. tx_loop s = s\<lparr>fifo_out := f, sent := sent s @ take (tx_room s) q, tx_room := tx_room s - length q\<rparr> \<and>
    ring f (drop (tx_room s) q)"
  using assms
proof (induction s arbitrary: q rule: tx_loop.induct)
  case (1 s)
  show ?case
  proof (cases "tx_room s = 0 \<or> q = []")
    case True
    then have "tx_loop s = s" using 1(2) by (auto simp: tx_loop.simps [of s] fifo_empty_ring)
    with True 1(2) show ?thesis by (intro exI [of _ "fifo_out s"]) auto
  next
    case False
    then obtain c q' where q: "q = c # q'" by (cases q) auto
    obtain f where f: "fifo_get (fifo_out s) = (c, f)" "ring f q'" using fifo_get_ring [of "fifo_out s" c q'] 1(2) q
      by (metis prod.collapse)
    let ?s = "uart_dr c (s\<lparr>fifo_out := f\<rparr>)"
    have ne: "\<not> fifo_empty (fifo_out s)" using fifo_empty_ring [OF 1(2)] q by simp
    have step: "tx_loop s = tx_loop ?s" using False ne by (simp add: tx_loop.simps [of s] f(1))
    have "ring (fifo_out ?s) q'" using f(2) by (simp add: uart_dr_def)
    moreover have "tx_room s \<noteq> 0" using False by simp
    ultimately obtain g where g: "tx_loop ?s = ?s\<lparr>fifo_out := g, sent := sent ?s @ take (tx_room ?s) q', tx_room := tx_room ?s - length q'\<rparr>"
      "ring g (drop (tx_room ?s) q')" using 1(1) [OF _ ne f(1) [symmetric]] by blast
    obtain n where "tx_room s = Suc n" using False by (cases "tx_room s") auto
    then show ?thesis using g q unfolding step by (intro exI [of _ g]) (simp add: uart_dr_def)
  qed
qed

lemma board_critical_sel [simp]:
  "fifo_out (enter_critical_section s) = fifo_out s" "fifo_out (exit_critical_section s) = fifo_out s"
  "fifo_in (enter_critical_section s) = fifo_in s" "fifo_in (exit_critical_section s) = fifo_in s"
  "serial_sem (enter_critical_section s) = serial_sem s" "serial_sem (exit_critical_section s) = serial_sem s"
  "sent (enter_critical_section s) = sent s" "sent (exit_critical_section s) = sent s"
  "tx_room (enter_critical_section s) = tx_room s" "tx_room (exit_critical_section s) = tx_room s"
  "rx_pending (enter_critical_section s) = rx_pending s" "rx_pending (exit_critical_section s) = rx_pending s"
  "uart_mis (enter_critical_section s) = uart_mis s" "uart_mis (exit_critical_section s) = uart_mis s"
  "int_handler_table (enter_critical_section s) = int_handler_table s"
  "int_handler_table (exit_critical_section s) = int_handler_table s"
  by (simp_all add: enter_critical_section_def exit_critical_section_def Let_def)

lemma board_writel_sel [simp]:
  "fifo_out (writel v a s) = fifo_out s" "fifo_in (writel v a s) = fifo_in s" "serial_sem (writel v a s) = serial_sem s"
  "sent (writel v a s) = sent s" "tx_room (writel v a s) = tx_room s" "rx_pending (writel v a s) = rx_pending s"
  "uart_mis (writel v a s) = uart_mis s" "links (writel v a s) = links s" "sem_count (writel v a s) = sem_count s"
  "int_handler_table (writel v a s) = int_handler_table s" "io_log (writel v a s) = io_log s @ [(a, v)]"
  "ticks (writel v a s) = ticks s" "t_callback (writel v a s) = t_callback s"
  "platform_tick_addr (writel v a s) = platform_tick_addr s" "platform_uart_addr (writel v a s) = platform_uart_addr s"
  by (simp_all add: writel_def)

text \<open>The state with the count of a semaphore changed inside a critical section.\<close>

definition sem_step :: "ptr \<Rightarrow> (u32 \<Rightarrow> u32) \<Rightarrow> 'a sync_scheme \<Rightarrow> 'a sync_scheme" where
  "sem_step sem f s = exit_critical_section ((enter_critical_section s)\<lparr>sem_count := (sem_count s)(sem := f (sem_count s sem))\<rparr>)"

lemma sem_step_sel [simp]:
  "fifo_out (sem_step sem f s) = fifo_out s" "fifo_in (sem_step sem f s) = fifo_in s"
  "serial_sem (sem_step sem f s) = serial_sem s" "sent (sem_step sem f s) = sent s" "tx_room (sem_step sem f s) = tx_room s"
  by (simp_all add: sem_step_def)

lemma down_unit:
  assumes "sem_rep s sem (Suc n) []"
  shows "down others w sem s = Some (sem_step sem (\<lambda>x. x - 1) s)" "sem_rep (sem_step sem (\<lambda>x. x - 1) s) sem n []"
proof -
  have c: "unat (sem_count s sem) = Suc n" using assms by (simp add: sem_rep_def)
  then have "0 < sem_count s sem" by (simp add: word_less_nat_alt)
  then show "down others w sem s = Some (sem_step sem (\<lambda>x. x - 1) s)"
    by (simp add: down_def sem_step_def Let_def)
  then show "sem_rep (sem_step sem (\<lambda>x. x - 1) s) sem n []"
    using down_takes_unit [OF assms, of others w] by simp
qed

lemma up_unit:
  assumes "sem_rep s sem n []" "Suc n < 2 ^ 32"
  shows "up sem s = sem_step sem (\<lambda>x. x + 1) s" "sem_rep (sem_step sem (\<lambda>x. x + 1) s) sem (Suc n) []"
proof -
  have "dlist (links s) (wait_list sem) []" using assms(1) by (simp add: sem_rep_def)
  then show "up sem s = sem_step sem (\<lambda>x. x + 1) s"
    by (simp add: up_def sem_step_def Let_def list_empty_dlist [of _ _ "[]"])
  then show "sem_rep (sem_step sem (\<lambda>x. x + 1) s) sem (Suc n) []" using up_counts [OF assms] by simp
qed

text \<open>
  C35. A string printed while the serial port is free and its ring has room: \<open>__puts\<close> returns with the port free
  again, and the bytes sent followed by those left in the ring are what was sent and queued before followed by the
  string with a carriage return after each newline. Bytes are left only when the transmitter is full.
\<close>

theorem puts_keeps_order:
  assumes "ring (fifo_out s) q" "sem_rep s (serial_sem s) (Suc n) []" "Suc n < 2 ^ 32"
    and "length q + length (with_cr (takeWhile (\<lambda>c. c \<noteq> 0) str)) \<le> 1023"
  shows "\<exists>s' q'. uart_puts_op others waiter str s = Some s' \<and> sem_rep s' (serial_sem s') (Suc n) [] \<and> ring (fifo_out s') q' \<and>
    sent s' @ q' = sent s @ q @ with_cr (takeWhile (\<lambda>c. c \<noteq> 0) str) \<and> (q' = [] \<or> tx_room s' = 0)"
proof -
  let ?str = "with_cr (takeWhile (\<lambda>c. c \<noteq> 0) str)" and ?sem = "serial_sem s"
  let ?room = "tx_room s"
  define Q where "Q = q @ ?str"
  define s1 where "s1 = sem_step ?sem (\<lambda>x. x - 1) s"
  have s1: "down others waiter ?sem s = Some s1" "sem_rep s1 ?sem n []" "serial_sem s1 = ?sem"
    unfolding s1_def using down_unit [OF assms(2)] by simp_all
  define s2 where "s2 = s1\<lparr>fifo_out := puts_fill (takeWhile (\<lambda>c. c \<noteq> 0) str) (fifo_out s1)\<rparr>"
  have "ring (fifo_out s2) Q"
    using uart_ring.puts_hold [OF assms(1,4)] by (simp add: s2_def s1_def puts_fill_eq Q_def)
  from tx_loop_sends [OF this] obtain f where f: "ring f (drop ?room Q)"
    "tx_loop s2 = s2\<lparr>fifo_out := f, sent := sent s @ take ?room Q, tx_room := ?room - length Q\<rparr>"
    by (auto simp: s2_def s1_def)
  have "sem_rep (tx_loop s2) ?sem n []" using s1(2) unfolding f(2) by (simp add: sem_rep_def s2_def)
  note up = up_unit [OF this assms(3)]
  let ?s' = "sem_step ?sem (\<lambda>x. x + 1) (tx_loop s2)"
  have "uart_puts_op others waiter str s = Some ?s'"
    unfolding uart_puts_op_def s1(1) by (simp add: s2_def [symmetric] s1(3) up(1))
  moreover have "sem_rep ?s' (serial_sem ?s') (Suc n) []" using up(2) f(2) s1(3) by (simp add: s2_def)
  moreover have "ring (fifo_out ?s') (drop ?room Q)" "sent ?s' @ drop ?room Q = sent s @ Q"
    "drop ?room Q = [] \<or> tx_room ?s' = 0"
    using f(1) unfolding sem_step_sel f(2) by auto
  ultimately show ?thesis unfolding Q_def by blast
qed

subsection \<open>Input\<close>

text \<open>What the receive interrupt stores for a word of the data register: \<open>255\<close> when an error bit is set.\<close>

definition received :: "u32 \<Rightarrow> u8" where
  "received d = (if d AND 0xffffff00 \<noteq> 0 then - 1 else ucast (d AND 0xff))"

lemma rx_loop_sel [simp]:
  "fifo_out (rx_loop ds s) = fifo_out s" "serial_sem (rx_loop ds s) = serial_sem s" "links (rx_loop ds s) = links s"
  "sem_count (rx_loop ds s) = sem_count s" "int_handler_table (rx_loop ds s) = int_handler_table s" "ticks (rx_loop ds s) = ticks s"
  by (induction ds arbitrary: s) (simp_all add: Let_def)

lemma rx_loop_stores: "fifo_in (rx_loop ds s) = fold fifo_put (map received ds) (fifo_in s)"
  by (induction ds arbitrary: s) (simp_all add: Let_def received_def)

lemma tx_loop_frame: "\<exists>f t r. tx_loop s = s\<lparr>fifo_out := f, sent := t, tx_room := r\<rparr>"
proof (induction s rule: tx_loop.induct)
  case (1 s)
  show ?case
  proof (cases "tx_room s = 0 \<or> fifo_empty (fifo_out s)")
    case True
    then have "tx_loop s = s\<lparr>fifo_out := fifo_out s, sent := sent s, tx_room := tx_room s\<rparr>"
      by (auto simp: tx_loop.simps [of s])
    then show ?thesis by blast
  next
    case False
    obtain c f where f: "fifo_get (fifo_out s) = (c, f)" by fastforce
    have "tx_loop s = tx_loop (uart_dr c (s\<lparr>fifo_out := f\<rparr>))" using False by (simp add: tx_loop.simps [of s] f)
    with 1 [OF _ _ f [symmetric]] False show ?thesis by (auto simp: uart_dr_def)
  qed
qed

lemma tx_loop_input [simp]:
  "fifo_in (tx_loop s) = fifo_in s" "serial_sem (tx_loop s) = serial_sem s" "links (tx_loop s) = links s"
  "int_handler_table (tx_loop s) = int_handler_table s" "ticks (tx_loop s) = ticks s"
  "sem_count (tx_loop s) = sem_count s" "rx_pending (tx_loop s) = rx_pending s"
  using tx_loop_frame [of s] by auto

lemma unmask_sel [simp]:
  "fifo_in (snd (unmask_interrupt v s)) = fifo_in s" "serial_sem (snd (unmask_interrupt v s)) = serial_sem s"
  "links (snd (unmask_interrupt v s)) = links s" "sem_count (snd (unmask_interrupt v s)) = sem_count s"
  "int_handler_table (snd (unmask_interrupt v s)) = int_handler_table s" "ticks (snd (unmask_interrupt v s)) = ticks s"
  by (simp_all add: unmask_interrupt_def)

fun getchars :: "'a board_scheme switch \<Rightarrow> ptr \<Rightarrow> nat \<Rightarrow> 'a board_scheme \<Rightarrow> (u8 list \<times> 'a board_scheme) option" where
  "getchars others waiter 0 s = Some ([], s)"
| "getchars others waiter (Suc n) s =
     Option.bind (uart_getchar_op others waiter s) (\<lambda>(c, s1).
       map_option (\<lambda>(cs, s2). (c # cs, s2)) (getchars others waiter n s1))"

lemma getchar_takes_first:
  assumes "ring (fifo_in s) (c # q)" "sem_rep s (serial_sem s) (Suc n) []" "Suc n < 2 ^ 32"
  shows "\<exists>s'. uart_getchar_op others waiter s = Some (c, s') \<and> ring (fifo_in s') q \<and> sem_rep s' (serial_sem s') (Suc n) []"
proof -
  define s1 where "s1 = sem_step (serial_sem s) (\<lambda>x. x - 1) s"
  have s1: "down others waiter (serial_sem s) s = Some s1" "sem_rep s1 (serial_sem s) n []" "serial_sem s1 = serial_sem s"
    "fifo_in s1 = fifo_in s"
    unfolding s1_def using down_unit [OF assms(2)] by simp_all
  obtain f where f: "fifo_get (fifo_in s) = (c, f)" "ring f q"
    using fifo_get_ring [OF assms(1)] by (metis prod.collapse)
  have "sem_rep (s1\<lparr>fifo_in := f\<rparr>) (serial_sem s) n []" using s1(2) by (simp add: sem_rep_def)
  note up = up_unit [OF this assms(3)]
  have "\<not> fifo_empty (fifo_in s)" using fifo_empty_ring [OF assms(1)] by simp
  then have "uart_getchar_op others waiter s = Some (c, sem_step (serial_sem s) (\<lambda>x. x + 1) (s1\<lparr>fifo_in := f\<rparr>))"
    by (simp add: uart_getchar_op_def s1 f(1) up(1))
  then show ?thesis using f(2) up(2) s1(3) by simp
qed

lemma getchars_take_all:
  assumes "ring (fifo_in s) q" "sem_rep s (serial_sem s) (Suc n) []" "Suc n < 2 ^ 32"
  shows "\<exists>s'. getchars others waiter (length q) s = Some (q, s') \<and> ring (fifo_in s') [] \<and> sem_rep s' (serial_sem s') (Suc n) []"
  using assms(1,2)
proof (induction q arbitrary: s)
  case (Cons c q)
  from getchar_takes_first [OF Cons.prems assms(3), of others waiter] Cons.IH show ?case by fastforce
qed simp

lemma received_bytes_read:
  assumes "ring (fifo_in s) q" "sem_rep s (serial_sem s) (Suc n) []" "Suc n < 2 ^ 32" "uart_mis s AND 0x10 \<noteq> 0"
    and "length q + length (rx_pending s) \<le> 1023"
  shows "\<exists>s'. getchars others waiter (length q + length (rx_pending s)) (snd (platform_uart a s)) =
      Some (q @ map received (rx_pending s), s') \<and> ring (fifo_in s') []"
proof -
  let ?t = "snd (platform_uart a s)"
  have f: "fifo_in ?t = fold fifo_put (map received (rx_pending s)) (fifo_in s)" "serial_sem ?t = serial_sem s"
    "links ?t = links s" "sem_count ?t = sem_count s"
    using assms(4) by (simp_all add: platform_uart_def Let_def rx_loop_stores)
  have "ring (fifo_in ?t) (q @ map received (rx_pending s))"
    unfolding f using assms(1,5) by (intro uart_ring.puts_hold) simp_all
  moreover have "sem_rep ?t (serial_sem ?t) (Suc n) []" using assms(2) by (simp add: sem_rep_def f)
  ultimately show ?thesis
    using getchars_take_all [of ?t "q @ map received (rx_pending s)" n others waiter] assms(3) by auto
qed

text \<open>
  C34. The bytes that wait in the UART when the receive interrupt comes are read by the tasks in the order in which they
  arrived, after those received before: after the handler, as many calls of \<open>__getchar\<close> as there are bytes all return,
  give exactly these bytes (255 for one with an error bit), and leave the ring empty. The ring holds 1023 bytes.
\<close>

theorem typed_bytes_read_in_order:
  assumes "ring (fifo_in s) q" "sem_rep s (serial_sem s) (Suc n) []" "Suc n < 2 ^ 32" "uart_mis s AND 0x10 \<noteq> 0"
    and "length q + length (rx_pending s) \<le> 1023"
  shows "\<exists>s'. getchars others waiter (length q + length (rx_pending s)) (snd (platform_uart a s)) =
      Some (q @ map received (rx_pending s), s') \<and> ring (fifo_in s') []"
  by (rule received_bytes_read [OF assms])

subsection \<open>The baud rate\<close>

text \<open>
  The fraction divisor equals the value its comment asks for, \<open>64 * (clock mod 16 baud) / (16 baud)\<close> rounded to
  the nearest integer (halves up), computed with numbers that fit 32 bits.
\<close>

theorem baud_fraction_rounds:
  assumes "0 < unat baud" "128 * unat baud < 2 ^ 32"
  shows "unat (baud_fraction clock baud) =
    (2 * 64 * (unat clock mod (16 * unat baud)) + 16 * unat baud) div (2 * (16 * unat baud))"
proof -
  let ?B = "unat baud" and ?r = "unat clock mod (16 * unat baud)"
  define t where "t = 8 * ?r div ?B"
  have B16: "unat (16 * baud) = 16 * ?B" using assms(2) by (subst unat_mult_no_wrap) simp_all
  then have r: "unat (clock mod (16 * baud)) = ?r" by (simp add: unat_mod_distrib)
  have "?r < 16 * ?B" using assms(1) by simp
  then have "unat (8 * (clock mod (16 * baud))) = 8 * ?r" using assms(2) r by (subst unat_mult_no_wrap) simp_all
  then have q: "unat (8 * (clock mod (16 * baud)) div baud) = t" by (simp add: unat_div_distrib t_def)
  have "t < 128" using \<open>?r < 16 * ?B\<close> unfolding t_def by (simp add: div_less_iff_less_mult assms(1))
  have low: "unat ((w :: u32) AND 1) = unat w mod 2" for w
    by (simp add: and_one_eq unat_mod_distrib)
  have "unat (baud_fraction clock baud) = t div 2 + t mod 2"
    unfolding baud_fraction_def Let_def
    using \<open>t < 128\<close> by (subst unat_add_no_wrap) (simp_all only: unat_drop_bit q low, simp_all)
  also have "\<dots> = (t + 1) div 2" by presburger
  also have "t + 1 = (8 * ?r + ?B) div ?B" unfolding t_def using assms(1) div_add_self2 [of ?B "8 * ?r"] by simp
  also have "(8 * ?r + ?B) div ?B div 2 = (8 * ?r + ?B) div (2 * ?B)" by (simp add: div_mult2_eq mult.commute)
  also have "\<dots> = (16 * (8 * ?r + ?B)) div (16 * (2 * ?B))" by (rule div_mult_mult1 [symmetric]) simp
  finally show ?thesis by (simp add: algebra_simps)
qed

theorem baud_fraction_rounds_witness:
  "unat (baud_fraction 54000000 115200) = (2 * 64 * (54000000 mod (16 * 115200)) + 16 * 115200) div (2 * (16 * 115200)) \<and>
   baud_fraction 54000000 115200 = 19"
  using baud_fraction_rounds [of 115200 54000000] by (simp add: word_unat_eq_iff)

subsection \<open>An interrupt of the serial port\<close>

text \<open>
  When the serial port is the highest pending interrupt, its dispatch runs the tick handler as well: the clock
  advances by what \<open>gettimeoffset\<close> returns even if no timer interrupt is pending, and a request of the timer callback to
  reschedule is lost, because the result of the serial port's handler replaces it.
\<close>

theorem uart_interrupt_runs_tick:
  assumes "2 ^ 10 \<le> unat (irq_status s)" "unat (irq_status s) < 2 ^ 11"
    and "int_handler_table s = (replicate 31 (NULL, NULL))[2 := (platform_tick_addr s, NULL), 10 := (platform_uart_addr s, NULL)]"
    and "platform_tick_addr s \<noteq> NULL" "platform_uart_addr s \<noteq> NULL" "platform_uart_addr s \<noteq> platform_tick_addr s"
    and "gettimeoffset s = Some (Inr (ms, s\<lparr>timer_values := vs, raw_status := sts\<rparr>))" "t_callback s \<noteq> NULL"
    and "\<And>t. callback (t_callback s) NULL (ucast (ticks s + ucast ms)) t = Some (Inr (INT_RESCHEDULE, t))"
  shows "\<exists>s'. platform_irq (board_call callback other) s = Some (Inr (INT_NO_RESCHEDULE, s')) \<and> ticks s' = ticks s + ucast ms"
proof -
  let ?call = "board_call callback other"
  define s1 where "s1 = writel (NOT 0) (CFG_TIMER_VABASE + 0xc) (s\<lparr>timer_values := vs, raw_status := sts, ticks := ticks s + ucast ms\<rparr>)"
  have s1: "int_handler_table s1 = int_handler_table s" "ticks s1 = ticks s + ucast ms"
    "platform_tick_addr s1 = platform_tick_addr s" "platform_uart_addr s1 = platform_uart_addr s"
    by (simp_all add: s1_def)
  have tick: "?call (platform_tick_addr s) NULL s = Some (Inr (INT_RESCHEDULE, s1))"
    using assms(7-9) by (simp add: board_call_def platform_tick_def Let_def current_time_def s1_def)
  obtain s2 where s2: "platform_uart NULL s1 = (INT_NO_RESCHEDULE, s2)" "int_handler_table s2 = int_handler_table s" "ticks s2 = ticks s1"
    by (simp add: platform_uart_def Let_def s1(1))
  have uart: "?call (platform_uart_addr s) NULL s1 = Some (Inr (INT_NO_RESCHEDULE, s2))"
    using assms(6) s1 s2(1) by (simp add: board_call_def)
  have vs: "[Suc 0..<Suc 0 + Suc 10] = [1, 2, 3, 4, 5, 6, 7, 8, 9, 10, 11]" by (simp add: upt_rec)
  have "platform_irq ?call s = run_handlers ?call [1, 2, 3, 4, 5, 6, 7, 8, 9, 10, 11] INT_NO_RESCHEDULE s"
    unfolding platform_irq_def using irq_loop_runs [of 10 "irq_status s" ?call 0 INT_NO_RESCHEDULE s] assms(1,2)
    by (simp only: vs) simp
  also have "\<dots> = Some (Inr (INT_NO_RESCHEDULE, s2))"
    using assms(3-5) tick uart s1(1) s2(2) by simp
  finally show ?thesis using s1(2) s2(3) by simp
qed

subsection \<open>Examples\<close>

lemma example_board_rings [simp]: "ring (Fifo (replicate 1024 0) 0 0) []"
  by (simp add: ring_def)

theorem puts_keeps_order_witness:
  "\<exists>s' q'. uart_puts_op (\<lambda>_ _ s. s) 512 [0x61, 10, 0] example_board = Some s' \<and> sent s' @ q' = [0x61, 10, 13] \<and>
     (q' = [] \<or> tx_room s' = 0)"
proof -
  have "\<exists>s' q'. uart_puts_op (\<lambda>_ _ s. s) 512 [0x61, 10, 0] example_board = Some s' \<and> sem_rep s' (serial_sem s') (Suc 0) [] \<and>
      ring (fifo_out s') q' \<and> sent s' @ q' = sent example_board @ [] @ with_cr (takeWhile (\<lambda>c. c \<noteq> 0) [0x61, 10, 0]) \<and>
      (q' = [] \<or> tx_room s' = 0)"
    by (rule puts_keeps_order) (use example_board_sem in simp_all)
  then show ?thesis by auto
qed

theorem typed_bytes_read_in_order_witness:
  "\<exists>s'. getchars (\<lambda>_ _ s. s) 512 2 (snd (platform_uart 0 example_board)) = Some ([0x68, 0x69], s')"
proof -
  have "\<exists>s'. getchars (\<lambda>_ _ s. s) 512 (length ([] :: u8 list) + length (rx_pending example_board)) (snd (platform_uart 0 example_board)) =
      Some ([] @ map received (rx_pending example_board), s') \<and> ring (fifo_in s') []"
    by (rule typed_bytes_read_in_order [where n = 0]) (use example_board_sem in simp_all)
  then obtain s' where s': "getchars (\<lambda>_ _ s. s) 512 (length ([] :: u8 list) + length (rx_pending example_board)) (snd (platform_uart 0 example_board)) =
      Some ([] @ map received (rx_pending example_board), s')" by blast
  have "length ([] :: u8 list) + length (rx_pending example_board) = 2" "[] @ map received (rx_pending example_board) = [0x68, 0x69]"
    by (simp_all add: received_def)
  with s' show ?thesis by metis
qed

theorem uart_interrupt_runs_tick_witness:
  "\<exists>s'. platform_irq (board_call (\<lambda>_ _ _ t. Some (Inr (INT_RESCHEDULE, t))) (\<lambda>_ _ _. None)) example_board =
     Some (Inr (INT_NO_RESCHEDULE, s')) \<and> ticks s' = 106"
  using uart_interrupt_runs_tick [of example_board 6 "[]" "[]" "\<lambda>_ _ _ t. Some (Inr (INT_RESCHEDULE, t))" "\<lambda>_ _ _. None"]
    example_offset by simp

subsection \<open>The rings stay rings\<close>

definition fifo_wf :: "fifo \<Rightarrow> bool" where
  "fifo_wf f \<longleftrightarrow> length (fifo_mem f) = UART_FIFO_SIZE \<and> fifo_wp f < UART_FIFO_SIZE \<and> fifo_rp f < UART_FIFO_SIZE"

definition rings_wf :: "'a board_scheme \<Rightarrow> bool" where
  "rings_wf s \<longleftrightarrow> fifo_wf (fifo_out s) \<and> fifo_wf (fifo_in s)"

lemma fifo_wf_ops: "fifo_wf f \<Longrightarrow> fifo_wf (fifo_put c f)" "fifo_wf f \<Longrightarrow> fifo_wf (snd (fifo_get f))"
  by (simp_all add: fifo_wf_def fifo_put_def fifo_get_def)

lemma fifo_wf_fold: "fifo_wf f \<Longrightarrow> fifo_wf (fold fifo_put cs f)"
  by (induction cs arbitrary: f) (simp_all add: fifo_wf_ops)

lemma tx_loop_wf: "fifo_wf (fifo_out s) \<Longrightarrow> fifo_wf (fifo_out (tx_loop s))"
proof (induction s rule: tx_loop.induct)
  case (1 s)
  obtain c f where f: "fifo_get (fifo_out s) = (c, f)" by fastforce
  then have "fifo_wf f" using fifo_wf_ops(2) [OF 1(2)] by simp
  then show ?case using 1(1) [OF _ _ f [symmetric]] 1(2) by (subst tx_loop.simps) (simp add: f uart_dr_def)
qed

lemma rings_wf_more:
  assumes "sync.more s' = sync.more s" "rings_wf s"
  shows "rings_wf s'"
  using assms by (cases s; cases s') (simp add: rings_wf_def)

lemma rings_wf_down:
  assumes "\<And>a b s. rings_wf s \<Longrightarrow> rings_wf (others a b s)" "rings_wf s" "down others w sem s = Some s'"
  shows "rings_wf s'"
  using down_keeps [of rings_wf others s w sem s'] rings_wf_more assms by blast

lemma rings_wf_up: "rings_wf s \<Longrightarrow> rings_wf (up sem s)"
  by (rule rings_wf_more [OF up_more])

lemma puts_early_loop_rings: "fifo_out (puts_early_loop cs s) = fifo_out s \<and> fifo_in (puts_early_loop cs s) = fifo_in s"
  by (induction cs arbitrary: s) (simp_all add: Let_def uart_dr_def wait_tx_def)

lemma puts_wf:
  assumes "\<And>a b s. rings_wf s \<Longrightarrow> rings_wf (others a b s)" "rings_wf s" "uart_puts_op others w str s = Some s1"
  shows "rings_wf s1"
proof -
  obtain u where u: "down others w (serial_sem s) s = Some u"
      "s1 = up (serial_sem u) (tx_loop (u\<lparr>fifo_out := puts_fill (takeWhile (\<lambda>c. c \<noteq> 0) str) (fifo_out u)\<rparr>))"
    using assms(3) by (auto simp: uart_puts_op_def)
  have "rings_wf u" using rings_wf_down [where others = others, OF assms(1,2) u(1)] .
  then have "rings_wf (tx_loop (u\<lparr>fifo_out := puts_fill (takeWhile (\<lambda>c. c \<noteq> 0) str) (fifo_out u)\<rparr>))"
    by (simp add: rings_wf_def tx_loop_wf puts_fill_eq fifo_wf_fold)
  then show ?thesis unfolding u(2) by (rule rings_wf_up)
qed

lemma getchar_wf:
  assumes "\<And>a b s. rings_wf s \<Longrightarrow> rings_wf (others a b s)" "rings_wf s" "uart_getchar_op others w s = Some (c, s2)"
  shows "rings_wf s2"
proof -
  obtain u where u: "down others w (serial_sem s) s = Some u" "s2 = up (serial_sem u) (u\<lparr>fifo_in := snd (fifo_get (fifo_in u))\<rparr>)"
    using assms(3) by (auto simp: uart_getchar_op_def case_prod_unfold split: if_splits)
  have "rings_wf u" using rings_wf_down [where others = others, OF assms(1,2) u(1)] .
  then have "rings_wf (u\<lparr>fifo_in := snd (fifo_get (fifo_in u))\<rparr>)" by (simp add: rings_wf_def fifo_wf_ops)
  then show ?thesis unfolding u(2) by (rule rings_wf_up)
qed

text \<open>
  C36. The rings of the serial port stay rings whatever is printed and typed, more than they hold included: the buffers keep
  their 1024 bytes and all four indices stay below 1024, so that no access leaves a buffer. Printing, reading and the interrupt
  handler keep this, with other tasks running in between that keep it too.
\<close>

theorem uart_rings_stay_in_bounds:
  assumes "\<And>a b s. rings_wf s \<Longrightarrow> rings_wf (others a b s)" "rings_wf s"
  shows "(console_puts others w str s = Some s1 \<longrightarrow> rings_wf s1) \<and> (getchar others w s = Some (c, s2) \<longrightarrow> rings_wf s2) \<and>
    rings_wf (snd (platform_uart a s)) \<and> rings_wf (putchar d s)"
proof (intro conjI impI)
  note [simp] = rings_wf_def
  show "rings_wf s1" if "console_puts others w str s = Some s1"
    using that puts_wf [where others = others and w = w and str = str, OF assms] assms(2)
    by (auto simp: console_puts_def puts_early_def puts_early_loop_rings split: if_splits)
  show "rings_wf s2" if "getchar others w s = Some (c, s2)"
    using that getchar_wf [where others = others and w = w, OF assms] assms(2)
    by (auto simp: getchar_def getchar_early_def Let_def split: list.splits if_splits)
  show "rings_wf (snd (platform_uart a s))"
    using assms(2) by (simp add: platform_uart_def Let_def tx_loop_wf rx_loop_stores fifo_wf_fold unmask_interrupt_def)
  show "rings_wf (putchar d s)" using assms(2) by (simp add: putchar_def uart_dr_def wait_tx_def)
qed

theorem uart_rings_stay_in_bounds_witness:
  "rings_wf (snd (platform_uart 0 (example_board\<lparr>rx_pending := replicate 3000 0x61\<rparr>)))"
proof -
  have "rings_wf (example_board\<lparr>rx_pending := replicate 3000 0x61\<rparr>)" by (simp add: rings_wf_def fifo_wf_def)
  then show ?thesis using uart_rings_stay_in_bounds [of "\<lambda>_ _ s. s" "example_board\<lparr>rx_pending := replicate 3000 0x61\<rparr>"] by blast
qed

end
