(* ===== verification/Startup.thy ===== *)
theory Startup
  imports Kobject
begin

section \<open>Starting the kernel: \<open>init/main.c\<close>\<close>

text \<open>
  \<open>kmain\<close> on the state of tasks, timers, semaphores, work queues and kernel objects: the timers and the set of buses are set
  up, the code that runs becomes the task \<open>init\<close>, the event
  work queue and the shell are created, and \<open>init\<close> then gives the processor away in a loop without end. Two groups of calls
  work on states that are not part of this one, in the theories of their components, and are
  arguments: \<open>early\<close> stands for \<open>arch_early_init\<close>, \<open>show_logo\<close> and \<open>platform_init\<close> (\<open>Arch\<close>, \<open>Board\<close>), \<open>fs\<close> for the
  registration of the FAT file system (\<open>Vfs\<close>). \<open>init_shell_addr\<close> is the address of the function of the shell, \<open>sem\<close> that of the
  global semaphore; the other addresses are results of \<open>kmalloc\<close> and of local variables. The result \<open>Inr\<close> of \<open>kmain\<close> is
  the state after \<open>n\<close> rounds of the idle loop, or that of its early return. The processor waits in
  \<open>arch_idle\<close> with its interrupts off, so that nothing runs there.
\<close>

definition SHELL_TASK_NAME :: "u8 list" where
  "SHELL_TASK_NAME = [115, 104, 101, 108, 108]"

definition start_tasks :: "'a kobjs_scheme switch \<Rightarrow> ptr \<Rightarrow> ptr \<Rightarrow> ptr \<Rightarrow> 'a kobjs_scheme \<Rightarrow> 'a kobjs_scheme option" where
  "start_tasks others w init stk s =
     map_option (\<lambda>(r, s1). task_create_init init stk (task_init s1)) (buses_init others w (timer_init s))"

definition start_shell :: "ptr \<Rightarrow> ptr \<Rightarrow> ptr \<Rightarrow> ptr \<Rightarrow> 'a sync_scheme \<Rightarrow> (bool \<times> 'a sync_scheme) res" where
  "start_shell new_task stk init_shell_addr sem s =
     bind_res (task_alloc (Some SHELL_TASK_NAME) 0x2000 5 new_task s) (\<lambda>(task_shell, s1).
       if NULL = task_shell then Inr (False, s1)
       else case task_create task_shell init_shell_addr 0 stk s1 of
          (rc, s2) \<Rightarrow> Inr (True, (sema_init sem 1 s2)\<lparr>ints_enabled := True\<rparr>))"

definition idle_round :: "'a kernel_scheme switch \<Rightarrow> 'a kernel_scheme \<Rightarrow> 'a kernel_scheme option" where
  "idle_round others s = map_option exit_critical_section (task_schedule others (enter_critical_section s))"

fun idle_rounds :: "nat \<Rightarrow> 'a kernel_scheme switch \<Rightarrow> 'a kernel_scheme \<Rightarrow> 'a kernel_scheme option" where
  "idle_rounds 0 others s = Some s"
| "idle_rounds (Suc n) others s = Option.bind (idle_round others s) (idle_rounds n others)"

definition kmain ::
  "('a kobjs_scheme \<Rightarrow> 'a kobjs_scheme) \<Rightarrow> ('a kobjs_scheme \<Rightarrow> 'a kobjs_scheme)
   \<Rightarrow> 'a kobjs_scheme switch \<Rightarrow> ptr \<Rightarrow> ptr \<Rightarrow> ptr \<Rightarrow> 'a kobjs_scheme wake_call \<Rightarrow> ptr \<Rightarrow> ptr \<times> ptr \<Rightarrow> ptr \<times> ptr \<times> ptr \<Rightarrow> ptr \<times> ptr
   \<Rightarrow> ptr \<Rightarrow> ptr \<Rightarrow> nat \<Rightarrow> 'a kobjs_scheme \<Rightarrow> 'a kobjs_scheme res option" where
  "kmain early fs others w wait timer call startup init_blocks wq_blocks shell_blocks init_shell_addr sem n s =
     (case (init_blocks, wq_blocks, shell_blocks) of ((init, init_stk), (wq, worker, wq_stk), (shell_task, shell_stk)) \<Rightarrow>
        Option.bind (start_tasks others w init init_stk (early s)) (\<lambda>s0.
        Option.bind (init_workqueues others w wait timer call startup worker wq_stk wq s0) (\<lambda>s1.
          case start_shell shell_task shell_stk init_shell_addr sem (fs s1) of
            Inl e \<Rightarrow> Some (Inl e)
          | Inr (running, s2) \<Rightarrow> if running then map_option Inr (idle_rounds n others s2) else Some (Inr s2))))"

subsection \<open>The invariant holds from the start\<close>

lemma sched_init_links: "sched_init s = s\<lparr>links := fold INIT_LIST_HEAD (map (all_task s) [0..<MAX_PRIORITY]) (links s)\<rparr>"
  by (simp add: sched_init_def sched_fifo_init_def sched_fifo_init_fold del: upt_rec_numeral)

lemma fold_init_frame:
  "dlist h q xs \<Longrightarrow> set qs \<inter> set (q # xs) = {} \<Longrightarrow> dlist (fold INIT_LIST_HEAD qs h) q xs"
proof (induction qs arbitrary: h)
  case (Cons a qs)
  then have "dlist (INIT_LIST_HEAD a h) q xs" by (intro INIT_LIST_HEAD_frame) auto
  then show ?case using Cons by simp
qed simp

lemma task_init_lists_inv:
  assumes "\<forall>i < MAX_PRIORITY. \<not> bit_at (task_bitmap s) i" "\<forall>i < MAX_PRIORITY. all_task s i \<noteq> timer_list s"
    and "dlist (links s) (timer_list s) []"
  shows "lists_inv (task_init s) (\<lambda>_. []) []"
proof (rule lists_invI)
  show "sched_inv (task_init s) (\<lambda>_. [])"
    unfolding task_init_def by (rule sched_init_inv) (use assms(1) in simp)
  show "dlist (links (task_init s)) (timer_list (task_init s)) []"
    unfolding task_init_def sched_init_links using assms(2,3) by (simp del: upt_rec_numeral) (rule fold_init_frame, auto)
  show "set [timer_list (task_init s)] \<inter> queue_nodes (task_init s) (\<lambda>_. []) = {}"
    using assms(2) by (auto simp: queue_nodes_def task_init_def sched_init_links all_task_def)
qed simp

lemma lists_inv_fresh_task:
  assumes "lists_inv s Q T" "t \<notin> queue_nodes s Q" "links s' = links s" "all_task_base s' = all_task_base s"
    "task_bitmap s' = task_bitmap s" "timer_list s' = timer_list s" "\<And>p. p \<noteq> t \<Longrightarrow> prio s' p = prio s p"
  shows "lists_inv s' Q T"
proof -
  have a: "all_task s' = all_task s" by (simp add: all_task_def assms(4) fun_eq_iff)
  have "p \<noteq> t" if "i < MAX_PRIORITY" "p \<in> set (Q i)" for i p using assms(2) that by (auto simp: queue_nodes_def)
  then have "sched_inv s' Q"
    using lists_invD(1) [OF assms(1)] assms(7) by (simp add: sched_inv_def assms(3,5) a)
  then show ?thesis using assms(1,3,6) queue_nodes_cong [OF assms(4)] by (simp add: lists_inv_def)
qed

lemma task_create_init_lists_inv:
  assumes "lists_inv s (\<lambda>_. []) []" "init \<noteq> NULL" "stk \<noteq> NULL" "init \<noteq> timer_list s" "\<forall>i < MAX_PRIORITY. init \<noteq> all_task s i"
  shows "lists_inv (task_create_init init stk s) ((\<lambda>_. [])(7 := [init])) []"
    "current_task (task_create_init init stk s) = init" "prio (task_create_init init stk s) init = 7"
    "state_of (task_create_init init stk s) init = CREATING"
proof -
  define s1 where "s1 = upd_task init (\<lambda>r. r\<lparr>sp := stk + STACK_DEF_SIZE, stack_size := STACK_DEF_SIZE,
                   priority := of_nat MAX_PRIORITY - 1, state := CREATING, mm_pgd := kernel_pgd s, task_name := INIT_TASK_NAME\<rparr>) s"
  define s2 where "s2 = s1\<lparr>links := INIT_LIST_HEAD init (links s1)\<rparr>"
  have c: "task_create_init init stk s = (sched_fifo_enqueue_task init s2)\<lparr>current_task := init\<rparr>"
    using assms(2,3) by (simp add: task_create_init_def s1_def s2_def Let_def)
  have p: "prio s1 init = 7" "prio s2 init = 7" "state_of s2 init = CREATING" by (simp_all add: s1_def s2_def prio_def state_of_def upd_task_def)
  have tl: "timer_list s1 = timer_list s" by (simp add: s1_def upd_task_def)
  have fresh: "init \<notin> queue_nodes s (\<lambda>_. [])" using assms(5) by (auto simp: queue_nodes_def)
  have "lists_inv s1 (\<lambda>_. []) []"
    by (rule lists_inv_fresh_task [OF assms(1) fresh]) (simp_all add: s1_def upd_task_def prio_def)
  then have "lists_inv (sched_fifo_enqueue_task init s2) ((\<lambda>_. [])(prio s1 init := [] @ [init])) []"
    using task_create_lists_inv [of s1 "\<lambda>_. []" "[]" init s2] assms(2,4,5) p
    by (simp add: queue_nodes_def s2_def tl prio_def) (simp add: s1_def all_task_def)
  then have "lists_inv (sched_fifo_enqueue_task init s2) ((\<lambda>_. [])(7 := [init])) []" using p by simp
  then show "lists_inv (task_create_init init stk s) ((\<lambda>_. [])(7 := [init])) []"
    unfolding c by (subst lists_inv_cong) (simp_all add: prio_def)
  show "current_task (task_create_init init stk s) = init" "prio (task_create_init init stk s) init = 7"
    "state_of (task_create_init init stk s) init = CREATING"
    using p unfolding c by (simp_all add: prio_def state_of_def sched_fifo_enqueue_task_def)
qed

text \<open>\<open>buses_init\<close> always returns: its set belongs to no other set, so that no lock is taken. It touches no links but those of the new set.\<close>

abbreviation kset_nodes :: "ptr \<Rightarrow> ptr set" where
  "kset_nodes k \<equiv> {kset_list k, wait_list (kset_lock k), kobj_entry (kset_kobj k)}"

lemma buses_init_result:
  assumes "fst (alloc_mem s) = k" "k \<noteq> NULL \<longrightarrow> kset_kobj k \<noteq> NULL"
  shows "\<exists>r s'. buses_init others w s = Some (r, s') \<and> bus_kset s' = k \<and> r = (if k = NULL then - 1 else 0) \<and>
    links s' = (if k = NULL then links s else INIT_LIST_HEAD (wait_list (kset_lock k))
      (INIT_LIST_HEAD (kset_list k) (INIT_LIST_HEAD (kobj_entry (kset_kobj k)) (links s)))) \<and>
    task_bitmap s' = task_bitmap s \<and> all_task_base s' = all_task_base s \<and> timer_list s' = timer_list s \<and>
    critical_section_count s' = critical_section_count s"
proof (cases "k = NULL")
  case True
  then show ?thesis using assms(1)
    by (auto simp: buses_init_def kset_create_and_add_def kset_create_def alloc_mem_def split: list.splits prod.splits)
next
  case False
  then obtain ps where "free_mem s = k # ps" using assms(1) by (auto simp: alloc_mem_def split: list.splits)
  then show ?thesis using assms(2) False
    by (simp add: buses_init_def kset_create_and_add_def kset_create_def alloc_mem_def kset_register_def kobject_add_def
        kset_init_def kobject_init_def sema_init_def Let_def)
qed

text \<open>
  What the start of the tasks relies on: the bitmap of levels is clear and the addresses are distinct, also
  those of the set that \<open>kmalloc\<close> gives to \<open>buses_init\<close>, if it gives one.
\<close>

definition start_ok :: "ptr \<Rightarrow> 'a kobjs_scheme \<Rightarrow> bool" where
  "start_ok init s \<longleftrightarrow>
     (\<forall>i < MAX_PRIORITY. \<not> bit_at (task_bitmap s) i) \<and> (\<forall>i < MAX_PRIORITY. all_task s i \<notin> {timer_list s, init}) \<and>
     init \<notin> {NULL, timer_list s} \<and>
     (let k = fst (alloc_mem s) in k \<noteq> NULL \<longrightarrow> kset_kobj k \<noteq> NULL \<and> timer_list s \<notin> kset_nodes k)"

lemma timer_init_empty: "dlist (links (timer_init s)) (timer_list s) []"
  by (simp add: timer_init_def INIT_LIST_HEAD_dlist)

lemma start_tasks_lists_inv:
  assumes "start_ok init s" "stk \<noteq> NULL"
  obtains s' where "start_tasks others w init stk s = Some s'" "lists_inv s' ((\<lambda>_. [])(7 := [init])) []"
    "current_task s' = init" "prio s' init = 7" "state_of s' init = CREATING" "bus_kset s' = fst (alloc_mem s)"
    "timer_list s' = timer_list s" "all_task_base s' = all_task_base s" "critical_section_count s' = critical_section_count s"
proof -
  define k where "k = fst (alloc_mem s)"
  have ok: "\<forall>i < MAX_PRIORITY. \<not> bit_at (task_bitmap s) i" "\<forall>i < MAX_PRIORITY. all_task s i \<notin> {timer_list s, init}"
      "init \<notin> {NULL, timer_list s}" "k \<noteq> NULL \<longrightarrow> kset_kobj k \<noteq> NULL \<and> timer_list s \<notin> kset_nodes k"
    using assms(1) by (simp_all add: start_ok_def Let_def k_def)
  have "fst (alloc_mem (timer_init s)) = k" by (simp add: k_def alloc_mem_def timer_init_def split: list.splits)
  then obtain r b where b: "buses_init others w (timer_init s) = Some (r, b)" "bus_kset b = k"
      "links b = (if k = NULL then links (timer_init s) else INIT_LIST_HEAD (wait_list (kset_lock k))
        (INIT_LIST_HEAD (kset_list k) (INIT_LIST_HEAD (kobj_entry (kset_kobj k)) (links (timer_init s)))))"
      "task_bitmap b = task_bitmap s" "all_task_base b = all_task_base s" "timer_list b = timer_list s"
      "critical_section_count b = critical_section_count s"
    using buses_init_result [of "timer_init s" k others w] ok(4) by (auto simp: timer_init_def)
  have "dlist (links b) (timer_list b) []"
    using timer_init_empty [of s] ok(4) by (auto simp: b(3,6) intro!: INIT_LIST_HEAD_frame)
  then have empty: "lists_inv (task_init b) (\<lambda>_. []) []"
    by (rule task_init_lists_inv [rotated 2]) (use ok(1,2) in \<open>auto simp: b(4-6) all_task_def\<close>)
  have t: "timer_list (task_init b) = timer_list s" "all_task (task_init b) = all_task s"
    by (simp_all add: task_init_def sched_init_links all_task_def fun_eq_iff b(5,6))
  have "init \<noteq> timer_list (task_init b)" "\<forall>i < MAX_PRIORITY. init \<noteq> all_task (task_init b) i" "init \<noteq> NULL"
    using ok(2,3) unfolding t by blast+
  note c = task_create_init_lists_inv [OF empty this(3) assms(2) this(1,2)]
  show thesis
  proof (rule that)
    show "start_tasks others w init stk s = Some (task_create_init init stk (task_init b))"
      by (simp add: start_tasks_def b(1))
  qed (use c b assms(2) ok(3) in \<open>simp_all add: k_def task_create_init_def Let_def upd_task_def sched_fifo_enqueue_task_def
    task_init_def sched_init_links\<close>)
qed

text \<open>
  C15. The start-up of the tasks returns and establishes the invariant that the other operations keep: whatever the lists
  held before, if no level is marked in the bitmap and the addresses of the structures are distinct, then after \<open>timer_init\<close>,
  \<open>buses_init\<close>, \<open>task_init\<close> and \<open>task_create_init\<close>
  the timer list is empty, every run queue is well formed and empty except the last, which
  holds the task \<open>init\<close>, \<open>init\<close> is the current task, and the set of buses is the block \<open>kmalloc\<close> returned.
\<close>

theorem start_tasks_establishes_invariant:
  assumes "start_ok init s" "stk \<noteq> NULL"
  shows "\<exists>s'. start_tasks others w init stk s = Some s' \<and> kernel_inv s' ((\<lambda>_. [])(MAX_PRIORITY - 1 := [init])) [] \<and>
    current_task s' = init \<and> state_of s' init = CREATING \<and> current_queued s' ((\<lambda>_. [])(MAX_PRIORITY - 1 := [init])) \<and>
    bus_kset s' = fst (alloc_mem s)"
  by (rule start_tasks_lists_inv [OF assms, of others w]) (simp add: kernel_inv_def sleepers_ok_def current_queued_def)

text \<open>A machine at reset: the lists hold no list yet, and \<open>kmalloc\<close> gives a block at \<open>0x7000\<close> to \<open>buses_init\<close>.\<close>

definition example_reset :: kobjs where
  "example_reset = example_kobjs\<lparr>links := \<lparr>nxt = (\<lambda>_. 0), prv = (\<lambda>_. 0)\<rparr>, task_bitmap := (\<lambda>_. 0), task_at := (\<lambda>_. zero_task),
     free_mem := [0x7000], bus_kset := 0\<rparr>"

lemma example_reset_sel:
  "timer_list example_reset = 256" "task_bitmap example_reset = (\<lambda>_. 0)" "all_task_base example_reset = 4096"
  "critical_section_count example_reset = 0" "fst (alloc_mem example_reset) = 0x7000"
  by (simp_all add: example_reset_def example_kobjs_def kset_init_def kobject_init_def sema_init_def alloc_mem_def example_works_def
      works.defs example_waits_def waits.defs example_sync_def example_timers_def kernel.defs sync.defs kobjs.defs kset_kobj_def)

lemma example_start_ok: "start_ok 8192 example_reset"
proof -
  have "\<forall>i \<in> {..<MAX_PRIORITY}. all_task example_reset i \<notin> {timer_list example_reset, 8192}"
    by (simp add: example_reset_sel all_task_def lessThan_MAX_PRIORITY)
  then have "\<forall>i < MAX_PRIORITY. all_task example_reset i \<notin> {timer_list example_reset, 8192}" by blast
  then show ?thesis
    by (simp add: start_ok_def Let_def example_reset_sel bit_at_def kset_kobj_def kset_list_def kset_lock_def wait_list_def kobj_entry_def)
qed

theorem start_tasks_establishes_invariant_witness:
  "\<exists>s'. start_tasks (\<lambda>_ _ s. s) 0x9000 8192 0x4000 example_reset = Some s' \<and> kernel_inv s' ((\<lambda>_. [])(7 := [8192])) [] \<and>
     current_task s' = 8192 \<and> bus_kset s' = 0x7000"
  using start_tasks_establishes_invariant [OF example_start_ok, of "0x4000" "\<lambda>_ _ s. s" "0x9000"]
  unfolding example_reset_sel by auto

subsection \<open>The first round of the idle loop\<close>






end
