(* ===== verification/Arch.thy ===== *)
theory Arch
  imports Heap Mmu Log_Ring Strings
begin

section \<open>The first steps of the kernel: \<open>arch/arm/arch.c\<close>, \<open>show_logo\<close> of \<open>init/main.c\<close>\<close>





definition logo_lines :: "(string \<times> vararg list) list" where
  "logo_lines =
     [([CHR 0x0A], []),
      (''__   __    _     ___  ____  '' @ [CHR 0x0A], []),
      ([CHR 0x5C] @ '' '' @ [CHR 0x5C] @ '' / /_ _| | __/ _ '' @ [CHR 0x5C] @ ''/ ___| '' @ [CHR 0x0A], []),
      ('' '' @ [CHR 0x5C] @ '' V / _'' @ [CHR 0x60] @ '' | |/ / | | '' @ [CHR 0x5C] @ ''___ '' @ [CHR 0x5C] @ '' '' @ [CHR 0x0A], []),
      (''  | | (_| |   <| |_| |___) |'' @ [CHR 0x0A], []),
      (''  |_|'' @ [CHR 0x5C] @ ''__,_|_|'' @ [CHR 0x5C] @ ''_'' @ [CHR 0x5C] @ [CHR 0x5C] @ ''___/|____/ '' @ [CHR 0x0A], []),
      ([CHR 0x0A], [])]"

definition show_logo :: "'a plog_scheme \<Rightarrow> 'a plog_scheme res" where
  "show_logo s = print_all logo_lines s"

subsection \<open>The messages\<close>


lemma show_logo_prints:
  assumes "log_rep s ms" and "unat (log_next_seq s) + 7 < 2 ^ 64"
  shows "\<exists>s' ms'. show_logo s = Inr s' \<and> log_rep s' ms'"
proof -
  have "length logo_lines = 7" "list_all (\<lambda>l. plain_text (fst l)) logo_lines" by code_simp+
  with print_all_plain [OF assms(1), of logo_lines] show ?thesis using assms(2) by (auto simp: show_logo_def)
qed

subsection \<open>The vectors\<close>







subsection \<open>The first megabyte of heap\<close>








end
