(* ===== verification/Faults.thy ===== *)
theory Faults
  imports Printk
begin

section \<open>Fault reports: \<open>arch/arm/faults.c\<close>, \<open>_assert\<close> of \<open>kernel/debug.c\<close>\<close>

text \<open>
  The handlers of the exceptions the kernel does not expect print the frame that the exception entry saved and the bottom
  of the stack of the interrupted mode, and stop the machine. \<open>regs\<close> is what \<open>arm_save_mode_regs\<close> reads from the
  banked registers, \<open>m\<close> the memory. A handler never returns to its caller; its result here is the state in
  which it calls \<open>halt\<close>.
\<close>

record arm_fault_frame =
  ff_spsr :: u32
  ff_usp :: u32
  ff_ulr :: u32
  ff_r :: "u32 list"
  ff_pc :: u32

record arm_mode_regs =
  fiq_r13 :: u32
  fiq_r14 :: u32
  irq_r13 :: u32
  irq_r14 :: u32
  svc_r13 :: u32
  svc_r14 :: u32
  abt_r13 :: u32
  abt_r14 :: u32
  und_r13 :: u32
  und_r14 :: u32
  sys_r13 :: u32
  sys_r14 :: u32

abbreviation (input) MODE_MASK :: u32 where "MODE_MASK \<equiv> 0x1f"
abbreviation (input) MODE_FIQ :: u32 where "MODE_FIQ \<equiv> 0x11"
abbreviation (input) MODE_IRQ :: u32 where "MODE_IRQ \<equiv> 0x12"
abbreviation (input) MODE_SVC :: u32 where "MODE_SVC \<equiv> 0x13"
abbreviation (input) MODE_UND :: u32 where "MODE_UND \<equiv> 0x1b"
abbreviation (input) MODE_SYS :: u32 where "MODE_SYS \<equiv> 0x1f"

text \<open>The arguments of the calls of \<open>printk\<close>, in order.\<close>

definition frame_lines :: "arm_fault_frame \<Rightarrow> (string \<times> vararg list) list" where
  "frame_lines frame =
     (let r = (\<lambda>i. Arg_Word (ff_r frame ! i)) in
      [(''r0  0x%08x r1  0x%08x r2  0x%08x r3  0x%08x'' @ [CHR 0x0A], [r 0, r 1, r 2, r 3]),
       (''r4  0x%08x r5  0x%08x r6  0x%08x r7  0x%08x'' @ [CHR 0x0A], [r 4, r 5, r 6, r 7]),
       (''r8  0x%08x r9  0x%08x r10 0x%08x r11 0x%08x'' @ [CHR 0x0A], [r 8, r 9, r 10, r 11]),
       (''r12 0x%08x usp 0x%08x ulr 0x%08x pc  0x%08x'' @ [CHR 0x0A],
        [r 12, Arg_Word (ff_usp frame), Arg_Word (ff_ulr frame), Arg_Word (ff_pc frame)]),
       (''spsr 0x%08x'' @ [CHR 0x0A], [Arg_Word (ff_spsr frame)])])"

definition mode_line :: "arm_fault_frame \<Rightarrow> u32 \<Rightarrow> string \<Rightarrow> u32 \<Rightarrow> u32 \<Rightarrow> string \<times> vararg list" where
  "mode_line frame mode nm r13 r14 =
     (''%c%s r13 0x%08x r14 0x%08x'' @ [CHR 0x0A],
      [Arg_Word (if ff_spsr frame AND MODE_MASK = mode then 42 else 32), Arg_String (Some (txt_of nm)), Arg_Word r13, Arg_Word r14])"

definition mode_lines :: "arm_fault_frame \<Rightarrow> arm_mode_regs \<Rightarrow> (string \<times> vararg list) list" where
  "mode_lines frame regs =
     [mode_line frame MODE_FIQ ''fiq'' (fiq_r13 regs) (fiq_r14 regs),
      mode_line frame MODE_IRQ ''irq'' (irq_r13 regs) (irq_r14 regs),
      mode_line frame MODE_SVC ''svc'' (svc_r13 regs) (svc_r14 regs),
      mode_line frame MODE_UND ''und'' (und_r13 regs) (und_r14 regs),
      mode_line frame MODE_SYS ''sys'' (sys_r13 regs) (sys_r14 regs)]"

definition fault_stack :: "arm_fault_frame \<Rightarrow> arm_mode_regs \<Rightarrow> ptr" where
  "fault_stack frame regs =
     (let mode = ff_spsr frame AND MODE_MASK in
      if mode = MODE_FIQ then fiq_r13 regs
      else if mode = MODE_IRQ then irq_r13 regs
      else if mode = MODE_SVC then svc_r13 regs
      else if mode = MODE_UND then und_r13 regs
      else if mode = MODE_SYS then sys_r13 regs
      else 0)"

definition dump_fault_frame ::
  "memory \<Rightarrow> arm_mode_regs \<Rightarrow> arm_fault_frame \<Rightarrow> 'a plog_scheme \<Rightarrow> 'a plog_scheme res option" where
  "dump_fault_frame m regs frame s =
     (case print_all (frame_lines frame @ mode_lines frame regs) s of
        Inl e \<Rightarrow> Some (Inl e)
      | Inr s1 \<Rightarrow>
          let stk = fault_stack frame regs in
          if stk \<noteq> 0 then
            case print (''bottom of stack at 0x%08x:'' @ [CHR 0x0A]) [Arg_Word stk] s1 of
              Inl e \<Rightarrow> Some (Inl e)
            | Inr s2 \<Rightarrow> hexdump m stk 128 s2
          else Some (Inr s1))"

definition exception_die ::
  "memory \<Rightarrow> arm_mode_regs \<Rightarrow> u32 \<Rightarrow> string \<Rightarrow> arm_fault_frame \<Rightarrow> 'a plog_scheme \<Rightarrow> 'a plog_scheme res option" where
  "exception_die m regs pc_off msg frame s =
     (let frame1 = frame\<lparr>ff_pc := ff_pc frame + pc_off\<rparr> in
      case print msg [] s of
        Inl e \<Rightarrow> Some (Inl e)
      | Inr s1 \<Rightarrow> dump_fault_frame m regs frame1 s1)"

definition arm_syscall_handler :: "memory \<Rightarrow> arm_mode_regs \<Rightarrow> arm_fault_frame \<Rightarrow> 'a plog_scheme \<Rightarrow> 'a plog_scheme res option" where
  "arm_syscall_handler m regs frame s = exception_die m regs (- 4) (''Unhandled syscall'' @ [CHR 0x0A]) frame s"

definition arm_undefined_handler :: "memory \<Rightarrow> arm_mode_regs \<Rightarrow> arm_fault_frame \<Rightarrow> 'a plog_scheme \<Rightarrow> 'a plog_scheme res option" where
  "arm_undefined_handler m regs frame s = exception_die m regs (- 4) (''Undefined abort!'' @ [CHR 0x0A]) frame s"

definition arm_data_abort_handler :: "memory \<Rightarrow> arm_mode_regs \<Rightarrow> arm_fault_frame \<Rightarrow> 'a plog_scheme \<Rightarrow> 'a plog_scheme res option" where
  "arm_data_abort_handler m regs frame s = exception_die m regs (- 8) (''Data abort!'' @ [CHR 0x0A]) frame s"

definition arm_prefetch_abort_handler :: "memory \<Rightarrow> arm_mode_regs \<Rightarrow> arm_fault_frame \<Rightarrow> 'a plog_scheme \<Rightarrow> 'a plog_scheme res option" where
  "arm_prefetch_abort_handler m regs frame s = exception_die m regs (- 4) (''Prefetch abort!'' @ [CHR 0x0A]) frame s"

text \<open>\<open>_assert\<close>, up to its call of \<open>halt\<close>; the quotes in the message are the character 39.\<close>

definition assert_fail :: "u8 list \<Rightarrow> u8 list \<Rightarrow> u32 \<Rightarrow> u8 list \<Rightarrow> 'a plog_scheme \<Rightarrow> 'a plog_scheme res" where
  "assert_fail assertion file1 line function1 s =
     print (''YakOS failed assertion '' @ [CHR 0x27] @ ''%s'' @ [CHR 0x27] @ '' at %s:%u in function %s'' @ [CHR 0x0A])
       [Arg_String (Some assertion), Arg_String (Some file1), Arg_Word line, Arg_String (Some function1)] s"

subsection \<open>Dumps end\<close>

text \<open>The counter of a dump advances by 16 and must not wrap: a length up to \<open>2 ^ 32 - 16\<close> is safe.\<close>

lemma dump_lines_ends:
  assumes "unat (len :: u32) \<le> 2 ^ 32 - 16"
  shows "\<exists>r. dump_lines line count len address s = Some r"
proof (induction "unat len - unat count" arbitrary: count address s rule: less_induct)
  case less
  show ?case
  proof (cases "count < len")
    case True
    then have "unat (count + 16) = unat count + 16"
      using assms by (intro unat_add_no_wrap [of count 16, simplified]) (simp add: word_less_nat_alt)
    then have "unat len - unat (count + 16) < unat len - unat count" using True by (simp add: word_less_nat_alt)
    then show ?thesis
      using less.hyps by (subst dump_lines.simps) (auto split: sum.splits)
  next
    case False
    then show ?thesis by (subst dump_lines.simps) simp
  qed
qed

text \<open>
  The handlers of unexpected exceptions reach \<open>halt\<close>: the report of every frame ends, and so does a dump of memory of any
  length up to \<open>2 ^ 32 - 16\<close> bytes.
\<close>

theorem fault_reports_end:
  "(\<exists>r. exception_die m regs pc_off msg frame s = Some r) \<and>
   (unat len \<le> 2 ^ 32 - 16 \<longrightarrow> (\<exists>r. hexdump m p len s = Some r) \<and> (\<exists>r. hexdump8 m p len s = Some r))"
  using dump_lines_ends [of 128] dump_lines_ends [of len]
  by (auto simp: exception_die_def dump_fault_frame_def hexdump_def hexdump8_def Let_def split: sum.splits)

theorem fault_reports_end_witness:
  "\<exists>r. hexdump (\<lambda>_. 0) 0x8000 0xfffffff0 example_log = Some r"
  using fault_reports_end [where len = "0xfffffff0" and p = "0x8000" and m = "\<lambda>_. 0" and s = example_log] by simp

end
